(* ===== verification/Prelude.thy ===== *)
theory Prelude
  imports Main "HOL-Library.Word"
begin

text \<open>
  What every theory of the development shares: the outcome type of a Rust call, the error kinds
  of \<open>std::io\<close> the crate names, bytes, checked index arithmetic, and the generic
  list lemmas (prefix sums of chunk lengths, indexing into a concatenation) the components use.
\<close>

section \<open>Outcomes\<close>

text \<open>
  \<open>Ok\<close> and \<open>Err\<close> are the two constructors of Rust's \<open>Result\<close>;
  \<open>Panic\<close> is a call that unwinds instead of returning.
\<close>

datatype (ok_val: 'a, err_val: 'e) result = Ok (the_ok: 'a) | Err (the_err: 'e) | Panic

fun res_bind :: "('a, 'e) result \<Rightarrow> ('a \<Rightarrow> ('b, 'e) result) \<Rightarrow> ('b, 'e) result" where
  "res_bind (Ok x) f = f x"
| "res_bind (Err e) f = Err e"
| "res_bind Panic f = Panic"

fun map_ok :: "('a \<Rightarrow> 'b) \<Rightarrow> ('a, 'e) result \<Rightarrow> ('b, 'e) result" where
  "map_ok f (Ok x) = Ok (f x)"
| "map_ok f (Err e) = Err e"
| "map_ok f Panic = Panic"

fun map_err :: "('e \<Rightarrow> 'f) \<Rightarrow> ('a, 'e) result \<Rightarrow> ('a, 'f) result" where
  "map_err f (Ok x) = Ok x"
| "map_err f (Err e) = Err (f e)"
| "map_err f Panic = Panic"

fun is_ok :: "('a, 'e) result \<Rightarrow> bool" where
  "is_ok (Ok x) = True"
| "is_ok (Err e) = False"
| "is_ok Panic = False"

text \<open>\<open>Option::ok_or\<close> and \<open>Result::unwrap\<close>.\<close>

definition ok_or :: "'e \<Rightarrow> 'a option \<Rightarrow> ('a, 'e) result" where
  "ok_or e x = (case x of None \<Rightarrow> Err e | Some v \<Rightarrow> Ok v)"

definition unwrap_opt :: "'a option \<Rightarrow> ('a, 'e) result" where
  "unwrap_opt x = (case x of None \<Rightarrow> Panic | Some v \<Rightarrow> Ok v)"

lemma res_bind_eq_Ok [simp]:
  "res_bind r f = Ok y \<longleftrightarrow> (\<exists>x. r = Ok x \<and> f x = Ok y)"
  by (cases r) auto

lemma map_ok_eq_Ok [simp]: "map_ok f r = Ok y \<longleftrightarrow> (\<exists>x. r = Ok x \<and> y = f x)"
  by (cases r) auto

lemma map_err_eq_Ok [simp]: "map_err f r = Ok y \<longleftrightarrow> r = Ok y"
  by (cases r) auto

lemma map_err_eq_Panic [simp]: "map_err f r = Panic \<longleftrightarrow> r = Panic"
  by (cases r) auto

lemma map_err_eq_Err [simp]: "map_err f r = Err y \<longleftrightarrow> (\<exists>x. r = Err x \<and> y = f x)"
  by (cases r) auto

lemma map_ok_eq_Panic [simp]: "map_ok f r = Panic \<longleftrightarrow> r = Panic"
  by (cases r) auto

lemma map_ok_eq_Err [simp]: "map_ok f r = Err y \<longleftrightarrow> r = Err y"
  by (cases r) auto

lemma is_ok_iff: "is_ok r \<longleftrightarrow> (\<exists>x. r = Ok x)"
  by (cases r) auto

section \<open>Bytes, paths and I/O error kinds\<close>

type_synonym byte = "8 word"
type_synonym bytes = "byte list"

text \<open>The variants of \<open>std::io::ErrorKind\<close> the crate produces or tests for.\<close>

datatype io_error =
    NotFound | AlreadyExists | PermissionDenied | IsADirectory | DirectoryNotEmpty
  | CrossesDevices | WouldBlock | Interrupted | OutOfMemory | OtherError

text \<open>
  A \<open>PathBuf\<close> is the list of its components, outermost first. \<open>file_name\<close> is the
  last component, and \<open>None\<close> for the root and for a path that ends in \<open>..\<close>.
\<close>

type_synonym path = "string list"

definition file_name :: "path \<Rightarrow> string option" where
  "file_name p = (if p = [] \<or> last p = ''..'' then None else Some (last p))"

definition join :: "path \<Rightarrow> string \<Rightarrow> path" where
  "join p n = p @ [n]"

definition parent :: "path \<Rightarrow> path" where
  "parent p = butlast p"

lemma parent_join [simp]: "parent (join p n) = p"
  by (simp add: parent_def join_def)

lemma join_inject [simp]: "join p n = join q m \<longleftrightarrow> p = q \<and> n = m"
  by (auto simp: join_def)

lemma join_ne_root [simp]: "join p n \<noteq> p" "p \<noteq> join p n"
  by (auto simp: join_def)

lemma file_name_join [simp]: "n \<noteq> ''..'' \<Longrightarrow> file_name (join p n) = Some n"
  by (simp add: file_name_def join_def)

section \<open>Index arithmetic\<close>

text \<open>
  A \<open>usize\<close> is a \<open>nat\<close>. Subtraction below zero panics, as it does in every build
  with overflow checks (the debug and test profiles), and so does an index out of range.
\<close>

definition usub :: "nat \<Rightarrow> nat \<Rightarrow> (nat, 'e) result" where
  "usub a b = (if b \<le> a then Ok (a - b) else Panic)"

definition index :: "'a list \<Rightarrow> nat \<Rightarrow> ('a, 'e) result" where
  "index xs i = (if i < length xs then Ok (xs ! i) else Panic)"

definition nth_opt :: "'a list \<Rightarrow> nat \<Rightarrow> 'a option" where
  "nth_opt xs i = (if i < length xs then Some (xs ! i) else None)"

definition last_or :: "'a \<Rightarrow> 'a list \<Rightarrow> 'a" where
  "last_or d xs = (if xs = [] then d else last xs)"

lemma usub_le [simp]: "b \<le> a \<Longrightarrow> usub a b = Ok (a - b)"
  by (simp add: usub_def)

lemma index_lt [simp]: "i < length xs \<Longrightarrow> index xs i = Ok (xs ! i)"
  by (simp add: index_def)

lemma nth_opt_lt [simp]: "i < length xs \<Longrightarrow> nth_opt xs i = Some (xs ! i)"
  by (simp add: nth_opt_def)

lemma nth_opt_ge [simp]: "length xs \<le> i \<Longrightarrow> nth_opt xs i = None"
  by (simp add: nth_opt_def)

lemma nth_opt_eq_Some: "nth_opt xs i = Some x \<longleftrightarrow> i < length xs \<and> xs ! i = x"
  by (auto simp: nth_opt_def)

lemma last_or_Nil [simp]: "last_or d [] = d"
  by (simp add: last_or_def)

lemma last_or_snoc [simp]: "last_or d (xs @ [x]) = x"
  by (simp add: last_or_def)

lemma last_or_Cons [simp]: "last_or d (x # xs) = last_or x xs"
  by (simp add: last_or_def)

section \<open>Prefix sums of chunk lengths\<close>

text \<open>
  \<open>starts_from a ls\<close> and \<open>ends_from a ls\<close> are the starts and ends of consecutive ranges
  of the lengths \<open>ls\<close>, the first one starting at \<open>a\<close>.
\<close>

fun starts_from :: "nat \<Rightarrow> nat list \<Rightarrow> nat list" where
  "starts_from a [] = []"
| "starts_from a (l # ls) = a # starts_from (a + l) ls"

fun ends_from :: "nat \<Rightarrow> nat list \<Rightarrow> nat list" where
  "ends_from a [] = []"
| "ends_from a (l # ls) = (a + l) # ends_from (a + l) ls"

named_theorems range_simps \<open>facts about prefix sums of chunk lengths\<close>

lemma length_starts_from [simp, range_simps]: "length (starts_from a ls) = length ls"
  by (induction ls arbitrary: a) auto

lemma length_ends_from [simp, range_simps]: "length (ends_from a ls) = length ls"
  by (induction ls arbitrary: a) auto

lemma nth_starts_from [range_simps]:
  "i < length ls \<Longrightarrow> starts_from a ls ! i = a + sum_list (take i ls)"
  by (induction ls arbitrary: a i) (auto simp: nth_Cons take_Cons split: nat.splits)

lemma nth_ends_from [range_simps]:
  "i < length ls \<Longrightarrow> ends_from a ls ! i = a + sum_list (take (Suc i) ls)"
  by (induction ls arbitrary: a i) (auto simp: nth_Cons take_Cons split: nat.splits)

lemma starts_from_append [range_simps]:
  "starts_from a (ls @ ms) = starts_from a ls @ starts_from (a + sum_list ls) ms"
  by (induction ls arbitrary: a) (auto simp: add.assoc)

lemma ends_from_append [range_simps]:
  "ends_from a (ls @ ms) = ends_from a ls @ ends_from (a + sum_list ls) ms"
  by (induction ls arbitrary: a) (auto simp: add.assoc)

lemma ends_from_eq_Nil [simp]: "ends_from a ls = [] \<longleftrightarrow> ls = []"
  by (cases ls) auto

lemma last_ends_from [range_simps]: "last_or a (ends_from a ls) = a + sum_list ls"
  by (induction ls arbitrary: a) (auto simp: last_or_def add.assoc)

lemma ends_from_ge: "x \<in> set (ends_from a ls) \<Longrightarrow> a \<le> x"
  by (induction ls arbitrary: a) (auto, fastforce)

lemma sorted_ends_from [simp]: "sorted (ends_from a ls)"
  by (induction ls arbitrary: a) (auto dest: ends_from_ge)

lemma starts_from_shift: "map (\<lambda>x. x + b) (starts_from a ls) = starts_from (a + b) ls"
  by (induction ls arbitrary: a) (auto simp: add.assoc add.commute add.left_commute)

lemma ends_from_shift: "map (\<lambda>x. x + b) (ends_from a ls) = ends_from (a + b) ls"
  by (induction ls arbitrary: a) (auto simp: add.assoc add.commute add.left_commute)

lemma starts_from_unshift: "map (\<lambda>x. x - b) (starts_from (a + b) ls) = starts_from a ls"
  by (simp add: starts_from_shift [symmetric] o_def)

lemma ends_from_unshift: "map (\<lambda>x. x - b) (ends_from (a + b) ls) = ends_from a ls"
  by (simp add: ends_from_shift [symmetric] o_def)

lemma widths_from [range_simps]:
  "map2 (\<lambda>e s. e - s) (ends_from a ls) (starts_from a ls) = ls"
  by (induction ls arbitrary: a) auto

lemma sum_list_take_mono: "i \<le> j \<Longrightarrow> sum_list (take i ls) \<le> (sum_list (take j ls) :: nat)"
proof -
  assume "i \<le> j"
  then have "take j ls = take i ls @ take (j - i) (drop i ls)"
    by (metis le_add_diff_inverse take_add)
  then show ?thesis by simp
qed

lemma sum_list_take_Suc: "i < length ls \<Longrightarrow> sum_list (take (Suc i) ls) = sum_list (take i ls) + ls ! i"
  by (simp add: take_Suc_conv_app_nth)

section \<open>Indexing into a concatenation\<close>

lemma length_concat_take:
  "length (concat (take i xss)) = sum_list (take i (map length xss))"
  by (simp add: length_concat take_map)

lemma nth_concat_chunk:
  assumes "i < length xss" and "j < length (xss ! i)"
  shows "concat xss ! (sum_list (take i (map length xss)) + j) = xss ! i ! j"
proof -
  have "concat xss = concat (take i xss) @ xss ! i @ concat (drop (Suc i) xss)"
    using assms(1) by (metis concat.simps(2) concat_append id_take_nth_drop)
  then show ?thesis
    using assms(2) by (simp add: nth_append length_concat_take [symmetric])
qed

lemma length_concat_map: "length (concat xss) = sum_list (map length xss)"
  by (simp add: length_concat)

text \<open>Every position of the concatenation lies in exactly one chunk.\<close>

lemma chunk_of_position:
  fixes ls :: "nat list"
  assumes "k < sum_list ls"
  obtains i where "i < length ls" and "sum_list (take i ls) \<le> k" and "k < sum_list (take (Suc i) ls)"
  using assms
proof (induction ls arbitrary: k thesis)
  case Nil
  then show ?case by simp
next
  case (Cons l ls)
  show ?case
  proof (cases "k < l")
    case True
    then show ?thesis by (intro Cons.prems(1) [of 0]) auto
  next
    case False
    with Cons.prems(2) have "k - l < sum_list ls" by simp
    then obtain i where "i < length ls" "sum_list (take i ls) \<le> k - l"
      "k - l < sum_list (take (Suc i) ls)"
      using Cons.IH by blast
    with False show ?thesis by (intro Cons.prems(1) [of "Suc i"]) auto
  qed
qed

end
