(* ===== verification/File_System.thy ===== *)
theory File_System
  imports Prelude
begin

text \<open>
  What the crate uses of \<open>std::fs\<close> and \<open>std::io\<close>: a store of files shared by every disk
  of a program (two disks with the same path see each other's writes), the operations on paths,
  and the file and \<open>BufWriter\<close> write handles. Failures are part of the state: an operation on
  a \<open>faulty\<close> path is refused, writing bytes to a \<open>full\<close> path fails after the open
  succeeded, and a rename between devices fails.
\<close>

section \<open>The store\<close>

record fs =
  files :: "path \<Rightarrow> bytes option"
  dirs :: "path \<Rightarrow> bool"
  faulty :: "path \<Rightarrow> bool"
  full :: "path \<Rightarrow> bool"
  device :: "path \<Rightarrow> nat"

text \<open>A store with the root directory and nothing else.\<close>

definition empty_fs :: fs where
  "empty_fs = \<lparr>files = (\<lambda>_. None), dirs = (\<lambda>p. p = []), faulty = (\<lambda>_. False),
     full = (\<lambda>_. False), device = (\<lambda>_. 0)\<rparr>"

definition set_file :: "path \<Rightarrow> bytes option \<Rightarrow> fs \<Rightarrow> fs" where
  "set_file p c s = s\<lparr>files := (files s)(p := c)\<rparr>"

lemma set_file_simps [simp]:
  "files (set_file p c s) q = (if q = p then c else files s q)"
  "dirs (set_file p c s) = dirs s"
  "faulty (set_file p c s) = faulty s"
  "full (set_file p c s) = full s"
  "device (set_file p c s) = device s"
  by (simp_all add: set_file_def)

lemma set_file_twice [simp]: "set_file p c (set_file p d s) = set_file p c s"
  by (simp add: set_file_def)

lemma set_file_same: "files s p = c \<Longrightarrow> set_file p c s = s"
  by (simp add: set_file_def fun_upd_idem)

text \<open>\<open>File::open\<close> followed by reading to the end.\<close>

definition fs_read :: "path \<Rightarrow> fs \<Rightarrow> (bytes, io_error) result" where
  "fs_read p s =
     (if faulty s p then Err PermissionDenied
      else case files s p of
        Some c \<Rightarrow> Ok c
      | None \<Rightarrow> Err (if dirs s p then IsADirectory else NotFound))"

text \<open>\<open>File::options().write(true).create(true).truncate(true).open(path)\<close>.\<close>

definition fs_open_truncate :: "path \<Rightarrow> fs \<Rightarrow> (unit, io_error) result \<times> fs" where
  "fs_open_truncate p s =
     (if faulty s p then (Err PermissionDenied, s)
      else if dirs s p then (Err IsADirectory, s)
      else if \<not> dirs s (parent p) then (Err NotFound, s)
      else (Ok (), set_file p (Some []) s))"

definition fs_remove_file :: "path \<Rightarrow> fs \<Rightarrow> (unit, io_error) result \<times> fs" where
  "fs_remove_file p s =
     (if faulty s p then (Err PermissionDenied, s)
      else case files s p of
        None \<Rightarrow> (Err (if dirs s p then IsADirectory else NotFound), s)
      | Some _ \<Rightarrow> (Ok (), set_file p None s))"

text \<open>
  \<open>std::fs::copy\<close> opens the source, truncates the target and only then reads: of a file to itself
  nothing is left.
\<close>

definition fs_copy :: "path \<Rightarrow> path \<Rightarrow> fs \<Rightarrow> (unit, io_error) result \<times> fs" where
  "fs_copy p q s =
     (case fs_read p s of
        Ok _ \<Rightarrow>
          (case fs_open_truncate q s of
             (Ok _, s') \<Rightarrow>
               (case files s' p of
                  None \<Rightarrow> (Ok (), s')
                | Some c \<Rightarrow>
                    if full s q \<and> c \<noteq> [] then (Err OtherError, s') else (Ok (), set_file q (Some c) s'))
           | (Err e, s') \<Rightarrow> (Err e, s')
           | (Panic, s') \<Rightarrow> (Panic, s'))
      | Err e \<Rightarrow> (Err e, s)
      | Panic \<Rightarrow> (Panic, s))"

text \<open>
  \<open>std::fs::rename\<close>: of a file (replacing an existing file), or of a directory, which takes
  everything below it along. \<open>prefix_to\<close> is the path below the new name that stands for a
  path below the old one.
\<close>

definition below :: "path \<Rightarrow> path \<Rightarrow> bool" where
  "below p q \<longleftrightarrow> take (length p) q = p"

definition fs_rename_file :: "path \<Rightarrow> path \<Rightarrow> fs \<Rightarrow> (unit, io_error) result \<times> fs" where
  "fs_rename_file p q s =
     (if faulty s p \<or> faulty s q then (Err PermissionDenied, s)
      else case files s p of
        None \<Rightarrow> (Err NotFound, s)
      | Some c \<Rightarrow>
          if dirs s q then (Err IsADirectory, s)
          else if \<not> dirs s (parent q) then (Err NotFound, s)
          else if device s p \<noteq> device s q then (Err CrossesDevices, s)
          else (Ok (), set_file q (Some c) (set_file p None s)))"

definition move_below :: "path \<Rightarrow> path \<Rightarrow> (path \<Rightarrow> 'a) \<Rightarrow> 'a \<Rightarrow> path \<Rightarrow> 'a" where
  "move_below p q f gone r =
     (if below q r then f (p @ drop (length q) r)
      else if below p r then gone
      else f r)"

definition fs_rename_dir :: "path \<Rightarrow> path \<Rightarrow> fs \<Rightarrow> (unit, io_error) result \<times> fs" where
  "fs_rename_dir p q s =
     (if faulty s p \<or> faulty s q then (Err PermissionDenied, s)
      else if \<not> dirs s p then (Err NotFound, s)
      else if p = q then (Ok (), s)
      else if files s q \<noteq> None \<or> dirs s q \<or> below p q then (Err AlreadyExists, s)
      else if \<not> dirs s (parent q) then (Err NotFound, s)
      else if device s p \<noteq> device s q then (Err CrossesDevices, s)
      else (Ok (), s\<lparr>files := move_below p q (files s) None, dirs := move_below p q (dirs s) False\<rparr>))"

definition fs_rename :: "path \<Rightarrow> path \<Rightarrow> fs \<Rightarrow> (unit, io_error) result \<times> fs" where
  "fs_rename p q s = (if dirs s p then fs_rename_dir p q s else fs_rename_file p q s)"

text \<open>
  \<open>create_dir_all\<close> creates every missing prefix of the path, and is \<open>Ok\<close> when the
  directory exists; \<open>remove_dir\<close> removes a directory that holds nothing.
\<close>

fun fs_create_dir_all_from :: "path \<Rightarrow> path \<Rightarrow> fs \<Rightarrow> (unit, io_error) result \<times> fs" where
  "fs_create_dir_all_from done [] s = (Ok (), s)"
| "fs_create_dir_all_from done (n # ns) s =
     (let p = join done n in
      if dirs s p then fs_create_dir_all_from p ns s
      else if faulty s p then (Err PermissionDenied, s)
      else if files s p \<noteq> None then (Err AlreadyExists, s)
      else fs_create_dir_all_from p ns (s\<lparr>dirs := (dirs s)(p := True)\<rparr>))"

definition fs_create_dir_all :: "path \<Rightarrow> fs \<Rightarrow> (unit, io_error) result \<times> fs" where
  "fs_create_dir_all p s = fs_create_dir_all_from [] p s"

definition dir_empty :: "path \<Rightarrow> fs \<Rightarrow> bool" where
  "dir_empty p s \<longleftrightarrow> (\<forall>n. files s (join p n) = None \<and> \<not> dirs s (join p n))"

definition fs_remove_dir :: "path \<Rightarrow> fs \<Rightarrow> (unit, io_error) result \<times> fs" where
  "fs_remove_dir p s =
     (if faulty s p then (Err PermissionDenied, s)
      else if \<not> dirs s p then (Err NotFound, s)
      else if \<not> dir_empty p s then (Err OtherError, s)
      else (Ok (), s\<lparr>dirs := (dirs s)(p := False)\<rparr>))"

section \<open>Write handles\<close>

text \<open>An open \<open>File\<close> is its path and its position; writing overwrites from the position on.\<close>

record file_handle =
  fh_path :: path
  fh_pos :: nat

definition overwrite :: "bytes \<Rightarrow> nat \<Rightarrow> bytes \<Rightarrow> bytes" where
  "overwrite c pos d = take pos c @ replicate (pos - length c) 0 @ d @ drop (pos + length d) c"

lemma overwrite_end [simp]: "overwrite c (length c) d = c @ d"
  by (simp add: overwrite_def)

lemma length_overwrite: "length (overwrite c pos d) = max (length c) (pos + length d)"
  by (simp add: overwrite_def)

definition file_write_all ::
  "file_handle \<Rightarrow> bytes \<Rightarrow> fs \<Rightarrow> (unit, io_error) result \<times> file_handle \<times> fs" where
  "file_write_all h d s =
     (if d = [] then (Ok (), h, s)
      else if full s (fh_path h) then (Err OtherError, h, s)
      else case files s (fh_path h) of
        None \<Rightarrow> (Ok (), h\<lparr>fh_pos := fh_pos h + length d\<rparr>, s)
      | Some c \<Rightarrow>
          (Ok (), h\<lparr>fh_pos := fh_pos h + length d\<rparr>,
           set_file (fh_path h) (Some (overwrite c (fh_pos h) d)) s))"

text \<open>
  \<open>BufWriter\<close> with its default capacity of 8 KiB: small writes are collected, a write that
  does not fit empties the buffer first, a write of the capacity or more goes straight through.
\<close>

record buf_writer =
  bw_inner :: file_handle
  bw_buf :: bytes

definition buf_capacity :: nat where
  "buf_capacity = 8 * 1024"

definition buf_flush :: "buf_writer \<Rightarrow> fs \<Rightarrow> (unit, io_error) result \<times> buf_writer \<times> fs" where
  "buf_flush b s =
     (case file_write_all (bw_inner b) (bw_buf b) s of
        (Ok _, h, s') \<Rightarrow> (Ok (), b\<lparr>bw_inner := h, bw_buf := []\<rparr>, s')
      | (Err e, h, s') \<Rightarrow> (Err e, b\<lparr>bw_inner := h\<rparr>, s')
      | (Panic, h, s') \<Rightarrow> (Panic, b\<lparr>bw_inner := h\<rparr>, s'))"

definition buf_push :: "buf_writer \<Rightarrow> bytes \<Rightarrow> fs \<Rightarrow> (unit, io_error) result \<times> buf_writer \<times> fs" where
  "buf_push b d s =
     (if buf_capacity \<le> length d then
        (case file_write_all (bw_inner b) d s of (r, h, s') \<Rightarrow> (r, b\<lparr>bw_inner := h\<rparr>, s'))
      else (Ok (), b\<lparr>bw_buf := bw_buf b @ d\<rparr>, s))"

definition buf_write_all :: "buf_writer \<Rightarrow> bytes \<Rightarrow> fs \<Rightarrow> (unit, io_error) result \<times> buf_writer \<times> fs" where
  "buf_write_all b d s =
     (let spare = buf_capacity - length (bw_buf b) in
      if length d < spare then (Ok (), b\<lparr>bw_buf := bw_buf b @ d\<rparr>, s)
      else if spare < length d then
        (case buf_flush b s of
           (Ok _, b', s') \<Rightarrow> buf_push b' d s'
         | (Err e, b', s') \<Rightarrow> (Err e, b', s')
         | (Panic, b', s') \<Rightarrow> (Panic, b', s'))
      else buf_push b d s)"

text \<open>Dropping a \<open>BufWriter\<close> writes the buffer out and ignores an error.\<close>

definition buf_drop :: "buf_writer \<Rightarrow> fs \<Rightarrow> fs" where
  "buf_drop b s = (case buf_flush b s of (_, _, s') \<Rightarrow> s')"

section \<open>A handle at the end of its file\<close>

text \<open>
  \<open>appending p h s\<close>: the handle \<open>h\<close> is on path \<open>p\<close>, at the end of an existing file.
  The handle a truncating open returns is so, and stays so through every write; the two lemmas
  below are all the disks need of the handles.
\<close>

definition appending :: "path \<Rightarrow> file_handle \<Rightarrow> fs \<Rightarrow> bool" where
  "appending p h s \<longleftrightarrow> fh_path h = p \<and> (\<exists>c. files s p = Some c \<and> fh_pos h = length c)"

lemma appending_open:
  "fs_open_truncate p s = (Ok u, s') \<Longrightarrow> appending p \<lparr>fh_path = p, fh_pos = 0\<rparr> s'"
  by (auto simp: fs_open_truncate_def appending_def split: if_splits)

lemma file_write_all_appending:
  assumes "appending p h s" and "files s p = Some c"
  shows "file_write_all h d s =
    (if full s p \<and> d \<noteq> [] then (Err OtherError, h, s)
     else (Ok (), h\<lparr>fh_pos := length (c @ d)\<rparr>, set_file p (Some (c @ d)) s))"
proof (cases "d = []")
  case True
  with assms show ?thesis
    by (cases h) (simp add: file_write_all_def appending_def set_file_same)
next
  case False
  with assms show ?thesis
    by (auto simp: file_write_all_def appending_def overwrite_end)
qed

lemma appending_write [intro]:
  "appending p h s \<Longrightarrow> files s p = Some c \<Longrightarrow>
   appending p (h\<lparr>fh_pos := length (c @ d)\<rparr>) (set_file p (Some (c @ d)) s)"
  by (auto simp: appending_def)

lemma file_write_all_frame:
  "file_write_all h d s = (r, h', s') \<Longrightarrow> q \<noteq> fh_path h \<Longrightarrow> files s' q = files s q"
  by (auto simp: file_write_all_def split: if_splits option.splits)

lemma file_write_all_env:
  "file_write_all h d s = (r, h', s') \<Longrightarrow>
   fh_path h' = fh_path h \<and> dirs s' = dirs s \<and> faulty s' = faulty s \<and> full s' = full s \<and> device s' = device s"
  by (auto simp: file_write_all_def split: if_splits option.splits)

lemma file_write_all_no_panic [simp]: "file_write_all h d s \<noteq> (Panic, h', s')"
  by (auto simp: file_write_all_def split: if_splits option.splits)

end
