(* ===== verification/Disks.thy ===== *)
theory Disks
  imports File_System
begin

text \<open>
  The disk traits of \<open>src/entry/disks/mod.rs\<close> and the disks over one file: \<open>Plainfile\<close>
  (buffered reads and writes), \<open>WriteUnbuffered\<close> and \<open>Unbuffered\<close>, and the custom disks made
  of two functions. The contract a \<open>BackedEntry\<close> relies on is the locale \<open>byte_disk\<close>: what a
  completed write session leaves is what the next read returns, and no other disk changes.
  The three file disks are interpretations of it over the same store.
\<close>

section \<open>The traits\<close>

text \<open>
  \<open>ReadDisk\<close> and \<open>WriteDisk\<close> as a record of functions. A reader is what it yields when
  read to the end; a writer is a value of the disk's own type, with \<open>write_all\<close>, \<open>flush\<close> and
  the effect of dropping it. The store \<open>'w\<close> is everything outside the program's values.
\<close>

record ('d, 'wr, 'w) disk_ops =
  d_read :: "'d \<Rightarrow> 'w \<Rightarrow> (bytes, io_error) result \<times> 'w"
  d_write :: "'d \<Rightarrow> 'w \<Rightarrow> ('wr, io_error) result \<times> 'w"
  wr_write :: "'wr \<Rightarrow> bytes \<Rightarrow> 'w \<Rightarrow> (unit, io_error) result \<times> 'wr \<times> 'w"
  wr_flush :: "'wr \<Rightarrow> 'w \<Rightarrow> (unit, io_error) result \<times> 'wr \<times> 'w"
  wr_drop :: "'wr \<Rightarrow> 'w \<Rightarrow> 'w"

text \<open>What a serializer does with a writer: the pieces it writes, one after the other.\<close>

fun write_pieces ::
  "('d, 'wr, 'w) disk_ops \<Rightarrow> 'wr \<Rightarrow> bytes list \<Rightarrow> 'w \<Rightarrow> (unit, io_error) result \<times> 'wr \<times> 'w" where
  "write_pieces D wr [] w = (Ok (), wr, w)"
| "write_pieces D wr (p # ps) w =
     (case wr_write D wr p w of
        (Ok _, wr', w') \<Rightarrow> write_pieces D wr' ps w'
      | (Err e, wr', w') \<Rightarrow> (Err e, wr', w')
      | (Panic, wr', w') \<Rightarrow> (Panic, wr', w'))"

lemma write_pieces_append:
  "write_pieces D wr (ps @ qs) w =
     (case write_pieces D wr ps w of
        (Ok _, wr1, w1) \<Rightarrow> write_pieces D wr1 qs w1
      | (r, wr1, w1) \<Rightarrow> (r, wr1, w1))"
  by (induction ps arbitrary: wr w) (auto split: prod.splits result.splits)

text \<open>
  Writing a value to a writer it owns, the body of every \<open>Encoder::encode\<close>: the pieces, then
  \<open>Ser\<close>, an error of the serializer, if it has one (\<open>ok\<close> says that it has none), then
  \<open>flush\<close>; the writer is dropped on every exit.
\<close>

datatype put_error = Ser | OpenIo io_error | WriteIo io_error | FlushIo io_error

definition serialize_flush ::
  "('d, 'wr, 'w) disk_ops \<Rightarrow> 'wr \<Rightarrow> bytes list \<Rightarrow> bool \<Rightarrow> 'w \<Rightarrow>
     (unit, put_error) result \<times> 'w" where
  "serialize_flush D wr ps ok w =
     (case write_pieces D wr ps w of
        (Ok _, wr1, w1) \<Rightarrow>
          if \<not> ok then (Err Ser, wr_drop D wr1 w1)
          else (case wr_flush D wr1 w1 of (r, wr2, w2) \<Rightarrow> (map_err FlushIo r, wr_drop D wr2 w2))
      | (Err e, wr1, w1) \<Rightarrow> (Err (WriteIo e), wr_drop D wr1 w1)
      | (Panic, wr1, w1) \<Rightarrow> (Panic, wr_drop D wr1 w1))"

text \<open>A whole write session on a disk: \<open>write_disk\<close>, then the body above.\<close>

definition put ::
  "('d, 'wr, 'w) disk_ops \<Rightarrow> 'd \<Rightarrow> bytes list \<Rightarrow> bool \<Rightarrow> 'w \<Rightarrow>
     (unit, put_error) result \<times> 'w" where
  "put D d ps ok w =
     (case d_write D d w of
        (Ok wr, w1) \<Rightarrow> serialize_flush D wr ps ok w1
      | (Err e, w1) \<Rightarrow> (Err (OpenIo e), w1)
      | (Panic, w1) \<Rightarrow> (Panic, w1))"

section \<open>The contract\<close>

text \<open>
  \<open>site d\<close> is the place a disk writes to: two disks of different sites never disturb each other.
  \<open>stored d w\<close> is what a read of \<open>d\<close> would return, and \<open>writable d w\<close> says that a
  write session cannot fail for a reason of the store.
\<close>

locale byte_disk =
  fixes D :: "('d, 'wr, 'w) disk_ops"
    and site :: "'d \<Rightarrow> 'k"
    and stored :: "'d \<Rightarrow> 'w \<Rightarrow> bytes option"
    and writable :: "'d \<Rightarrow> 'w \<Rightarrow> bool"
  assumes read_pure: "d_read D d w = (r, w') \<Longrightarrow> w' = w"
    and read_stored: "d_read D d w = (r, w') \<Longrightarrow> r = Ok b \<longleftrightarrow> stored d w = Some b"
    and read_returns: "d_read D d w \<noteq> (Panic, w')"
    and put_stored: "put D d ps ok w = (Ok u, w') \<Longrightarrow>
      ok \<and> stored d w' = Some (concat ps)"
    and put_frame: "put D d ps ok w = (rp, w') \<Longrightarrow> site d' \<noteq> site d \<Longrightarrow>
      stored d' w' = stored d' w"
    and put_returns: "put D d ps ok w \<noteq> (Panic, w')"
    and put_writable: "writable d w \<Longrightarrow> \<exists>w'. put D d ps True w = (Ok (), w')"
    and put_keeps_writable: "put D d ps ok w = (rp, w') \<Longrightarrow>
      writable d' w' = writable d' w"
begin

lemma read_of_stored: "stored d w = Some b \<Longrightarrow> d_read D d w = (Ok b, w)"
  using read_stored [of d w "fst (d_read D d w)" "snd (d_read D d w)" b]
    read_pure [of d w "fst (d_read D d w)" "snd (d_read D d w)"]
  by (metis prod.collapse)

lemma read_missing: "stored d w = None \<Longrightarrow> \<exists>e. d_read D d w = (Err e, w)"
  using read_stored [of d w] read_pure [of d w] read_returns [of d w]
  by (cases "d_read D d w"; cases "fst (d_read D d w)") fastforce+

lemma put_cases:
  assumes "put D d ps ok w = (r, w')"
  obtains (Done) "r = Ok ()" "ok" "stored d w' = Some (concat ps)"
    | (Failed) e where "r = Err e"
  using assms put_stored [of d ps ok w "()" w'] put_returns [of d ps ok w w']
  by (cases r) auto

lemma put_then_read:
  "put D d ps ok w = (Ok u, w') \<Longrightarrow> d_read D d w' = (Ok (concat ps), w')"
  by (auto dest: put_stored intro: read_of_stored)

text \<open>The last of several sessions on the same disk is the one that counts.\<close>

lemma put_twice:
  assumes "put D d ps ok w = (r, w1)" and "put D d qs ok' w1 = (Ok u, w2)"
  shows "d_read D d w2 = (Ok (concat qs), w2)"
  using put_then_read [OF assms(2)] .

end

section \<open>Sessions on one file\<close>

text \<open>
  \<open>touches p s s'\<close>: from \<open>s\<close> to \<open>s'\<close> only the contents of \<open>p\<close> may differ. Every
  step of a session on \<open>p\<close> is of this kind.
\<close>

definition touches :: "path \<Rightarrow> fs \<Rightarrow> fs \<Rightarrow> bool" where
  "touches p s s' \<longleftrightarrow> (\<forall>q. q \<noteq> p \<longrightarrow> files s' q = files s q) \<and> dirs s' = dirs s \<and>
     faulty s' = faulty s \<and> full s' = full s \<and> device s' = device s"

lemma touches_refl [simp, intro]: "touches p s s"
  by (simp add: touches_def)

lemma touches_trans [trans]: "touches p s s' \<Longrightarrow> touches p s' s'' \<Longrightarrow> touches p s s''"
  by (simp add: touches_def)

lemma touches_set_file [simp, intro]: "touches p s (set_file p c s)"
  by (simp add: touches_def)

lemma touches_open: "fs_open_truncate p s = (r, s') \<Longrightarrow> touches p s s'"
  by (auto simp: fs_open_truncate_def split: if_splits)

lemma touches_write_all: "file_write_all h d s = (r, h', s') \<Longrightarrow> touches (fh_path h) s s' \<and> fh_path h' = fh_path h"
  by (auto simp: touches_def dest: file_write_all_frame file_write_all_env)

definition file_stored :: "path \<Rightarrow> fs \<Rightarrow> bytes option" where
  "file_stored p s = (if faulty s p then None else files s p)"

definition file_writable :: "path \<Rightarrow> fs \<Rightarrow> bool" where
  "file_writable p s \<longleftrightarrow> \<not> faulty s p \<and> \<not> full s p \<and> \<not> dirs s p \<and> dirs s (parent p)"

lemma touches_stored: "touches p s s' \<Longrightarrow> q \<noteq> p \<Longrightarrow> file_stored q s' = file_stored q s"
  by (simp add: touches_def file_stored_def)

lemma touches_writable: "touches p s s' \<Longrightarrow> file_writable q s' = file_writable q s"
  by (simp add: touches_def file_writable_def)

lemma fs_read_stored:
  "fs_read p s = Ok b \<longleftrightarrow> file_stored p s = Some b" "fs_read p s \<noteq> Panic"
  by (auto simp: fs_read_def file_stored_def split: option.splits)

lemma open_truncate_ok:
  "fs_open_truncate p s = (Ok u, s') \<Longrightarrow>
   \<not> faulty s' p \<and> files s' p = Some [] \<and> touches p s s'"
  by (auto simp: fs_open_truncate_def split: if_splits)

lemma open_truncate_writable: "file_writable p s \<Longrightarrow> fs_open_truncate p s = (Ok (), set_file p (Some []) s)"
  by (simp add: file_writable_def fs_open_truncate_def)

lemma demo_writable [simp]: "file_writable [''f''] empty_fs"
  by (simp add: file_writable_def empty_fs_def parent_def)

lemma open_truncate_returns [simp]: "fs_open_truncate p s \<noteq> (Panic, s')"
  by (simp add: fs_open_truncate_def)

text \<open>
  A writer over a file, seen from outside: \<open>holds wr c s\<close> says that the bytes accepted so far
  are \<open>c\<close>, in the file or still in a buffer. The four laws below are all a session needs, and
  the two kinds of writer the file disks return satisfy them.
\<close>

definition file_ops ::
  "('d \<Rightarrow> path) \<Rightarrow> (path \<Rightarrow> 'wr) \<Rightarrow>
   ('wr \<Rightarrow> bytes \<Rightarrow> fs \<Rightarrow> (unit, io_error) result \<times> 'wr \<times> fs) \<Rightarrow>
   ('wr \<Rightarrow> fs \<Rightarrow> (unit, io_error) result \<times> 'wr \<times> fs) \<Rightarrow> ('wr \<Rightarrow> fs \<Rightarrow> fs) \<Rightarrow> ('d, 'wr, fs) disk_ops" where
  "file_ops path_of start W F X = \<lparr>d_read = (\<lambda>d s. (fs_read (path_of d) s, s)),
     d_write = (\<lambda>d s. case fs_open_truncate (path_of d) s of (r, s') \<Rightarrow>
        (map_ok (\<lambda>_. start (path_of d)) r, s')),
     wr_write = W, wr_flush = F, wr_drop = X\<rparr>"

locale file_writer =
  fixes W :: "'wr \<Rightarrow> bytes \<Rightarrow> fs \<Rightarrow> (unit, io_error) result \<times> 'wr \<times> fs"
    and F :: "'wr \<Rightarrow> fs \<Rightarrow> (unit, io_error) result \<times> 'wr \<times> fs"
    and X :: "'wr \<Rightarrow> fs \<Rightarrow> fs"
    and wr_path :: "'wr \<Rightarrow> path"
    and start :: "path \<Rightarrow> 'wr"
    and holds :: "'wr \<Rightarrow> bytes \<Rightarrow> fs \<Rightarrow> bool"
  assumes path_start [simp]: "wr_path (start p) = p"
    and holds_start: "files s p = Some [] \<Longrightarrow> holds (start p) [] s"
    and write_touches: "W wr d s = (r, wr', s') \<Longrightarrow> touches (wr_path wr) s s' \<and> wr_path wr' = wr_path wr"
    and flush_touches: "F wr s = (r, wr', s') \<Longrightarrow> touches (wr_path wr) s s' \<and> wr_path wr' = wr_path wr"
    and drop_touches: "touches (wr_path wr) s (X wr s)"
    and write_holds: "holds wr c s \<Longrightarrow> W wr d s = (Ok u, wr', s') \<Longrightarrow> holds wr' (c @ d) s'"
    and flush_drop: "holds wr c s \<Longrightarrow> F wr s = (Ok u, wr', s') \<Longrightarrow>
      files (X wr' s') (wr_path wr) = Some c"
    and write_fails: "holds wr c s \<Longrightarrow> \<not> full s (wr_path wr) \<Longrightarrow> \<exists>wr' s'. W wr d s = (Ok (), wr', s')"
    and flush_fails: "holds wr c s \<Longrightarrow> \<not> full s (wr_path wr) \<Longrightarrow> \<exists>wr' s'. F wr s = (Ok (), wr', s')"
    and no_panic: "W wr d s \<noteq> (Panic, wr', s')" "F wr s \<noteq> (Panic, wr', s')"
begin

abbreviation "ops path_of \<equiv> file_ops path_of start W F X"

lemma pieces_touch:
  assumes "wr_write D = W" and "write_pieces D wr ps s = (r, wr', s')"
  shows "touches (wr_path wr) s s' \<and> wr_path wr' = wr_path wr \<and> r \<noteq> Panic"
  using assms(2)
proof (induction ps arbitrary: wr s)
  case (Cons p ps)
  obtain r1 wr1 s1 where W: "W wr p s = (r1, wr1, s1)" by (metis prod_cases3)
  note t = write_touches [OF W]
  show ?case
  proof (cases r1)
    case (Ok u)
    with W Cons.prems have "write_pieces D wr1 ps s1 = (r, wr', s')" by (simp add: assms(1))
      from Cons.IH [OF this] t Ok W show ?thesis by (auto intro: touches_trans)
  qed (use W Cons.prems t no_panic in \<open>auto simp: assms(1)\<close>)
qed auto

lemma pieces_hold:
  assumes "wr_write D = W" and "write_pieces D wr ps s = (Ok u, wr', s')" and "holds wr c s"
  shows "holds wr' (c @ concat ps) s'"
  using assms(2,3)
proof (induction ps arbitrary: wr s c)
  case (Cons p ps)
  obtain r1 wr1 s1 where W: "W wr p s = (r1, wr1, s1)" by (metis prod_cases3)
  with Cons.prems(1) obtain u' where r1: "r1 = Ok u'"
    by (cases r1) (auto simp: assms(1))
  with W Cons.prems have "holds wr1 (c @ p) s1" by (auto intro: write_holds)
  with Cons.IH [of wr1 s1 "c @ p"] Cons.prems(1) W r1 show ?case by (simp add: assms(1))
qed simp

lemma pieces_accepted:
  assumes "wr_write D = W" and "holds wr c s" and "\<not> full s (wr_path wr)"
  shows "\<exists>wr' s'. write_pieces D wr ps s = (Ok (), wr', s')"
  using assms(2,3)
proof (induction ps arbitrary: wr s c)
  case (Cons p ps)
  then obtain wr1 s1 where W: "W wr p s = (Ok (), wr1, s1)" by (meson write_fails)
  have "holds wr1 (c @ p) s1" "\<not> full s1 (wr_path wr1)"
    using write_holds [OF Cons.prems(1) W] write_touches [OF W] Cons.prems(2)
    by (auto simp: touches_def)
  from Cons.IH [OF this] W show ?case by (simp add: assms(1))
qed simp

text \<open>One session, on every outcome.\<close>

lemma serialize_touches:
  assumes "wr_write D = W" "wr_flush D = F" "wr_drop D = X"
    and "serialize_flush D wr ps ok s = (r, s')"
  shows "touches (wr_path wr) s s' \<and> r \<noteq> Panic"
proof -
  obtain r1 wr1 s1 where P: "write_pieces D wr ps s = (r1, wr1, s1)" by (metis prod_cases3)
  obtain r2 wr2 s2 where F: "F wr1 s1 = (r2, wr2, s2)" by (metis prod_cases3)
  have t1: "touches (wr_path wr) s s1" "wr_path wr1 = wr_path wr" "r1 \<noteq> Panic"
    using pieces_touch [OF assms(1) P] by auto
  have t2: "touches (wr_path wr) s1 s2" "wr_path wr2 = wr_path wr" "r2 \<noteq> Panic"
    using flush_touches [OF F] F t1 no_panic(2) by auto
  have x: "touches (wr_path wr) s (X wr1 s1)" "touches (wr_path wr) s (X wr2 s2)"
    using drop_touches [of wr1 s1] drop_touches [of wr2 s2] t1 t2 touches_trans by metis+
  show ?thesis
    using assms(4) P F t1(3) t2(3) x
    by (cases r1; cases r2; cases ok) (auto simp: serialize_flush_def assms(1-3))
qed

lemma serialize_stored:
  assumes "wr_write D = W" "wr_flush D = F" "wr_drop D = X"
    and "serialize_flush D wr ps ok s = (Ok u, s')" and "holds wr c s"
  shows "ok \<and> files s' (wr_path wr) = Some (c @ concat ps)"
proof -
  obtain r1 wr1 s1 where P: "write_pieces D wr ps s = (r1, wr1, s1)" by (metis prod_cases3)
  obtain r2 wr2 s2 where F: "F wr1 s1 = (r2, wr2, s2)" by (metis prod_cases3)
  from assms(4) P obtain u1 where r1: "r1 = Ok u1"
    by (cases r1) (auto simp: serialize_flush_def)
  from assms(4) P r1 have is_ok: "ok"
    by (cases ok) (auto simp: serialize_flush_def)
  with assms(4) P F r1 have 2: "r2 = Ok u" "s' = X wr2 s2"
    by (auto simp: serialize_flush_def assms(1-3))
  have "files s' (wr_path wr1) = Some (c @ concat ps)"
    using flush_drop pieces_hold [OF assms(1) _ assms(5)] P F r1 2 by metis
  with pieces_touch [OF assms(1) P] is_ok show ?thesis by simp
qed

lemma serialize_accepted:
  assumes "wr_write D = W" "wr_flush D = F" "wr_drop D = X" "holds wr c s" "\<not> full s (wr_path wr)"
  shows "\<exists>s'. serialize_flush D wr ps True s = (Ok (), s')"
proof -
  from pieces_accepted [OF assms(1,4,5)] obtain wr1 s1
    where P: "write_pieces D wr ps s = (Ok (), wr1, s1)" by blast
  have "holds wr1 (c @ concat ps) s1" "\<not> full s1 (wr_path wr1)"
    using pieces_hold [OF assms(1) P assms(4)] pieces_touch [OF assms(1) P] assms(5)
    by (auto simp: touches_def)
  then obtain wr2 s2 where "F wr1 s1 = (Ok (), wr2, s2)" by (meson flush_fails)
  with P show ?thesis by (simp add: serialize_flush_def assms(2,3))
qed

lemma put_touches:
  assumes "put (ops path_of) d ps ok s = (r, s')"
  shows "touches (path_of d) s s' \<and> r \<noteq> Panic"
proof (cases "fs_open_truncate (path_of d) s")
  case (Pair r1 s1)
  have t: "touches (path_of d) s s1" using touches_open [OF Pair] .
  have "r1 \<noteq> Panic" using Pair open_truncate_returns by metis
  then consider (ok) "r1 = Ok ()" | (err) e where "r1 = Err e" by (cases r1) auto
  then show ?thesis
  proof cases
    case ok
    with assms Pair have "serialize_flush (ops path_of) (start (path_of d)) ps ok s1 = (r, s')"
      by (simp add: put_def file_ops_def)
    from serialize_touches [OF _ _ _ this] t show ?thesis
      by (auto simp: file_ops_def intro: touches_trans)
  qed (use assms Pair t in \<open>auto simp: put_def file_ops_def\<close>)
qed

lemma put_stores:
  assumes "put (ops path_of) d ps ok s = (Ok u, s')"
  shows "ok \<and> file_stored (path_of d) s' = Some (concat ps)"
proof (cases "fs_open_truncate (path_of d) s")
  case (Pair r1 s1)
  with assms have r1: "r1 = Ok ()"
    by (cases r1) (auto simp: put_def file_ops_def)
  with assms Pair have ser: "serialize_flush (ops path_of) (start (path_of d)) ps ok s1 = (Ok u, s')"
    by (simp add: put_def file_ops_def)
  have opened: "\<not> faulty s1 (path_of d)" "files s1 (path_of d) = Some []"
    using open_truncate_ok Pair r1 by metis+
  have "ok \<and> files s' (path_of d) = Some (concat ps)"
    using serialize_stored [OF _ _ _ ser holds_start [OF opened(2)]] by (simp add: file_ops_def)
  moreover have "\<not> faulty s' (path_of d)"
    using serialize_touches [OF _ _ _ ser] opened by (simp add: file_ops_def touches_def)
  ultimately show ?thesis by (simp add: file_stored_def)
qed

lemma put_succeeds:
  assumes "file_writable (path_of d) s"
  shows "\<exists>s'. put (ops path_of) d ps True s = (Ok (), s')"
proof -
  define s1 where "s1 = set_file (path_of d) (Some []) s"
  have "holds (start (path_of d)) [] s1" by (rule holds_start) (simp add: s1_def)
  moreover have "\<not> full s1 (wr_path (start (path_of d)))"
    using assms by (simp add: s1_def file_writable_def)
  ultimately obtain s' where "serialize_flush (ops path_of) (start (path_of d)) ps True s1 = (Ok (), s')"
    using serialize_accepted [of "ops path_of" "start (path_of d)" "[]" s1 ps]
    by (auto simp: file_ops_def simp del: path_start)
  then show ?thesis
    using open_truncate_writable [OF assms] by (simp add: put_def file_ops_def s1_def)
qed

text \<open>A completed session leaves the written bytes, and nothing else has changed.\<close>

lemma put_exact:
  assumes "put (ops path_of) d ps ok s = (Ok u, s')"
  shows "s' = set_file (path_of d) (Some (concat ps)) s"
proof -
  have t: "touches (path_of d) s s'" using put_touches [OF assms] by simp
  have "file_stored (path_of d) s' = Some (concat ps)" using put_stores [OF assms] by simp
  with t have f: "files s' = (files s)(path_of d := Some (concat ps))"
    by (auto simp: fun_eq_iff touches_def file_stored_def split: if_splits)
  with t show ?thesis by (intro fs.equality) (simp_all add: touches_def fun_upd_def set_file_def)
qed

lemma file_disk:
  "byte_disk (ops path_of) path_of (\<lambda>d. file_stored (path_of d)) (\<lambda>d. file_writable (path_of d))"
proof (rule byte_disk.intro, goal_cases)
  case (2 d s r s' b)
  then show ?case using fs_read_stored by (auto simp: file_ops_def)
next
  case (3 d s s')
  then show ?case using fs_read_stored by (simp add: file_ops_def)
next
  case (4 d ps ok s u s')
  then show ?case by (rule put_stores)
next
  case (6 d ps ok s s')
  then show ?case by (metis put_touches)
next
  case (7 d s ps)
  then show ?case by (rule put_succeeds)
next
  case (5 d ps ok s r s' d')
  from put_touches [OF 5(1)] 5(2) show ?case by (metis touches_stored)
next
  case (8 d ps ok s r s' d')
  from put_touches [OF 8] show ?case by (metis touches_writable)
qed (simp add: file_ops_def)

end

section \<open>The disks over one file\<close>

text \<open>
  \<open>Plainfile\<close>, \<open>Unbuffered\<close> and \<open>WriteUnbuffered\<close> hold the path and open the file on
  demand; they differ in the writer (and reader) they wrap the file in.
\<close>

datatype plainfile = Plainfile (pf_path: path)
datatype unbuffered = Unbuffered (ub_path: path)
datatype write_unbuffered = WriteUnbuffered (wu_path: path)

definition plainfile_read_disk :: "plainfile \<Rightarrow> fs \<Rightarrow> (bytes, io_error) result \<times> fs" where
  "plainfile_read_disk d s = (fs_read (pf_path d) s, s)"

definition plainfile_write_disk :: "plainfile \<Rightarrow> fs \<Rightarrow> (buf_writer, io_error) result \<times> fs" where
  "plainfile_write_disk d s =
     (case fs_open_truncate (pf_path d) s of
        (r, s') \<Rightarrow> (map_ok (\<lambda>_. \<lparr>bw_inner = \<lparr>fh_path = pf_path d, fh_pos = 0\<rparr>, bw_buf = []\<rparr>) r, s'))"

definition unbuffered_read_disk :: "unbuffered \<Rightarrow> fs \<Rightarrow> (bytes, io_error) result \<times> fs" where
  "unbuffered_read_disk d s = (fs_read (ub_path d) s, s)"

definition unbuffered_write_disk :: "unbuffered \<Rightarrow> fs \<Rightarrow> (file_handle, io_error) result \<times> fs" where
  "unbuffered_write_disk d s =
     (case fs_open_truncate (ub_path d) s of
        (r, s') \<Rightarrow> (map_ok (\<lambda>_. \<lparr>fh_path = ub_path d, fh_pos = 0\<rparr>) r, s'))"

definition write_unbuffered_read_disk :: "write_unbuffered \<Rightarrow> fs \<Rightarrow> (bytes, io_error) result \<times> fs" where
  "write_unbuffered_read_disk d s = (fs_read (wu_path d) s, s)"

definition write_unbuffered_write_disk ::
  "write_unbuffered \<Rightarrow> fs \<Rightarrow> (file_handle, io_error) result \<times> fs" where
  "write_unbuffered_write_disk d s =
     (case fs_open_truncate (wu_path d) s of
        (r, s') \<Rightarrow> (map_ok (\<lambda>_. \<lparr>fh_path = wu_path d, fh_pos = 0\<rparr>) r, s'))"

text \<open>\<open>flush\<close> and dropping do nothing for a \<open>File\<close>, which has no buffer.\<close>

definition file_flush :: "file_handle \<Rightarrow> fs \<Rightarrow> (unit, io_error) result \<times> file_handle \<times> fs" where
  "file_flush h s = (Ok (), h, s)"

definition file_drop :: "file_handle \<Rightarrow> fs \<Rightarrow> fs" where
  "file_drop h s = s"

definition plainfile_disk :: "(plainfile, buf_writer, fs) disk_ops" where
  "plainfile_disk = \<lparr>d_read = plainfile_read_disk, d_write = plainfile_write_disk,
     wr_write = buf_write_all, wr_flush = buf_flush, wr_drop = buf_drop\<rparr>"

definition unbuffered_disk :: "(unbuffered, file_handle, fs) disk_ops" where
  "unbuffered_disk = \<lparr>d_read = unbuffered_read_disk, d_write = unbuffered_write_disk,
     wr_write = file_write_all, wr_flush = file_flush, wr_drop = file_drop\<rparr>"

definition write_unbuffered_disk :: "(write_unbuffered, file_handle, fs) disk_ops" where
  "write_unbuffered_disk = \<lparr>d_read = write_unbuffered_read_disk, d_write = write_unbuffered_write_disk,
     wr_write = file_write_all, wr_flush = file_flush, wr_drop = file_drop\<rparr>"

text \<open>The conversions between the three (\<open>From\<close> implementations).\<close>

definition plainfile_new :: "path \<Rightarrow> plainfile" where
  "plainfile_new p = Plainfile p"

definition unbuffered_new :: "path \<Rightarrow> unbuffered" where
  "unbuffered_new p = Unbuffered p"

definition write_unbuffered_new :: "path \<Rightarrow> write_unbuffered" where
  "write_unbuffered_new p = WriteUnbuffered p"

definition plainfile_into_unbuffered :: "plainfile \<Rightarrow> unbuffered" where
  "plainfile_into_unbuffered d = unbuffered_new (pf_path d)"

definition plainfile_into_write_unbuffered :: "plainfile \<Rightarrow> write_unbuffered" where
  "plainfile_into_write_unbuffered d = write_unbuffered_new (pf_path d)"

definition unbuffered_into_plainfile :: "unbuffered \<Rightarrow> plainfile" where
  "unbuffered_into_plainfile d = plainfile_new (ub_path d)"

definition unbuffered_into_write_unbuffered :: "unbuffered \<Rightarrow> write_unbuffered" where
  "unbuffered_into_write_unbuffered d = write_unbuffered_new (ub_path d)"

definition write_unbuffered_into_plainfile :: "write_unbuffered \<Rightarrow> plainfile" where
  "write_unbuffered_into_plainfile d = plainfile_new (wu_path d)"

definition write_unbuffered_into_unbuffered :: "write_unbuffered \<Rightarrow> unbuffered" where
  "write_unbuffered_into_unbuffered d = unbuffered_new (wu_path d)"

lemmas disk_conversions = plainfile_new_def unbuffered_new_def write_unbuffered_new_def
  plainfile_into_unbuffered_def plainfile_into_write_unbuffered_def unbuffered_into_plainfile_def
  unbuffered_into_write_unbuffered_def write_unbuffered_into_plainfile_def
  write_unbuffered_into_unbuffered_def

section \<open>The file disks keep the contract\<close>

definition file_holds :: "file_handle \<Rightarrow> bytes \<Rightarrow> fs \<Rightarrow> bool" where
  "file_holds h c s \<longleftrightarrow> appending (fh_path h) h s \<and> files s (fh_path h) = Some c"

lemma file_holds_write:
  assumes "file_holds h c s"
  shows "file_write_all h d s =
    (if full s (fh_path h) \<and> d \<noteq> [] then (Err OtherError, h, s)
     else (Ok (), h\<lparr>fh_pos := length (c @ d)\<rparr>, set_file (fh_path h) (Some (c @ d)) s))"
    and "file_holds (h\<lparr>fh_pos := length (c @ d)\<rparr>) (c @ d) (set_file (fh_path h) (Some (c @ d)) s)"
proof -
  from assms have *: "appending (fh_path h) h s" "files s (fh_path h) = Some c"
    by (auto simp: file_holds_def)
  show "file_write_all h d s =
    (if full s (fh_path h) \<and> d \<noteq> [] then (Err OtherError, h, s)
     else (Ok (), h\<lparr>fh_pos := length (c @ d)\<rparr>, set_file (fh_path h) (Some (c @ d)) s))"
    by (rule file_write_all_appending [OF *])
  show "file_holds (h\<lparr>fh_pos := length (c @ d)\<rparr>) (c @ d) (set_file (fh_path h) (Some (c @ d)) s)"
    by (simp add: file_holds_def appending_def)
qed

interpretation raw_file: file_writer file_write_all file_flush file_drop fh_path
  "\<lambda>p. \<lparr>fh_path = p, fh_pos = 0\<rparr>" file_holds
proof
  fix h h' :: file_handle and d c s r s' u p
  show "files s p = Some [] \<Longrightarrow> file_holds \<lparr>fh_path = p, fh_pos = 0\<rparr> [] s"
    by (simp add: file_holds_def appending_def)
  show "file_write_all h d s = (r, h', s') \<Longrightarrow> touches (fh_path h) s s' \<and> fh_path h' = fh_path h"
    by (rule touches_write_all)
  show "file_holds h c s \<Longrightarrow> file_write_all h d s = (Ok u, h', s') \<Longrightarrow> file_holds h' (c @ d) s'"
    using file_holds_write [of h c s d] by (auto split: if_splits)
  show "file_holds h c s \<Longrightarrow> \<not> full s (fh_path h) \<Longrightarrow> \<exists>h' s'. file_write_all h d s = (Ok (), h', s')"
    using file_holds_write(1) [of h c s d] by simp
qed (auto simp: file_flush_def file_drop_def file_holds_def)

definition buf_holds :: "buf_writer \<Rightarrow> bytes \<Rightarrow> fs \<Rightarrow> bool" where
  "buf_holds b c s \<longleftrightarrow> (\<exists>d. file_holds (bw_inner b) d s \<and> c = d @ bw_buf b)"

lemma buf_flush_holds:
  assumes "buf_holds b c s"
  shows "buf_flush b s =
    (if full s (fh_path (bw_inner b)) \<and> bw_buf b \<noteq> [] then (Err OtherError, b, s)
     else (Ok (), \<lparr>bw_inner = (bw_inner b)\<lparr>fh_pos := length c\<rparr>, bw_buf = []\<rparr>,
           set_file (fh_path (bw_inner b)) (Some c) s))"
proof -
  from assms obtain d where "file_holds (bw_inner b) d s" "c = d @ bw_buf b"
    by (auto simp: buf_holds_def)
  then show ?thesis by (cases b) (auto simp: buf_flush_def file_holds_write)
qed

lemma buf_flushed_holds:
  assumes "buf_holds b c s"
  shows "file_holds ((bw_inner b)\<lparr>fh_pos := length c\<rparr>) c (set_file (fh_path (bw_inner b)) (Some c) s)"
  using assms file_holds_write(2) by (fastforce simp: buf_holds_def)

lemma buf_push_holds:
  assumes "file_holds (bw_inner b) d s" and "bw_buf b = [] \<or> length x < buf_capacity"
  shows "if full s (fh_path (bw_inner b)) \<and> buf_capacity \<le> length x
    then buf_push b x s = (Err OtherError, b, s)
    else \<exists>b' s'. buf_push b x s = (Ok (), b', s') \<and> buf_holds b' (d @ bw_buf b @ x) s'"
proof (cases "buf_capacity \<le> length x")
  case True
  then have x: "x \<noteq> []" by (auto simp: buf_capacity_def)
  from True assms(2) have buf: "bw_buf b = []" by simp
  show ?thesis
    using file_holds_write [OF assms(1), of x] True x buf
    by (cases b) (auto simp: buf_push_def buf_holds_def)
next
  case False
  with assms(1) show ?thesis by (auto simp: buf_push_def buf_holds_def)
qed

lemma file_holds_path: "file_holds h c s \<Longrightarrow> file_holds (h\<lparr>fh_pos := n\<rparr>) c s \<longleftrightarrow> n = length c"
  by (auto simp: file_holds_def appending_def)

lemma buf_write_all_holds:
  assumes "buf_holds b c s"
  shows "(\<exists>b' s'. buf_write_all b x s = (Ok (), b', s') \<and> buf_holds b' (c @ x) s') \<or>
    (full s (fh_path (bw_inner b)) \<and> (\<exists>b' s'. buf_write_all b x s = (Err OtherError, b', s')))"
proof -
  from assms obtain d where d: "file_holds (bw_inner b) d s" "c = d @ bw_buf b"
    by (auto simp: buf_holds_def)
  define spare where "spare = buf_capacity - length (bw_buf b)"
  consider (fits) "length x < spare" | (over) "spare < length x" | (exact) "length x = spare"
    by linarith
  then show ?thesis
  proof cases
    case fits
    with d show ?thesis
      by (intro disjI1) (auto simp: buf_write_all_def spare_def [symmetric] buf_holds_def)
  next
    case over
    then have W: "buf_write_all b x s = (case buf_flush b s of
        (Ok _, b', s') \<Rightarrow> buf_push b' x s' | (Err e, b', s') \<Rightarrow> (Err e, b', s')
      | (Panic, b', s') \<Rightarrow> (Panic, b', s'))"
      by (simp add: buf_write_all_def spare_def [symmetric])
    let ?b = "\<lparr>bw_inner = (bw_inner b)\<lparr>fh_pos := length c\<rparr>, bw_buf = []\<rparr>"
    let ?s = "set_file (fh_path (bw_inner b)) (Some c) s"
    show ?thesis
    proof (cases "full s (fh_path (bw_inner b)) \<and> bw_buf b \<noteq> []")
      case True
      with buf_flush_holds [OF assms] show ?thesis by (simp add: W)
    next
      case False
      have "file_holds (bw_inner ?b) c ?s" using buf_flushed_holds [OF assms] by simp
      from buf_push_holds [OF this, of x] buf_flush_holds [OF assms] False show ?thesis
        by (auto simp: W split: if_splits)
    qed
  next
    case exact
    then have W: "buf_write_all b x s = buf_push b x s"
      by (simp add: buf_write_all_def spare_def [symmetric])
    from exact have "bw_buf b = [] \<or> length x < buf_capacity"
      by (cases "bw_buf b") (auto simp: spare_def buf_capacity_def)
    from buf_push_holds [OF d(1) this] d(2) show ?thesis
      by (auto simp: W split: if_splits)
  qed
qed

lemma buf_flush_touches:
  "buf_flush b s = (r, b', s') \<Longrightarrow>
   touches (fh_path (bw_inner b)) s s' \<and> fh_path (bw_inner b') = fh_path (bw_inner b)"
  by (auto simp: buf_flush_def split: prod.splits result.splits dest!: touches_write_all)

lemma buf_push_touches:
  "buf_push b x s = (r, b', s') \<Longrightarrow>
   touches (fh_path (bw_inner b)) s s' \<and> fh_path (bw_inner b') = fh_path (bw_inner b)"
  by (auto simp: buf_push_def split: prod.splits if_splits dest!: touches_write_all)

lemma buf_write_all_touches:
  "buf_write_all b x s = (r, b', s') \<Longrightarrow>
   touches (fh_path (bw_inner b)) s s' \<and> fh_path (bw_inner b') = fh_path (bw_inner b)"
  by (auto simp: buf_write_all_def Let_def split: prod.splits if_splits result.splits
      dest!: buf_flush_touches buf_push_touches intro: touches_trans)

lemma buf_no_panic: "buf_flush b s \<noteq> (Panic, b', s')" "buf_push b x s \<noteq> (Panic, b', s')"
  by (auto simp: buf_flush_def buf_push_def split: prod.splits result.splits)

lemma buf_write_all_no_panic: "buf_write_all b x s \<noteq> (Panic, b', s')"
  by (auto simp: buf_write_all_def Let_def buf_no_panic split: prod.splits if_splits result.splits)

interpretation buffered_file: file_writer buf_write_all buf_flush buf_drop "\<lambda>b. fh_path (bw_inner b)"
  "\<lambda>p. \<lparr>bw_inner = \<lparr>fh_path = p, fh_pos = 0\<rparr>, bw_buf = []\<rparr>" buf_holds
proof
  fix b b' :: buf_writer and d c s r s' u p
  show "files s p = Some [] \<Longrightarrow> buf_holds \<lparr>bw_inner = \<lparr>fh_path = p, fh_pos = 0\<rparr>, bw_buf = []\<rparr> [] s"
    by (simp add: buf_holds_def file_holds_def appending_def)
  show "buf_write_all b d s = (r, b', s') \<Longrightarrow>
      touches (fh_path (bw_inner b)) s s' \<and> fh_path (bw_inner b') = fh_path (bw_inner b)"
    by (rule buf_write_all_touches)
  show "buf_flush b s = (r, b', s') \<Longrightarrow>
      touches (fh_path (bw_inner b)) s s' \<and> fh_path (bw_inner b') = fh_path (bw_inner b)"
    by (rule buf_flush_touches)
  show "touches (fh_path (bw_inner b)) s (buf_drop b s)"
    by (auto simp: buf_drop_def split: prod.splits dest: buf_flush_touches)
  show "buf_holds b c s \<Longrightarrow> buf_write_all b d s = (Ok u, b', s') \<Longrightarrow> buf_holds b' (c @ d) s'"
    using buf_write_all_holds [of b c s d] by auto
  show "buf_holds b c s \<Longrightarrow> buf_flush b s = (Ok u, b', s') \<Longrightarrow>
      files (buf_drop b' s') (fh_path (bw_inner b)) = Some c"
    using buf_flush_holds [of b c s]
    by (auto simp: buf_drop_def buf_flush_def [of "\<lparr>bw_inner = _, bw_buf = []\<rparr>"] file_write_all_def
        split: if_splits)
  show "buf_holds b c s \<Longrightarrow> \<not> full s (fh_path (bw_inner b)) \<Longrightarrow> \<exists>b' s'. buf_write_all b d s = (Ok (), b', s')"
    using buf_write_all_holds [of b c s d] by blast
  show "buf_holds b c s \<Longrightarrow> \<not> full s (fh_path (bw_inner b)) \<Longrightarrow> \<exists>b' s'. buf_flush b s = (Ok (), b', s')"
    using buf_flush_holds [of b c s] by auto
qed (simp_all add: buf_no_panic buf_write_all_no_panic)

lemma file_disk_ops:
  "plainfile_disk = file_ops pf_path (\<lambda>p. \<lparr>bw_inner = \<lparr>fh_path = p, fh_pos = 0\<rparr>, bw_buf = []\<rparr>)
     buf_write_all buf_flush buf_drop"
  "unbuffered_disk = file_ops ub_path (\<lambda>p. \<lparr>fh_path = p, fh_pos = 0\<rparr>) file_write_all file_flush file_drop"
  "write_unbuffered_disk = file_ops wu_path (\<lambda>p. \<lparr>fh_path = p, fh_pos = 0\<rparr>) file_write_all file_flush file_drop"
  by (simp_all add: file_ops_def fun_eq_iff
      plainfile_disk_def plainfile_read_disk_def plainfile_write_disk_def
      unbuffered_disk_def unbuffered_read_disk_def unbuffered_write_disk_def
      write_unbuffered_disk_def write_unbuffered_read_disk_def write_unbuffered_write_disk_def)

interpretation plain: byte_disk plainfile_disk pf_path
  "\<lambda>d. file_stored (pf_path d)" "\<lambda>d. file_writable (pf_path d)"
  unfolding file_disk_ops by (rule buffered_file.file_disk)

interpretation unbuf: byte_disk unbuffered_disk ub_path
  "\<lambda>d. file_stored (ub_path d)" "\<lambda>d. file_writable (ub_path d)"
  unfolding file_disk_ops by (rule raw_file.file_disk)

interpretation write_unbuf: byte_disk write_unbuffered_disk wu_path
  "\<lambda>d. file_stored (wu_path d)" "\<lambda>d. file_writable (wu_path d)"
  unfolding file_disk_ops by (rule raw_file.file_disk)

section \<open>The file disks are interchangeable\<close>

text \<open>
  the three file disks are completely interchangeable, as the module documentation promises:
  on a path that can be written, a write session through any of them ends in the same store, with
  exactly the concatenation of the written pieces in the file whatever the buffering, and a read
  through any of them returns these bytes.
\<close>

theorem file_disks_interchangeable:
  assumes "file_writable p s"
  shows "let s' = set_file p (Some (concat ps)) s in
    put plainfile_disk (Plainfile p) ps True s = (Ok (), s') \<and>
    put unbuffered_disk (Unbuffered p) ps True s = (Ok (), s') \<and>
    put write_unbuffered_disk (WriteUnbuffered p) ps True s = (Ok (), s') \<and>
    plainfile_read_disk (Plainfile p) s' = (Ok (concat ps), s') \<and>
    unbuffered_read_disk (Unbuffered p) s' = (Ok (concat ps), s') \<and>
    write_unbuffered_read_disk (WriteUnbuffered p) s' = (Ok (concat ps), s')"
proof -
  define s' where "s' = set_file p (Some (concat ps)) s"
  obtain s1 where 1: "put plainfile_disk (Plainfile p) ps True s = (Ok (), s1)"
    using plain.put_writable [of "Plainfile p" s ps] assms(1) by auto
  obtain s2 where 2: "put unbuffered_disk (Unbuffered p) ps True s = (Ok (), s2)"
    using unbuf.put_writable [of "Unbuffered p" s ps] assms(1) by auto
  obtain s3 where 3: "put write_unbuffered_disk (WriteUnbuffered p) ps True s = (Ok (), s3)"
    using write_unbuf.put_writable [of "WriteUnbuffered p" s ps] assms(1) by auto
  have "s1 = s'" "s2 = s'" "s3 = s'"
    using buffered_file.put_exact [OF 1 [unfolded file_disk_ops]]
      raw_file.put_exact [OF 2 [unfolded file_disk_ops]]
      raw_file.put_exact [OF 3 [unfolded file_disk_ops]] by (simp_all add: s'_def)
  moreover have "fs_read p s' = Ok (concat ps)"
    using assms(1) by (simp add: s'_def fs_read_def file_writable_def)
  ultimately show ?thesis
    using 1 2 3 by (simp add: Let_def s'_def [symmetric] plainfile_read_disk_def unbuffered_read_disk_def write_unbuffered_read_disk_def)
qed

theorem file_disks_interchangeable_witness:
  "let p = [''f'']; s' = set_file p (Some [1, 2, 3]) empty_fs in
   put plainfile_disk (Plainfile p) [[1], [2, 3]] True empty_fs = (Ok (), s') \<and>
   put unbuffered_disk (Unbuffered p) [[1], [2, 3]] True empty_fs = (Ok (), s') \<and>
   write_unbuffered_read_disk (WriteUnbuffered p) s' = (Ok [1, 2, 3], s')"
  using file_disks_interchangeable [of "[''f'']" empty_fs "[[1], [2, 3]]"]
  by (simp add: Let_def file_writable_def empty_fs_def parent_def)

end
