(* ===== verification/Formats.thy ===== *)
theory Formats
  imports Disks
begin

text \<open>
  The coders of \<open>src/entry/formats\<close>. What the third-party serializers do with a value (the pieces
  they write, the error they stop with, what they parse) is a parameter of every definition; the
  crate's own code is how an \<open>encode\<close> drives a writer and which variant each error becomes.
\<close>

section \<open>The traits\<close>

text \<open>
  \<open>Encoder\<close> and \<open>Decoder\<close> of one format. \<open>c_pieces\<close> is what the coder writes for a value and
  the error it ends with, if it does; \<open>c_write_io\<close> is the error a failed write inside the
  serializer becomes and \<open>c_from_io\<close> the \<open>From<io::Error>\<close> of the format's error type, which \<open>?\<close>
  applies to the errors of \<open>flush\<close> and of opening the disk.
\<close>

record ('c, 'v, 'e) coder_ops =
  c_pieces :: "'c \<Rightarrow> 'v \<Rightarrow> bytes list \<times> 'e option"
  c_write_io :: "io_error \<Rightarrow> 'e"
  c_from_io :: "io_error \<Rightarrow> 'e"
  c_parse :: "'c \<Rightarrow> bytes \<Rightarrow> ('v, 'e) result"

text \<open>
  \<open>Encoder::encode\<close> on a writer it owns: the pieces, the serializer's error, or \<open>flush\<close>.
\<close>

definition encode_error :: "('c, 'v, 'e) coder_ops \<Rightarrow> 'c \<Rightarrow> 'v \<Rightarrow> put_error \<Rightarrow> 'e" where
  "encode_error C c v x =
     (case x of
        Ser \<Rightarrow> the (snd (c_pieces C c v))
      | WriteIo e \<Rightarrow> c_write_io C e
      | FlushIo e \<Rightarrow> c_from_io C e
      | OpenIo e \<Rightarrow> c_from_io C e)"

definition encode ::
  "('c, 'v, 'e) coder_ops \<Rightarrow> ('d, 'wr, 'w) disk_ops \<Rightarrow> 'c \<Rightarrow> 'v \<Rightarrow> 'wr \<Rightarrow> 'w \<Rightarrow>
     (unit, 'e) result \<times> 'w" where
  "encode C D c v wr w =
     (case serialize_flush D wr (fst (c_pieces C c v)) (snd (c_pieces C c v) = None) w of
        (r, w') \<Rightarrow> (map_err (encode_error C c v) r, w'))"

text \<open>\<open>Decoder::decode\<close> on a reader, which is what it yields when read to the end.\<close>

definition decode :: "('c, 'v, 'e) coder_ops \<Rightarrow> 'c \<Rightarrow> bytes \<Rightarrow> ('v, 'e) result" where
  "decode C c b = c_parse C c b"

text \<open>
  \<open>disk.write_disk()?\<close> followed by \<open>coder.encode(v, disk)?\<close>, and \<open>disk.read_disk()?\<close> followed by
  \<open>coder.decode(&mut disk)?\<close>, the two sequences the entries are built from.
\<close>

definition write_value ::
  "('c, 'v, 'e) coder_ops \<Rightarrow> ('d, 'wr, 'w) disk_ops \<Rightarrow> 'c \<Rightarrow> 'd \<Rightarrow> 'v \<Rightarrow> 'w \<Rightarrow> (unit, 'e) result \<times> 'w" where
  "write_value C D c d v w =
     (case d_write D d w of
        (Ok wr, w1) \<Rightarrow> encode C D c v wr w1
      | (Err e, w1) \<Rightarrow> (Err (c_from_io C e), w1)
      | (Panic, w1) \<Rightarrow> (Panic, w1))"

definition read_value ::
  "('c, 'v, 'e) coder_ops \<Rightarrow> ('d, 'wr, 'w) disk_ops \<Rightarrow> 'c \<Rightarrow> 'd \<Rightarrow> 'w \<Rightarrow> ('v, 'e) result \<times> 'w" where
  "read_value C D c d w =
     (case d_read D d w of
        (Ok b, w1) \<Rightarrow> (decode C c b, w1)
      | (Err e, w1) \<Rightarrow> (Err (c_from_io C e), w1)
      | (Panic, w1) \<Rightarrow> (Panic, w1))"

section \<open>What a serializer promises\<close>

text \<open>
  The documented behaviour of a serializer used both ways: when it accepts a value, parsing the
  bytes it wrote gives the value back; and parsing returns. The predicate \<open>accepts\<close> says for
  which values it does not stop with an error.
\<close>

definition accepts :: "('c, 'v, 'e) coder_ops \<Rightarrow> 'c \<Rightarrow> 'v \<Rightarrow> bool" where
  "accepts C c v \<longleftrightarrow> snd (c_pieces C c v) = None"

definition encoding :: "('c, 'v, 'e) coder_ops \<Rightarrow> 'c \<Rightarrow> 'v \<Rightarrow> bytes" where
  "encoding C c v = concat (fst (c_pieces C c v))"

definition coder_roundtrip :: "('c, 'v, 'e) coder_ops \<Rightarrow> bool" where
  "coder_roundtrip C \<longleftrightarrow>
     (\<forall>c v. accepts C c v \<longrightarrow> c_parse C c (encoding C c v) = Ok v) \<and> (\<forall>c b. c_parse C c b \<noteq> Panic)"

lemma roundtrip_parse: "coder_roundtrip C \<Longrightarrow> accepts C c v \<Longrightarrow> c_parse C c (encoding C c v) = Ok v"
  by (simp add: coder_roundtrip_def)

lemma write_value_put:
  "write_value C D c d v w =
     (case put D d (fst (c_pieces C c v)) (accepts C c v) w of
        (r, w') \<Rightarrow> (map_err (encode_error C c v) r, w'))"
proof (cases "d_write D d w")
  case (Pair r w1)
  then show ?thesis
    by (cases r) (simp_all add: write_value_def put_def encode_def accepts_def encode_error_def)
qed

section \<open>A disk and a coder together\<close>

text \<open>
  What a \<open>BackedEntry\<close> is built on. The value on a disk is what its bytes parse to.
\<close>

locale backing = byte_disk D site stored writable
  for D :: "('d, 'wr, 'w) disk_ops"
    and site :: "'d \<Rightarrow> 'k"
    and stored :: "'d \<Rightarrow> 'w \<Rightarrow> bytes option"
    and writable :: "'d \<Rightarrow> 'w \<Rightarrow> bool" +
  fixes C :: "('c, 'v, 'e) coder_ops"
  assumes roundtrip: "coder_roundtrip C"
begin

definition on_disk :: "'c \<Rightarrow> 'd \<Rightarrow> 'w \<Rightarrow> 'v option" where
  "on_disk c d w = (case stored d w of None \<Rightarrow> None
     | Some b \<Rightarrow> (case c_parse C c b of Ok v \<Rightarrow> Some v | _ \<Rightarrow> None))"

lemma write_value_ok:
  assumes "write_value C D c d v w = (Ok u, w')"
  shows "on_disk c d w' = Some v" and "accepts C c v"
proof -
  from assms obtain u' where P: "put D d (fst (c_pieces C c v)) (accepts C c v) w = (Ok u', w')"
    by (auto simp: write_value_put split: prod.splits)
  then have "accepts C c v \<and> stored d w' = Some (encoding C c v)"
    by (auto simp: encoding_def dest: put_stored)
  with roundtrip show "on_disk c d w' = Some v" "accepts C c v"
    by (auto simp: on_disk_def roundtrip_parse)
qed

lemma write_value_frame:
  assumes "write_value C D c d v w = (r, w')" and "site d' \<noteq> site d"
  shows "on_disk c' d' w' = on_disk c' d' w"
proof -
  from assms(1) obtain r' where "put D d (fst (c_pieces C c v)) (accepts C c v) w = (r', w')"
    by (auto simp: write_value_put split: prod.splits)
  from put_frame [OF this assms(2)] show ?thesis by (simp add: on_disk_def)
qed

lemma write_value_returns: "write_value C D c d v w \<noteq> (Panic, w')"
proof
  assume "write_value C D c d v w = (Panic, w')"
  then have "put D d (fst (c_pieces C c v)) (accepts C c v) w = (Panic, w')"
    by (auto simp: write_value_put split: prod.splits)
  with put_returns show False by blast
qed

lemma write_value_succeeds:
  assumes "writable d w" and "accepts C c v"
  shows "\<exists>w'. write_value C D c d v w = (Ok (), w')"
proof -
  from put_writable [OF assms(1)] obtain w' where
    "put D d (fst (c_pieces C c v)) True w = (Ok (), w')" by blast
  with assms(2) show ?thesis by (simp add: write_value_put)
qed

lemma write_value_writable:
  assumes "write_value C D c d v w = (r, w')"
  shows "writable d' w' = writable d' w"
proof -
  from assms obtain r' where "put D d (fst (c_pieces C c v)) (accepts C c v) w = (r', w')"
    by (auto simp: write_value_put split: prod.splits)
  then show ?thesis by (rule put_keeps_writable)
qed

lemma read_value_ok: "on_disk c d w = Some v \<Longrightarrow> read_value C D c d w = (Ok v, w)"
  by (auto simp: on_disk_def read_value_def decode_def read_of_stored split: option.splits result.splits)

lemma read_value_pure: "read_value C D c d w = (r, w') \<Longrightarrow> w' = w"
  by (auto simp: read_value_def split: prod.splits result.splits dest: read_pure)

lemma read_value_returns: "read_value C D c d w \<noteq> (Panic, w')"
  using roundtrip read_returns
  by (auto simp: read_value_def decode_def coder_roundtrip_def split: prod.splits result.splits)

lemma read_value_iff: "fst (read_value C D c d w) = Ok v \<longleftrightarrow> on_disk c d w = Some v"
proof (cases "stored d w")
  case None
  from read_missing [OF this] None show ?thesis by (auto simp: read_value_def on_disk_def)
next
  case (Some b)
  from read_of_stored [OF this] Some show ?thesis
    by (auto simp: read_value_def on_disk_def decode_def split: result.splits)
qed

end

lemma plainfile_backing:
  "coder_roundtrip C \<Longrightarrow> backing plainfile_disk pf_path (\<lambda>d. file_stored (pf_path d))
     (\<lambda>d. file_writable (pf_path d)) C"
  by (intro backing.intro backing_axioms.intro plain.byte_disk_axioms)

lemma unbuffered_backing:
  "coder_roundtrip C \<Longrightarrow> backing unbuffered_disk ub_path (\<lambda>d. file_stored (ub_path d))
     (\<lambda>d. file_writable (ub_path d)) C"
  by (intro backing.intro backing_axioms.intro unbuf.byte_disk_axioms)

lemma write_unbuffered_backing:
  "coder_roundtrip C \<Longrightarrow> backing write_unbuffered_disk wu_path (\<lambda>d. file_stored (wu_path d))
     (\<lambda>d. file_writable (wu_path d)) C"
  by (intro backing.intro backing_axioms.intro write_unbuf.byte_disk_axioms)

section \<open>The formats\<close>

text \<open>
  A serializer library for one type of values: the pieces it writes with the error it may end
  with, the error it makes of a failing writer, its parser, and the conversion of its errors to
  \<open>io::Error\<close>. \<open>serde_lib_laws\<close> is its documented behaviour.
\<close>

record ('v, 'le) serde_lib =
  lib_pieces :: "'v \<Rightarrow> bytes list \<times> 'le option"
  lib_io :: "io_error \<Rightarrow> 'le"
  lib_parse :: "bytes \<Rightarrow> ('v, 'le) result"
  lib_into_io :: "'le \<Rightarrow> io_error"

locale serializer =
  fixes L :: "('v, 'le) serde_lib"
  assumes parses_back: "snd (lib_pieces L v) = None \<Longrightarrow> lib_parse L (concat (fst (lib_pieces L v))) = Ok v"
    and parse_returns: "lib_parse L b \<noteq> Panic"
    and into_io: "lib_into_io L (lib_io L e) = e"
begin

lemma parses_pieces: "lib_pieces L v = (ps, None) \<Longrightarrow> lib_parse L (concat ps) = Ok v"
  using parses_back [of v] by simp

end

text \<open>
  \<open>BincodeCoder\<close>: the options with a limit of \<open>u32::MAX\<close> bytes that allow trailing bytes are an
  argument of the library; \<open>bincode::Error\<close> is the error type of both directions.
\<close>

datatype bincode_coder = BincodeCoder

record bincode_options =
  limit :: nat
  allow_trailing :: bool

definition bincode_config :: bincode_options where
  "bincode_config = \<lparr>limit = 2 ^ 32 - 1, allow_trailing = True\<rparr>"

definition bincode_ops ::
  "(bincode_options \<Rightarrow> ('v, 'le) serde_lib) \<Rightarrow> (bincode_coder, 'v, 'le) coder_ops" where
  "bincode_ops L = \<lparr>c_pieces = (\<lambda>_. lib_pieces (L bincode_config)), c_write_io = lib_io (L bincode_config),
     c_from_io = lib_io (L bincode_config), c_parse = (\<lambda>_. lib_parse (L bincode_config))\<rparr>"

text \<open>
  \<open>SerdeJsonCoder\<close>: the error has a variant for the library's errors and one for I/O, but
  \<open>encode\<close> first converts every serializer error to an \<open>io::Error\<close>; only \<open>decode\<close> returns the
  first variant.
\<close>

datatype serde_json_coder = SerdeJsonCoder
datatype 'le serde_json_err = SerdeJson 'le | JsonIO io_error

definition serde_json_ops :: "('v, 'le) serde_lib \<Rightarrow> (serde_json_coder, 'v, 'le serde_json_err) coder_ops" where
  "serde_json_ops L =
     \<lparr>c_pieces = (\<lambda>_ v. case lib_pieces L v of (ps, e) \<Rightarrow> (ps, map_option (\<lambda>x. JsonIO (lib_into_io L x)) e)),
      c_write_io = (\<lambda>e. JsonIO (lib_into_io L (lib_io L e))), c_from_io = JsonIO,
      c_parse = (\<lambda>_ b. map_err SerdeJson (lib_parse L b))\<rparr>"

text \<open>\<open>SimdJsonCoder\<close>, and the conversions between the two JSON coders, which carry no data.\<close>

datatype simd_json_coder = SimdJsonCoder

definition simd_json_ops :: "('v, 'le) serde_lib \<Rightarrow> (simd_json_coder, 'v, 'le) coder_ops" where
  "simd_json_ops L = \<lparr>c_pieces = (\<lambda>_. lib_pieces L), c_write_io = lib_io L, c_from_io = lib_io L,
     c_parse = (\<lambda>_. lib_parse L)\<rparr>"

definition serde_json_from_simd :: "simd_json_coder \<Rightarrow> serde_json_coder" where
  "serde_json_from_simd c = SerdeJsonCoder"

definition simd_json_from_serde :: "serde_json_coder \<Rightarrow> simd_json_coder" where
  "simd_json_from_serde c = SimdJsonCoder"

lemma json_conversions:
  "serde_json_from_simd (simd_json_from_serde c) = c" "simd_json_from_serde (serde_json_from_simd c') = c'"
  by (cases c; cases c'; simp add: serde_json_from_simd_def simd_json_from_serde_def)+

text \<open>Every format over a serializer is a backing on the file disks.\<close>

sublocale serializer \<subseteq> simd: backing plainfile_disk pf_path "\<lambda>d. file_stored (pf_path d)"
  "\<lambda>d. file_writable (pf_path d)" "simd_json_ops L"
  by (rule plainfile_backing)
    (use parses_back parse_returns in \<open>auto simp: coder_roundtrip_def accepts_def encoding_def simd_json_ops_def\<close>)

sublocale serializer \<subseteq> json: backing plainfile_disk pf_path "\<lambda>d. file_stored (pf_path d)"
  "\<lambda>d. file_writable (pf_path d)" "serde_json_ops L"
  by (rule plainfile_backing)
    (use parses_pieces parse_returns in \<open>auto simp: coder_roundtrip_def accepts_def encoding_def serde_json_ops_def
      split: prod.splits\<close>)

sublocale serializer \<subseteq> bincode: backing plainfile_disk pf_path "\<lambda>d. file_stored (pf_path d)"
  "\<lambda>d. file_writable (pf_path d)" "bincode_ops (\<lambda>_. L)"
  by (rule plainfile_backing)
    (use parses_back parse_returns in \<open>auto simp: coder_roundtrip_def accepts_def encoding_def bincode_ops_def\<close>)

text \<open>
  A serializer that can be run: byte strings of fewer than 256 bytes behind a length byte, trailing
  bytes allowed. It shows that the laws above can be met, and the examples are computed with it.
\<close>

datatype prefix_err = PrefixIo io_error | TooLong | Eof

definition prefix_lib :: "(bytes, prefix_err) serde_lib" where
  "prefix_lib =
     \<lparr>lib_pieces = (\<lambda>v. if length v < 256 then ([[of_nat (length v)], v], None) else ([], Some TooLong)),
      lib_io = PrefixIo,
      lib_parse = (\<lambda>b. case b of [] \<Rightarrow> Err Eof
        | n # rest \<Rightarrow> if unat n \<le> length rest then Ok (take (unat n) rest) else Err Eof),
      lib_into_io = (\<lambda>e. case e of PrefixIo x \<Rightarrow> x | _ \<Rightarrow> OtherError)\<rparr>"

interpretation prefix: serializer prefix_lib
proof
  fix v :: bytes
  have "unat (of_nat (length v) :: byte) = length v" if "length v < 256"
    using that by (simp add: unat_of_nat take_bit_eq_mod)
  then show "snd (lib_pieces prefix_lib v) = None \<Longrightarrow>
      lib_parse prefix_lib (concat (fst (lib_pieces prefix_lib v))) = Ok v"
    by (auto simp: prefix_lib_def split: if_splits)
qed (auto simp: prefix_lib_def split: list.splits)

definition prefix_ops :: "(bincode_coder, bytes, prefix_err) coder_ops" where
  "prefix_ops = bincode_ops (\<lambda>_. prefix_lib)"

lemma prefix_roundtrip: "coder_roundtrip prefix_ops"
  unfolding prefix_ops_def by (rule prefix.bincode.roundtrip)

lemma prefix_simps [simp]:
  "c_pieces prefix_ops c v = (if length v < 256 then ([[of_nat (length v)], v], None) else ([], Some TooLong))"
  "c_parse prefix_ops c [] = Err Eof"
  "c_parse prefix_ops c (n # rest) = (if unat n \<le> length rest then Ok (take (unat n) rest) else Err Eof)"
  "c_write_io prefix_ops e = PrefixIo e" "c_from_io prefix_ops e = PrefixIo e"
  by (simp_all add: prefix_ops_def bincode_ops_def prefix_lib_def)

interpretation prefix_plain: backing plainfile_disk pf_path "\<lambda>d. file_stored (pf_path d)"
  "\<lambda>d. file_writable (pf_path d)" prefix_ops
  by (rule plainfile_backing [OF prefix_roundtrip])

section \<open>Errors of the JSON coder\<close>

text \<open>
  encoding with \<open>SerdeJsonCoder\<close> never reports its \<open>SerdeJson\<close> variant, on any disk and in any
  store: a value the serializer rejects and a writer that fails both come out as \<open>IO\<close>.
\<close>

theorem serde_json_encode_io_only:
  "fst (encode (serde_json_ops L) D c v wr w) \<noteq> Err (SerdeJson x)"
proof -
  obtain ps e where P: "lib_pieces L v = (ps, e)" by fastforce
  obtain r w' where S: "serialize_flush D wr ps (e = None) w = (r, w')" by fastforce
  have ser: "r = Err Ser \<Longrightarrow> e \<noteq> None"
    using S by (auto simp: serialize_flush_def split: prod.splits result.splits if_splits)
  show ?thesis
    using P S ser
    by (cases r) (auto simp: encode_def serde_json_ops_def encode_error_def split: put_error.splits)
qed

end
