(* ===== verification/Once_Cell.thy ===== *)
theory Once_Cell
  imports Prelude
begin

text \<open>
  The trait \<open>Once\<close> of \<open>src/utils/once.rs\<close>, a cell that is empty or holds one value, and
  its implementations: the cells of the standard library, tokio's cell through its own functions,
  and the value part of \<open>AsyncOnceLock\<close> (\<open>src/utils/sync.rs\<close>). What a \<open>BackedEntry\<close> needs of its
  cell is the locale \<open>once\<close>. The implementations agree on it and differ in one point: whether
  \<open>get_or_init\<close> runs its argument when the cell is already set.
\<close>

section \<open>The contract\<close>

text \<open>
  The argument of \<open>get_or_init\<close> is a function with an effect on a state of its own, so that
  running it can be observed.
\<close>

record ('cell, 'v, 's) once_ops =
  o_new :: 'cell
  o_get :: "'cell \<Rightarrow> 'v option"
  o_set :: "'v \<Rightarrow> 'cell \<Rightarrow> (unit, 'v) result \<times> 'cell"
  o_get_or_init :: "('s \<Rightarrow> 'v \<times> 's) \<Rightarrow> 'cell \<Rightarrow> 's \<Rightarrow> ('v, unit) result \<times> 'cell \<times> 's"
  o_into_inner :: "'cell \<Rightarrow> 'v option"
  o_take :: "'cell \<Rightarrow> 'v option \<times> 'cell"

locale once =
  fixes Cell :: "('cell, 'v, 's) once_ops"
    and valid :: "'cell \<Rightarrow> bool"
  assumes valid_new: "valid (o_new Cell)"
    and get_new: "o_get Cell (o_new Cell) = None"
    and set_empty: "valid c \<Longrightarrow> o_get Cell c = None \<Longrightarrow> o_set Cell v c = (r, c') \<Longrightarrow>
      r = Ok () \<and> o_get Cell c' = Some v \<and> valid c'"
    and set_full: "valid c \<Longrightarrow> o_get Cell c = Some x \<Longrightarrow> o_set Cell v c = (r, c') \<Longrightarrow>
      r = Err v \<and> o_get Cell c' = Some x \<and> valid c'"
    and init_full: "valid c \<Longrightarrow> o_get Cell c = Some x \<Longrightarrow> o_get_or_init Cell f c s = (ri, c', s') \<Longrightarrow>
      ri = Ok x \<and> o_get Cell c' = Some x \<and> valid c'"
    and init_empty: "valid c \<Longrightarrow> o_get Cell c = None \<Longrightarrow> o_get_or_init Cell f c s = (ri, c', s') \<Longrightarrow>
      ri = Ok (fst (f s)) \<and> s' = snd (f s) \<and> o_get Cell c' = Some (fst (f s)) \<and> valid c'"
    and into_inner: "valid c \<Longrightarrow> o_into_inner Cell c = o_get Cell c"
    and take: "valid c \<Longrightarrow> o_take Cell c = (y, c') \<Longrightarrow>
      y = o_get Cell c \<and> o_get Cell c' = None \<and> valid c'"
begin

text \<open>A value, once set, is what every later operation returns until the cell is taken.\<close>

lemma set_only_once:
  assumes "valid c" and "o_set Cell v c = (Ok u, c1)" and "o_set Cell v' c1 = (r, c2)"
  shows "r = Err v' \<and> o_get Cell c2 = Some v"
proof (cases "o_get Cell c")
  case None
  with set_empty [OF assms(1) None assms(2)] set_full [of c1 v v' r c2] assms(3) show ?thesis by simp
next
  case (Some x)
  with set_full [OF assms(1) Some assms(2)] show ?thesis by simp
qed

lemma init_returns: "valid c \<Longrightarrow> o_get_or_init Cell f c s = (r, c', s') \<Longrightarrow> r \<noteq> Panic"
  by (cases "o_get Cell c") (auto dest: init_full init_empty)

lemma init_gets:
  "valid c \<Longrightarrow> o_get_or_init Cell f c s = (Ok x, c', s') \<Longrightarrow> o_get Cell c' = Some x"
  by (cases "o_get Cell c") (auto dest: init_full init_empty)

lemma refill:
  assumes "valid c" and "o_take Cell c = (x, c1)" and "o_set Cell v c1 = (r, c2)"
  shows "r = Ok () \<and> o_into_inner Cell c2 = Some v"
  using take [OF assms(1,2)] set_empty [of c1 v r c2] into_inner [of c2] assms(3) by simp

end

section \<open>The cells of the standard library\<close>

text \<open>
  \<open>OnceCell\<close> and \<open>OnceLock\<close> differ only in what threads may do; as values both are an option.
\<close>

type_synonym 'v once_cell = "'v option"

definition oc_new :: "'v once_cell" where
  "oc_new = None"

definition oc_get :: "'v once_cell \<Rightarrow> 'v option" where
  "oc_get c = c"

definition oc_set :: "'v \<Rightarrow> 'v once_cell \<Rightarrow> (unit, 'v) result \<times> 'v once_cell" where
  "oc_set v c = (case c of None \<Rightarrow> (Ok (), Some v) | Some _ \<Rightarrow> (Err v, c))"

definition oc_get_or_init ::
  "('s \<Rightarrow> 'v \<times> 's) \<Rightarrow> 'v once_cell \<Rightarrow> 's \<Rightarrow> ('v, unit) result \<times> 'v once_cell \<times> 's" where
  "oc_get_or_init f c s =
     (case c of Some x \<Rightarrow> (Ok x, c, s) | None \<Rightarrow> (case f s of (x, s') \<Rightarrow> (Ok x, Some x, s')))"

definition oc_into_inner :: "'v once_cell \<Rightarrow> 'v option" where
  "oc_into_inner c = c"

definition oc_take :: "'v once_cell \<Rightarrow> 'v option \<times> 'v once_cell" where
  "oc_take c = (c, None)"

definition once_cell_ops :: "('v once_cell, 'v, 's) once_ops" where
  "once_cell_ops = \<lparr>o_new = oc_new, o_get = oc_get, o_set = oc_set, o_get_or_init = oc_get_or_init,
     o_into_inner = oc_into_inner, o_take = oc_take\<rparr>"

lemmas oc_defs = oc_new_def oc_get_def oc_set_def oc_get_or_init_def oc_into_inner_def oc_take_def

interpretation std_once: once once_cell_ops "\<lambda>_. True"
  by unfold_locales (auto simp: once_cell_ops_def oc_defs split: option.splits prod.splits)

section \<open>Tokio's cell\<close>

text \<open>
  The functions of \<open>tokio::sync::OnceCell\<close> are a parameter; the crate's own code around them is
  below. What it relies on is documented behaviour: \<open>set\<close> stores into an empty cell and is
  refused by a full one, \<open>initialized\<close> says whether the cell is full.
\<close>

record ('cell, 'v) tokio_ops =
  tk_new :: 'cell
  tk_get :: "'cell \<Rightarrow> 'v option"
  tk_initialized :: "'cell \<Rightarrow> bool"
  tk_set :: "'v \<Rightarrow> 'cell \<Rightarrow> bool \<times> 'cell"
  tk_into_inner :: "'cell \<Rightarrow> 'v option"
  tk_take :: "'cell \<Rightarrow> 'v option \<times> 'cell"

definition tokio_once_set :: "('cell, 'v) tokio_ops \<Rightarrow> 'v \<Rightarrow> 'cell \<Rightarrow> (unit, 'v) result \<times> 'cell" where
  "tokio_once_set T v c =
     (if tk_initialized T c then (Err v, c)
      else (case tk_set T v c of (_, c') \<Rightarrow> (Ok (), c')))"

definition tokio_once_get_or_init ::
  "('cell, 'v) tokio_ops \<Rightarrow> ('s \<Rightarrow> 'v \<times> 's) \<Rightarrow> 'cell \<Rightarrow> 's \<Rightarrow> ('v, unit) result \<times> 'cell \<times> 's" where
  "tokio_once_get_or_init T f c s =
     (case f s of (v, s') \<Rightarrow> case tk_set T v c of (_, c') \<Rightarrow> (unwrap_opt (tk_get T c'), c', s'))"

definition tokio_once_ops :: "('cell, 'v) tokio_ops \<Rightarrow> ('cell, 'v, 's) once_ops" where
  "tokio_once_ops T = \<lparr>o_new = tk_new T, o_get = tk_get T, o_set = tokio_once_set T,
     o_get_or_init = tokio_once_get_or_init T, o_into_inner = tk_into_inner T, o_take = tk_take T\<rparr>"

locale tokio_cell =
  fixes T :: "('cell, 'v) tokio_ops"
  assumes tk_new: "tk_get T (tk_new T) = None"
    and tk_init: "tk_initialized T c \<longleftrightarrow> tk_get T c \<noteq> None"
    and tk_set_empty: "tk_get T c = None \<Longrightarrow> tk_set T v c = (ok, c') \<Longrightarrow> ok \<and> tk_get T c' = Some v"
    and tk_set_full: "tk_get T c = Some x \<Longrightarrow> tk_set T v c = (ok, c') \<Longrightarrow> \<not> ok \<and> tk_get T c' = Some x"
    and tk_inner: "tk_into_inner T c = tk_get T c"
    and tk_take: "tk_take T c = (y, c') \<Longrightarrow> y = tk_get T c \<and> tk_get T c' = None"
begin

lemma get_or_init_value:
  assumes "tokio_once_get_or_init T f c s = (r, c', s')"
  shows "r = Ok (case tk_get T c of Some x \<Rightarrow> x | None \<Rightarrow> fst (f s)) \<and>
    tk_get T c' = Some (case tk_get T c of Some x \<Rightarrow> x | None \<Rightarrow> fst (f s)) \<and> s' = snd (f s)"
proof -
  obtain ok c1 where set: "tk_set T (fst (f s)) c = (ok, c1)" by fastforce
  show ?thesis
  proof (cases "tk_get T c")
    case None
    with tk_set_empty [OF None set] set assms show ?thesis
      by (auto simp: tokio_once_get_or_init_def unwrap_opt_def split: prod.splits)
  next
    case (Some x)
    with tk_set_full [OF Some set] set assms show ?thesis
      by (auto simp: tokio_once_get_or_init_def unwrap_opt_def split: prod.splits)
  qed
qed

end

sublocale tokio_cell \<subseteq> tokio: once "tokio_once_ops T" "\<lambda>_. True"
proof
  fix c c' :: 'cell and v x :: 'v and r :: "(unit, 'v) result"
  show "o_get (tokio_once_ops T) (o_new (tokio_once_ops T)) = None"
    by (simp add: tokio_once_ops_def tk_new)
  show "o_get (tokio_once_ops T) c = None \<Longrightarrow> o_set (tokio_once_ops T) v c = (r, c') \<Longrightarrow>
      r = Ok () \<and> o_get (tokio_once_ops T) c' = Some v \<and> True"
    by (auto simp: tokio_once_ops_def tokio_once_set_def tk_init dest: tk_set_empty split: prod.splits)
  show "o_get (tokio_once_ops T) c = Some x \<Longrightarrow> o_set (tokio_once_ops T) v c = (r, c') \<Longrightarrow>
      r = Err v \<and> o_get (tokio_once_ops T) c' = Some x \<and> True"
    by (auto simp: tokio_once_ops_def tokio_once_set_def tk_init)
qed (auto simp: tokio_once_ops_def tk_inner dest!: tk_take get_or_init_value)

text \<open>An instance: the cell as an option.\<close>

definition option_tokio :: "('v option, 'v) tokio_ops" where
  "option_tokio = \<lparr>tk_new = None, tk_get = id, tk_initialized = (\<lambda>c. c \<noteq> None),
     tk_set = (\<lambda>v c. case c of None \<Rightarrow> (True, Some v) | Some _ \<Rightarrow> (False, c)),
     tk_into_inner = id, tk_take = (\<lambda>c. (c, None))\<rparr>"

interpretation tokio_option: tokio_cell option_tokio
  by unfold_locales (auto simp: option_tokio_def split: option.splits)

end
