(* ===== verification/Backed_Entry.thy ===== *)
theory Backed_Entry
  imports Formats Once_Cell
begin

text \<open>
  \<open>BackedEntry\<close> and its mutable handle (\<open>src/entry/mod.rs\<close>, \<open>src/entry/sync_impl.rs\<close>): a value kept on a
  disk in a format, loaded into memory on use. Every operation is a function of the entry and the
  store that returns its result, the entry and the store afterwards. The lemmas say what each
  operation does to the logical value of the entry: the value in memory if there is one, what the
  disk holds otherwise.
\<close>

section \<open>The entry\<close>

record ('v, 'd, 'c) backed_entry =
  entry_value :: "'v once_cell"
  entry_disk :: 'd
  entry_coder :: 'c

definition entry_new :: "'d \<Rightarrow> 'c \<Rightarrow> ('v, 'd, 'c) backed_entry" where
  "entry_new d c = \<lparr>entry_value = oc_new, entry_disk = d, entry_coder = c\<rparr>"

definition entry_with_disk :: "'c \<Rightarrow> 'd \<Rightarrow> ('v, 'd, 'c) backed_entry" where
  "entry_with_disk default_coder d = entry_new d default_coder"

definition get_disk :: "('v, 'd, 'c) backed_entry \<Rightarrow> 'd" where
  "get_disk e = entry_disk e"

definition entry_update ::
  "('c, 'v, 'e) coder_ops \<Rightarrow> ('d, 'wr, 'w) disk_ops \<Rightarrow> ('v, 'd, 'c) backed_entry \<Rightarrow> 'w \<Rightarrow>
     (unit, 'e) result \<times> 'w" where
  "entry_update C D e w =
     (case oc_get (entry_value e) of
        None \<Rightarrow> (Ok (), w)
      | Some v \<Rightarrow> write_value C D (entry_coder e) (entry_disk e) v w)"

definition entry_write ::
  "('c, 'v, 'e) coder_ops \<Rightarrow> ('d, 'wr, 'w) disk_ops \<Rightarrow> 'v \<Rightarrow> ('v, 'd, 'c) backed_entry \<Rightarrow> 'w \<Rightarrow>
     (unit, 'e) result \<times> ('v, 'd, 'c) backed_entry \<times> 'w" where
  "entry_write C D v e w =
     (case write_value C D (entry_coder e) (entry_disk e) v w of
        (Ok _, w1) \<Rightarrow> (Ok (), e\<lparr>entry_value := snd (oc_set v oc_new)\<rparr>, w1)
      | (Err x, w1) \<Rightarrow> (Err x, e, w1)
      | (Panic, w1) \<Rightarrow> (Panic, e, w1))"

definition is_loaded :: "('v, 'd, 'c) backed_entry \<Rightarrow> bool" where
  "is_loaded e = (oc_get (entry_value e) \<noteq> None)"

definition unload :: "('v, 'd, 'c) backed_entry \<Rightarrow> ('v, 'd, 'c) backed_entry" where
  "unload e = e\<lparr>entry_value := oc_new\<rparr>"

definition entry_load ::
  "('c, 'v, 'e) coder_ops \<Rightarrow> ('d, 'wr, 'w) disk_ops \<Rightarrow> ('v, 'd, 'c) backed_entry \<Rightarrow> 'w \<Rightarrow>
     ('v, 'e) result \<times> ('v, 'd, 'c) backed_entry \<times> 'w" where
  "entry_load C D e w =
     (case oc_get (entry_value e) of
        Some x \<Rightarrow> (Ok x, e, w)
      | None \<Rightarrow>
          (case read_value C D (entry_coder e) (entry_disk e) w of
             (Ok v, w1) \<Rightarrow>
               (case oc_get_or_init (\<lambda>s. (v, s)) (entry_value e) () of
                  (Ok x, cell, _) \<Rightarrow> (Ok x, e\<lparr>entry_value := cell\<rparr>, w1)
                | (_, cell, _) \<Rightarrow> (Panic, e\<lparr>entry_value := cell\<rparr>, w1))
           | (Err x, w1) \<Rightarrow> (Err x, e, w1)
           | (Panic, w1) \<Rightarrow> (Panic, e, w1)))"

definition entry_take ::
  "('c, 'v, 'e) coder_ops \<Rightarrow> ('d, 'wr, 'w) disk_ops \<Rightarrow> ('v, 'd, 'c) backed_entry \<Rightarrow> 'w \<Rightarrow>
     ('v, 'e) result \<times> 'w" where
  "entry_take C D e w =
     (case oc_into_inner (entry_value e) of
        Some x \<Rightarrow> (Ok x, w)
      | None \<Rightarrow> read_value C D (entry_coder e) (entry_disk e) w)"

text \<open>\<open>into\<close> is the caller's conversion to the stored type.\<close>

definition entry_write_unload ::
  "('c, 'v, 'e) coder_ops \<Rightarrow> ('d, 'wr, 'w) disk_ops \<Rightarrow> ('u \<Rightarrow> 'v) \<Rightarrow> 'u \<Rightarrow>
     ('v, 'd, 'c) backed_entry \<Rightarrow> 'w \<Rightarrow> (unit, 'e) result \<times> ('v, 'd, 'c) backed_entry \<times> 'w" where
  "entry_write_unload C D into u e w =
     (let e1 = unload e in
      case write_value C D (entry_coder e1) (entry_disk e1) (into u) w of (r, w1) \<Rightarrow> (r, e1, w1))"

section \<open>Changing disk and coder\<close>

definition change_backing ::
  "('c, 'v, 'e) coder_ops \<Rightarrow> ('d, 'wr, 'w) disk_ops \<Rightarrow>
   ('c2, 'v, 'e2) coder_ops \<Rightarrow> ('d2, 'wr2, 'w) disk_ops \<Rightarrow> 'd2 \<Rightarrow> 'c2 \<Rightarrow>
   ('v, 'd, 'c) backed_entry \<Rightarrow> 'w \<Rightarrow> (('v, 'd2, 'c2) backed_entry, 'e + 'e2) result \<times> 'w" where
  "change_backing C D C2 D2 d2 c2 e w =
     (case entry_load C D e w of
        (Ok _, e1, w1) \<Rightarrow>
          (let other = \<lparr>entry_value = entry_value e1, entry_disk = d2, entry_coder = c2\<rparr> in
           case entry_update C2 D2 other w1 of
             (Ok _, w2) \<Rightarrow> (Ok other, w2)
           | (Err x, w2) \<Rightarrow> (Err (Inr x), w2)
           | (Panic, w2) \<Rightarrow> (Panic, w2))
      | (Err x, e1, w1) \<Rightarrow> (Err (Inl x), w1)
      | (Panic, e1, w1) \<Rightarrow> (Panic, w1))"

definition encoder_into :: "('c \<Rightarrow> 'c2) \<Rightarrow> ('v, 'd, 'c) backed_entry \<Rightarrow> ('v, 'd, 'c2) backed_entry" where
  "encoder_into into e = \<lparr>entry_value = entry_value e, entry_disk = entry_disk e, entry_coder = into (entry_coder e)\<rparr>"

definition encoder_try_into ::
  "('c \<Rightarrow> ('c2, 'x) result) \<Rightarrow> ('v, 'd, 'c) backed_entry \<Rightarrow> (('v, 'd, 'c2) backed_entry, 'x) result" where
  "encoder_try_into try_into e =
     map_ok (\<lambda>c2. \<lparr>entry_value = entry_value e, entry_disk = entry_disk e, entry_coder = c2\<rparr>)
       (try_into (entry_coder e))"

section \<open>The mutable handle\<close>

text \<open>
  \<open>BackedEntryMut\<close> holds the entry and the modified flag. A write through \<open>deref_mut\<close> is a function
  on the value in memory; \<open>unwrap\<close> on an empty cell panics.
\<close>

record ('v, 'd, 'c) entry_mut =
  mh_entry :: "('v, 'd, 'c) backed_entry"
  mh_modified :: bool

definition mut_handle ::
  "('c, 'v, 'e) coder_ops \<Rightarrow> ('d, 'wr, 'w) disk_ops \<Rightarrow> ('v, 'd, 'c) backed_entry \<Rightarrow> 'w \<Rightarrow>
     (('v, 'd, 'c) entry_mut, 'e) result \<times> ('v, 'd, 'c) backed_entry \<times> 'w" where
  "mut_handle C D e w =
     (case entry_load C D e w of
        (r, e1, w1) \<Rightarrow> (map_ok (\<lambda>_. \<lparr>mh_entry = e1, mh_modified = False\<rparr>) r, e1, w1))"

definition mut_deref :: "('v, 'd, 'c) entry_mut \<Rightarrow> ('v, 'e) result" where
  "mut_deref h = unwrap_opt (oc_get (entry_value (mh_entry h)))"

definition mut_deref_mut ::
  "('v \<Rightarrow> 'v) \<Rightarrow> ('v, 'd, 'c) entry_mut \<Rightarrow> (unit, 'e) result \<times> ('v, 'd, 'c) entry_mut" where
  "mut_deref_mut f h =
     (case oc_get (entry_value (mh_entry h)) of
        None \<Rightarrow> (Panic, h\<lparr>mh_modified := True\<rparr>)
      | Some v \<Rightarrow> (Ok (), h\<lparr>mh_entry := (mh_entry h)\<lparr>entry_value := Some (f v)\<rparr>, mh_modified := True\<rparr>))"

definition is_modified :: "('v, 'd, 'c) entry_mut \<Rightarrow> bool" where
  "is_modified h = mh_modified h"

definition mut_flush ::
  "('c, 'v, 'e) coder_ops \<Rightarrow> ('d, 'wr, 'w) disk_ops \<Rightarrow> ('v, 'd, 'c) entry_mut \<Rightarrow> 'w \<Rightarrow>
     (unit, 'e) result \<times> ('v, 'd, 'c) entry_mut \<times> 'w" where
  "mut_flush C D h w =
     (if mh_modified h then
        (case entry_update C D (mh_entry h) w of
           (Ok _, w1) \<Rightarrow> (Ok (), h\<lparr>mh_modified := False\<rparr>, w1)
         | (Err x, w1) \<Rightarrow> (Err x, h, w1)
         | (Panic, w1) \<Rightarrow> (Panic, h, w1))
      else (Ok (), h, w))"

text \<open>Dropping the handle gives the entry back; the drop panics when a pending write fails.\<close>

definition mut_drop ::
  "('c, 'v, 'e) coder_ops \<Rightarrow> ('d, 'wr, 'w) disk_ops \<Rightarrow> ('v, 'd, 'c) entry_mut \<Rightarrow> 'w \<Rightarrow>
     (unit, 'e) result \<times> ('v, 'd, 'c) backed_entry \<times> 'w" where
  "mut_drop C D h w =
     (if mh_modified h then
        (case mut_flush C D h w of
           (Ok _, h1, w1) \<Rightarrow> (Ok (), mh_entry h1, w1)
         | (_, h1, w1) \<Rightarrow> (Panic, mh_entry h1, w1))
      else (Ok (), mh_entry h, w))"

section \<open>The logical value\<close>

text \<open>
  \<open>entry_abs C D e w\<close> is the value of the entry for its user. It is computed from what a read of the
  disk returns, so it is defined for every disk.
\<close>

definition entry_abs ::
  "('c, 'v, 'e) coder_ops \<Rightarrow> ('d, 'wr, 'w) disk_ops \<Rightarrow> ('v, 'd, 'c) backed_entry \<Rightarrow> 'w \<Rightarrow> 'v option" where
  "entry_abs C D e w =
     (case entry_value e of
        Some v \<Rightarrow> Some v
      | None \<Rightarrow> (case fst (read_value C D (entry_coder e) (entry_disk e) w) of Ok v \<Rightarrow> Some v | _ \<Rightarrow> None))"

text \<open>\<open>synced\<close>: the disk holds what memory holds, so the entry can be unloaded.\<close>

definition synced ::
  "('c, 'v, 'e) coder_ops \<Rightarrow> ('d, 'wr, 'w) disk_ops \<Rightarrow> ('v, 'd, 'c) backed_entry \<Rightarrow> 'w \<Rightarrow> bool" where
  "synced C D e w \<longleftrightarrow> (case entry_value e of None \<Rightarrow> True
     | Some v \<Rightarrow> fst (read_value C D (entry_coder e) (entry_disk e) w) = Ok v)"

lemma entry_abs_loaded [simp]: "entry_value e = Some v \<Longrightarrow> entry_abs C D e w = Some v"
  by (simp add: entry_abs_def)

lemma entry_abs_Some_read:
  "entry_value e = None \<Longrightarrow>
   entry_abs C D e w = Some v \<longleftrightarrow> fst (read_value C D (entry_coder e) (entry_disk e) w) = Ok v"
  by (auto simp: entry_abs_def split: result.splits)

lemma unload_simps [simp]:
  "entry_value (unload e) = None" "entry_disk (unload e) = entry_disk e"
  "entry_coder (unload e) = entry_coder e" "\<not> is_loaded (unload e)" "unload (unload e) = unload e"
  by (simp_all add: unload_def oc_new_def is_loaded_def oc_get_def)

lemma is_loaded_iff: "is_loaded e \<longleftrightarrow> (\<exists>v. entry_value e = Some v)"
  by (simp add: is_loaded_def oc_get_def)

lemma unload_loaded: "unload e = e\<lparr>entry_value := None\<rparr>"
  by (simp add: unload_def oc_new_def)

lemma synced_unload: "synced C D e w \<Longrightarrow> entry_abs C D (unload e) w = entry_abs C D e w"
  by (cases "entry_value e") (simp_all add: synced_def entry_abs_def)

lemma synced_unloaded [simp]: "synced C D (unload e) w"
  by (simp add: synced_def)

section \<open>What the operations do, on every backing\<close>

context backing
begin

lemma abs_on_disk: "entry_abs C D e w = (case entry_value e of Some v \<Rightarrow> Some v
    | None \<Rightarrow> on_disk (entry_coder e) (entry_disk e) w)"
proof (cases "entry_value e")
  case None
  have "entry_abs C D e w = Some v \<longleftrightarrow> on_disk (entry_coder e) (entry_disk e) w = Some v" for v
    using None by (simp add: entry_abs_Some_read read_value_iff)
  from this have "entry_abs C D e w = on_disk (entry_coder e) (entry_disk e) w"
    by (metis option.exhaust)
  with None show ?thesis by simp
qed simp

lemma synced_on_disk: "synced C D e w \<longleftrightarrow> (case entry_value e of None \<Rightarrow> True
    | Some v \<Rightarrow> on_disk (entry_coder e) (entry_disk e) w = Some v)"
  by (simp add: synced_def read_value_iff split: option.splits)

lemma load_eq:
  "entry_load C D e w = (case entry_abs C D e w of
      Some v \<Rightarrow> (Ok v, e\<lparr>entry_value := Some v\<rparr>, w)
    | None \<Rightarrow> (Err (the_err (fst (read_value C D (entry_coder e) (entry_disk e) w))), e, w))"
proof (cases "entry_value e")
  case None
  obtain r w1 where R: "read_value C D (entry_coder e) (entry_disk e) w = (r, w1)" by fastforce
  with read_value_pure [OF R] read_value_returns [of "entry_coder e" "entry_disk e" w w1] None
  show ?thesis
    by (cases r) (simp_all add: entry_load_def oc_get_def oc_get_or_init_def entry_abs_def)
next
  case (Some v)
  then show ?thesis by (cases e) (simp add: entry_load_def oc_get_def)
qed

lemma load_abs: "entry_abs C D e w = Some v \<Longrightarrow> entry_load C D e w = (Ok v, e\<lparr>entry_value := Some v\<rparr>, w)"
  by (simp add: load_eq)

lemma load_pure:
  "entry_load C D e w = (r, e', w') \<Longrightarrow>
   w' = w \<and> entry_disk e' = entry_disk e \<and> entry_coder e' = entry_coder e \<and> r \<noteq> Panic \<and>
   entry_abs C D e' w = entry_abs C D e w"
  by (auto simp: load_eq split: option.splits)

lemma load_Ok: "entry_load C D e w = (Ok v, e', w') \<longleftrightarrow>
    entry_abs C D e w = Some v \<and> e' = e\<lparr>entry_value := Some v\<rparr> \<and> w' = w"
  by (auto simp: load_eq split: option.splits)

lemma load_synced: "synced C D e w \<Longrightarrow> entry_load C D e w = (r, e', w') \<Longrightarrow> synced C D e' w'"
  by (auto simp: load_eq synced_on_disk abs_on_disk split: option.splits)

lemma take_eq: "entry_take C D e w =
    (case entry_abs C D e w of Some v \<Rightarrow> (Ok v, w)
     | None \<Rightarrow> (Err (the_err (fst (read_value C D (entry_coder e) (entry_disk e) w))), w))"
proof (cases "entry_value e")
  case None
  obtain r w1 where R: "read_value C D (entry_coder e) (entry_disk e) w = (r, w1)" by fastforce
  with read_value_pure [OF R] read_value_returns [of "entry_coder e" "entry_disk e" w w1] None
  show ?thesis by (cases r) (simp_all add: entry_take_def oc_into_inner_def entry_abs_def)
qed (simp add: entry_take_def oc_into_inner_def)

lemma write_Ok:
  assumes "entry_write C D v e w = (Ok u, e', w')"
  shows "e' = e\<lparr>entry_value := Some v\<rparr>" and "on_disk (entry_coder e) (entry_disk e) w' = Some v"
    and "accepts C (entry_coder e) v"
  using assms
  by (auto simp: entry_write_def oc_set_def oc_new_def split: prod.splits result.splits dest: write_value_ok)

lemma write_Err: "entry_write C D v e w = (Err x, e', w') \<Longrightarrow> e' = e"
  by (auto simp: entry_write_def split: prod.splits result.splits)

lemma write_returns: "entry_write C D v e w \<noteq> (Panic, e', w')"
  using write_value_returns by (auto simp: entry_write_def split: prod.splits result.splits)

lemma write_succeeds:
  "writable (entry_disk e) w \<Longrightarrow> accepts C (entry_coder e) v \<Longrightarrow>
   \<exists>w'. entry_write C D v e w = (Ok (), e\<lparr>entry_value := Some v\<rparr>, w')"
  using write_value_succeeds [of "entry_disk e" w "entry_coder e" v]
  by (auto simp: entry_write_def oc_set_def oc_new_def)

lemma write_unload_Ok:
  assumes "entry_write_unload C D into x e w = (Ok u, e', w')"
  shows "e' = unload e" and "on_disk (entry_coder e) (entry_disk e) w' = Some (into x)"
  using assms by (auto simp: entry_write_unload_def Let_def split: prod.splits dest: write_value_ok)

lemma write_unload_entry: "entry_write_unload C D into x e w = (r, e', w') \<Longrightarrow> e' = unload e \<and> r \<noteq> Panic"
  using write_value_returns by (auto simp: entry_write_unload_def Let_def split: prod.splits)

lemma write_unload_succeeds:
  "writable (entry_disk e) w \<Longrightarrow> accepts C (entry_coder e) (into x) \<Longrightarrow>
   \<exists>w'. entry_write_unload C D into x e w = (Ok (), unload e, w')"
  using write_value_succeeds [of "entry_disk e" w "entry_coder e" "into x"]
  by (auto simp: entry_write_unload_def Let_def)

lemma update_Ok:
  "entry_update C D e w = (Ok u, w') \<Longrightarrow> synced C D e w' \<and> entry_abs C D e w' = entry_abs C D e w"
  by (auto simp: entry_update_def oc_get_def synced_on_disk abs_on_disk split: option.splits
      dest: write_value_ok)

lemma update_returns: "entry_update C D e w \<noteq> (Panic, w')"
  using write_value_returns by (auto simp: entry_update_def split: option.splits)

text \<open>No operation on one entry changes the logical value of an entry on another site.\<close>

lemma abs_frame_write:
  assumes "write_value C D c d v w = (r, w')" and "site (entry_disk e') \<noteq> site d"
  shows "entry_abs C D e' w' = entry_abs C D e' w"
  using write_value_frame [OF assms] by (simp add: abs_on_disk split: option.splits)

lemma write_frame:
  assumes "entry_write C D v e w = (r, e1, w')" and "site (entry_disk e') \<noteq> site (entry_disk e)"
  shows "entry_abs C D e' w' = entry_abs C D e' w"
  using assms abs_frame_write by (auto simp: entry_write_def split: prod.splits result.splits)

lemma write_unload_frame:
  assumes "entry_write_unload C D into x e w = (r, e1, w')" and "site (entry_disk e') \<noteq> site (entry_disk e)"
  shows "entry_abs C D e' w' = entry_abs C D e' w"
  using assms abs_frame_write
  by (auto simp: entry_write_unload_def Let_def split: prod.splits)

lemma update_frame:
  assumes "entry_update C D e w = (r, w')" and "site (entry_disk e') \<noteq> site (entry_disk e)"
  shows "entry_abs C D e' w' = entry_abs C D e' w"
  using assms abs_frame_write by (auto simp: entry_update_def split: option.splits)

text \<open>The handle.\<close>

lemma mut_handle_Ok:
  "mut_handle C D e w = (Ok h, e', w') \<longleftrightarrow>
   (\<exists>v. entry_abs C D e w = Some v \<and> e' = e\<lparr>entry_value := Some v\<rparr> \<and> w' = w \<and>
     h = \<lparr>mh_entry = e\<lparr>entry_value := Some v\<rparr>, mh_modified = False\<rparr>)"
  by (auto simp: mut_handle_def load_eq split: option.splits)

text \<open>
  The invariant of a live handle: the value is in memory, and unless the flag is set the disk
  agrees with it. It makes every access return and every drop safe.
\<close>

definition handle_inv :: "('v, 'd, 'c) entry_mut \<Rightarrow> 'w \<Rightarrow> bool" where
  "handle_inv h w \<longleftrightarrow> is_loaded (mh_entry h) \<and> (\<not> mh_modified h \<longrightarrow> synced C D (mh_entry h) w)"

lemma handle_inv_open: "synced C D e w \<Longrightarrow> mut_handle C D e w = (Ok h, e', w') \<Longrightarrow> handle_inv h w'"
  using load_synced [of e w]
  by (auto simp: mut_handle_def handle_inv_def is_loaded_iff load_eq split: option.splits)

lemma handle_inv_deref: "handle_inv h w \<Longrightarrow> \<exists>v. mut_deref h = Ok v \<and> entry_value (mh_entry h) = Some v"
  by (auto simp: handle_inv_def is_loaded_iff mut_deref_def oc_get_def unwrap_opt_def)

lemma handle_inv_deref_mut: "handle_inv h w \<Longrightarrow> mut_deref_mut f h = (r, h') \<Longrightarrow> handle_inv h' w \<and> r = Ok ()"
  by (auto simp: handle_inv_def mut_deref_mut_def is_loaded_iff oc_get_def)

lemma handle_inv_flush: "handle_inv h w \<Longrightarrow> mut_flush C D h w = (r, h', w') \<Longrightarrow> handle_inv h' w' \<and> r \<noteq> Panic"
  using update_returns [of "mh_entry h" w]
  by (auto simp: handle_inv_def mut_flush_def is_loaded_iff split: if_splits prod.splits result.splits
      dest: update_Ok)

lemma flush_Ok:
  "handle_inv h w \<Longrightarrow> mut_flush C D h w = (Ok u, h', w') \<Longrightarrow>
   \<not> mh_modified h' \<and> mh_entry h' = mh_entry h \<and> synced C D (mh_entry h) w'"
  by (auto simp: handle_inv_def mut_flush_def split: if_splits prod.splits result.splits dest: update_Ok)

lemma drop_Ok:
  "handle_inv h w \<Longrightarrow> mut_drop C D h w = (Ok u, e', w') \<Longrightarrow>
   e' = mh_entry h \<and> synced C D e' w' \<and> entry_abs C D e' w' = entry_value (mh_entry h)"
proof -
  assume inv: "handle_inv h w" and drop: "mut_drop C D h w = (Ok u, e', w')"
  show ?thesis
  proof (cases "mh_modified h")
    case True
    then obtain u' h' where "mut_flush C D h w = (Ok u', h', w')" "e' = mh_entry h'"
      using drop by (auto simp: mut_drop_def split: prod.splits result.splits)
    with flush_Ok [OF inv this(1)] inv show ?thesis by (auto simp: handle_inv_def is_loaded_iff)
  qed (use inv drop in \<open>auto simp: mut_drop_def handle_inv_def is_loaded_iff\<close>)
qed

lemma drop_unmodified: "\<not> mh_modified h \<Longrightarrow> mut_drop C D h w = (Ok (), mh_entry h, w)"
  by (simp add: mut_drop_def)

lemma flush_succeeds:
  assumes "entry_value (mh_entry h) = Some v" "writable (entry_disk (mh_entry h)) w"
    "accepts C (entry_coder (mh_entry h)) v"
  shows "\<exists>h' w'. mut_flush C D h w = (Ok (), h', w')"
  using write_value_succeeds [OF assms(2,3)] assms(1)
  by (auto simp: mut_flush_def entry_update_def oc_get_def)

end

section \<open>Entries on a Plainfile\<close>

text \<open>
  The examples use entries of byte strings in the store that holds nothing yet.
\<close>

abbreviation demo_entry :: "(bytes, plainfile, bincode_coder) backed_entry" where
  "demo_entry \<equiv> entry_new (Plainfile [''f'']) BincodeCoder"

lemma entry_new_simps [simp]:
  "entry_value (entry_new d c) = None" "entry_disk (entry_new d c) = d" "entry_coder (entry_new d c) = c"
  by (simp_all add: entry_new_def oc_new_def)

lemma prefix_accepts [simp]: "accepts prefix_ops c v \<longleftrightarrow> length v < 256"
  by (simp add: accepts_def)

text \<open>
  \<open>write_unload\<close> followed by \<open>load\<close> is the identity. On a path that can be written, writing a
  value the coder accepts succeeds and leaves nothing in memory; loading the entry, or any fresh
  entry over the same path and coder, returns exactly that value, reads without changing the
  store, and keeps the value in memory.
\<close>

theorem write_unload_then_load:
  assumes "coder_roundtrip C" and "file_writable (pf_path (entry_disk e)) s"
    and "accepts C (entry_coder e) (into x)"
  shows "\<exists>s'. entry_write_unload C plainfile_disk into x e s = (Ok (), unload e, s') \<and>
    entry_load C plainfile_disk (unload e) s' = (Ok (into x), e\<lparr>entry_value := Some (into x)\<rparr>, s') \<and>
    entry_load C plainfile_disk (entry_new (entry_disk e) (entry_coder e)) s' =
      (Ok (into x), \<lparr>entry_value = Some (into x), entry_disk = entry_disk e, entry_coder = entry_coder e\<rparr>, s')"
proof -
  note B = plainfile_backing [OF assms(1)]
  obtain s' where W: "entry_write_unload C plainfile_disk into x e s = (Ok (), unload e, s')"
    using backing.write_unload_succeeds [OF B, of e s into x] assms(2,3) by blast
  note disk = backing.write_unload_Ok(2) [OF B W]
  have "entry_abs C plainfile_disk (unload e) s' = Some (into x)"
    "entry_abs C plainfile_disk (entry_new (entry_disk e) (entry_coder e)) s' = Some (into x)"
    using disk by (simp_all add: backing.abs_on_disk [OF B])
  with W show ?thesis
    by (simp add: backing.load_Ok [OF B] unload_loaded entry_new_def)
qed

theorem write_unload_then_load_witness:
  "\<exists>s'. entry_write_unload prefix_ops plainfile_disk id [7, 9] demo_entry empty_fs = (Ok (), unload demo_entry, s') \<and>
     fst (entry_load prefix_ops plainfile_disk (unload demo_entry) s') = Ok [7, 9]"
  using write_unload_then_load [OF prefix_roundtrip, of demo_entry empty_fs id "[7, 9]"] by auto

text \<open>
  \<open>load\<close> implements the logical value. It returns the value in memory if there is one and the
  value on disk otherwise, it never panics and never changes the store, the logical value is the
  same afterwards, and a second load returns the same value without touching the entry. A failing
  load leaves the entry as it was.
\<close>

theorem load_refines:
  assumes "coder_roundtrip C"
  shows "case entry_load C plainfile_disk e s of (r, e', s') \<Rightarrow>
    s' = s \<and> entry_abs C plainfile_disk e' s = entry_abs C plainfile_disk e s \<and>
    (case entry_abs C plainfile_disk e s of
       Some v \<Rightarrow> r = Ok v \<and> is_loaded e' \<and> entry_load C plainfile_disk e' s' = (Ok v, e', s')
     | None \<Rightarrow> (\<exists>x. r = Err x) \<and> e' = e)"
  using backing.load_eq [OF plainfile_backing [OF assms], of e s]
    backing.load_eq [OF plainfile_backing [OF assms], of "e\<lparr>entry_value := Some v\<rparr>" s for v]
  by (auto simp: is_loaded_iff split: option.splits)

theorem load_refines_witness:
  "case entry_load prefix_ops plainfile_disk demo_entry (set_file [''f''] (Some [2, 7, 9, 1]) empty_fs) of
     (r, e', s') \<Rightarrow> r = Ok [7, 9] \<and> is_loaded e'"
proof -
  have "entry_abs prefix_ops plainfile_disk demo_entry (set_file [''f''] (Some [2, 7, 9, 1]) empty_fs) = Some [7, 9]"
    by (simp add: entry_abs_def read_value_def plainfile_disk_def plainfile_read_disk_def fs_read_def
        empty_fs_def decode_def)
  then show ?thesis
    using load_refines [OF prefix_roundtrip, where e = demo_entry and s = "set_file [''f''] (Some [2, 7, 9, 1]) empty_fs"]
    by (auto split: prod.splits)
qed

text \<open>
  entries on different paths are independent. Whatever \<open>write\<close>, \<open>write_unload\<close> and
  \<open>update\<close> of one entry return, the logical value of every entry on another path is unchanged.
\<close>

theorem entries_independent:
  assumes "coder_roundtrip C" and "pf_path (entry_disk e') \<noteq> pf_path (entry_disk e)"
  shows "entry_abs C plainfile_disk e' (snd (snd (entry_write C plainfile_disk v e s))) = entry_abs C plainfile_disk e' s \<and>
    entry_abs C plainfile_disk e' (snd (snd (entry_write_unload C plainfile_disk into x e s))) =
      entry_abs C plainfile_disk e' s \<and>
    entry_abs C plainfile_disk e' (snd (entry_update C plainfile_disk e s)) = entry_abs C plainfile_disk e' s"
  using backing.write_frame [OF plainfile_backing [OF assms(1)] _ assms(2)]
    backing.write_unload_frame [OF plainfile_backing [OF assms(1)] _ assms(2)]
    backing.update_frame [OF plainfile_backing [OF assms(1)] _ assms(2)]
  by (metis prod.collapse)

theorem entries_independent_witness:
  "let e' = \<lparr>entry_value = None, entry_disk = Plainfile [''g''], entry_coder = BincodeCoder\<rparr> in
   entry_abs prefix_ops plainfile_disk e' (snd (snd (entry_write prefix_ops plainfile_disk [3] demo_entry empty_fs))) =
   entry_abs prefix_ops plainfile_disk e' empty_fs"
  using entries_independent [OF prefix_roundtrip, where v = "[3]" and s = empty_fs and e = demo_entry
    and into = id and x = "[3]"
    and e' = "\<lparr>entry_value = None, entry_disk = Plainfile [''g''], entry_coder = BincodeCoder\<rparr>"]
  by (simp add: Let_def)

section \<open>A mutable handle from open to drop\<close>

text \<open>What a program does with a handle: a sequence of modifications and flushes.\<close>

datatype 'v handle_op = Modify "'v \<Rightarrow> 'v" | Flush

fun mut_run ::
  "('c, 'v, 'e) coder_ops \<Rightarrow> ('d, 'wr, 'w) disk_ops \<Rightarrow> 'v handle_op list \<Rightarrow> ('v, 'd, 'c) entry_mut \<Rightarrow> 'w \<Rightarrow>
     (unit, 'e) result \<times> ('v, 'd, 'c) entry_mut \<times> 'w" where
  "mut_run C D [] h w = (Ok (), h, w)"
| "mut_run C D (Modify f # ops) h w =
     (case mut_deref_mut f h of
        (Ok _, h1) \<Rightarrow> mut_run C D ops h1 w
      | (Err x, h1) \<Rightarrow> (Err x, h1, w)
      | (Panic, h1) \<Rightarrow> (Panic, h1, w))"
| "mut_run C D (Flush # ops) h w =
     (case mut_flush C D h w of
        (Ok _, h1, w1) \<Rightarrow> mut_run C D ops h1 w1
      | (Err x, h1, w1) \<Rightarrow> (Err x, h1, w1)
      | (Panic, h1, w1) \<Rightarrow> (Panic, h1, w1))"

fun apply_ops :: "'v handle_op list \<Rightarrow> 'v \<Rightarrow> 'v" where
  "apply_ops [] v = v"
| "apply_ops (Modify f # ops) v = apply_ops ops (f v)"
| "apply_ops (Flush # ops) v = apply_ops ops v"

text \<open>All values the handle ever has to write are accepted by the coder.\<close>

fun ops_accepted :: "('v \<Rightarrow> bool) \<Rightarrow> 'v handle_op list \<Rightarrow> 'v \<Rightarrow> bool" where
  "ops_accepted P [] v = P v"
| "ops_accepted P (Modify f # ops) v = ops_accepted P ops (f v)"
| "ops_accepted P (Flush # ops) v = (P v \<and> ops_accepted P ops v)"

context backing
begin

lemma mut_flush_writable:
  assumes "mut_flush C D h w = (r, h', w')"
  shows "writable d w' = writable d w"
  using assms write_value_writable
  by (auto simp: mut_flush_def entry_update_def split: if_splits prod.splits result.splits option.splits)

lemma mut_flush_entry: "mut_flush C D h w = (r, h', w') \<Longrightarrow> mh_entry h' = mh_entry h"
  by (auto simp: mut_flush_def split: if_splits prod.splits result.splits)

lemma mut_run_succeeds:
  assumes "handle_inv h w" and "entry_value (mh_entry h) = Some v"
    and "writable (entry_disk (mh_entry h)) w"
    and "ops_accepted (accepts C (entry_coder (mh_entry h))) ops v"
  shows "\<exists>h' w'. mut_run C D ops h w = (Ok (), h', w') \<and> handle_inv h' w' \<and>
    mh_entry h' = (mh_entry h)\<lparr>entry_value := Some (apply_ops ops v)\<rparr> \<and>
    writable (entry_disk (mh_entry h)) w' \<and>
    accepts C (entry_coder (mh_entry h)) (apply_ops ops v)"
  using assms
proof (induction ops v arbitrary: h w rule: apply_ops.induct)
  case (1 v)
  then show ?case by (cases "mh_entry h") auto
next
  case (2 f ops v)
  let ?h = "h\<lparr>mh_entry := (mh_entry h)\<lparr>entry_value := Some (f v)\<rparr>, mh_modified := True\<rparr>"
  have m: "mut_deref_mut f h = (Ok () :: (unit, 'e) result, ?h)" using "2.prems"(2) by (simp add: mut_deref_mut_def oc_get_def)
  have inv: "handle_inv ?h w" using handle_inv_deref_mut [OF "2.prems"(1)] m by blast
  from "2.IH" [OF inv] "2.prems" m show ?case by simp
next
  case (3 ops v)
  from "3.prems" have acc: "accepts C (entry_coder (mh_entry h)) v" by simp
  obtain h1 w1 where F: "mut_flush C D h w = (Ok (), h1, w1)"
    using flush_succeeds [OF "3.prems"(2,3) acc] by blast
  have "handle_inv h1 w1" "mh_entry h1 = mh_entry h"
    using handle_inv_flush [OF "3.prems"(1) F] mut_flush_entry [OF F] by auto
  moreover have "writable (entry_disk (mh_entry h1)) w1"
    using mut_flush_writable [OF F] "3.prems"(3) \<open>mh_entry h1 = mh_entry h\<close> by simp
  ultimately show ?case using "3.IH" [of h1 w1] "3.prems" F by simp
qed

lemma mut_session:
  assumes "synced C D e w" and "entry_abs C D e w = Some v" and "writable (entry_disk e) w"
    and "ops_accepted (accepts C (entry_coder e)) ops v"
  shows "\<exists>h h' w1 w'. mut_handle C D e w = (Ok h, mh_entry h, w) \<and> mut_run C D ops h w = (Ok (), h', w1) \<and>
    mut_drop C D h' w1 = (Ok (), e\<lparr>entry_value := Some (apply_ops ops v)\<rparr>, w') \<and>
    on_disk (entry_coder e) (entry_disk e) w' = Some (apply_ops ops v)"
proof -
  let ?h = "\<lparr>mh_entry = e\<lparr>entry_value := Some v\<rparr>, mh_modified = False\<rparr>"
  have opened: "mut_handle C D e w = (Ok ?h, mh_entry ?h, w)" using assms(2) by (simp add: mut_handle_Ok)
  have "handle_inv ?h w" using handle_inv_open [OF assms(1) opened] .
  from mut_run_succeeds [OF this, of v ops] assms(3,4) obtain h' w1
    where R: "mut_run C D ops ?h w = (Ok (), h', w1)" and inv: "handle_inv h' w1"
      and e': "mh_entry h' = e\<lparr>entry_value := Some (apply_ops ops v)\<rparr>"
      and acc: "writable (entry_disk e) w1" "accepts C (entry_coder e) (apply_ops ops v)" by auto
  obtain h2 w' where F: "mut_flush C D h' w1 = (Ok (), h2, w')"
    using flush_succeeds [of h' "apply_ops ops v" w1] e' acc by auto
  have "\<exists>w'. mut_drop C D h' w1 = (Ok (), mh_entry h', w')"
    using F mut_flush_entry [OF F] by (auto simp: mut_drop_def)
  then obtain w' where drop: "mut_drop C D h' w1 = (Ok (), mh_entry h', w')" by blast
  with drop_Ok [OF inv drop] e' have "on_disk (entry_coder e) (entry_disk e) w' = Some (apply_ops ops v)"
    by (simp add: synced_on_disk)
  with opened R drop e' show ?thesis by metis
qed

end

text \<open>
  C9: a mutable handle on an entry that is in step with its disk. Whatever sequence of
  modifications and explicit flushes is made through it, on a path that can be written and with
  values the coder accepts, nothing panics or fails, and after the drop both the memory and the
  file hold exactly the value the modifications make of the old one.
\<close>

theorem mut_handle_session:
  assumes "coder_roundtrip C" and "synced C plainfile_disk e s"
    and "entry_abs C plainfile_disk e s = Some v" and "file_writable (pf_path (entry_disk e)) s"
    and "ops_accepted (accepts C (entry_coder e)) ops v"
  shows "\<exists>h h' s1 s'. mut_handle C plainfile_disk e s = (Ok h, mh_entry h, s) \<and>
    mut_run C plainfile_disk ops h s = (Ok (), h', s1) \<and>
    mut_drop C plainfile_disk h' s1 = (Ok (), e\<lparr>entry_value := Some (apply_ops ops v)\<rparr>, s') \<and>
    fst (read_value C plainfile_disk (entry_coder e) (entry_disk e) s') = Ok (apply_ops ops v)"
  using backing.mut_session [OF plainfile_backing [OF assms(1)] assms(2,3), of ops] assms(4,5)
  by (simp add: backing.read_value_iff [OF plainfile_backing [OF assms(1)]])

theorem mut_handle_session_witness:
  "let s = set_file [''f''] (Some [1, 5]) empty_fs in
   \<exists>h h' s1 s'. mut_run prefix_ops plainfile_disk [Modify (\<lambda>v. v @ [6]), Flush, Modify rev] h s = (Ok (), h', s1) \<and>
     mut_drop prefix_ops plainfile_disk h' s1 = (Ok (), demo_entry\<lparr>entry_value := Some [6, 5]\<rparr>, s') \<and>
     fst (read_value prefix_ops plainfile_disk BincodeCoder (Plainfile [''f'']) s') = Ok [6, 5]"
proof -
  let ?s = "set_file [''f''] (Some [1, 5]) empty_fs"
  have "entry_abs prefix_ops plainfile_disk demo_entry ?s = Some [5]"
    by (simp add: entry_abs_def read_value_def plainfile_disk_def plainfile_read_disk_def fs_read_def
        empty_fs_def decode_def)
  moreover have "synced prefix_ops plainfile_disk demo_entry ?s" by (simp add: synced_def)
  moreover have "file_writable [''f''] ?s" by (simp add: file_writable_def empty_fs_def parent_def)
  ultimately show ?thesis
    using mut_handle_session [OF prefix_roundtrip, of demo_entry ?s "[5]"
        "[Modify (\<lambda>v. v @ [6]), Flush, Modify rev]"]
    by (auto simp: Let_def)
qed

text \<open>
  errors of the handle. A modified handle whose write fails panics when it is dropped (and
  \<open>flush\<close> returns the same error and leaves the flag set, so that the write can be retried); an
  unmodified handle is dropped without any write, so it cannot fail.
\<close>

theorem handle_errors:
  "(mh_modified h \<and> entry_update C D (mh_entry h) w = (Err x, w1) \<longrightarrow>
      fst (mut_drop C D h w) = (Panic :: (unit, 'e) result) \<and> mut_flush C D h w = (Err x, h, w1)) \<and>
   (\<not> mh_modified h \<longrightarrow> mut_drop C D h w = (Ok (), mh_entry h, w))"
  by (simp add: mut_drop_def mut_flush_def)

theorem handle_errors_witness:
  "let s = set_file [''f''] (Some [1, 5]) (empty_fs\<lparr>full := (\<lambda>_. True)\<rparr>) in
   fst (mut_drop prefix_ops unbuffered_disk \<lparr>mh_entry = entry_new (Unbuffered [''f'']) BincodeCoder
     \<lparr>entry_value := Some [6]\<rparr>, mh_modified = True\<rparr> s) = Panic"
proof -
  let ?s = "set_file [''f''] (Some [1, 5]) (empty_fs\<lparr>full := (\<lambda>_. True)\<rparr>)"
  let ?h = "\<lparr>mh_entry = entry_new (Unbuffered [''f'']) BincodeCoder\<lparr>entry_value := Some [6]\<rparr>, mh_modified = True\<rparr>"
  have "\<exists>w1. entry_update prefix_ops unbuffered_disk (mh_entry ?h) ?s = (Err (PrefixIo OtherError), w1)"
    by (simp add: entry_update_def oc_get_def write_value_def unbuffered_disk_def unbuffered_write_disk_def
        fs_open_truncate_def empty_fs_def parent_def encode_def serialize_flush_def file_write_all_def
        encode_error_def)
  then show ?thesis
    using handle_errors [of ?h prefix_ops unbuffered_disk ?s] by (auto simp: Let_def)
qed

section \<open>Changing the backing\<close>

lemma change_backing_Ok:
  assumes B: "backing D site stored writable C" and B2: "backing D2 site2 stored2 writable2 C2"
    and v: "entry_abs C D e w = Some v" and "writable2 d2 w" and "accepts C2 c2 v"
  shows "\<exists>w'. change_backing C D C2 D2 d2 c2 e w =
      (Ok \<lparr>entry_value = Some v, entry_disk = d2, entry_coder = c2\<rparr>, w') \<and>
    write_value C2 D2 c2 d2 v w = (Ok (), w')"
proof -
  have "entry_load C D e w = (Ok v, e\<lparr>entry_value := Some v\<rparr>, w)"
    using v by (rule backing.load_abs [OF B])
  moreover obtain w' where "write_value C2 D2 c2 d2 v w = (Ok (), w')"
    using backing.write_value_succeeds [OF B2, of d2 w c2 v] assms(4,5) by blast
  ultimately show ?thesis
    by (simp add: change_backing_def entry_update_def oc_get_def)
qed

lemma change_backing_missing:
  assumes "backing D site stored writable C" and "entry_abs C D e w = None"
  shows "\<exists>x. change_backing C D C2 D2 d2 c2 e w = (Err (Inl x), w)"
  using assms(2) by (simp add: change_backing_def backing.load_eq [OF assms(1)])

text \<open>
  \<open>change_backing\<close> moves an entry to another kind of disk and another format. When the value can
  be had and the new path written, the result holds it in memory and on the new disk in the new
  format, and the original file still holds it in the old one if the paths differ; when the value
  cannot be had the call fails with the old coder's error and the store is untouched.
\<close>

theorem change_backing_moves:
  assumes "coder_roundtrip C" and "coder_roundtrip C2"
    and "file_writable (ub_path d2) s" and "\<And>v. accepts C2 c2 v"
  shows "case entry_abs C plainfile_disk e s of
      None \<Rightarrow> \<exists>x. change_backing C plainfile_disk C2 unbuffered_disk d2 c2 e s = (Err (Inl x), s)
    | Some v \<Rightarrow> \<exists>s'. change_backing C plainfile_disk C2 unbuffered_disk d2 c2 e s =
          (Ok \<lparr>entry_value = Some v, entry_disk = d2, entry_coder = c2\<rparr>, s') \<and>
        read_value C2 unbuffered_disk c2 d2 s' = (Ok v, s') \<and>
        (ub_path d2 \<noteq> pf_path (entry_disk e) \<longrightarrow>
          fst (read_value C plainfile_disk (entry_coder e) (entry_disk e) s') =
          fst (read_value C plainfile_disk (entry_coder e) (entry_disk e) s))"
proof (cases "entry_abs C plainfile_disk e s")
  case None
  with change_backing_missing [OF plainfile_backing [OF assms(1)] None] show ?thesis by simp
next
  case (Some v)
  note B2 = unbuffered_backing [OF assms(2)]
  obtain s' where ch: "change_backing C plainfile_disk C2 unbuffered_disk d2 c2 e s =
      (Ok \<lparr>entry_value = Some v, entry_disk = d2, entry_coder = c2\<rparr>, s')"
    and W: "write_value C2 unbuffered_disk c2 d2 v s = (Ok (), s')"
    using change_backing_Ok [OF plainfile_backing [OF assms(1)] B2 Some, of d2 c2] assms(3,4) by blast
  have R: "read_value C2 unbuffered_disk c2 d2 s' = (Ok v, s')"
    using backing.write_value_ok(1) [OF B2 W] by (rule backing.read_value_ok [OF B2])
  obtain r where P: "put unbuffered_disk d2 (fst (c_pieces C2 c2 v)) (accepts C2 c2 v) s = (r, s')"
    using W by (auto simp: write_value_put split: prod.splits)
  have "s' = set_file (ub_path d2) (Some (encoding C2 c2 v)) s"
    using W raw_file.put_exact [of ub_path d2 "fst (c_pieces C2 c2 v)" "accepts C2 c2 v" s _ s']
    by (auto simp: write_value_put encoding_def file_disk_ops split: prod.splits)
  then have "ub_path d2 \<noteq> pf_path (entry_disk e) \<longrightarrow>
      fst (read_value C plainfile_disk (entry_coder e) (entry_disk e) s') =
      fst (read_value C plainfile_disk (entry_coder e) (entry_disk e) s)"
    by (auto simp: read_value_def plainfile_disk_def plainfile_read_disk_def fs_read_def
        split: result.splits option.splits)
  with Some ch R show ?thesis by simp
qed

text \<open>A serializer of truth values in one byte, which accepts every value, for the example.\<close>

definition bool_ops :: "(simd_json_coder, bool, io_error) coder_ops" where
  "bool_ops = \<lparr>c_pieces = (\<lambda>_ v. ([[if v then 1 else 0]], None)), c_write_io = id, c_from_io = id,
     c_parse = (\<lambda>_ b. case b of [] \<Rightarrow> Err OtherError | x # _ \<Rightarrow> Ok (x = 1))\<rparr>"

lemma bool_roundtrip: "coder_roundtrip bool_ops"
  by (auto simp: coder_roundtrip_def bool_ops_def accepts_def encoding_def split: list.splits)

theorem change_backing_moves_witness:
  "\<exists>s'. change_backing bool_ops plainfile_disk bool_ops unbuffered_disk (Unbuffered [''g'']) SimdJsonCoder
      \<lparr>entry_value = Some True, entry_disk = Plainfile [''f''], entry_coder = SimdJsonCoder\<rparr> empty_fs =
      (Ok \<lparr>entry_value = Some True, entry_disk = Unbuffered [''g''], entry_coder = SimdJsonCoder\<rparr>, s') \<and>
    read_value bool_ops unbuffered_disk SimdJsonCoder (Unbuffered [''g'']) s' = (Ok True, s')"
proof -
  have "file_writable (ub_path (Unbuffered [''g''])) empty_fs"
    by (simp add: file_writable_def empty_fs_def parent_def)
  moreover have "accepts bool_ops SimdJsonCoder v" for v by (simp add: accepts_def bool_ops_def)
  ultimately show ?thesis
    using change_backing_moves [OF bool_roundtrip bool_roundtrip, of "Unbuffered [''g'']" empty_fs SimdJsonCoder
        "\<lparr>entry_value = Some True, entry_disk = Plainfile [''f''], entry_coder = SimdJsonCoder\<rparr>"]
    by auto
qed

end
