(* ===== verification/Container.thy ===== *)
theory Container
  imports Prelude
begin

text \<open>
  The container traits of \<open>src/array/container/mod.rs\<close> as records of operations with their contracts
  as locales, and the implementations: boxed slices and \<open>Vec\<close> (\<open>standard_types.rs\<close>), and the
  protected-memory \<open>SecretVecWrapper\<close> (\<open>encrypted.rs\<close>). The first two keep the contracts; the last
  one is a container, but three of its resizing operations panic on almost every call.
\<close>

section \<open>The traits\<close>

text \<open>
  The handles the trait returns give access to the elements; a container is therefore seen through
  the slice \<open>c_ref\<close>, and mutation through \<open>c_mut\<close> is a function on the slice that keeps its length.
\<close>

record ('k, 'x) container_ops =
  c_get :: "'k \<Rightarrow> nat \<Rightarrow> 'x option"
  c_len :: "'k \<Rightarrow> nat"
  c_ref :: "'k \<Rightarrow> 'x list"
  c_mut :: "('x list \<Rightarrow> 'x list) \<Rightarrow> 'k \<Rightarrow> 'k"

record ('k, 'x) resizing_ops = "('k, 'x) container_ops" +
  c_default :: 'k
  c_push :: "'x \<Rightarrow> 'k \<Rightarrow> (unit, unit) result \<times> 'k"
  c_remove :: "nat \<Rightarrow> 'k \<Rightarrow> (unit, unit) result \<times> 'k"
  c_append :: "'k \<Rightarrow> 'k \<Rightarrow> (unit, unit) result \<times> 'k \<times> 'k"
  c_extend :: "'x list \<Rightarrow> 'k \<Rightarrow> (unit, unit) result \<times> 'k"
  c_from_iter :: "'x list \<Rightarrow> 'k"

locale container =
  fixes K :: "('k, 'x, 'z) container_ops_scheme"
  assumes get_view: "c_get K k i = nth_opt (c_ref K k) i"
    and len_view: "c_len K k = length (c_ref K k)"
    and mut_view: "length (f (c_ref K k)) = length (c_ref K k) \<Longrightarrow> c_ref K (c_mut K f k) = f (c_ref K k)"
begin

lemma get_Some_iff: "c_get K k i = Some x \<longleftrightarrow> i < c_len K k \<and> c_ref K k ! i = x"
  by (auto simp: get_view len_view nth_opt_eq_Some)

lemma get_None_iff: "c_get K k i = None \<longleftrightarrow> c_len K k \<le> i"
  by (auto simp: get_view len_view nth_opt_def)

lemma mut_map: "c_ref K (c_mut K (map f) k) = map f (c_ref K k)"
  by (simp add: mut_view)

end

locale resizing_container = container K for K :: "('k, 'x) resizing_ops" +
  assumes default_view: "c_ref K (c_default K) = []"
    and push_view: "c_push K x k = (r, k') \<Longrightarrow> r = Ok () \<and> c_ref K k' = c_ref K k @ [x]"
    and remove_view: "i < length (c_ref K k) \<Longrightarrow> c_remove K i k = (r, k') \<Longrightarrow>
      r = Ok () \<and> c_ref K k' = take i (c_ref K k) @ drop (Suc i) (c_ref K k)"
    and append_view: "c_append K k j = (r, k', j') \<Longrightarrow>
      r = Ok () \<and> c_ref K k' = c_ref K k @ c_ref K j"
    and extend_view: "c_extend K xs k = (r, k') \<Longrightarrow> r = Ok () \<and> c_ref K k' = c_ref K k @ xs"
    and from_iter_view: "c_ref K (c_from_iter K xs) = xs"
begin

lemma push_Ok: "\<exists>k'. c_push K x k = (Ok (), k') \<and> c_ref K k' = c_ref K k @ [x]"
  using push_view by (metis prod.collapse)

lemma remove_Ok: "i < length (c_ref K k) \<Longrightarrow> \<exists>k'. c_remove K i k = (Ok (), k') \<and>
    c_ref K k' = take i (c_ref K k) @ drop (Suc i) (c_ref K k)"
  using remove_view by (metis prod.collapse)

lemma extend_Ok: "\<exists>k'. c_extend K xs k = (Ok (), k') \<and> c_ref K k' = c_ref K k @ xs"
  using extend_view by (metis prod.collapse)

lemma push_extend:
  assumes "c_push K x k = (r, k1)" and "c_extend K [x] k = (r', k2)"
  shows "r = r' \<and> c_ref K k1 = c_ref K k2"
  using push_view [OF assms(1)] extend_view [OF assms(2)] by simp

end

section \<open>Boxed slices and vectors\<close>

definition slice_c_get :: "'x list \<Rightarrow> nat \<Rightarrow> 'x option" where
  "slice_c_get k i = nth_opt k i"

definition slice_c_len :: "'x list \<Rightarrow> nat" where
  "slice_c_len k = length k"

definition slice_c_ref :: "'x list \<Rightarrow> 'x list" where
  "slice_c_ref k = k"

definition slice_c_mut :: "('x list \<Rightarrow> 'x list) \<Rightarrow> 'x list \<Rightarrow> 'x list" where
  "slice_c_mut f k = f k"

definition slice_ops :: "('x list, 'x) container_ops" where
  "slice_ops = \<lparr>c_get = slice_c_get, c_len = slice_c_len, c_ref = slice_c_ref, c_mut = slice_c_mut\<rparr>"

definition vec_c_push :: "'x \<Rightarrow> 'x list \<Rightarrow> (unit, unit) result \<times> 'x list" where
  "vec_c_push x k = (Ok (), k @ [x])"

text \<open>\<open>Vec::remove\<close> panics when the index is out of range.\<close>

definition vec_c_remove :: "nat \<Rightarrow> 'x list \<Rightarrow> (unit, unit) result \<times> 'x list" where
  "vec_c_remove i k = (if i < length k then (Ok (), take i k @ drop (Suc i) k) else (Panic, k))"

definition vec_c_append :: "'x list \<Rightarrow> 'x list \<Rightarrow> (unit, unit) result \<times> 'x list \<times> 'x list" where
  "vec_c_append k j = (Ok (), k @ j, [])"

definition vec_extend :: "'x list \<Rightarrow> 'x list \<Rightarrow> (unit, unit) result \<times> 'x list" where
  "vec_extend xs k = (Ok (), k @ xs)"

definition vec_ops :: "('x list, 'x) resizing_ops" where
  "vec_ops = \<lparr>c_get = slice_c_get, c_len = slice_c_len, c_ref = slice_c_ref, c_mut = slice_c_mut,
     c_default = [], c_push = vec_c_push, c_remove = vec_c_remove, c_append = vec_c_append,
     c_extend = vec_extend, c_from_iter = id\<rparr>"

lemmas slice_defs = slice_c_get_def slice_c_len_def slice_c_ref_def slice_c_mut_def
lemmas vec_defs = vec_c_push_def vec_c_remove_def vec_c_append_def vec_extend_def

lemma vec_ops_simps [simp]:
  "c_get vec_ops = slice_c_get" "c_len vec_ops = slice_c_len" "c_ref vec_ops = slice_c_ref"
  "c_mut vec_ops = slice_c_mut" "c_default vec_ops = []" "c_push vec_ops = vec_c_push"
  "c_remove vec_ops = vec_c_remove" "c_append vec_ops = vec_c_append" "c_extend vec_ops = vec_extend"
  by (simp_all add: vec_ops_def)

lemma slice_c_ref_id [simp]: "slice_c_ref k = k"
  by (simp add: slice_c_ref_def)

interpretation slice: container slice_ops
  by unfold_locales (simp_all add: slice_ops_def slice_defs)

interpretation vec: resizing_container vec_ops
  by unfold_locales (auto simp: slice_defs vec_defs vec_ops_def)

section \<open>Vectors in protected memory\<close>

text \<open>
  \<open>s[lo..hi].copy_from_slice(src)\<close>: the range must be one of the slice and as long as the source.
\<close>

definition copy_range :: "nat \<Rightarrow> nat \<Rightarrow> 'x list \<Rightarrow> 'x list \<Rightarrow> ('x list, unit) result" where
  "copy_range lo hi src s =
     (if lo \<le> hi \<and> hi \<le> length s \<and> length src = hi - lo then Ok (take lo s @ src @ drop hi s) else Panic)"

definition slice_range :: "nat \<Rightarrow> nat \<Rightarrow> 'x list \<Rightarrow> ('x list, unit) result" where
  "slice_range lo hi s = (if lo \<le> hi \<and> hi \<le> length s then Ok (take (hi - lo) (drop lo s)) else Panic)"

text \<open>
  \<open>SecretVec::new(n, f)\<close> allocates \<open>n\<close> elements of some fill value \<open>z\<close> and lets \<open>f\<close> initialise
  them; the wrapper's field is only assigned when that returns.
\<close>

definition secret_vec_new :: "'x \<Rightarrow> nat \<Rightarrow> ('x list \<Rightarrow> ('x list, unit) result) \<Rightarrow> ('x list, unit) result" where
  "secret_vec_new z n f = f (replicate n z)"

definition assign :: "'k \<Rightarrow> ('k, unit) result \<Rightarrow> (unit, unit) result \<times> 'k" where
  "assign old r = (case r of Ok k \<Rightarrow> (Ok (), k) | Err e \<Rightarrow> (Err e, old) | Panic \<Rightarrow> (Panic, old))"

definition secret_c_push :: "'x \<Rightarrow> 'x \<Rightarrow> 'x list \<Rightarrow> (unit, unit) result \<times> 'x list" where
  "secret_c_push z x k = assign k (secret_vec_new z (length k + 1) (\<lambda>s.
     res_bind (usub (length s) 1) (\<lambda>last_idx.
     res_bind (copy_range 0 last_idx k s) (\<lambda>s1.
     res_bind (index s1 last_idx) (\<lambda>_. Ok (s1[last_idx := x]))))))"

definition secret_c_remove :: "'x \<Rightarrow> nat \<Rightarrow> 'x list \<Rightarrow> (unit, unit) result \<times> 'x list" where
  "secret_c_remove z i k = assign k
     (res_bind (usub (length k) 1) (\<lambda>n. secret_vec_new z n (\<lambda>s.
        res_bind (slice_range 0 i k) (\<lambda>front.
        res_bind (copy_range 0 (length s) front s) (\<lambda>s1.
        res_bind (slice_range (i + 1) (length k) k) (\<lambda>back.
          copy_range i (length s1) back s1))))))"

definition secret_c_append :: "'x \<Rightarrow> 'x list \<Rightarrow> 'x list \<Rightarrow> (unit, unit) result \<times> 'x list \<times> 'x list" where
  "secret_c_append z k j =
     (case assign k (secret_vec_new z (length k + length j) (\<lambda>s.
        res_bind (copy_range 0 (length s) k s) (\<lambda>s1. copy_range (length k) (length s1) j s1))) of
      (r, k') \<Rightarrow> (r, k', j))"

definition secret_from_iter :: "'x \<Rightarrow> 'x list \<Rightarrow> 'x list" where
  "secret_from_iter z xs = the_ok (secret_vec_new z (length xs) (\<lambda>s. copy_range 0 (length s) xs s))"

definition secret_extend :: "'x \<Rightarrow> 'x list \<Rightarrow> 'x list \<Rightarrow> (unit, unit) result \<times> 'x list" where
  "secret_extend z xs k =
     (let new = secret_from_iter z xs in
      assign k (secret_vec_new z (length k + length new) (\<lambda>s.
        res_bind (copy_range 0 (length s) k s) (\<lambda>s1. copy_range (length k) (length s1) new s1))))"

definition secret_ops :: "'x \<Rightarrow> ('x list, 'x) resizing_ops" where
  "secret_ops z = \<lparr>c_get = slice_c_get, c_len = slice_c_len, c_ref = slice_c_ref, c_mut = slice_c_mut,
     c_default = [], c_push = secret_c_push z, c_remove = secret_c_remove z, c_append = secret_c_append z,
     c_extend = secret_extend z, c_from_iter = secret_from_iter z\<rparr>"

interpretation secret: container "secret_ops z"
  by unfold_locales (simp_all add: secret_ops_def slice_defs)

lemma secret_from_iter [simp]: "secret_from_iter z xs = xs"
  by (simp add: secret_from_iter_def secret_vec_new_def copy_range_def)

lemma secret_push: "secret_c_push z x k = (Ok (), k @ [x])"
proof -
  have "drop (length k) (replicate (Suc (length k)) z) = [z]"
    by (simp only: drop_replicate) simp
  then show ?thesis
    by (simp add: secret_c_push_def secret_vec_new_def copy_range_def assign_def list_update_append
        del: replicate_Suc)
qed

lemma secret_remove:
  "secret_c_remove z i k =
     (if k \<noteq> [] \<and> i = length k - 1 then (Ok (), butlast k) else (Panic, k))"
proof (cases "k = []")
  case False
  then have n: "Suc 0 \<le> length k" by (simp add: Suc_le_eq)
  show ?thesis
  proof (cases "i = length k - 1")
    case True
    with n show ?thesis
      by (simp add: secret_c_remove_def secret_vec_new_def copy_range_def slice_range_def assign_def
          butlast_conv_take)
  next
    case neq: False
    with n show ?thesis
      by (auto simp: secret_c_remove_def secret_vec_new_def copy_range_def slice_range_def assign_def)
  qed
qed (simp add: secret_c_remove_def usub_def assign_def)

lemma secret_extend_eq: "secret_extend z xs k = (if xs = [] then (Ok (), k) else (Panic, k))"
  by (simp add: secret_extend_def secret_vec_new_def copy_range_def assign_def Let_def)

lemma secret_append_eq: "secret_c_append z k j = (if j = [] then (Ok (), k, j) else (Panic, k, j))"
  by (simp add: secret_c_append_def secret_vec_new_def copy_range_def assign_def)

text \<open>
  the resizing operations of \<open>SecretVecWrapper\<close>. Pushing works on every vector. Removing panics
  unless the element is the last one, and extending by or appending anything panics: the first
  copy of each addresses the whole new allocation instead of the part the old elements take.
\<close>

theorem secret_vec_resizing:
  "secret_c_push z x k = (Ok (), k @ [x]) \<and>
   fst (secret_c_remove z i k) = (if k \<noteq> [] \<and> i = length k - 1 then Ok () else Panic) \<and>
   fst (secret_extend z xs k) = (if xs = [] then Ok () else Panic) \<and>
   fst (secret_c_append z k j) = (if j = [] then Ok () else Panic)"
  by (simp add: secret_push secret_remove secret_extend_eq secret_append_eq)

section \<open>Iterating over a container\<close>

text \<open>
  \<open>RefIter\<close> and \<open>MutIter\<close>, and mutable access to one element; a mutable reference is used to apply a
  function to what it refers to. A slice hands out its elements in order; a protected vector takes the
  number of its elements first and then asks for each of them, with an \<open>unwrap\<close>.
\<close>

definition slice_ref_iter :: "'x list \<Rightarrow> 'x list" where
  "slice_ref_iter k = k"

definition slice_mut_iter :: "('x \<Rightarrow> 'x) \<Rightarrow> 'x list \<Rightarrow> 'x list" where
  "slice_mut_iter f k = map f k"

definition slice_c_get_mut :: "('x \<Rightarrow> 'x) \<Rightarrow> nat \<Rightarrow> 'x list \<Rightarrow> unit option \<times> 'x list" where
  "slice_c_get_mut f i k = (if i < length k then (Some (), k[i := f (k ! i)]) else (None, k))"

definition secret_ref_iter :: "'x list \<Rightarrow> ('x, unit) result list" where
  "secret_ref_iter k = (let len = slice_c_len k in map (\<lambda>x. unwrap_opt (slice_c_get k x)) [0..<len])"

fun secret_mut_each :: "('x \<Rightarrow> 'x) \<Rightarrow> nat list \<Rightarrow> 'x list \<Rightarrow> (unit, unit) result \<times> 'x list" where
  "secret_mut_each f [] k = (Ok (), k)"
| "secret_mut_each f (x # xs) k =
     (case slice_c_get_mut f x k of
        (Some u, k1) \<Rightarrow> secret_mut_each f xs k1
      | (None, k1) \<Rightarrow> (Panic, k1))"

definition secret_mut_iter :: "('x \<Rightarrow> 'x) \<Rightarrow> 'x list \<Rightarrow> (unit, unit) result \<times> 'x list" where
  "secret_mut_iter f k = (let len = slice_c_len k in secret_mut_each f [0..<len] k)"

lemma secret_mut_each_from:
  "i \<le> length k \<Longrightarrow> secret_mut_each f [i..<length k] k = (Ok (), take i k @ map f (drop i k))"
proof (induction "length k - i" arbitrary: i k)
  case (Suc n)
  then have i: "i < length k" by simp
  let ?k = "k[i := f (k ! i)]"
  have "secret_mut_each f [Suc i..<length ?k] ?k = (Ok (), take (Suc i) ?k @ map f (drop (Suc i) ?k))"
    using Suc(1) [of ?k "Suc i"] Suc(2) i by simp
  with i show ?case
    by (simp add: upt_conv_Cons slice_c_get_mut_def take_Suc_conv_app_nth Cons_nth_drop_Suc [symmetric])
qed simp

text \<open>a protected vector is iterated as a slice is, and no \<open>unwrap\<close> panics.\<close>

theorem secret_iterates_as_slice:
  "secret_ref_iter k = map Ok (slice_ref_iter k) \<and> secret_mut_iter f k = (Ok (), slice_mut_iter f k)"
  using secret_mut_each_from [of 0 k f]
  by (auto simp: secret_ref_iter_def secret_mut_iter_def slice_ref_iter_def slice_mut_iter_def slice_defs unwrap_opt_def
      nth_opt_def intro: nth_equalityI)

end
