(* ===== verification/Binary_Search.thy ===== *)
theory Binary_Search
  imports Prelude
begin

text \<open>
  \<open>slice::binary_search\<close> of the Rust standard library, which the array index lookup
  uses. Its documentation only says that \<open>Ok i\<close> is some position of the key and \<open>Err i\<close>
  the position where the key could be inserted; which position is returned when the key occurs
  several times is left open. The contract is the locale \<open>binary_searcher\<close>; both algorithms
  the standard library has shipped for the crate's supported compilers are interpretations.
\<close>

section \<open>The documented contract\<close>

type_synonym searcher = "nat list \<Rightarrow> nat \<Rightarrow> (nat, nat) result"

locale binary_searcher =
  fixes bs :: searcher
  assumes found: "sorted xs \<Longrightarrow> bs xs k = Ok i \<Longrightarrow> i < length xs \<and> xs ! i = k"
    and absent: "sorted xs \<Longrightarrow> bs xs k = Err i \<Longrightarrow>
      i \<le> length xs \<and> (\<forall>j<i. xs ! j < k) \<and> (\<forall>j. i \<le> j \<longrightarrow> j < length xs \<longrightarrow> k < xs ! j)"
    and returns: "sorted xs \<Longrightarrow> bs xs k \<noteq> Panic"
begin

lemma cases_result:
  assumes "sorted xs"
  obtains (Found) i where "bs xs k = Ok i" "i < length xs" "xs ! i = k"
    | (Absent) i where "bs xs k = Err i" "i \<le> length xs" "\<forall>j<i. xs ! j < k"
        "\<forall>j. i \<le> j \<longrightarrow> j < length xs \<longrightarrow> k < xs ! j"
proof (cases "bs xs k")
  case (Ok i)
  with found [OF assms Ok] show ?thesis by (intro Found) auto
next
  case (Err i)
  with absent [OF assms Err] show ?thesis by (intro Absent) auto
next
  case Panic
  with returns [OF assms] show ?thesis by blast
qed

lemma found_iff_mem: "sorted xs \<Longrightarrow> (\<exists>i. bs xs k = Ok i) \<longleftrightarrow> k \<in> set xs"
proof (rule cases_result [of xs k])
  fix i assume "sorted xs" "bs xs k = Err i" and lo: "\<forall>j<i. xs ! j < k"
    and hi: "\<forall>j. i \<le> j \<longrightarrow> j < length xs \<longrightarrow> k < xs ! j"
  have "k \<notin> set xs"
  proof
    assume "k \<in> set xs"
    then obtain j where "j < length xs" "xs ! j = k" by (auto simp: in_set_conv_nth)
    with lo hi show False by (metis not_le less_irrefl)
  qed
  with \<open>bs xs k = Err i\<close> show ?thesis by simp
qed (auto simp: in_set_conv_nth)

lemma absent_unique:
  assumes "sorted xs" and "bs xs k = Err i"
  shows "i = length (filter (\<lambda>x. x < k) xs)"
proof -
  from absent [OF assms] have *: "i \<le> length xs" "\<forall>j<i. xs ! j < k"
    "\<forall>j. i \<le> j \<longrightarrow> j < length xs \<longrightarrow> k < xs ! j" by auto
  have "filter (\<lambda>x. x < k) (take i xs) = take i xs"
    using * by (auto simp: filter_id_conv in_set_conv_nth)
  moreover have "filter (\<lambda>x. x < k) (drop i xs) = []"
  proof -
    have "\<not> x < k" if "x \<in> set (drop i xs)" for x
    proof -
      from that obtain j where "j < length (drop i xs)" "drop i xs ! j = x"
        by (auto simp: in_set_conv_nth)
      then have "k < x" using *(3) [rule_format, of "i + j"] by (simp add: add.commute)
      then show ?thesis by simp
    qed
    then show ?thesis by (simp add: filter_empty_conv)
  qed
  ultimately have "filter (\<lambda>x. x < k) (take i xs @ drop i xs) = take i xs"
    by (simp only: filter_append append_Nil2)
  then show ?thesis using *(1) by simp
qed

end

text \<open>A searcher that returns the last of several equal keys.\<close>

locale last_searcher = binary_searcher +
  assumes found_last: "sorted xs \<Longrightarrow> bs xs k = Ok i \<Longrightarrow> j < length xs \<Longrightarrow> i < j \<Longrightarrow> k < xs ! j"

section \<open>The algorithm with an early return\<close>

text \<open>
  The algorithm of the standard library at the crate's minimum version (Rust 1.80): a window
  \<open>[left, right)\<close> that is halved, left as soon as a probe equals the key.
\<close>

function bsearch_early_loop :: "nat list \<Rightarrow> nat \<Rightarrow> nat \<Rightarrow> nat \<Rightarrow> (nat, nat) result" where
  "bsearch_early_loop xs k left right =
     (if left < right then
        let mid = left + (right - left) div 2 in
        if xs ! mid = k then Ok mid
        else if xs ! mid < k then bsearch_early_loop xs k (Suc mid) right
        else bsearch_early_loop xs k left mid
      else Err left)"
  by pat_completeness auto
termination
  by (relation "measure (\<lambda>(xs, k, left, right). right - left)") (auto simp: Let_def)

declare bsearch_early_loop.simps [simp del]

definition bsearch_early :: searcher where
  "bsearch_early xs k = bsearch_early_loop xs k 0 (length xs)"

lemma bsearch_early_loop_spec:
  assumes "sorted xs" and "left \<le> right" and "right \<le> length xs"
    and "\<forall>j<left. xs ! j < k" and "\<forall>j. right \<le> j \<longrightarrow> j < length xs \<longrightarrow> k < xs ! j"
  shows "case bsearch_early_loop xs k left right of
      Ok i \<Rightarrow> i < length xs \<and> xs ! i = k
    | Err i \<Rightarrow> i \<le> length xs \<and> (\<forall>j<i. xs ! j < k) \<and> (\<forall>j. i \<le> j \<longrightarrow> j < length xs \<longrightarrow> k < xs ! j)
    | Panic \<Rightarrow> False"
  using assms
proof (induction xs k left right rule: bsearch_early_loop.induct)
  case (1 xs k left right)
  define mid where "mid = left + (right - left) div 2"
  note unfold = bsearch_early_loop.simps [of xs k left right]
  show ?case
  proof (cases "left < right")
    case False
    then have "bsearch_early_loop xs k left right = Err left" by (simp add: unfold)
    with False "1.prems" show ?thesis by auto
  next
    case True
    then have mid: "left \<le> mid" "mid < right" by (auto simp: mid_def)
    consider (eq) "xs ! mid = k" | (lt) "xs ! mid < k" | (gt) "k < xs ! mid" by linarith
    then show ?thesis
    proof cases
      case eq
      with True mid "1.prems" show ?thesis by (simp add: unfold mid_def [symmetric])
    next
      case lt
      have "\<forall>j<Suc mid. xs ! j < k"
      proof (intro allI impI)
        fix j assume "j < Suc mid"
        then have "xs ! j \<le> xs ! mid" using "1.prems"(1,3) mid by (intro sorted_nth_mono) auto
        with lt show "xs ! j < k" by simp
      qed
      with True mid lt "1.prems" "1.IH"(1) [OF True mid_def]
      show ?thesis by (simp add: unfold mid_def [symmetric])
    next
      case gt
      have "\<forall>j. mid \<le> j \<longrightarrow> j < length xs \<longrightarrow> k < xs ! j"
      proof (intro allI impI)
        fix j assume "mid \<le> j" "j < length xs"
        then have "xs ! mid \<le> xs ! j" using "1.prems"(1) by (intro sorted_nth_mono)
        with gt show "k < xs ! j" by simp
      qed
      moreover have "xs ! mid \<noteq> k" "\<not> xs ! mid < k" using gt by auto
      ultimately show ?thesis
        using True mid "1.prems" "1.IH"(2) [OF True mid_def]
        by (simp add: unfold mid_def [symmetric])
    qed
  qed
qed

interpretation early: binary_searcher bsearch_early
proof
  fix xs :: "nat list" and k i
  assume s: "sorted xs"
  note spec = bsearch_early_loop_spec [OF s, of 0 "length xs" k, folded bsearch_early_def, simplified]
  show "bsearch_early xs k = Ok i \<Longrightarrow> i < length xs \<and> xs ! i = k" using spec by simp
  show "bsearch_early xs k = Err i \<Longrightarrow> i \<le> length xs \<and> (\<forall>j<i. xs ! j < k) \<and>
      (\<forall>j. i \<le> j \<longrightarrow> j < length xs \<longrightarrow> k < xs ! j)" using spec by simp
  show "bsearch_early xs k \<noteq> Panic" using spec by auto
qed

section \<open>The branchless algorithm\<close>

text \<open>
  The later algorithm: a base that moves up while the probe is not greater than the key, and one
  comparison at the end. It returns the last of several equal keys.
\<close>

function bsearch_last_loop :: "nat list \<Rightarrow> nat \<Rightarrow> nat \<Rightarrow> nat \<Rightarrow> nat" where
  "bsearch_last_loop xs k base sz =
     (if sz > 1 then
        let half = sz div 2; mid = base + half in
        bsearch_last_loop xs k (if k < xs ! mid then base else mid) (sz - half)
      else base)"
  by pat_completeness auto
termination
  by (relation "measure (\<lambda>(xs, k, base, sz). sz)") (auto simp: Let_def)

declare bsearch_last_loop.simps [simp del]

definition bsearch_last :: searcher where
  "bsearch_last xs k =
     (if xs = [] then Err 0
      else let base = bsearch_last_loop xs k 0 (length xs) in
        if xs ! base = k then Ok base
        else Err (if xs ! base < k then Suc base else base))"

lemma bsearch_last_loop_spec:
  assumes "sorted xs" and "0 < sz" and "base + sz \<le> length xs"
    and "base = 0 \<or> xs ! base \<le> k" and "\<forall>j. base + sz \<le> j \<longrightarrow> j < length xs \<longrightarrow> k < xs ! j"
  shows "bsearch_last_loop xs k base sz < length xs \<and>
    (bsearch_last_loop xs k base sz = 0 \<or> xs ! bsearch_last_loop xs k base sz \<le> k) \<and>
    (\<forall>j. bsearch_last_loop xs k base sz < j \<longrightarrow> j < length xs \<longrightarrow> k < xs ! j)"
  using assms
proof (induction xs k base sz rule: bsearch_last_loop.induct)
  case (1 xs k base sz)
  define half where "half = sz div 2"
  define mid where "mid = base + half"
  note unfold = bsearch_last_loop.simps [of xs k base sz]
  show ?case
  proof (cases "sz > 1")
    case False
    with "1.prems" show ?thesis by (auto simp: unfold)
  next
    case True
    then have half: "0 < half" "half < sz" by (auto simp: half_def)
    show ?thesis
    proof (cases "k < xs ! mid")
      case True
      have "\<forall>j. base + (sz - half) \<le> j \<longrightarrow> j < length xs \<longrightarrow> k < xs ! j"
      proof (intro allI impI)
        fix j assume j: "base + (sz - half) \<le> j" "j < length xs"
        have "mid \<le> base + (sz - half)" using half by (auto simp: mid_def half_def)
        with j "1.prems"(1) have "xs ! mid \<le> xs ! j" by (intro sorted_nth_mono) auto
        with True show "k < xs ! j" by simp
      qed
      moreover have "bsearch_last_loop xs k base sz = bsearch_last_loop xs k base (sz - half)"
        using True \<open>sz > 1\<close> by (simp add: unfold half_def [symmetric] mid_def [symmetric])
      moreover have "base + (sz - half) \<le> length xs" using "1.prems"(3) by simp
      ultimately show ?thesis
        using "1.IH" [OF \<open>sz > 1\<close> half_def mid_def] True half "1.prems" by simp
    next
      case False
      have eq: "bsearch_last_loop xs k base sz = bsearch_last_loop xs k mid (sz - half)"
        using False \<open>sz > 1\<close> by (simp add: unfold half_def [symmetric] mid_def [symmetric])
      have sum: "mid + (sz - half) = base + sz" using half by (simp add: mid_def)
      from "1.IH" [OF \<open>sz > 1\<close> half_def mid_def] False half "1.prems"
      show ?thesis by (simp only: eq sum if_False) simp
    qed
  qed
qed

lemma bsearch_last_spec:
  assumes "sorted xs"
  shows "case bsearch_last xs k of
      Ok i \<Rightarrow> i < length xs \<and> xs ! i = k \<and> (\<forall>j. i < j \<longrightarrow> j < length xs \<longrightarrow> k < xs ! j)
    | Err i \<Rightarrow> i \<le> length xs \<and> (\<forall>j<i. xs ! j < k) \<and> (\<forall>j. i \<le> j \<longrightarrow> j < length xs \<longrightarrow> k < xs ! j)
    | Panic \<Rightarrow> False"
proof (cases "xs = []")
  case True
  then show ?thesis by (simp add: bsearch_last_def)
next
  case False
  define b where "b = bsearch_last_loop xs k 0 (length xs)"
  have b: "b < length xs" "b = 0 \<or> xs ! b \<le> k" "\<forall>j. b < j \<longrightarrow> j < length xs \<longrightarrow> k < xs ! j"
    using bsearch_last_loop_spec [OF assms, of "length xs" 0 k] False by (auto simp: b_def)
  have below: "\<forall>j<b. xs ! j \<le> xs ! b"
    using assms b(1) by (simp add: sorted_nth_mono)
  consider (eq) "xs ! b = k" | (lt) "xs ! b < k" | (gt) "k < xs ! b" by linarith
  then show ?thesis
  proof cases
    case eq
    with False b show ?thesis by (simp add: bsearch_last_def b_def [symmetric])
  next
    case lt
    with below have "\<forall>j<Suc b. xs ! j < k" by (auto simp: less_Suc_eq)
    with lt False b show ?thesis by (simp add: bsearch_last_def b_def [symmetric] Suc_le_eq)
  next
    case gt
    with b(2) have "b = 0" by auto
    with gt b(3) have "\<forall>j. j < length xs \<longrightarrow> k < xs ! j" by (metis gr0I)
    moreover have "bsearch_last xs k = Err 0"
      using gt False \<open>b = 0\<close> by (simp add: bsearch_last_def b_def [symmetric])
    ultimately show ?thesis by simp
  qed
qed

interpretation last: last_searcher bsearch_last
proof
  fix xs :: "nat list" and k i j
  assume s: "sorted xs"
  note spec = bsearch_last_spec [OF s, of k]
  show "bsearch_last xs k = Ok i \<Longrightarrow> i < length xs \<and> xs ! i = k" using spec by simp
  show "bsearch_last xs k = Err i \<Longrightarrow> i \<le> length xs \<and> (\<forall>j<i. xs ! j < k) \<and>
      (\<forall>j. i \<le> j \<longrightarrow> j < length xs \<longrightarrow> k < xs ! j)" using spec by simp
  show "bsearch_last xs k \<noteq> Panic" using spec by auto
  show "bsearch_last xs k = Ok i \<Longrightarrow> j < length xs \<Longrightarrow> i < j \<Longrightarrow> k < xs ! j" using spec by simp
qed

end
