(* ===== verification/Array_Index.thy ===== *)
theory Array_Index
  imports Binary_Search
begin

text \<open>
  \<open>internal_idx\<close> of \<open>src/array/mod.rs\<close>: from a position of the whole array to a chunk and a position
  in it, by binary search over the chunk ends. The reference it is compared with walks the chunk
  lengths. The two agree for every searcher when no chunk is empty, and for a searcher that
  returns the last of equal keys always; with empty chunks and an early-returning searcher they
  do not.
\<close>

section \<open>The lookup\<close>

record array_loc =
  entry_idx :: nat
  inside_entry_idx :: nat

definition internal_idx :: "searcher \<Rightarrow> nat list \<Rightarrow> nat list \<Rightarrow> nat \<Rightarrow> (array_loc option, unit) result" where
  "internal_idx bs starts ends idx =
     res_bind
       (case bs ends idx of
          Ok x \<Rightarrow> map_ok (\<lambda>last_i. if x \<noteq> last_i then Some (x + 1) else None) (usub (length ends) 1)
        | Err x \<Rightarrow> Ok (if x \<noteq> length ends then Some x else None)
        | Panic \<Rightarrow> Panic)
       (\<lambda>found. case found of
          None \<Rightarrow> Ok None
        | Some i \<Rightarrow>
            res_bind (index starts i) (\<lambda>start.
            map_ok (\<lambda>k. Some \<lparr>entry_idx = i, inside_entry_idx = k\<rparr>) (usub idx start)))"

section \<open>The reference\<close>

text \<open>The chunk a position falls in, found by walking the chunk lengths from the first one on.\<close>

fun locate :: "nat list \<Rightarrow> nat \<Rightarrow> array_loc option" where
  "locate [] k = None"
| "locate (l # ls) k =
     (if k < l then Some \<lparr>entry_idx = 0, inside_entry_idx = k\<rparr>
      else map_option (\<lambda>loc. loc\<lparr>entry_idx := Suc (entry_idx loc)\<rparr>) (locate ls (k - l)))"

lemma locate_None: "locate ls k = None \<longleftrightarrow> sum_list ls \<le> k"
proof (induction ls arbitrary: k)
  case (Cons l ls)
  show ?case using Cons.IH [of "k - l"] by (cases "k < l") (simp_all, linarith)
qed simp

lemma locate_Some:
  "locate ls k = Some loc \<Longrightarrow> entry_idx loc < length ls \<and> inside_entry_idx loc < ls ! entry_idx loc \<and>
   k = sum_list (take (entry_idx loc) ls) + inside_entry_idx loc"
proof (induction ls arbitrary: k loc)
  case (Cons l ls)
  show ?case
  proof (cases "k < l")
    case True
    with Cons.prems show ?thesis by auto
  next
    case False
    with Cons.prems obtain loc' where "locate ls (k - l) = Some loc'"
      "loc = loc'\<lparr>entry_idx := Suc (entry_idx loc')\<rparr>" by auto
    from Cons.IH [OF this(1)] False have "entry_idx loc' < length ls"
      "inside_entry_idx loc' < ls ! entry_idx loc'"
      "k = l + (sum_list (take (entry_idx loc') ls) + inside_entry_idx loc')" by linarith+
    with \<open>loc = _\<close> show ?thesis by simp
  qed
qed simp

lemma locate_eq:
  assumes "i < length ls" and "sum_list (take i ls) \<le> k" and "k < sum_list (take (Suc i) ls)"
  shows "locate ls k = Some \<lparr>entry_idx = i, inside_entry_idx = k - sum_list (take i ls)\<rparr>"
  using assms
proof (induction ls arbitrary: i k)
  case (Cons l ls)
  show ?case
  proof (cases i)
    case 0
    with Cons.prems show ?thesis by simp
  next
    case (Suc j)
    with Cons.prems have "j < length ls" "sum_list (take j ls) \<le> k - l" "k - l < sum_list (take (Suc j) ls)" "l \<le> k"
      by auto
    with Cons.IH [OF this(1-3)] Suc show ?thesis by simp
  qed
qed simp

section \<open>The lookup finds the reference's chunk\<close>

declare nth_starts_from [simp] nth_ends_from [simp]

context binary_searcher
begin

text \<open>A search that misses lands in the chunk that contains the position.\<close>

lemma missed_chunk:
  assumes "bs (ends_from 0 ls) k = Err i"
  shows "i \<le> length ls" and "sum_list (take i ls) \<le> k"
    and "i < length ls \<Longrightarrow> k < sum_list (take (Suc i) ls)"
proof -
  from absent [OF sorted_ends_from assms]
  have i: "i \<le> length ls" and lo: "\<forall>j<i. ends_from 0 ls ! j < k"
    and hi: "\<forall>j. i \<le> j \<longrightarrow> j < length ls \<longrightarrow> k < ends_from 0 ls ! j" by auto
  show "i \<le> length ls" by fact
  show "sum_list (take i ls) \<le> k"
  proof (cases i)
    case (Suc j)
    with lo i have "ends_from 0 ls ! j < k" by simp
    with Suc i show ?thesis by (simp add: nth_ends_from)
  qed simp
  show "k < sum_list (take (Suc i) ls)" if "i < length ls"
    using hi that by (simp add: nth_ends_from)
qed

lemma hit_chunk:
  assumes "bs (ends_from 0 ls) k = Ok i"
  shows "i < length ls" and "k = sum_list (take (Suc i) ls)"
proof -
  from found [OF sorted_ends_from assms] have "i < length ls" "ends_from 0 ls ! i = k" by auto
  then show "i < length ls" "k = sum_list (take (Suc i) ls)" by (simp_all add: nth_ends_from)
qed

lemma internal_idx_miss:
  assumes "bs (ends_from 0 ls) k = Err i"
  shows "internal_idx bs (starts_from 0 ls) (ends_from 0 ls) k = Ok (locate ls k)"
proof (cases "i < length ls")
  case True
  with missed_chunk [OF assms] show ?thesis
    by (simp add: internal_idx_def assms locate_eq)
next
  case False
  with missed_chunk [OF assms] have "i = length ls" "sum_list ls \<le> k" by auto
  with locate_None [of ls k] show ?thesis by (simp add: internal_idx_def assms)
qed

text \<open>A search that hits an end goes one chunk on, which is right unless that chunk is empty.\<close>

lemma internal_idx_hit:
  assumes "bs (ends_from 0 ls) k = Ok i" and "Suc i < length ls \<Longrightarrow> ls ! Suc i \<noteq> 0"
  shows "internal_idx bs (starts_from 0 ls) (ends_from 0 ls) k = Ok (locate ls k)"
proof (cases "Suc i < length ls")
  case True
  have "sum_list (take (Suc i) ls) \<le> k" "k < sum_list (take (Suc (Suc i)) ls)"
    using hit_chunk [OF assms(1)] assms(2) True by (simp_all add: sum_list_take_Suc)
  moreover have "i \<noteq> length ls - Suc 0" using True by simp
  moreover have "usub (length ls) (Suc 0) = (Ok (length ls - Suc 0) :: (nat, unit) result)" using True by (simp add: usub_def)
  ultimately show ?thesis using True by (simp add: internal_idx_def assms(1) locate_eq)
next
  case False
  with hit_chunk [OF assms(1)] have "Suc i = length ls" "sum_list ls \<le> k" by auto
  with locate_None [of ls k] show ?thesis
    by (simp add: internal_idx_def assms(1) usub_def)
qed

lemma internal_idx_nonempty:
  assumes "0 \<notin> set ls"
  shows "internal_idx bs (starts_from 0 ls) (ends_from 0 ls) k = Ok (locate ls k)"
proof (cases "bs (ends_from 0 ls) k")
  case (Ok i)
  have "ls ! Suc i \<noteq> 0" if "Suc i < length ls" using assms nth_mem [OF that] by metis
  with internal_idx_hit [OF Ok] show ?thesis by blast
next
  case (Err i)
  then show ?thesis by (rule internal_idx_miss)
next
  case Panic
  then show ?thesis using returns [OF sorted_ends_from] by blast
qed

lemma internal_idx_returns: "internal_idx bs (starts_from 0 ls) (ends_from 0 ls) k \<noteq> Panic"
proof (cases "bs (ends_from 0 ls) k")
  case (Ok i)
  note hit = hit_chunk [OF Ok]
  have last_i: "usub (length ls) (Suc 0) = (Ok (length ls - Suc 0) :: (nat, unit) result)" using hit by (simp add: usub_def)
  show ?thesis
  proof (cases "i = length ls - Suc 0")
    case True
    with last_i show ?thesis by (simp add: internal_idx_def Ok)
  next
    case False
    with hit have "Suc i < length ls" by linarith
    moreover have "sum_list (take (Suc i) ls) \<le> k" using hit by simp
    ultimately show ?thesis using last_i False by (simp add: internal_idx_def Ok)
  qed
next
  case (Err i)
  from internal_idx_miss [OF Err] show ?thesis by simp
next
  case Panic
  then show ?thesis using returns [OF sorted_ends_from] by blast
qed

end

context last_searcher
begin

lemma internal_idx_any:
  "internal_idx bs (starts_from 0 ls) (ends_from 0 ls) k = Ok (locate ls k)"
proof (cases "bs (ends_from 0 ls) k")
  case (Ok i)
  have "ls ! Suc i \<noteq> 0" if "Suc i < length ls"
  proof -
    have "k < ends_from 0 ls ! Suc i"
      using found_last [OF sorted_ends_from Ok, of "Suc i"] that by simp
    with hit_chunk [OF Ok] that show ?thesis by (auto simp: nth_ends_from sum_list_take_Suc)
  qed
  with internal_idx_hit [OF Ok] show ?thesis by blast
next
  case (Err i)
  then show ?thesis by (rule internal_idx_miss)
next
  case Panic
  then show ?thesis using returns [OF sorted_ends_from] by blast
qed

end

text \<open>
  \<open>searches bs xss\<close>: over these chunks the search \<open>bs\<close> finds the right one. It meets the documented
  contract, and either returns the last of equal keys or no chunk is empty.
\<close>

definition searches :: "searcher \<Rightarrow> 'a list list \<Rightarrow> bool" where
  "searches bs xss \<longleftrightarrow> last_searcher bs \<or> binary_searcher bs \<and> [] \<notin> set xss"

lemma searches_locate:
  assumes "searches bs xss"
  shows "internal_idx bs (starts_from 0 (map length xss)) (ends_from 0 (map length xss)) k = Ok (locate (map length xss) k)"
  using assms unfolding searches_def
proof (elim disjE conjE)
  assume "binary_searcher bs" and "[] \<notin> set xss"
  then show ?thesis by (intro binary_searcher.internal_idx_nonempty) auto
qed (rule last_searcher.internal_idx_any)

lemma searches_subset: "searches bs xss \<Longrightarrow> set yss \<subseteq> set xss \<Longrightarrow> searches bs yss"
  by (auto simp: searches_def)

lemma searches_last: "searches bsearch_last xss"
  by (simp add: searches_def last.last_searcher_axioms)

lemma searches_early: "[] \<notin> set xss \<Longrightarrow> searches bsearch_early xss"
  by (simp add: searches_def early.binary_searcher_axioms)

text \<open>
  the lookup of a position agrees with walking the chunks, whatever binary search the standard
  library uses, when no chunk is empty: \<open>None\<close> beyond the last position, and otherwise the chunk that
  contains the position and the offset in it.
\<close>

theorem internal_idx_correct:
  assumes "binary_searcher bs" and "0 \<notin> set ls"
  shows "internal_idx bs (starts_from 0 ls) (ends_from 0 ls) k = Ok (locate ls k)"
  using assms by (rule binary_searcher.internal_idx_nonempty)

theorem internal_idx_correct_witness:
  "internal_idx bsearch_early (starts_from 0 [3, 2, 4]) (ends_from 0 [3, 2, 4]) 5 =
   Ok (Some \<lparr>entry_idx = 2, inside_entry_idx = 0\<rparr>)"
  using internal_idx_correct [OF early.binary_searcher_axioms, of "[3, 2, 4]" 5] by simp

text \<open>
  with chunks of any length, empty ones included, the lookup still agrees with walking the
  chunks if the search returns the last of equal keys, as the current standard library's does.
\<close>

theorem internal_idx_correct_last:
  "internal_idx bsearch_last (starts_from 0 ls) (ends_from 0 ls) k = Ok (locate ls k)"
  by (rule last.internal_idx_any)

text \<open>
  with an empty chunk and a search that returns as soon as a probe matches, which the
  documentation of \<open>binary_search\<close> allows and the crate's oldest supported compiler does, the lookup
  of a valid position can return an empty chunk: here the chunk lengths are 2, 1, 0, 1, 1, 1
  and position 3 belongs to the fourth chunk.
\<close>

theorem internal_idx_empty_chunk:
  "internal_idx bsearch_early (starts_from 0 [2, 1, 0, 1, 1, 1]) (ends_from 0 [2, 1, 0, 1, 1, 1]) 3 =
     Ok (Some \<lparr>entry_idx = 2, inside_entry_idx = 0\<rparr>) \<and>
   locate [2, 1, 0, 1, 1, 1] 3 = Some \<lparr>entry_idx = 3, inside_entry_idx = 0\<rparr>"
  by code_simp

end
