(* ===== verification/Backed_Array.thy ===== *)
theory Backed_Array
  imports Backed_Entry Container Array_Index
begin

text \<open>
  \<open>BackedArray\<close> (\<open>src/array/mod.rs\<close>, \<open>src/array/sync_impl/mod.rs\<close>, the reads of
  \<open>src/array/sync_impl/slice.rs\<close> and \<open>generic.rs\<close>): an array stored as several chunks, each a
  \<open>BackedEntry\<close>, with the starts and ends of the chunks as keys. The specification is a list of
  chunks; \<open>represents\<close> relates an array to it, and every operation is shown to do to the
  representation what its documentation says to the list.
\<close>

section \<open>The array\<close>

datatype 'e array_error = OutsideEntryBounds nat | CoderError 'e

record ('k, 'a, 'd, 'c) backed_array =
  key_starts :: 'k
  key_ends :: 'k
  entries :: "('a list, 'd, 'c) backed_entry list"

definition array_default :: "('k, nat) resizing_ops \<Rightarrow> ('k, 'a, 'd, 'c) backed_array" where
  "array_default K = \<lparr>key_starts = c_default K, key_ends = c_default K, entries = []\<rparr>"

definition array_len :: "('k, nat) resizing_ops \<Rightarrow> ('k, 'a, 'd, 'c) backed_array \<Rightarrow> nat" where
  "array_len K a = last_or 0 (c_ref K (key_ends a))"

definition chunks_len :: "('k, 'a, 'd, 'c) backed_array \<Rightarrow> nat" where
  "chunks_len a = length (entries a)"

definition array_is_empty :: "('k, 'a, 'd, 'c) backed_array \<Rightarrow> bool" where
  "array_is_empty a = (entries a = [])"

section \<open>Reads\<close>

text \<open>Loading is interior mutation: the entry at the index is replaced by the loaded one.\<close>

definition get_loc ::
  "('c, 'a list, 'e) coder_ops \<Rightarrow> ('d, 'wr, 'w) disk_ops \<Rightarrow> array_loc \<Rightarrow> ('k, 'a, 'd, 'c) backed_array \<Rightarrow> 'w \<Rightarrow>
     ('a, 'e array_error) result \<times> ('k, 'a, 'd, 'c) backed_array \<times> 'w" where
  "get_loc C D loc a w =
     (case index (entries a) (entry_idx loc) of
        Ok e \<Rightarrow>
          (case entry_load C D e w of
             (Ok xs, e1, w1) \<Rightarrow>
               (index xs (inside_entry_idx loc), a\<lparr>entries := (entries a)[entry_idx loc := e1]\<rparr>, w1)
           | (Err x, e1, w1) \<Rightarrow>
               (Err (CoderError x), a\<lparr>entries := (entries a)[entry_idx loc := e1]\<rparr>, w1)
           | (Panic, e1, w1) \<Rightarrow> (Panic, a\<lparr>entries := (entries a)[entry_idx loc := e1]\<rparr>, w1))
      | Err x \<Rightarrow> (Err x, a, w)
      | Panic \<Rightarrow> (Panic, a, w))"

definition array_get ::
  "searcher \<Rightarrow> ('k, nat) resizing_ops \<Rightarrow> ('c, 'a list, 'e) coder_ops \<Rightarrow> ('d, 'wr, 'w) disk_ops \<Rightarrow> nat \<Rightarrow>
   ('k, 'a, 'd, 'c) backed_array \<Rightarrow> 'w \<Rightarrow> ('a, 'e array_error) result \<times> ('k, 'a, 'd, 'c) backed_array \<times> 'w" where
  "array_get bs K C D idx a w =
     (case internal_idx bs (c_ref K (key_starts a)) (c_ref K (key_ends a)) idx of
        Ok None \<Rightarrow> (Err (OutsideEntryBounds idx), a, w)
      | Ok (Some loc) \<Rightarrow> get_loc C D loc a w
      | _ \<Rightarrow> (Panic, a, w))"

text \<open>The variant for containers behind handles reports positions outside a chunk as errors.\<close>

definition generic_get_loc ::
  "('c, 'a list, 'e) coder_ops \<Rightarrow> ('d, 'wr, 'w) disk_ops \<Rightarrow> array_loc \<Rightarrow> nat \<Rightarrow>
   ('k, 'a, 'd, 'c) backed_array \<Rightarrow> 'w \<Rightarrow> ('a, 'e array_error) result \<times> ('k, 'a, 'd, 'c) backed_array \<times> 'w" where
  "generic_get_loc C D loc idx a w =
     (case nth_opt (entries a) (entry_idx loc) of
        None \<Rightarrow> (Err (OutsideEntryBounds idx), a, w)
      | Some e \<Rightarrow>
          (case entry_load C D e w of
             (r, e1, w1) \<Rightarrow>
               (res_bind (map_err CoderError r)
                  (\<lambda>xs. ok_or (OutsideEntryBounds idx) (nth_opt xs (inside_entry_idx loc))),
                a\<lparr>entries := (entries a)[entry_idx loc := e1]\<rparr>, w1)))"

definition generic_get ::
  "searcher \<Rightarrow> ('k, nat) resizing_ops \<Rightarrow> ('c, 'a list, 'e) coder_ops \<Rightarrow> ('d, 'wr, 'w) disk_ops \<Rightarrow> nat \<Rightarrow>
   ('k, 'a, 'd, 'c) backed_array \<Rightarrow> 'w \<Rightarrow> ('a, 'e array_error) result \<times> ('k, 'a, 'd, 'c) backed_array \<times> 'w" where
  "generic_get bs K C D idx a w =
     (case internal_idx bs (c_ref K (key_starts a)) (c_ref K (key_ends a)) idx of
        Ok None \<Rightarrow> (Err (OutsideEntryBounds idx), a, w)
      | Ok (Some loc) \<Rightarrow> generic_get_loc C D loc idx a w
      | _ \<Rightarrow> (Panic, a, w))"

section \<open>Memory management\<close>

definition clear_memory :: "('k, 'a, 'd, 'c) backed_array \<Rightarrow> ('k, 'a, 'd, 'c) backed_array" where
  "clear_memory a = a\<lparr>entries := map unload (entries a)\<rparr>"

definition clear_chunk :: "nat \<Rightarrow> ('k, 'a, 'd, 'c) backed_array \<Rightarrow> ('k, 'a, 'd, 'c) backed_array" where
  "clear_chunk i a =
     (case nth_opt (entries a) i of
        Some e \<Rightarrow> a\<lparr>entries := (entries a)[i := unload e]\<rparr>
      | None \<Rightarrow> a)"

fun sum_widths :: "((('a list, 'd, 'c) backed_entry) \<times> nat \<times> nat) list \<Rightarrow> (nat, unit) result" where
  "sum_widths [] = Ok 0"
| "sum_widths ((e, s, t) # xs) =
     (if is_loaded e then res_bind (usub t s) (\<lambda>n. map_ok (\<lambda>m. n + m) (sum_widths xs)) else sum_widths xs)"

definition loaded_len :: "('k, nat) resizing_ops \<Rightarrow> ('k, 'a, 'd, 'c) backed_array \<Rightarrow> (nat, unit) result" where
  "loaded_len K a =
     sum_widths (zip (entries a) (zip (c_ref K (key_starts a)) (c_ref K (key_ends a))))"

definition in_query :: "nat list \<Rightarrow> nat \<times> nat \<Rightarrow> bool" where
  "in_query idxs r = list_ex (\<lambda>idx. fst r \<le> idx \<and> idx < snd r) idxs"

definition shrink_to_query ::
  "('k, nat) resizing_ops \<Rightarrow> nat list \<Rightarrow> ('k, 'a, 'd, 'c) backed_array \<Rightarrow> ('k, 'a, 'd, 'c) backed_array" where
  "shrink_to_query K idxs a =
     foldl (\<lambda>a' (i, r). if in_query idxs r then a' else clear_chunk i a') a
       (enumerate 0 (zip (c_ref K (key_starts a)) (c_ref K (key_ends a))))"

section \<open>Writes\<close>

definition expect :: "('x, unit) result \<Rightarrow> ('x, 'e) result" where
  "expect r = (case r of Ok x \<Rightarrow> Ok x | Err _ \<Rightarrow> Panic | Panic \<Rightarrow> Panic)"

text \<open>Pushing the range of a new chunk: the start, then the exclusive end.\<close>

definition push_range ::
  "('k, nat) resizing_ops \<Rightarrow> nat \<Rightarrow> ('k, 'a, 'd, 'c) backed_array \<Rightarrow> (unit, unit) result \<times> ('k, 'a, 'd, 'c) backed_array" where
  "push_range K n a =
     (let start_idx = last_or 0 (c_ref K (key_ends a)) in
      case c_push K start_idx (key_starts a) of
        (Ok _, ks) \<Rightarrow>
          (case c_push K (start_idx + n) (key_ends a) of
             (r, ke) \<Rightarrow> (r, a\<lparr>key_starts := ks, key_ends := ke\<rparr>))
      | (r, ks) \<Rightarrow> (r, a\<lparr>key_starts := ks\<rparr>))"

definition array_append ::
  "('k, nat) resizing_ops \<Rightarrow> ('c, 'a list, 'e) coder_ops \<Rightarrow> ('d, 'wr, 'w) disk_ops \<Rightarrow> 'a list \<Rightarrow> 'd \<Rightarrow> 'c \<Rightarrow>
   ('k, 'a, 'd, 'c) backed_array \<Rightarrow> 'w \<Rightarrow> (unit, 'e) result \<times> ('k, 'a, 'd, 'c) backed_array \<times> 'w" where
  "array_append K C D vals d c a w =
     (let values_len = length vals in
      case entry_write_unload C D id vals (entry_new d c) w of
        (Ok _, e, w1) \<Rightarrow>
          (case push_range K values_len (a\<lparr>entries := entries a @ [e]\<rparr>) of (r, a1) \<Rightarrow> (expect r, a1, w1))
      | (Err x, e, w1) \<Rightarrow> (Err x, a, w1)
      | (Panic, e, w1) \<Rightarrow> (Panic, a, w1))"

definition array_append_memory ::
  "('k, nat) resizing_ops \<Rightarrow> ('c, 'a list, 'e) coder_ops \<Rightarrow> ('d, 'wr, 'w) disk_ops \<Rightarrow> 'a list \<Rightarrow> 'd \<Rightarrow> 'c \<Rightarrow>
   ('k, 'a, 'd, 'c) backed_array \<Rightarrow> 'w \<Rightarrow> (unit, 'e) result \<times> ('k, 'a, 'd, 'c) backed_array \<times> 'w" where
  "array_append_memory K C D vals d c a w =
     (let values_len = length vals in
      case entry_write C D vals (entry_new d c) w of
        (Ok _, e, w1) \<Rightarrow>
          (case push_range K values_len (a\<lparr>entries := entries a @ [e]\<rparr>) of (r, a1) \<Rightarrow> (expect r, a1, w1))
      | (Err x, e, w1) \<Rightarrow> (Err x, a, w1)
      | (Panic, e, w1) \<Rightarrow> (Panic, a, w1))"

text \<open>Removing a key and shifting the later ones down; a key below the width would underflow.\<close>

definition key_remove ::
  "('k, nat) resizing_ops \<Rightarrow> nat \<Rightarrow> nat \<Rightarrow> 'k \<Rightarrow> (unit, unit) result \<times> 'k" where
  "key_remove K i width k =
     (case c_remove K i k of
        (Ok _, k1) \<Rightarrow>
          if list_all (\<lambda>x. width \<le> x) (drop i (c_ref K k1)) then
            (Ok (), c_mut K (\<lambda>ks. take i ks @ map (\<lambda>x. x - width) (drop i ks)) k1)
          else (Panic, k1)
      | (r, k1) \<Rightarrow> (r, k1))"

definition array_remove ::
  "('k, nat) resizing_ops \<Rightarrow> nat \<Rightarrow> ('k, 'a, 'd, 'c) backed_array \<Rightarrow> (unit, unit) result \<times> ('k, 'a, 'd, 'c) backed_array" where
  "array_remove K i a =
     (case (c_get K (key_starts a) i, c_get K (key_ends a) i) of
        (Some start, Some stop) \<Rightarrow>
          (case usub stop start of
             Ok width \<Rightarrow>
               (case vec_c_remove i (entries a) of
                  (Ok _, es) \<Rightarrow>
                    (case key_remove K i width (key_starts a) of
                       (Ok _, ks) \<Rightarrow>
                         (case key_remove K i width (key_ends a) of
                            (r, ke) \<Rightarrow> (r, a\<lparr>entries := es, key_starts := ks, key_ends := ke\<rparr>))
                     | (r, ks) \<Rightarrow> (r, a\<lparr>entries := es, key_starts := ks\<rparr>))
                | (r, es) \<Rightarrow> (r, a))
           | Err x \<Rightarrow> (Err x, a)
           | Panic \<Rightarrow> (Panic, a))
      | _ \<Rightarrow> (Ok (), a))"

definition array_merge ::
  "('k, nat) resizing_ops \<Rightarrow> ('k, 'a, 'd, 'c) backed_array \<Rightarrow> ('k, 'a, 'd, 'c) backed_array \<Rightarrow>
     (unit, unit) result \<times> ('k, 'a, 'd, 'c) backed_array" where
  "array_merge K a rhs =
     (let offset = last_or 0 (c_ref K (key_ends a)) in
      case c_extend K (map (\<lambda>x. x + offset) (c_ref K (key_starts rhs))) (key_starts a) of
        (Ok _, ks) \<Rightarrow>
          (case c_extend K (map (\<lambda>x. x + offset) (c_ref K (key_ends rhs))) (key_ends a) of
             (Ok _, ke) \<Rightarrow> (Ok (), a\<lparr>key_starts := ks, key_ends := ke, entries := entries a @ entries rhs\<rparr>)
           | (r, ke) \<Rightarrow> (r, a\<lparr>key_starts := ks, key_ends := ke\<rparr>))
      | (r, ks) \<Rightarrow> (r, a\<lparr>key_starts := ks\<rparr>))"

text \<open>
  The constructors from an iterator: \<open>from_containers\<close> writes every container to a clone of the
  given disk and stops at the first error; \<open>from_backing\<close> takes pairs of a length and an entry.
  \<open>from\<close> is the conversion of the keys from a \<open>Vec\<close>.
\<close>

fun from_containers_loop ::
  "('c, 'a list, 'e) coder_ops \<Rightarrow> ('d, 'wr, 'w) disk_ops \<Rightarrow> 'd \<Rightarrow> 'c \<Rightarrow> nat \<Rightarrow> 'a list list \<Rightarrow> 'w \<Rightarrow>
     (((nat \<times> nat) \<times> ('a list, 'd, 'c) backed_entry) list, 'e) result \<times> 'w" where
  "from_containers_loop C D d c start [] w = (Ok [], w)"
| "from_containers_loop C D d c start (x # xs) w =
     (let len = length x in
      case entry_write C D x (entry_new d c) w of
        (Ok _, e, w1) \<Rightarrow>
          (case from_containers_loop C D d c (start + len) xs w1 of
             (r, w2) \<Rightarrow> (map_ok (\<lambda>rest. ((start, start + len), e) # rest) r, w2))
      | (Err y, e, w1) \<Rightarrow> (Err y, w1)
      | (Panic, e, w1) \<Rightarrow> (Panic, w1))"

definition from_containers ::
  "(nat list \<Rightarrow> 'k) \<Rightarrow> ('c, 'a list, 'e) coder_ops \<Rightarrow> ('d, 'wr, 'w) disk_ops \<Rightarrow> 'a list list \<Rightarrow> 'd \<Rightarrow> 'c \<Rightarrow> 'w \<Rightarrow>
     (('k, 'a, 'd, 'c) backed_array, 'e) result \<times> 'w" where
  "from_containers from C D xss d c w =
     (case from_containers_loop C D d c 0 xss w of
        (r, w1) \<Rightarrow>
          (map_ok (\<lambda>kes. \<lparr>key_starts = from (map (fst \<circ> fst) kes), key_ends = from (map (snd \<circ> fst) kes),
             entries = map snd kes\<rparr>) r, w1))"

fun backing_ranges :: "nat \<Rightarrow> nat list \<Rightarrow> (nat \<times> nat) list" where
  "backing_ranges range_start [] = []"
| "backing_ranges range_start (k # ks) = (k, range_start) # backing_ranges (range_start + k) ks"

definition from_backing ::
  "(nat list \<Rightarrow> 'k) \<Rightarrow> (nat \<times> ('a list, 'd, 'c) backed_entry) list \<Rightarrow> ('k, 'a, 'd, 'c) backed_array option" where
  "from_backing from ps =
     (let ks = map fst ps; es = map snd ps in
      if length ks \<noteq> length es then None
      else let rs = backing_ranges 0 ks in
        Some \<lparr>key_starts = from (map fst rs), key_ends = from (map snd rs), entries = es\<rparr>)"

section \<open>Chunk iteration\<close>

text \<open>\<open>chunk_iter\<close> loads each chunk as the iterator reaches it; here it is run to the end.\<close>

fun chunk_iter_from ::
  "('c, 'a list, 'e) coder_ops \<Rightarrow> ('d, 'wr, 'w) disk_ops \<Rightarrow> ('a list, 'd, 'c) backed_entry list \<Rightarrow> 'w \<Rightarrow>
     ('a list, 'e) result list \<times> ('a list, 'd, 'c) backed_entry list \<times> 'w" where
  "chunk_iter_from C D [] w = ([], [], w)"
| "chunk_iter_from C D (e # es) w =
     (case entry_load C D e w of
        (r, e1, w1) \<Rightarrow> (case chunk_iter_from C D es w1 of (rs, es1, w2) \<Rightarrow> (r # rs, e1 # es1, w2)))"

definition chunk_iter ::
  "('c, 'a list, 'e) coder_ops \<Rightarrow> ('d, 'wr, 'w) disk_ops \<Rightarrow> ('k, 'a, 'd, 'c) backed_array \<Rightarrow> 'w \<Rightarrow>
     ('a list, 'e) result list \<times> ('k, 'a, 'd, 'c) backed_array \<times> 'w" where
  "chunk_iter C D a w =
     (case chunk_iter_from C D (entries a) w of (rs, es, w1) \<Rightarrow> (rs, a\<lparr>entries := es\<rparr>, w1))"

section \<open>The representation\<close>

text \<open>
  \<open>array_represents K C D a w xss\<close>: the keys are the prefix sums of the chunk lengths, and the
  logical value of the i-th entry is the i-th chunk. \<open>array_synced\<close>: what memory holds of a chunk
  is what its disk holds.
\<close>

definition array_represents ::
  "('k, nat) resizing_ops \<Rightarrow> ('c, 'a list, 'e) coder_ops \<Rightarrow> ('d, 'wr, 'w) disk_ops \<Rightarrow>
   ('k, 'a, 'd, 'c) backed_array \<Rightarrow> 'w \<Rightarrow> 'a list list \<Rightarrow> bool" where
  "array_represents K C D a w xss \<longleftrightarrow>
     c_ref K (key_starts a) = starts_from 0 (map length xss) \<and>
     c_ref K (key_ends a) = ends_from 0 (map length xss) \<and>
     list_all2 (\<lambda>e xs. entry_abs C D e w = Some xs) (entries a) xss"

definition array_synced ::
  "('c, 'a list, 'e) coder_ops \<Rightarrow> ('d, 'wr, 'w) disk_ops \<Rightarrow> ('k, 'a, 'd, 'c) backed_array \<Rightarrow> 'w \<Rightarrow> bool" where
  "array_synced C D a w \<longleftrightarrow> list_all (\<lambda>e. synced C D e w) (entries a)"

text \<open>The sites of the chunks, which must differ for a write to one to leave the others alone.\<close>

definition array_sites :: "('d \<Rightarrow> 's) \<Rightarrow> ('k, 'a, 'd, 'c) backed_array \<Rightarrow> 's list" where
  "array_sites site a = map (site \<circ> entry_disk) (entries a)"

locale array_backing = backing D site stored writable C
  for D :: "('d, 'wr, 'w) disk_ops"
    and site :: "'d \<Rightarrow> 's"
    and stored :: "'d \<Rightarrow> 'w \<Rightarrow> bytes option"
    and writable :: "'d \<Rightarrow> 'w \<Rightarrow> bool"
    and C :: "('c, 'a list, 'e) coder_ops" +
  fixes K :: "('k, nat) resizing_ops"
  assumes keys: "container K"
begin

abbreviation "represents \<equiv> array_represents K C D"

abbreviation "all_synced \<equiv> array_synced C D"

abbreviation "sites \<equiv> array_sites site"

lemma represents_length: "represents a w xss \<Longrightarrow> length (entries a) = length xss"
  by (auto simp: array_represents_def dest: list_all2_lengthD)

lemma represents_nth:
  "represents a w xss \<Longrightarrow> i < length xss \<Longrightarrow> entry_abs C D (entries a ! i) w = Some (xss ! i)"
  by (auto simp: array_represents_def list_all2_conv_all_nth)

lemma represents_array_len: "represents a w xss \<Longrightarrow> array_len K a = length (concat xss)"
  by (simp add: array_represents_def array_len_def last_ends_from length_concat)

lemma represents_chunks_len: "represents a w xss \<Longrightarrow> chunks_len a = length xss"
  by (simp add: chunks_len_def represents_length)

text \<open>Replacing an entry by one of the same logical value, as loading does.\<close>

lemma represents_update:
  assumes "represents a w xss" and "i < length xss" and "entry_abs C D e w = Some (xss ! i)"
  shows "represents (a\<lparr>entries := (entries a)[i := e]\<rparr>) w xss"
proof -
  have "list_all2 (\<lambda>e xs. entry_abs C D e w = Some xs) ((entries a)[i := e]) (xss[i := xss ! i])"
    using assms by (intro list_all2_update_cong) (auto simp: array_represents_def)
  with assms show ?thesis by (simp add: array_represents_def)
qed

lemma all_synced_update:
  "all_synced a w \<Longrightarrow> synced C D e w \<Longrightarrow> all_synced (a\<lparr>entries := (entries a)[i := e]\<rparr>) w"
  using set_update_subset_insert [of "entries a" i e] by (auto simp: array_synced_def list_all_iff)

lemma sites_update:
  "i < length (entries a) \<Longrightarrow> entry_disk e = entry_disk (entries a ! i) \<Longrightarrow>
   sites (a\<lparr>entries := (entries a)[i := e]\<rparr>) = sites a"
  by (simp add: array_sites_def map_update list_update_same_conv)

section \<open>Reading\<close>

lemma get_loc_at:
  assumes "represents a w xss" and "entry_idx loc < length xss"
  defines "i \<equiv> entry_idx loc"
  shows "get_loc C D loc a w = (index (xss ! i) (inside_entry_idx loc),
    a\<lparr>entries := (entries a)[i := (entries a ! i)\<lparr>entry_value := Some (xss ! i)\<rparr>]\<rparr>, w)"
proof -
  have "entry_load C D (entries a ! i) w = (Ok (xss ! i), (entries a ! i)\<lparr>entry_value := Some (xss ! i)\<rparr>, w)"
    using represents_nth [OF assms(1)] assms(2) by (simp add: load_abs i_def)
  with assms(2) represents_length [OF assms(1)] show ?thesis
    by (simp add: get_loc_def i_def)
qed

lemma generic_get_loc_at:
  assumes "represents a w xss" and "entry_idx loc < length xss"
  defines "i \<equiv> entry_idx loc"
  shows "generic_get_loc C D loc idx a w =
    (ok_or (OutsideEntryBounds idx) (nth_opt (xss ! i) (inside_entry_idx loc)),
    a\<lparr>entries := (entries a)[i := (entries a ! i)\<lparr>entry_value := Some (xss ! i)\<rparr>]\<rparr>, w)"
proof -
  have "entry_load C D (entries a ! i) w = (Ok (xss ! i), (entries a ! i)\<lparr>entry_value := Some (xss ! i)\<rparr>, w)"
    using represents_nth [OF assms(1)] assms(2) by (simp add: load_abs i_def)
  with assms(2) represents_length [OF assms(1)] show ?thesis
    by (simp add: generic_get_loc_def i_def)
qed

text \<open>The entry a read has loaded.\<close>

lemma loaded_entry:
  assumes "represents a w xss" and "i < length xss"
  defines "e \<equiv> (entries a ! i)\<lparr>entry_value := Some (xss ! i)\<rparr>"
  shows "represents (a\<lparr>entries := (entries a)[i := e]\<rparr>) w xss"
    and "all_synced a w \<Longrightarrow> all_synced (a\<lparr>entries := (entries a)[i := e]\<rparr>) w"
    and "sites (a\<lparr>entries := (entries a)[i := e]\<rparr>) = sites a"
proof -
  have len: "i < length (entries a)" using assms represents_length by simp
  have load: "entry_load C D (entries a ! i) w = (Ok (xss ! i), e, w)"
    using represents_nth [OF assms(1,2)] by (simp add: load_abs e_def)
  show "represents (a\<lparr>entries := (entries a)[i := e]\<rparr>) w xss"
    using assms by (intro represents_update) auto
  show "all_synced (a\<lparr>entries := (entries a)[i := e]\<rparr>) w" if "all_synced a w"
  proof -
    have "synced C D (entries a ! i) w" using that len by (simp add: array_synced_def list_all_length)
    from load_synced [OF this load] that show ?thesis by (rule all_synced_update [rotated])
  qed
  show "sites (a\<lparr>entries := (entries a)[i := e]\<rparr>) = sites a"
    using len by (intro sites_update) (simp_all add: e_def)
qed

text \<open>
  \<open>get\<close> and \<open>generic_get\<close> are indexing into the concatenation of the chunks, provided that the
  key lookup is right on these chunk lengths.
\<close>

lemma get_by_locate:
  assumes rep: "represents a w xss"
    and idx: "internal_idx bs (starts_from 0 (map length xss)) (ends_from 0 (map length xss)) k =
      Ok (locate (map length xss) k)"
  shows "\<exists>a'. array_get bs K C D k a w =
      (if k < length (concat xss) then Ok (concat xss ! k) else Err (OutsideEntryBounds k), a', w) \<and>
    generic_get bs K C D k a w =
      (if k < length (concat xss) then Ok (concat xss ! k) else Err (OutsideEntryBounds k), a', w) \<and>
    represents a' w xss \<and> (all_synced a w \<longrightarrow> all_synced a' w) \<and> sites a' = sites a"
proof (cases "locate (map length xss) k")
  case None
  then have "\<not> k < length (concat xss)" by (simp add: locate_None length_concat)
  with None rep idx show ?thesis
    by (intro exI [of _ a]) (simp add: array_get_def generic_get_def array_represents_def)
next
  case (Some loc)
  define i where "i = entry_idx loc"
  define j where "j = inside_entry_idx loc"
  from locate_Some [OF Some] have i: "i < length xss" and j: "j < length (xss ! i)"
    and k: "k = sum_list (take i (map length xss)) + j"
    by (auto simp: i_def j_def)
  have "locate (map length xss) k \<noteq> None" using Some by simp
  then have lt: "k < length (concat xss)" unfolding locate_None by (simp add: length_concat)
  have nth: "concat xss ! k = xss ! i ! j" using nth_concat_chunk [OF i j] k by simp
  let ?a = "a\<lparr>entries := (entries a)[i := (entries a ! i)\<lparr>entry_value := Some (xss ! i)\<rparr>]\<rparr>"
  have "array_get bs K C D k a w = (Ok (xss ! i ! j), ?a, w)"
    using rep idx Some get_loc_at [OF rep, of loc] i j
    by (simp add: array_get_def array_represents_def i_def j_def)
  moreover have "generic_get bs K C D k a w = (Ok (xss ! i ! j), ?a, w)"
    using rep idx Some generic_get_loc_at [OF rep, of loc] i j
    by (simp add: generic_get_def array_represents_def i_def j_def ok_or_def)
  ultimately show ?thesis
    using lt nth loaded_entry [OF rep i] by (intro exI [of _ ?a]) simp
qed

end

section \<open>Memory management keeps the contents\<close>

context array_backing
begin

lemma clear_memory_represents:
  assumes "represents a w xss" and "all_synced a w"
  shows "represents (clear_memory a) w xss" and "all_synced (clear_memory a) w"
    and "sites (clear_memory a) = sites a" and "\<forall>e\<in>set (entries (clear_memory a)). \<not> is_loaded e"
proof -
  have "list_all2 (\<lambda>e xs. entry_abs C D e w = Some xs) (map unload (entries a)) xss"
    using assms by (auto simp: array_represents_def array_synced_def list_all2_conv_all_nth list_all_length synced_unload)
  with assms show "represents (clear_memory a) w xss"
    by (simp add: array_represents_def clear_memory_def)
qed (simp_all add: clear_memory_def array_synced_def list_all_iff array_sites_def o_def)

lemma clear_chunk_represents:
  assumes "represents a w xss" and "all_synced a w"
  shows "represents (clear_chunk i a) w xss" and "all_synced (clear_chunk i a) w"
    and "sites (clear_chunk i a) = sites a"
proof -
  have len: "length (entries a) = length xss" using assms(1) by (rule represents_length)
  have "represents (clear_chunk i a) w xss \<and> all_synced (clear_chunk i a) w \<and> sites (clear_chunk i a) = sites a"
  proof (cases "i < length (entries a)")
    case True
    then have "entry_abs C D (unload (entries a ! i)) w = Some (xss ! i)"
      using assms represents_nth [OF assms(1), of i] len
      by (simp add: synced_unload array_synced_def list_all_length)
    with True len assms show ?thesis
      by (simp add: clear_chunk_def represents_update all_synced_update sites_update)
  qed (use assms in \<open>simp add: clear_chunk_def\<close>)
  then show "represents (clear_chunk i a) w xss" "all_synced (clear_chunk i a) w"
    "sites (clear_chunk i a) = sites a" by auto
qed

lemma shrink_represents:
  assumes "represents a w xss" and "all_synced a w"
  shows "represents (shrink_to_query K idxs a) w xss \<and> all_synced (shrink_to_query K idxs a) w \<and>
    sites (shrink_to_query K idxs a) = sites a"
proof -
  have "represents (foldl (\<lambda>a' (i, r). if in_query idxs r then a' else clear_chunk i a') b irs) w xss \<and>
      all_synced (foldl (\<lambda>a' (i, r). if in_query idxs r then a' else clear_chunk i a') b irs) w \<and>
      sites (foldl (\<lambda>a' (i, r). if in_query idxs r then a' else clear_chunk i a') b irs) = sites b"
    if "represents b w xss" "all_synced b w" for b irs
    using that
  proof (induction irs arbitrary: b)
    case (Cons ir irs)
    obtain i r where "ir = (i, r)" by (cases ir) auto
    with Cons.IH [of "clear_chunk i b"] Cons.IH [of b] Cons.prems clear_chunk_represents [of b w xss i]
    show ?case by simp
  qed simp
  from this [OF assms] show ?thesis by (simp add: shrink_to_query_def)
qed

lemma shrink_fold_entries:
  "length (entries b) = n + length rs \<Longrightarrow>
   foldl (\<lambda>a' (i, r). if in_query idxs r then a' else clear_chunk i a') b (enumerate n rs) =
   b\<lparr>entries := take n (entries b) @ map2 (\<lambda>r e. if in_query idxs r then e else unload e) rs (drop n (entries b))\<rparr>"
proof (induction rs arbitrary: n b)
  case (Cons r rs)
  then have n: "n < length (entries b)" by simp
  let ?e = "if in_query idxs r then entries b ! n else unload (entries b ! n)"
  have step: "(if in_query idxs r then b else clear_chunk n b) = b\<lparr>entries := (entries b)[n := ?e]\<rparr>"
    using n by (simp add: clear_chunk_def)
  have drop: "drop n (entries b) = entries b ! n # drop (Suc n) (entries b)"
    using n by (simp add: Cons_nth_drop_Suc)
  have upd: "take (Suc n) ((entries b)[n := ?e]) = take n (entries b) @ [?e]"
    using n by (simp add: take_Suc_conv_app_nth)
  from Cons.IH [of "b\<lparr>entries := (entries b)[n := ?e]\<rparr>" "Suc n"] Cons.prems
  show ?case by (simp only: enumerate_simps foldl_Cons split_conv step) (simp add: drop upd)
qed simp

text \<open>Exactly the chunks whose range holds no queried index are unloaded.\<close>

lemma shrink_entries:
  assumes "represents a w xss"
  shows "entries (shrink_to_query K idxs a) =
    map2 (\<lambda>r e. if in_query idxs r then e else unload e)
      (zip (starts_from 0 (map length xss)) (ends_from 0 (map length xss))) (entries a)"
  using shrink_fold_entries [of a 0 "zip (c_ref K (key_starts a)) (c_ref K (key_ends a))" idxs]
    represents_length [OF assms] assms
  by (simp add: shrink_to_query_def array_represents_def)

lemma sum_widths_from:
  "length es = length ls \<Longrightarrow> sum_widths (zip es (zip (starts_from s ls) (ends_from s ls))) =
   Ok (sum_list (map snd (filter (is_loaded \<circ> fst) (zip es ls))))"
proof (induction es ls arbitrary: s rule: list_induct2)
  case (Cons e es l ls)
  then show ?case by (simp add: usub_def)
qed simp

lemma loaded_len_represents:
  assumes "represents a w xss"
  shows "loaded_len K a =
    Ok (sum_list (map snd (filter (is_loaded \<circ> fst) (zip (entries a) (map length xss)))))"
  using sum_widths_from [of "entries a" "map length xss" 0] assms represents_length [OF assms]
  by (simp add: loaded_len_def array_represents_def)

section \<open>Iterating over chunks\<close>

lemma chunk_iter_from_represents:
  "list_all2 (\<lambda>e xs. entry_abs C D e w = Some xs) es xss \<Longrightarrow>
   chunk_iter_from C D es w = (map Ok xss, map2 (\<lambda>e xs. e\<lparr>entry_value := Some xs\<rparr>) es xss, w)"
  by (induction es xss rule: list_all2_induct) (simp_all add: load_abs)

lemma chunk_iter_represents:
  assumes "represents a w xss"
  shows "\<exists>a'. chunk_iter C D a w = (map Ok xss, a', w) \<and> represents a' w xss \<and>
    (\<forall>e\<in>set (entries a'). is_loaded e)"
proof -
  have l: "length (entries a) = length xss" using assms by (rule represents_length)
  let ?a = "a\<lparr>entries := map2 (\<lambda>e xs. e\<lparr>entry_value := Some xs\<rparr>) (entries a) xss\<rparr>"
  have "chunk_iter C D a w = (map Ok xss, ?a, w)"
    using assms chunk_iter_from_represents [of w "entries a" xss]
    by (simp add: chunk_iter_def array_represents_def)
  moreover have "represents ?a w xss"
    using assms l by (auto simp: array_represents_def list_all2_conv_all_nth)
  moreover have "\<forall>e\<in>set (entries ?a). is_loaded e" by (auto simp: is_loaded_iff)
  ultimately show ?thesis by blast
qed

end

section \<open>Writing\<close>

locale growing_array = array_backing D site stored writable C K + resizing_container K
  for D :: "('d, 'wr, 'w) disk_ops"
    and site :: "'d \<Rightarrow> 's"
    and stored :: "'d \<Rightarrow> 'w \<Rightarrow> bytes option"
    and writable :: "'d \<Rightarrow> 'w \<Rightarrow> bool"
    and C :: "('c, 'a list, 'e) coder_ops"
    and K :: "('k, nat) resizing_ops"
begin

lemma default_represents: "represents (array_default K) w [] \<and> all_synced (array_default K) w \<and> sites (array_default K) = []"
  by (simp add: array_represents_def array_default_def default_view array_synced_def array_sites_def)

lemma push_range_represents:
  assumes "c_ref K (key_starts a) = starts_from 0 ls" and "c_ref K (key_ends a) = ends_from 0 ls"
  shows "\<exists>a'. push_range K n a = (Ok (), a') \<and> entries a' = entries a \<and>
    c_ref K (key_starts a') = starts_from 0 (ls @ [n]) \<and> c_ref K (key_ends a') = ends_from 0 (ls @ [n])"
proof -
  define s where "s = sum_list ls"
  have last: "last_or 0 (c_ref K (key_ends a)) = s" using assms by (simp add: last_ends_from s_def)
  obtain ks where 1: "c_push K s (key_starts a) = (Ok (), ks)" "c_ref K ks = starts_from 0 ls @ [s]"
    using push_Ok [of s "key_starts a"] assms by auto
  obtain ke where 2: "c_push K (s + n) (key_ends a) = (Ok (), ke)" "c_ref K ke = ends_from 0 ls @ [s + n]"
    using push_Ok [of "s + n" "key_ends a"] assms by auto
  show ?thesis
    using 1 2 by (simp add: push_range_def last Let_def starts_from_append ends_from_append s_def)
qed

text \<open>A write to a new site disturbs no entry of the array.\<close>

lemma represents_frame:
  assumes "write_value C D c d v w = (r, w')" and "site d \<notin> set (sites a)"
  shows "represents a w' xss \<longleftrightarrow> represents a w xss" and "all_synced a w' \<longleftrightarrow> all_synced a w"
proof -
  have "on_disk c' (entry_disk e) w' = on_disk c' (entry_disk e) w" if "e \<in> set (entries a)" for e c'
  proof -
    have "site (entry_disk e) \<in> set (sites a)" using that by (simp add: array_sites_def)
    with assms(2) have "site (entry_disk e) \<noteq> site d" by auto
    then show ?thesis by (rule write_value_frame [OF assms(1)])
  qed
  then have *: "\<forall>e\<in>set (entries a). entry_abs C D e w' = entry_abs C D e w \<and> synced C D e w' = synced C D e w"
    by (auto simp: abs_on_disk synced_on_disk split: option.splits)
  then have "list_all2 (\<lambda>e xs. entry_abs C D e w' = Some xs) (entries a) xss \<longleftrightarrow>
      list_all2 (\<lambda>e xs. entry_abs C D e w = Some xs) (entries a) xss"
    by (auto simp: list_all2_conv_all_nth)
  then show "represents a w' xss \<longleftrightarrow> represents a w xss" by (simp add: array_represents_def)
  show "all_synced a w' \<longleftrightarrow> all_synced a w" using * by (auto simp: array_synced_def list_all_iff)
qed

lemma append_entry_represents:
  assumes "represents a w xss" and "all_synced a w"
    and "entry_abs C D e w = Some vals" and "synced C D e w"
  shows "\<exists>a'. push_range K (length vals) (a\<lparr>entries := entries a @ [e]\<rparr>) = (Ok (), a') \<and>
    represents a' w (xss @ [vals]) \<and> all_synced a' w \<and> sites a' = sites a @ [site (entry_disk e)]"
proof -
  obtain a' where P: "push_range K (length vals) (a\<lparr>entries := entries a @ [e]\<rparr>) = (Ok (), a')"
    "entries a' = entries a @ [e]"
    "c_ref K (key_starts a') = starts_from 0 (map length xss @ [length vals])"
    "c_ref K (key_ends a') = ends_from 0 (map length xss @ [length vals])"
    using push_range_represents [of "a\<lparr>entries := entries a @ [e]\<rparr>" "map length xss" "length vals"] assms(1)
    by (auto simp: array_represents_def)
  have "list_all2 (\<lambda>e xs. entry_abs C D e w = Some xs) (entries a @ [e]) (xss @ [vals])"
    using assms by (auto simp: array_represents_def intro: list_all2_appendI)
  with P assms show ?thesis
    by (intro exI [of _ a']) (auto simp: array_represents_def array_synced_def array_sites_def)
qed

lemma append_Ok:
  assumes "represents a w xss" "all_synced a w" "site d \<notin> set (sites a)"
    and "array_append K C D vals d c a w = (r, a', w')"
  shows "(r = Ok () \<and> represents a' w' (xss @ [vals]) \<and> all_synced a' w' \<and> sites a' = sites a @ [site d]) \<or>
    (\<exists>x. r = Err x \<and> a' = a \<and> represents a w' xss \<and> all_synced a w')"
proof -
  obtain r0 w1 where W: "write_value C D c d vals w = (r0, w1)" by fastforce
  have E: "entry_write_unload C D id vals (entry_new d c) w = (r0, unload (entry_new d c), w1)"
    using W by (simp add: entry_write_unload_def)
  have frame: "represents a w1 xss" "all_synced a w1" using represents_frame [OF W assms(3)] assms by auto
  show ?thesis
  proof (cases r0)
    case (Ok u)
    have new: "on_disk c d w1 = Some vals" using write_value_ok(1) W Ok by metis
    have "entry_abs C D (unload (entry_new d c)) w1 = Some vals" "synced C D (unload (entry_new d c)) w1"
      using new by (simp_all add: abs_on_disk)
    from append_entry_represents [OF frame this] E Ok assms(4) show ?thesis
      by (auto simp: array_append_def expect_def)
  next
    case (Err x)
    with E assms(4) frame show ?thesis by (auto simp: array_append_def)
  qed (use W write_value_returns in auto)
qed

lemma append_memory_Ok:
  assumes "represents a w xss" "all_synced a w" "site d \<notin> set (sites a)"
    and "array_append_memory K C D vals d c a w = (r, a', w')"
  shows "(r = Ok () \<and> represents a' w' (xss @ [vals]) \<and> all_synced a' w' \<and> sites a' = sites a @ [site d]) \<or>
    (\<exists>x. r = Err x \<and> a' = a \<and> represents a w' xss \<and> all_synced a w')"
proof -
  obtain r0 w1 where W: "write_value C D c d vals w = (r0, w1)" by fastforce
  have frame: "represents a w1 xss" "all_synced a w1" using represents_frame [OF W assms(3)] assms by auto
  show ?thesis
  proof (cases r0)
    case (Ok u)
    let ?e = "(entry_new d c)\<lparr>entry_value := Some vals\<rparr>"
    have E: "entry_write C D vals (entry_new d c) w = (Ok (), ?e, w1)"
      using W Ok by (simp add: entry_write_def oc_set_def oc_new_def)
    have new: "on_disk c d w1 = Some vals" using write_value_ok(1) W Ok by metis
    have "entry_abs C D ?e w1 = Some vals" "synced C D ?e w1"
      using new by (simp_all add: synced_on_disk)
    from append_entry_represents [OF frame this] E assms(4) show ?thesis
      by (auto simp: array_append_memory_def expect_def)
  next
    case (Err x)
    with W assms(4) frame show ?thesis by (auto simp: array_append_memory_def entry_write_def)
  qed (use W write_value_returns in auto)
qed

lemma append_succeeds:
  assumes "represents a w xss" "all_synced a w" "site d \<notin> set (sites a)"
    and "writable d w" "accepts C c vals"
  shows "\<exists>a' w'. array_append K C D vals d c a w = (Ok (), a', w') \<and> represents a' w' (xss @ [vals]) \<and>
    all_synced a' w' \<and> sites a' = sites a @ [site d]"
proof -
  obtain r a' w' where A: "array_append K C D vals d c a w = (r, a', w')" by (metis prod_cases3)
  obtain w1 where "write_value C D c d vals w = (Ok (), w1)"
    using write_value_succeeds [OF assms(4,5)] by blast
  then have "\<not> (\<exists>x. r = Err x)"
    using A by (auto simp: array_append_def entry_write_unload_def expect_def split: prod.splits result.splits)
  with append_Ok [OF assms(1-3) A] A show ?thesis by auto
qed

end

section \<open>Removing and merging\<close>

text \<open>The keys without those of one chunk, the later ones moved down by its length.\<close>

lemma starts_remove:
  "i < length ls \<Longrightarrow>
   take i (starts_from 0 ls) @ map (\<lambda>x. x - ls ! i) (drop (Suc i) (starts_from 0 ls)) =
   starts_from 0 (take i ls @ drop (Suc i) ls) \<and>
   list_all (\<lambda>x. ls ! i \<le> x) (drop (Suc i) (starts_from 0 ls))"
proof -
  assume i: "i < length ls"
  define as where "as = take i ls"
  define bs where "bs = drop (Suc i) ls"
  have ls: "ls = as @ ls ! i # bs" and len: "length as = i"
    using i by (simp_all add: as_def bs_def id_take_nth_drop [symmetric])
  have "starts_from 0 ls = starts_from 0 as @ sum_list as # starts_from (sum_list as + ls ! i) bs"
    by (subst ls) (simp add: starts_from_append)
  moreover have "list_all (\<lambda>x. ls ! i \<le> x) (starts_from (sum_list as + ls ! i) bs)"
    by (simp add: starts_from_shift [symmetric] list_all_iff)
  ultimately show ?thesis
    using len by (simp add: starts_from_unshift starts_from_append as_def [symmetric] bs_def [symmetric])
qed

lemma ends_remove:
  "i < length ls \<Longrightarrow>
   take i (ends_from 0 ls) @ map (\<lambda>x. x - ls ! i) (drop (Suc i) (ends_from 0 ls)) =
   ends_from 0 (take i ls @ drop (Suc i) ls) \<and>
   list_all (\<lambda>x. ls ! i \<le> x) (drop (Suc i) (ends_from 0 ls))"
proof -
  assume i: "i < length ls"
  define as where "as = take i ls"
  define bs where "bs = drop (Suc i) ls"
  have ls: "ls = as @ ls ! i # bs" and len: "length as = i"
    using i by (simp_all add: as_def bs_def id_take_nth_drop [symmetric])
  have "ends_from 0 ls = ends_from 0 as @ (sum_list as + ls ! i) # ends_from (sum_list as + ls ! i) bs"
    by (subst ls) (simp add: ends_from_append)
  moreover have "list_all (\<lambda>x. ls ! i \<le> x) (ends_from (sum_list as + ls ! i) bs)"
    by (auto simp: list_all_iff dest: ends_from_ge)
  ultimately show ?thesis
    using len by (simp add: ends_from_unshift ends_from_append as_def [symmetric] bs_def [symmetric])
qed

context growing_array
begin

lemma key_remove_Ok:
  assumes "i < length (c_ref K k)" and "list_all (\<lambda>x. width \<le> x) (drop (Suc i) (c_ref K k))"
  shows "\<exists>k'. key_remove K i width k = (Ok (), k') \<and>
    c_ref K k' = take i (c_ref K k) @ map (\<lambda>x. x - width) (drop (Suc i) (c_ref K k))"
proof -
  obtain k1 where k1: "c_remove K i k = (Ok (), k1)"
    "c_ref K k1 = take i (c_ref K k) @ drop (Suc i) (c_ref K k)"
    using remove_Ok [OF assms(1)] by blast
  let ?f = "\<lambda>ks. take i ks @ map (\<lambda>x. x - width) (drop i ks)"
  have "c_ref K (c_mut K ?f k1) = ?f (c_ref K k1)" by (rule mut_view) simp
  with k1 assms show ?thesis by (simp add: key_remove_def)
qed

lemma remove_represents:
  assumes "represents a w xss" and "all_synced a w" and "i < length xss"
  shows "\<exists>a'. array_remove K i a = (Ok (), a') \<and> represents a' w (take i xss @ drop (Suc i) xss) \<and>
    all_synced a' w \<and> sites a' = take i (sites a) @ drop (Suc i) (sites a)"
proof -
  let ?ls = "map length xss"
  from assms(1) have ks: "c_ref K (key_starts a) = starts_from 0 ?ls" "c_ref K (key_ends a) = ends_from 0 ?ls"
    by (auto simp: array_represents_def)
  have i: "i < length ?ls" "i < length (entries a)" using assms represents_length by auto
  have get: "c_get K (key_starts a) i = Some (sum_list (take i ?ls))"
    "c_get K (key_ends a) i = Some (sum_list (take (Suc i) ?ls))"
    using i by (simp_all add: get_view ks nth_opt_def)
  have width: "usub (sum_list (take (Suc i) ?ls)) (sum_list (take i ?ls)) = (Ok (?ls ! i) :: (nat, unit) result)"
    using i by (simp add: usub_def sum_list_take_Suc)
  obtain k1 where k1: "key_remove K i (?ls ! i) (key_starts a) = (Ok (), k1)"
      "c_ref K k1 = starts_from 0 (take i ?ls @ drop (Suc i) ?ls)"
    using key_remove_Ok [of i "key_starts a" "?ls ! i"] starts_remove [OF i(1)] i ks by auto
  obtain k2 where k2: "key_remove K i (?ls ! i) (key_ends a) = (Ok (), k2)"
      "c_ref K k2 = ends_from 0 (take i ?ls @ drop (Suc i) ?ls)"
    using key_remove_Ok [of i "key_ends a" "?ls ! i"] ends_remove [OF i(1)] i ks by auto
  let ?a = "a\<lparr>entries := take i (entries a) @ drop (Suc i) (entries a), key_starts := k1, key_ends := k2\<rparr>"
  have "array_remove K i a = (Ok (), ?a)"
    using get width k1 k2 i by (simp add: array_remove_def vec_c_remove_def)
  moreover have "list_all2 (\<lambda>e xs. entry_abs C D e w = Some xs)
      (take i (entries a) @ drop (Suc i) (entries a)) (take i xss @ drop (Suc i) xss)"
    using assms(1) by (intro list_all2_appendI list_all2_takeI list_all2_dropI) (auto simp: array_represents_def)
  ultimately show ?thesis
    using k1 k2 assms(2)
    by (intro exI [of _ ?a]) (auto simp: array_represents_def array_synced_def list_all_iff array_sites_def take_map drop_map
        dest: in_set_takeD in_set_dropD)
qed

lemma remove_outside:
  assumes "represents a w xss" and "length xss \<le> i"
  shows "array_remove K i a = (Ok (), a)"
proof -
  have "c_get K (key_starts a) i = None" using assms by (simp add: get_view array_represents_def)
  then show ?thesis by (simp add: array_remove_def)
qed

lemma merge_represents:
  assumes "represents a w xss" "all_synced a w" and "represents b w yss" "all_synced b w"
  shows "\<exists>m. array_merge K a b = (Ok (), m) \<and> represents m w (xss @ yss) \<and> all_synced m w \<and>
    sites m = sites a @ sites b"
proof -
  let ?off = "sum_list (map length xss)"
  have off: "last_or 0 (c_ref K (key_ends a)) = ?off"
    using assms(1) by (simp add: array_represents_def last_ends_from)
  obtain ks where 1: "c_extend K (map (\<lambda>x. x + ?off) (c_ref K (key_starts b))) (key_starts a) = (Ok (), ks)"
      "c_ref K ks = starts_from 0 (map length (xss @ yss))"
    using extend_Ok [of "map (\<lambda>x. x + ?off) (c_ref K (key_starts b))" "key_starts a"] assms(1,3)
    by (auto simp: array_represents_def starts_from_append starts_from_shift)
  obtain ke where 2: "c_extend K (map (\<lambda>x. x + ?off) (c_ref K (key_ends b))) (key_ends a) = (Ok (), ke)"
      "c_ref K ke = ends_from 0 (map length (xss @ yss))"
    using extend_Ok [of "map (\<lambda>x. x + ?off) (c_ref K (key_ends b))" "key_ends a"] assms(1,3)
    by (auto simp: array_represents_def ends_from_append ends_from_shift)
  let ?m = "a\<lparr>key_starts := ks, key_ends := ke, entries := entries a @ entries b\<rparr>"
  have "array_merge K a b = (Ok (), ?m)" using 1 2 by (simp add: array_merge_def off Let_def)
  with 1 2 assms show ?thesis
    by (intro exI [of _ ?m]) (auto simp: array_represents_def array_synced_def array_sites_def intro: list_all2_appendI)
qed

end

section \<open>Arrays of chunks in plain files\<close>

lemma plain_array:
  "coder_roundtrip C \<Longrightarrow> growing_array plainfile_disk pf_path (\<lambda>d. file_stored (pf_path d))
     (\<lambda>d. file_writable (pf_path d)) C vec_ops"
  by (intro growing_array.intro array_backing.intro array_backing_axioms.intro plainfile_backing
      vec.resizing_container_axioms vec.container_axioms)

lemma secret_keys_array:
  "coder_roundtrip C \<Longrightarrow> array_backing plainfile_disk pf_path (\<lambda>d. file_stored (pf_path d))
     (\<lambda>d. file_writable (pf_path d)) C (secret_ops z)"
  by (intro array_backing.intro array_backing_axioms.intro plainfile_backing secret.container_axioms)

interpretation prefix_array: growing_array plainfile_disk pf_path "\<lambda>d. file_stored (pf_path d)"
  "\<lambda>d. file_writable (pf_path d)" prefix_ops vec_ops
  by (rule plain_array [OF prefix_roundtrip])

text \<open>The reads of an array over plain files.\<close>

lemma plain_get:
  assumes "coder_roundtrip C" and "array_represents vec_ops C plainfile_disk a s xss" and "searches bs xss"
  shows "\<exists>a'. array_get bs vec_ops C plainfile_disk k a s =
      (if k < length (concat xss) then Ok (concat xss ! k) else Err (OutsideEntryBounds k), a', s) \<and>
    generic_get bs vec_ops C plainfile_disk k a s =
      (if k < length (concat xss) then Ok (concat xss ! k) else Err (OutsideEntryBounds k), a', s) \<and>
    array_represents vec_ops C plainfile_disk a' s xss"
  using array_backing.get_by_locate [OF growing_array.axioms(1) [OF plain_array [OF assms(1)]] assms(2)
      searches_locate [OF assms(3)]] by blast

text \<open>
  C5: reading an array by index. Over plain files, with any binary search and without empty chunks,
  \<open>get\<close> and \<open>generic_get\<close> return the element of the concatenated chunks, or
  \<open>OutsideEntryBounds\<close> with the index asked for beyond the end; the store is not changed, and the
  array still represents the same chunks afterwards (only more of it is in memory).
\<close>

theorem array_get_correct:
  assumes "coder_roundtrip C" and "binary_searcher bs"
    and "array_represents vec_ops C plainfile_disk a s xss" and "[] \<notin> set xss"
  shows "\<exists>a'. array_get bs vec_ops C plainfile_disk k a s =
      (if k < length (concat xss) then Ok (concat xss ! k) else Err (OutsideEntryBounds k), a', s) \<and>
    generic_get bs vec_ops C plainfile_disk k a s =
      (if k < length (concat xss) then Ok (concat xss ! k) else Err (OutsideEntryBounds k), a', s) \<and>
    array_represents vec_ops C plainfile_disk a' s xss"
  by (rule plain_get [OF assms(1,3)]) (simp add: searches_def assms)

text \<open>Three chunks on two kinds of state: one in memory, two on disk.\<close>

abbreviation demo_array :: "(nat list, byte, plainfile, bincode_coder) backed_array" where
  "demo_array \<equiv> \<lparr>key_starts = [0, 2, 3], key_ends = [2, 3, 6],
     entries = [demo_entry\<lparr>entry_value := Some [10, 11]\<rparr>, entry_new (Plainfile [''g'']) BincodeCoder,
       entry_new (Plainfile [''h'']) BincodeCoder]\<rparr>"

abbreviation demo_store :: fs where
  "demo_store \<equiv> set_file [''f''] (Some [2, 10, 11]) (set_file [''g''] (Some [1, 12])
     (set_file [''h''] (Some [3, 13, 14, 15]) empty_fs))"

lemma demo_reads:
  "read_value prefix_ops plainfile_disk BincodeCoder (Plainfile [''f'']) demo_store = (Ok [10, 11], demo_store)"
  "read_value prefix_ops plainfile_disk BincodeCoder (Plainfile [''g'']) demo_store = (Ok [12], demo_store)"
  "read_value prefix_ops plainfile_disk BincodeCoder (Plainfile [''h'']) demo_store = (Ok [13, 14, 15], demo_store)"
  by (simp_all add: read_value_def plainfile_disk_def plainfile_read_disk_def fs_read_def empty_fs_def decode_def)

lemma demo_represents:
  "array_represents vec_ops prefix_ops plainfile_disk demo_array demo_store [[10, 11], [12], [13, 14, 15]]"
  "array_synced prefix_ops plainfile_disk demo_array demo_store"
  by (simp_all add: array_represents_def array_synced_def synced_def entry_abs_def demo_reads)

theorem array_get_correct_witness:
  "fst (array_get bsearch_early vec_ops prefix_ops plainfile_disk 4 demo_array demo_store) = Ok 14 \<and>
   fst (array_get bsearch_early vec_ops prefix_ops plainfile_disk 6 demo_array demo_store) = Err (OutsideEntryBounds 6)"
  using array_get_correct [OF prefix_roundtrip early.binary_searcher_axioms demo_represents(1), of 4]
    array_get_correct [OF prefix_roundtrip early.binary_searcher_axioms demo_represents(1), of 6]
  by auto

text \<open>
  the same for chunks of any length, empty ones included, when the binary search returns the
  last of equal keys.
\<close>

theorem array_get_correct_last:
  assumes "coder_roundtrip C" and "array_represents vec_ops C plainfile_disk a s xss"
  shows "\<exists>a'. array_get bsearch_last vec_ops C plainfile_disk k a s =
      (if k < length (concat xss) then Ok (concat xss ! k) else Err (OutsideEntryBounds k), a', s) \<and>
    generic_get bsearch_last vec_ops C plainfile_disk k a s =
      (if k < length (concat xss) then Ok (concat xss ! k) else Err (OutsideEntryBounds k), a', s) \<and>
    array_represents vec_ops C plainfile_disk a' s xss"
  by (rule plain_get [OF assms searches_last])

theorem array_get_correct_last_witness:
  "fst (array_get bsearch_last vec_ops prefix_ops plainfile_disk 2 demo_array demo_store) = Ok 12"
  using array_get_correct_last [OF prefix_roundtrip demo_represents(1), of 2] by auto

section \<open>Building an array\<close>

text \<open>A program that appends one chunk after the other, each to a disk of its own.\<close>

fun array_append_all ::
  "('k, nat) resizing_ops \<Rightarrow> ('c, 'a list, 'e) coder_ops \<Rightarrow> ('d, 'wr, 'w) disk_ops \<Rightarrow> 'c \<Rightarrow> ('d \<times> 'a list) list \<Rightarrow>
   ('k, 'a, 'd, 'c) backed_array \<Rightarrow> 'w \<Rightarrow> (unit, 'e) result \<times> ('k, 'a, 'd, 'c) backed_array \<times> 'w" where
  "array_append_all K C D c [] a w = (Ok (), a, w)"
| "array_append_all K C D c ((d, vals) # items) a w =
     (case array_append K C D vals d c a w of
        (Ok _, a1, w1) \<Rightarrow> array_append_all K C D c items a1 w1
      | (r, a1, w1) \<Rightarrow> (r, a1, w1))"

context growing_array
begin

lemma append_all_represents:
  assumes "represents a w xss" "all_synced a w" "distinct (sites a @ map (site \<circ> fst) items)"
    and "\<forall>(d, vals) \<in> set items. writable d w \<and> accepts C c vals"
  shows "\<exists>a' w'. array_append_all K C D c items a w = (Ok (), a', w') \<and>
    represents a' w' (xss @ map snd items) \<and> all_synced a' w' \<and> sites a' = sites a @ map (site \<circ> fst) items"
  using assms
proof (induction items arbitrary: a w xss)
  case Nil
  then show ?case by simp
next
  case (Cons item items)
  obtain d vals where item: "item = (d, vals)" by (cases item)
  obtain a1 w1 where A: "array_append K C D vals d c a w = (Ok (), a1, w1)"
      "represents a1 w1 (xss @ [vals])" "all_synced a1 w1" "sites a1 = sites a @ [site d]"
    using append_succeeds [OF Cons.prems(1,2), of d c vals] Cons.prems(3,4) item by auto
  obtain r where "write_value C D c d vals w = (r, w1)"
    using A(1) by (auto simp: array_append_def entry_write_unload_def Let_def split: prod.splits result.splits)
  then have "writable d' w1 = writable d' w" for d' by (rule write_value_writable)
  with Cons.prems have "\<forall>(d, vals) \<in> set items. writable d w1 \<and> accepts C c vals"
    "distinct (sites a1 @ map (site \<circ> fst) items)"
    using A(4) item by (auto simp: o_def)
  from Cons.IH [OF A(2,3) this(2,1)] A(1,4) item show ?case by auto
qed

end

text \<open>
  C4: an array built by appending chunks to distinct writable paths, with values the coder accepts,
  reads back as their concatenation: every append succeeds and afterwards every index below the total
  length gives its element and every other one the error. This holds for every binary search that meets
  the documented contract, if no chunk is empty or the search returns the last of equal keys.
\<close>

theorem append_all_then_get:
  assumes "coder_roundtrip C" and "distinct (map fst items)"
    and "\<forall>(p, vals) \<in> set items. file_writable p s \<and> accepts C c vals" and "searches bs (map snd items)"
  shows "\<exists>a' s'. array_append_all vec_ops C plainfile_disk c (map (\<lambda>(p, vals). (Plainfile p, vals)) items)
      (array_default vec_ops) s = (Ok (), a', s') \<and>
    array_len vec_ops a' = length (concat (map snd items)) \<and>
    (\<forall>k. fst (array_get bs vec_ops C plainfile_disk k a' s') =
      (if k < length (concat (map snd items)) then Ok (concat (map snd items) ! k)
       else Err (OutsideEntryBounds k)))"
proof -
  note G = plain_array [OF assms(1)]
  note A = growing_array.axioms(1) [OF G]
  define its where "its = map (\<lambda>(p, vals). (Plainfile p, vals)) items"
  have snd: "map snd its = map snd items" and fst: "map (pf_path \<circ> fst) its = map fst items"
    unfolding its_def by (induction items) auto
  have empty: "array_sites pf_path (array_default vec_ops) = []" by (simp add: array_sites_def array_default_def)
  have "distinct (array_sites pf_path (array_default vec_ops) @ map (pf_path \<circ> fst) its)"
    unfolding fst empty using assms(2) by simp
  moreover have "\<forall>(d, vals) \<in> set its. file_writable (pf_path d) s \<and> accepts C c vals"
    using assms(3) by (auto simp: its_def)
  moreover have "array_represents vec_ops C plainfile_disk (array_default vec_ops) s []"
    "array_synced C plainfile_disk (array_default vec_ops) s"
    using growing_array.default_represents [OF G] by auto
  ultimately obtain a' s' where
    B: "array_append_all vec_ops C plainfile_disk c its (array_default vec_ops) s = (Ok (), a', s')"
    and R: "array_represents vec_ops C plainfile_disk a' s' (map snd items)"
    using growing_array.append_all_represents [OF G, of "array_default vec_ops" s "[]" its c] snd by auto
  have "fst (array_get bs vec_ops C plainfile_disk k a' s') =
      (if k < length (concat (map snd items)) then Ok (concat (map snd items) ! k)
       else Err (OutsideEntryBounds k))" for k
    using array_backing.get_by_locate [OF A R searches_locate [OF assms(4)], where k = k] by auto
  with B array_backing.represents_array_len [OF A R] show ?thesis unfolding its_def by blast
qed

theorem append_all_then_get_witness:
  "\<exists>a' s'. array_append_all vec_ops prefix_ops plainfile_disk BincodeCoder
      [(Plainfile [''a''], [1, 2]), (Plainfile [''b''], [4]), (Plainfile [''c''], [3])] (array_default vec_ops) empty_fs =
      (Ok (), a', s') \<and>
    fst (array_get bsearch_early vec_ops prefix_ops plainfile_disk 3 a' s') = Ok 3"
proof -
  let ?items = "[([''a''], [1, 2]), ([''b''], [4]), ([''c''], [3])] :: (path \<times> bytes) list"
  have "\<forall>(p, vals) \<in> set ?items. file_writable p empty_fs \<and> accepts prefix_ops BincodeCoder vals"
    by (auto simp: file_writable_def empty_fs_def parent_def)
  moreover have "searches bsearch_early (map snd ?items)" by (rule searches_early) simp
  ultimately obtain a' s' where
    "array_append_all vec_ops prefix_ops plainfile_disk BincodeCoder
       (map (\<lambda>(p, vals). (Plainfile p, vals)) ?items) (array_default vec_ops) empty_fs = (Ok (), a', s')"
    and get: "\<forall>k. fst (array_get bsearch_early vec_ops prefix_ops plainfile_disk k a' s') =
      (if k < length (concat (map snd ?items)) then Ok (concat (map snd ?items) ! k)
       else Err (OutsideEntryBounds k))"
    using append_all_then_get [OF prefix_roundtrip, of ?items empty_fs BincodeCoder bsearch_early] by auto
  with get [rule_format, of 3] show ?thesis by (intro exI [of _ a'] exI [of _ s']) simp
qed

text \<open>
  C10: appending is atomic. Whatever the store does, \<open>append\<close> and \<open>append_memory\<close> to a path no chunk
  uses either succeed, and the array then represents the old chunks followed by the new one, or
  return an error and leave the array as it was, with every old chunk intact.
\<close>

theorem append_atomic:
  assumes "coder_roundtrip C" and "array_represents vec_ops C plainfile_disk a s xss"
    and "array_synced C plainfile_disk a s" and "pf_path d \<notin> set (array_sites pf_path a)"
    and "f = array_append \<or> f = array_append_memory"
  shows "case f vec_ops C plainfile_disk vals d c a s of (r, a', s') \<Rightarrow>
    array_synced C plainfile_disk a' s' \<and>
    ((r = Ok () \<and> array_represents vec_ops C plainfile_disk a' s' (xss @ [vals])) \<or>
     (\<exists>x. r = Err x \<and> a' = a \<and> array_represents vec_ops C plainfile_disk a s' xss))"
proof -
  obtain r a' s' where F: "f vec_ops C plainfile_disk vals d c a s = (r, a', s')" by (metis prod_cases3)
  note G = plain_array [OF assms(1)]
  show ?thesis
    using F assms(5) growing_array.append_Ok [OF G assms(2,3,4), of vals c r a' s']
      growing_array.append_memory_Ok [OF G assms(2,3,4), of vals c r a' s']
    by auto
qed

theorem append_atomic_witness:
  "case array_append vec_ops prefix_ops plainfile_disk [7] (Plainfile [''k'']) BincodeCoder demo_array demo_store of
     (r, a', s') \<Rightarrow> array_synced prefix_ops plainfile_disk a' s'"
proof -
  have "pf_path (Plainfile [''k'']) \<notin> set (array_sites pf_path demo_array)" by (simp add: array_sites_def)
  from append_atomic [OF prefix_roundtrip demo_represents this, of array_append "[7]" BincodeCoder] show ?thesis
    by (auto split: prod.splits)
qed

text \<open>
  C20: removing a chunk and merging two arrays. On arrays with \<open>Vec\<close> keys \<open>remove\<close> of an existing
  chunk succeeds and the array represents the other chunks in order, with the key ranges moved
  down; of a chunk that does not exist it does nothing. \<open>merge\<close> succeeds and represents the chunks of
  both. Neither touches the store.
\<close>

theorem remove_and_merge:
  assumes "coder_roundtrip C" and "array_represents vec_ops C plainfile_disk a s xss"
    and "array_synced C plainfile_disk a s" and "array_represents vec_ops C plainfile_disk b s yss"
    and "array_synced C plainfile_disk b s"
  shows "(if i < length xss
      then \<exists>a'. array_remove vec_ops i a = (Ok (), a') \<and>
        array_represents vec_ops C plainfile_disk a' s (take i xss @ drop (Suc i) xss)
      else array_remove vec_ops i a = (Ok (), a)) \<and>
    (\<exists>m. array_merge vec_ops a b = (Ok (), m) \<and>
      array_represents vec_ops C plainfile_disk m s (xss @ yss) \<and> array_synced C plainfile_disk m s)"
proof -
  note G = plain_array [OF assms(1)]
  show ?thesis
    using growing_array.remove_represents [OF G assms(2,3), of i] growing_array.remove_outside [OF G assms(2), of i]
      growing_array.merge_represents [OF G assms(2-5)] by auto
qed

theorem remove_and_merge_witness:
  "(\<exists>a'. array_remove vec_ops 1 demo_array = (Ok (), a') \<and>
     array_represents vec_ops prefix_ops plainfile_disk a' demo_store [[10, 11], [13, 14, 15]]) \<and>
   (\<exists>m. array_merge vec_ops demo_array demo_array = (Ok (), m) \<and>
     array_represents vec_ops prefix_ops plainfile_disk m demo_store
       [[10, 11], [12], [13, 14, 15], [10, 11], [12], [13, 14, 15]])"
  using remove_and_merge [OF prefix_roundtrip demo_represents demo_represents, of 1] by auto

text \<open>
  moving chunks out of memory loses nothing. On an array in step with its files,
  \<open>clear_memory\<close>, \<open>clear_chunk\<close> and \<open>shrink_to_query\<close> keep the chunks the array represents; after
  \<open>clear_memory\<close> nothing is loaded and \<open>loaded_len\<close> is 0; \<open>shrink_to_query\<close> unloads exactly the
  chunks whose range holds none of the queried indices; and \<open>loaded_len\<close> is the sum of the lengths
  of the loaded chunks.
\<close>

theorem memory_management:
  assumes "coder_roundtrip C" and "array_represents vec_ops C plainfile_disk a s xss"
    and "array_synced C plainfile_disk a s"
  shows "array_represents vec_ops C plainfile_disk (clear_memory a) s xss \<and>
    loaded_len vec_ops (clear_memory a) = Ok 0 \<and>
    array_represents vec_ops C plainfile_disk (clear_chunk i a) s xss \<and>
    array_represents vec_ops C plainfile_disk (shrink_to_query vec_ops idxs a) s xss \<and>
    entries (shrink_to_query vec_ops idxs a) = map2 (\<lambda>r e. if in_query idxs r then e else unload e)
      (zip (starts_from 0 (map length xss)) (ends_from 0 (map length xss))) (entries a) \<and>
    loaded_len vec_ops a = Ok (sum_list (map snd (filter (is_loaded \<circ> fst) (zip (entries a) (map length xss)))))"
proof -
  note A = growing_array.axioms(1) [OF plain_array [OF assms(1)]]
  note clear = array_backing.clear_memory_represents [OF A assms(2,3)]
  have "filter (is_loaded \<circ> fst) (zip (entries (clear_memory a)) (map length xss)) = []"
    using clear(4) by (auto simp: filter_empty_conv dest: set_zip_leftD)
  with array_backing.loaded_len_represents [OF A clear(1)] have "loaded_len vec_ops (clear_memory a) = Ok 0"
    by simp
  with clear(1) array_backing.clear_chunk_represents(1) [OF A assms(2,3)]
    array_backing.shrink_represents [OF A assms(2,3)] array_backing.loaded_len_represents [OF A assms(2)]
    array_backing.shrink_entries [OF A assms(2)]
  show ?thesis by simp
qed

theorem memory_management_witness:
  "loaded_len vec_ops demo_array = Ok 2 \<and>
   array_represents vec_ops prefix_ops plainfile_disk (clear_memory demo_array) demo_store [[10, 11], [12], [13, 14, 15]]"
  using memory_management [OF prefix_roundtrip demo_represents, of 0 "[]"]
  by (simp add: is_loaded_iff)

section \<open>The constructors from iterators\<close>

lemma from_containers_loop_Ok:
  assumes B: "backing D site stored writable CL"
  shows "from_containers_loop CL D d c start xss w = (Ok kes, w') \<Longrightarrow>
    map fst kes = zip (starts_from start (map length xss)) (ends_from start (map length xss)) \<and>
    map snd kes = map (\<lambda>x. (entry_new d c)\<lparr>entry_value := Some x\<rparr>) xss \<and>
    (xss \<noteq> [] \<longrightarrow> fst (read_value CL D c d w') = Ok (last xss))"
proof (induction xss arbitrary: start w kes)
  case (Cons x xss)
  obtain r e w1 where W: "entry_write CL D x (entry_new d c) w = (r, e, w1)" by (metis prod_cases3)
  with Cons.prems obtain u where r: "r = Ok u" by (cases r) (auto simp: Let_def)
  from Cons.prems W r obtain rest where
    R: "from_containers_loop CL D d c (start + length x) xss w1 = (Ok rest, w')"
    and kes: "kes = ((start, start + length x), e) # rest"
    by (auto simp: Let_def split: prod.splits)
  from W r have e: "e = (entry_new d c)\<lparr>entry_value := Some x\<rparr>"
    and disk: "fst (read_value CL D c d w1) = Ok x"
    using backing.write_Ok [OF B, of x "entry_new d c" w u e w1]
    by (auto simp: backing.read_value_iff [OF B])
  from Cons.IH [OF R] have IH: "map fst rest = zip (starts_from (start + length x) (map length xss)) (ends_from (start + length x) (map length xss))"
    "map snd rest = map (\<lambda>x. (entry_new d c)\<lparr>entry_value := Some x\<rparr>) xss"
    "xss \<noteq> [] \<longrightarrow> fst (read_value CL D c d w') = Ok (last xss)" by auto
  have "xss = [] \<Longrightarrow> w' = w1" using R by simp
  with IH kes e disk show ?case by auto
qed simp

lemma from_containers_loop_succeeds:
  assumes B: "backing D site stored writable CL"
  shows "writable d w \<Longrightarrow> \<forall>x\<in>set xss. accepts CL c x \<Longrightarrow>
    \<exists>kes w'. from_containers_loop CL D d c start xss w = (Ok kes, w')"
proof (induction xss arbitrary: start w)
  case (Cons x xss)
  obtain w1 where W: "entry_write CL D x (entry_new d c) w = (Ok (), (entry_new d c)\<lparr>entry_value := Some x\<rparr>, w1)"
    using backing.write_succeeds [OF B, of "entry_new d c" w x] Cons.prems by auto
  then have "writable d w1"
    using Cons.prems backing.write_value_writable [OF B]
    by (auto simp: entry_write_def split: prod.splits result.splits)
  with Cons.IH [of w1 "start + length x"] Cons.prems W show ?case by auto
qed simp

text \<open>
  \<open>from_containers\<close> gives every chunk a clone of one disk. The array it returns over a plain file
  represents the containers while they stay in memory, but the file holds the last one only: after
  \<open>clear_memory\<close> every chunk of the array reads back as the last container.
\<close>

theorem from_containers_last_wins:
  assumes "coder_roundtrip C" and "xss \<noteq> []"
    and "from_containers id C plainfile_disk xss d c s = (Ok a, s')"
  shows "array_represents vec_ops C plainfile_disk a s' xss \<and>
    map (\<lambda>e. entry_abs C plainfile_disk e s') (entries (clear_memory a)) =
      replicate (length xss) (Some (last xss))"
proof -
  note B = plainfile_backing [OF assms(1)]
  obtain kes where L: "from_containers_loop C plainfile_disk d c 0 xss s = (Ok kes, s')"
    and a: "a = \<lparr>key_starts = map (fst \<circ> fst) kes, key_ends = map (snd \<circ> fst) kes, entries = map snd kes\<rparr>"
    using assms(3) by (auto simp: from_containers_def split: prod.splits)
  from from_containers_loop_Ok [OF B L] assms(2) have
    keys: "map fst kes = zip (starts_from 0 (map length xss)) (ends_from 0 (map length xss))" and
    es: "map snd kes = map (\<lambda>x. (entry_new d c)\<lparr>entry_value := Some x\<rparr>) xss" and
    disk: "fst (read_value C plainfile_disk c d s') = Ok (last xss)" by auto
  have "map (fst \<circ> fst) kes = starts_from 0 (map length xss)" "map (snd \<circ> fst) kes = ends_from 0 (map length xss)"
    using arg_cong [OF keys, of "map fst"] arg_cong [OF keys, of "map snd"] by simp_all
  then have "array_represents vec_ops C plainfile_disk a s' xss"
    by (simp add: array_represents_def a es list_all2_conv_all_nth)
  moreover have "entries (clear_memory a) = map (\<lambda>_. entry_new d c) xss"
    by (simp add: clear_memory_def a es unload_loaded entry_new_def oc_new_def o_def)
  moreover have "entry_abs C plainfile_disk (entry_new d c) s' = Some (last xss)"
    using disk by (simp add: entry_abs_def)
  ultimately show ?thesis by (simp add: map_replicate_const)
qed

theorem from_containers_last_wins_witness:
  "\<exists>a s'. from_containers id prefix_ops plainfile_disk [[1], [2, 3]] (Plainfile [''f'']) BincodeCoder empty_fs = (Ok a, s') \<and>
     map (\<lambda>e. entry_abs prefix_ops plainfile_disk e s') (entries (clear_memory a)) = [Some [2, 3], Some [2, 3]]"
proof -
  obtain kes s' where "from_containers_loop prefix_ops plainfile_disk (Plainfile [''f'']) BincodeCoder 0 [[1], [2, 3]] empty_fs = (Ok kes, s')"
    using from_containers_loop_succeeds [OF plainfile_backing [OF prefix_roundtrip],
        of "Plainfile [''f'']" empty_fs "[[1], [2, 3]]" BincodeCoder 0] by auto
  then obtain a where "from_containers id prefix_ops plainfile_disk [[1], [2, 3]] (Plainfile [''f'']) BincodeCoder empty_fs = (Ok a, s')"
    by (simp add: from_containers_def)
  with from_containers_last_wins [OF prefix_roundtrip _ this] show ?thesis
    by (intro exI [of _ a] exI [of _ s']) (simp add: numeral_2_eq_2)
qed

text \<open>
  \<open>from_backing\<close> mixes up the keys: it stores the chunk lengths as the starts and the starts as
  the ends. The array it builds has the length of all chunks but the last, so an array of a single
  chunk is empty to every read.
\<close>

theorem from_backing_keys:
  "(\<exists>a. from_backing id ps = Some a \<and> key_starts a = map fst ps \<and>
     key_ends a = starts_from 0 (map fst ps) \<and> entries a = map snd ps \<and>
     array_len vec_ops a = sum_list (butlast (map fst ps))) \<and>
   (\<exists>a. from_backing id [(n, e)] = Some a \<and>
     array_get bsearch_last vec_ops C D k a w = (Err (OutsideEntryBounds k), a, w))"
proof -
  have R: "map fst (backing_ranges r ks) = ks \<and> map snd (backing_ranges r ks) = starts_from r ks" for r ks
    by (induction r ks rule: backing_ranges.induct) auto
  have L: "last_or x (starts_from r ks) = (if ks = [] then x else r + sum_list (butlast ks))" for x r ks
    by (induction ks arbitrary: x r) auto
  have "internal_idx bsearch_last [n] [0] k = Ok None"
    by (simp add: internal_idx_def bsearch_last_def bsearch_last_loop.simps usub_def)
  then show ?thesis
    by (simp add: from_backing_def Let_def R array_len_def L array_get_def)
qed

section \<open>Keys in protected memory\<close>

text \<open>
  arrays whose keys are \<open>SecretVecWrapper\<close>s (\<open>SecretBackedArray\<close>) cannot be shrunk or merged.
  \<open>remove\<close> of any chunk but the last panics after the entry is already gone, so that the array is
  left with fewer entries than keys, and \<open>merge\<close> with a non-empty array panics.
\<close>

theorem secret_keys_remove_merge:
  assumes "array_represents (secret_ops z) C D a w xss" and "Suc i < length xss"
    and "array_represents (secret_ops z) C D b w yss" and "yss \<noteq> []"
  shows "(\<exists>a'. array_remove (secret_ops z) i a = (Panic, a') \<and>
      length (entries a') = length xss - 1 \<and> length (key_starts a') = length xss \<and> length (key_ends a') = length xss) \<and>
    array_merge (secret_ops z) a b = (Panic, a)"
proof -
  have keys: "key_starts a = starts_from 0 (map length xss)" "key_ends a = ends_from 0 (map length xss)"
      "length (entries a) = length xss" "key_starts b = starts_from 0 (map length yss)"
    using assms by (auto simp: array_represents_def secret_ops_def slice_defs dest: list_all2_lengthD)
  have get: "c_get (secret_ops z) k i = nth_opt k i" "c_remove (secret_ops z) = secret_c_remove z"
      "c_extend (secret_ops z) = secret_extend z" "c_ref (secret_ops z) k = k" for k
    by (simp_all add: secret_ops_def slice_defs)
  have "starts_from 0 (map length xss) \<noteq> []" "i \<noteq> length xss - 1" "starts_from 0 (map length yss) \<noteq> []"
    using assms(2,4) by (cases xss; cases yss; simp)+
  with keys assms(2) get show ?thesis
    by (auto simp: array_remove_def array_merge_def key_remove_def secret_remove secret_extend_eq
        nth_opt_def usub_def vec_c_remove_def sum_list_take_Suc Let_def)
qed

theorem secret_keys_remove_merge_witness:
  "(\<exists>a'. array_remove (secret_ops 0) 0 demo_array = (Panic, a') \<and> length (entries a') = 2 \<and> length (key_starts a') = 3) \<and>
   array_merge (secret_ops 0) demo_array demo_array = (Panic, demo_array)"
proof -
  have "array_represents (secret_ops 0) prefix_ops plainfile_disk demo_array demo_store [[10, 11], [12], [13, 14, 15]]"
    using demo_represents(1) by (simp add: array_represents_def secret_ops_def slice_defs)
  from secret_keys_remove_merge [OF this _ this, of 0] show ?thesis by auto
qed

text \<open>
  on the empty-chunk example of the key lookup, with all chunks in memory, reading the valid
  position 3 panics with \<open>get\<close> and reports a position out of bounds with \<open>generic_get\<close>, although
  the array represents chunks of six elements in all.
\<close>

theorem array_get_empty_chunk:
  "let xss = [[0, 1], [2], [], [3], [4], [5]] :: bytes list;
       a = \<lparr>key_starts = [0, 2, 3, 3, 4, 5], key_ends = [2, 3, 3, 4, 5, 6],
         entries = map (\<lambda>xs. demo_entry\<lparr>entry_value := Some xs\<rparr>) xss\<rparr> in
   array_represents vec_ops C plainfile_disk a s xss \<and> concat xss ! 3 = 3 \<and>
   fst (array_get bsearch_early vec_ops C plainfile_disk 3 a s) = Panic \<and>
   fst (generic_get bsearch_early vec_ops C plainfile_disk 3 a s) = Err (OutsideEntryBounds 3)"
proof -
  have "internal_idx bsearch_early [0, 2, 3, 3, 4, 5] [2, 3, 3, 4, 5, 6] 3 =
      Ok (Some \<lparr>entry_idx = 2, inside_entry_idx = 0\<rparr>)" by code_simp
  then show ?thesis
    by (simp add: Let_def array_represents_def array_get_def generic_get_def get_loc_def generic_get_loc_def
        entry_load_def oc_get_def ok_or_def index_def nth_opt_def)
qed

end
