(* ===== verification/Array_Iter.thy ===== *)
theory Array_Iter
  imports Backed_Array
begin

text \<open>
  The read iterators over a \<open>BackedArray\<close>: \<open>BackedArrayIter\<close> (\<open>src/array/sync_impl/slice.rs\<close>) and
  \<open>BackedArrayGenericIter\<close> (\<open>generic.rs\<close>). An iterator holds a position and a location that it moves
  forward chunk by chunk. Its specification is a position in the concatenated chunks.
\<close>

section \<open>The iterator\<close>

record array_iter =
  it_pos :: nat
  it_loc :: array_loc

definition array_iter_new :: array_iter where
  "array_iter_new = \<lparr>it_pos = 0, it_loc = \<lparr>entry_idx = 0, inside_entry_idx = 0\<rparr>\<rparr>"

text \<open>The loop of the closure \<open>advance\<close>; it returns \<open>None\<close> once the keys are exhausted.\<close>

function advance_loop :: "nat list \<Rightarrow> nat list \<Rightarrow> array_loc \<Rightarrow> (unit option, unit) result \<times> array_loc" where
  "advance_loop starts ends loc =
     (case (nth_opt ends (entry_idx loc), nth_opt starts (entry_idx loc)) of
        (Some e, Some s) \<Rightarrow>
          if e < s then (Panic, loc)
          else if e - s \<le> inside_entry_idx loc then
            advance_loop starts ends
              \<lparr>entry_idx = entry_idx loc + 1, inside_entry_idx = inside_entry_idx loc - (e - s)\<rparr>
          else (Ok (Some ()), loc)
      | _ \<Rightarrow> (Ok None, loc))"
  by pat_completeness auto
termination
  by (relation "measure (\<lambda>(starts, ends, loc). length ends - entry_idx loc)") (auto simp: nth_opt_def split: if_splits)

declare advance_loop.simps [simp del]

definition advance :: "nat list \<Rightarrow> nat list \<Rightarrow> nat \<Rightarrow> array_iter \<Rightarrow> (unit option, unit) result \<times> array_iter" where
  "advance starts ends n it =
     (case advance_loop starts ends ((it_loc it)\<lparr>inside_entry_idx := inside_entry_idx (it_loc it) + n\<rparr>) of
        (r, loc) \<Rightarrow> (r, \<lparr>it_pos = it_pos it + n, it_loc = loc\<rparr>))"

text \<open>
  \<open>nth\<close>, with the way an element is read as an argument: the slice iterator indexes, the generic
  one reports a position outside a chunk as an error, which ends the iteration.
\<close>

definition iter_nth_by ::
  "(array_loc \<Rightarrow> nat \<Rightarrow> ('k, 'a, 'd, 'c) backed_array \<Rightarrow> 'w \<Rightarrow>
     ('a, 'e array_error) result \<times> ('k, 'a, 'd, 'c) backed_array \<times> 'w) \<Rightarrow>
   ('k, nat) resizing_ops \<Rightarrow> nat \<Rightarrow> array_iter \<Rightarrow> ('k, 'a, 'd, 'c) backed_array \<Rightarrow> 'w \<Rightarrow>
     (('a, 'e) result option, unit) result \<times> array_iter \<times> ('k, 'a, 'd, 'c) backed_array \<times> 'w" where
  "iter_nth_by get K n it a w =
     (let starts = c_ref K (key_starts a); ends = c_ref K (key_ends a) in
      case advance starts ends n it of
        (Ok (Some _), it1) \<Rightarrow>
          if c_len K (key_ends a) \<le> entry_idx (it_loc it1) then (Ok None, it1, a, w)
          else
            (case get (it_loc it1) (it_pos it1) a w of
               (Ok v, a1, w1) \<Rightarrow>
                 (case advance starts ends 1 it1 of
                    (Panic, it2) \<Rightarrow> (Panic, it2, a1, w1)
                  | (_, it2) \<Rightarrow> (Ok (Some (Ok v)), it2, a1, w1))
             | (Err (OutsideEntryBounds _), a1, w1) \<Rightarrow> (Ok None, it1, a1, w1)
             | (Err (CoderError x), a1, w1) \<Rightarrow>
                 (case advance starts ends 1 it1 of
                    (Panic, it2) \<Rightarrow> (Panic, it2, a1, w1)
                  | (_, it2) \<Rightarrow> (Ok (Some (Err x)), it2, a1, w1))
             | (Panic, a1, w1) \<Rightarrow> (Panic, it1, a1, w1))
      | (Ok None, it1) \<Rightarrow> (Ok None, it1, a, w)
      | (_, it1) \<Rightarrow> (Panic, it1, a, w))"

definition iter_nth ::
  "('k, nat) resizing_ops \<Rightarrow> ('c, 'a list, 'e) coder_ops \<Rightarrow> ('d, 'wr, 'w) disk_ops \<Rightarrow> nat \<Rightarrow> array_iter \<Rightarrow>
   ('k, 'a, 'd, 'c) backed_array \<Rightarrow> 'w \<Rightarrow>
     (('a, 'e) result option, unit) result \<times> array_iter \<times> ('k, 'a, 'd, 'c) backed_array \<times> 'w" where
  "iter_nth K C D n it a w = iter_nth_by (\<lambda>loc _. get_loc C D loc) K n it a w"

definition generic_iter_nth ::
  "('k, nat) resizing_ops \<Rightarrow> ('c, 'a list, 'e) coder_ops \<Rightarrow> ('d, 'wr, 'w) disk_ops \<Rightarrow> nat \<Rightarrow> array_iter \<Rightarrow>
   ('k, 'a, 'd, 'c) backed_array \<Rightarrow> 'w \<Rightarrow>
     (('a, 'e) result option, unit) result \<times> array_iter \<times> ('k, 'a, 'd, 'c) backed_array \<times> 'w" where
  "generic_iter_nth K C D n it a w = iter_nth_by (generic_get_loc C D) K n it a w"

definition iter_next ::
  "('k, nat) resizing_ops \<Rightarrow> ('c, 'a list, 'e) coder_ops \<Rightarrow> ('d, 'wr, 'w) disk_ops \<Rightarrow> array_iter \<Rightarrow>
   ('k, 'a, 'd, 'c) backed_array \<Rightarrow> 'w \<Rightarrow>
     (('a, 'e) result option, unit) result \<times> array_iter \<times> ('k, 'a, 'd, 'c) backed_array \<times> 'w" where
  "iter_next K C D it a w = iter_nth K C D 0 it a w"

definition iter_size_hint :: "('k, nat) resizing_ops \<Rightarrow> array_iter \<Rightarrow> ('k, 'a, 'd, 'c) backed_array \<Rightarrow> (nat, unit) result" where
  "iter_size_hint K it a = usub (array_len K a) (it_pos it)"

text \<open>A program that makes a sequence of \<open>nth\<close> calls and records the items.\<close>

fun iter_nths ::
  "('k, nat) resizing_ops \<Rightarrow> ('c, 'a list, 'e) coder_ops \<Rightarrow> ('d, 'wr, 'w) disk_ops \<Rightarrow> nat list \<Rightarrow> array_iter \<Rightarrow>
   ('k, 'a, 'd, 'c) backed_array \<Rightarrow> 'w \<Rightarrow>
     (('a, 'e) result option, unit) result list \<times> array_iter \<times> ('k, 'a, 'd, 'c) backed_array \<times> 'w" where
  "iter_nths K C D [] it a w = ([], it, a, w)"
| "iter_nths K C D (n # ns) it a w =
     (case iter_nth K C D n it a w of
        (r, it1, a1, w1) \<Rightarrow> (case iter_nths K C D ns it1 a1 w1 of (rs, it2, a2, w2) \<Rightarrow> (r # rs, it2, a2, w2)))"

section \<open>Moving forward\<close>

text \<open>
  \<open>iter_at ls p it\<close>: the iterator stands before position \<open>p\<close> of chunks of lengths \<open>ls\<close>.
\<close>

definition iter_at :: "nat list \<Rightarrow> nat \<Rightarrow> array_iter \<Rightarrow> bool" where
  "iter_at ls p it \<longleftrightarrow> it_pos it = p \<and> entry_idx (it_loc it) \<le> length ls \<and>
     p = sum_list (take (entry_idx (it_loc it)) ls) + inside_entry_idx (it_loc it)"

lemma iter_at_new [simp]: "iter_at ls 0 array_iter_new"
  by (simp add: iter_at_def array_iter_new_def)

lemma advance_loop_at:
  assumes "entry_idx loc \<le> length ls" and "p = sum_list (take (entry_idx loc) ls) + inside_entry_idx loc"
  shows "advance_loop (starts_from 0 ls) (ends_from 0 ls) loc =
    (case locate ls p of
       Some loc' \<Rightarrow> (Ok (Some ()), loc')
     | None \<Rightarrow> (Ok None, \<lparr>entry_idx = length ls, inside_entry_idx = p - sum_list ls\<rparr>))"
  using assms
proof (induction "length ls - entry_idx loc" arbitrary: loc rule: less_induct)
  case (less loc)
  let ?i = "entry_idx loc"
  note unfold = advance_loop.simps [of "starts_from 0 ls" "ends_from 0 ls" loc]
  show ?case
  proof (cases "?i < length ls")
    case False
    with less.prems have i: "?i = length ls" by simp
    then have "advance_loop (starts_from 0 ls) (ends_from 0 ls) loc = (Ok None, loc)"
      by (simp add: unfold nth_opt_def)
    with less.prems i show ?thesis by (cases loc) (simp add: locate_None [THEN iffD2])
  next
    case True
    let ?s = "sum_list (take ?i ls)"
    have keys: "nth_opt (ends_from 0 ls) ?i = Some (?s + ls ! ?i)" "nth_opt (starts_from 0 ls) ?i = Some ?s"
      using True by (simp_all add: nth_opt_def sum_list_take_Suc)
    show ?thesis
    proof (cases "ls ! ?i \<le> inside_entry_idx loc")
      case le: True
      let ?loc = "\<lparr>entry_idx = ?i + 1, inside_entry_idx = inside_entry_idx loc - ls ! ?i\<rparr>"
      have "advance_loop (starts_from 0 ls) (ends_from 0 ls) loc = advance_loop (starts_from 0 ls) (ends_from 0 ls) ?loc"
        using le by (simp add: unfold keys)
      moreover have "p = sum_list (take (entry_idx ?loc) ls) + inside_entry_idx ?loc"
        using less.prems(2) le True by (simp add: sum_list_take_Suc)
      ultimately show ?thesis
        using less.hyps [of ?loc] True by simp
    next
      case gt: False
      with less.prems True have "locate ls p = Some \<lparr>entry_idx = ?i, inside_entry_idx = p - ?s\<rparr>"
        by (intro locate_eq) (simp_all add: sum_list_take_Suc)
      moreover have "advance_loop (starts_from 0 ls) (ends_from 0 ls) loc = (Ok (Some ()), loc)"
        using gt by (simp add: unfold keys)
      ultimately show ?thesis using less.prems by (cases loc) simp
    qed
  qed
qed

lemma iter_at_located:
  "locate ls p = Some loc \<Longrightarrow> iter_at ls p \<lparr>it_pos = p, it_loc = loc\<rparr>"
  using locate_Some [of ls p loc] by (auto simp: iter_at_def)

lemma advance_at:
  assumes "iter_at ls p it"
  obtains (Inside) loc where "p + n < sum_list ls" "locate ls (p + n) = Some loc"
      "advance (starts_from 0 ls) (ends_from 0 ls) n it = (Ok (Some ()), \<lparr>it_pos = p + n, it_loc = loc\<rparr>)"
    | (Beyond) it' where "sum_list ls \<le> p + n" "iter_at ls (p + n) it'"
      "advance (starts_from 0 ls) (ends_from 0 ls) n it = (Ok None, it')"
proof -
  have L: "advance_loop (starts_from 0 ls) (ends_from 0 ls)
      ((it_loc it)\<lparr>inside_entry_idx := inside_entry_idx (it_loc it) + n\<rparr>) =
    (case locate ls (p + n) of
       Some loc' \<Rightarrow> (Ok (Some ()), loc')
     | None \<Rightarrow> (Ok None, \<lparr>entry_idx = length ls, inside_entry_idx = p + n - sum_list ls\<rparr>))"
    using assms by (intro advance_loop_at) (auto simp: iter_at_def)
  have pos: "it_pos it = p" using assms by (simp add: iter_at_def)
  show thesis
  proof (cases "locate ls (p + n)")
    case None
    then have "sum_list ls \<le> p + n" by (simp add: locate_None)
    then show thesis
      using L None pos by (intro Beyond) (auto simp: advance_def iter_at_def)
  next
    case (Some loc)
    moreover from Some have "p + n < sum_list ls" using locate_None [of ls "p + n"] by auto
    ultimately show thesis using L pos by (intro Inside) (auto simp: advance_def)
  qed
qed

section \<open>The items\<close>

context array_backing
begin

text \<open>
  One call of \<open>nth\<close>, when the chunks can be read. The iterator does exactly what an iterator over
  the concatenation would do, except that a call that finds nothing does not count its own step.
\<close>

lemma iter_nth_step:
  assumes rep: "represents a w xss" and it: "iter_at (map length xss) p it"
    and get: "\<And>loc q. entry_idx loc < length xss \<Longrightarrow> get loc q a w =
      (if inside_entry_idx loc < length (xss ! entry_idx loc) then Ok (xss ! entry_idx loc ! inside_entry_idx loc) else r0,
       a\<lparr>entries := (entries a)[entry_idx loc := (entries a ! entry_idx loc)\<lparr>entry_value := Some (xss ! entry_idx loc)\<rparr>]\<rparr>, w)"
  shows "\<exists>it' a'. iter_nth_by get K n it a w =
      (if p + n < length (concat xss) then Ok (Some (Ok (concat xss ! (p + n)))) else Ok None, it', a', w) \<and>
    iter_at (map length xss) (if p + n < length (concat xss) then p + n + 1 else p + n) it' \<and>
    represents a' w xss"
proof -
  let ?ls = "map length xss"
  have kv: "c_ref K (key_starts a) = starts_from 0 ?ls" "c_ref K (key_ends a) = ends_from 0 ?ls"
    using rep by (auto simp: array_represents_def)
  have len: "c_len K (key_ends a) = length xss" using container.len_view [OF keys] kv by simp
  have total: "length (concat xss) = sum_list ?ls" by (simp add: length_concat)
  from it show ?thesis
  proof (cases rule: advance_at [where n = n])
    case (Inside loc)
    note l = locate_Some [OF Inside(2)]
    define i where "i = entry_idx loc"
    define j where "j = inside_entry_idx loc"
    from l have i: "i < length xss" and j: "j < length (xss ! i)" and pn: "p + n = sum_list (take i ?ls) + j"
      by (auto simp: i_def j_def)
    have val: "concat xss ! (p + n) = xss ! i ! j" using nth_concat_chunk [OF i j] pn by simp
    let ?a = "a\<lparr>entries := (entries a)[i := (entries a ! i)\<lparr>entry_value := Some (xss ! i)\<rparr>]\<rparr>"
    have G: "get loc (p + n) a w = (Ok (xss ! i ! j), ?a, w)"
      using get [of loc "p + n"] i j by (simp add: i_def j_def)
    have at: "iter_at ?ls (p + n) \<lparr>it_pos = p + n, it_loc = loc\<rparr>" using iter_at_located [OF Inside(2)] .
    from at show ?thesis
    proof (cases rule: advance_at [where n = 1])
      case In: (Inside loc2)
      then show ?thesis
        using Inside G kv len i total val loaded_entry(1) [OF rep i] iter_at_located [OF In(2)]
        by (simp add: iter_nth_by_def Let_def i_def)
    next
      case Out: (Beyond it2)
      then show ?thesis
        using Inside G kv len i total val loaded_entry(1) [OF rep i]
        by (simp add: iter_nth_by_def Let_def i_def)
    qed
  next
    case (Beyond it')
    then show ?thesis using kv total rep by (simp add: iter_nth_by_def Let_def)
  qed
qed

lemma iter_nth_represents:
  assumes "represents a w xss" and "iter_at (map length xss) p it"
  shows "\<exists>it' a'. iter_nth K C D n it a w =
      (if p + n < length (concat xss) then Ok (Some (Ok (concat xss ! (p + n)))) else Ok None, it', a', w) \<and>
    iter_at (map length xss) (if p + n < length (concat xss) then p + n + 1 else p + n) it' \<and>
    represents a' w xss"
  unfolding iter_nth_def
proof (rule iter_nth_step [OF assms])
  fix loc :: array_loc and q :: nat
  assume "entry_idx loc < length xss"
  then show "get_loc C D loc a w =
      (if inside_entry_idx loc < length (xss ! entry_idx loc) then Ok (xss ! entry_idx loc ! inside_entry_idx loc) else Panic,
       a\<lparr>entries := (entries a)[entry_idx loc := (entries a ! entry_idx loc)\<lparr>entry_value := Some (xss ! entry_idx loc)\<rparr>]\<rparr>, w)"
    using get_loc_at [OF assms(1), of loc] by (simp add: index_def)
qed

end

text \<open>
  A sequence of calls against the specification: a position that moves forward through a list.
  \<open>spec_end\<close> is the position it ends at.
\<close>

fun spec_nths :: "'x list \<Rightarrow> nat list \<Rightarrow> nat \<Rightarrow> 'x option list" where
  "spec_nths cs [] p = []"
| "spec_nths cs (n # ns) p =
     (if p + n < length cs then Some (cs ! (p + n)) # spec_nths cs ns (p + n + 1)
      else None # spec_nths cs ns (p + n))"

fun spec_end :: "nat \<Rightarrow> nat list \<Rightarrow> nat \<Rightarrow> nat" where
  "spec_end len [] p = p"
| "spec_end len (n # ns) p = spec_end len ns (if p + n < len then p + n + 1 else p + n)"

lemma spec_nths_all: "p + m \<le> length cs \<Longrightarrow> spec_nths cs (replicate m 0) p = map Some (take m (drop p cs))"
  by (induction m arbitrary: p) (auto simp: Cons_nth_drop_Suc [symmetric])

context array_backing
begin

lemma iter_nths_represents:
  assumes "represents a w xss" and "iter_at (map length xss) p it"
  shows "\<exists>it' a'. iter_nths K C D ns it a w =
      (map (\<lambda>x. Ok (map_option Ok x)) (spec_nths (concat xss) ns p), it', a', w) \<and>
    iter_at (map length xss) (spec_end (length (concat xss)) ns p) it' \<and> represents a' w xss"
  using assms
proof (induction ns arbitrary: p it a)
  case (Cons n ns)
  let ?p = "if p + n < length (concat xss) then p + n + 1 else p + n"
  obtain it1 a1 where S: "iter_nth K C D n it a w =
      (if p + n < length (concat xss) then Ok (Some (Ok (concat xss ! (p + n)))) else Ok None, it1, a1, w)"
    "iter_at (map length xss) ?p it1" "represents a1 w xss"
    using iter_nth_represents [OF Cons.prems, of n] by blast
  obtain it2 a2 where "iter_nths K C D ns it1 a1 w =
      (map (\<lambda>x. Ok (map_option Ok x)) (spec_nths (concat xss) ns ?p), it2, a2, w)"
    "iter_at (map length xss) (spec_end (length (concat xss)) ns ?p) it2" "represents a2 w xss"
    using Cons.IH [OF S(3,2)] by blast
  with S(1) show ?case by (auto split: if_splits)
qed auto

lemma iter_nth_failed:
  assumes "c_ref K (key_starts a) = starts_from 0 ls" and "c_ref K (key_ends a) = ends_from 0 ls"
    and "length (entries a) = length ls" and "iter_at ls p it" and "locate ls (p + n) = Some loc"
    and "entry_load C D (entries a ! entry_idx loc) w = (Err x, e, w1)"
  shows "\<exists>it'. iter_nth K C D n it a w =
      (Ok (Some (Err x)), it', a\<lparr>entries := (entries a)[entry_idx loc := e]\<rparr>, w1) \<and> iter_at ls (p + n + 1) it'"
proof -
  have "locate ls (p + n) \<noteq> None" using assms(5) by simp
  then have inside: "p + n < sum_list ls" unfolding locate_None by simp
  note loc = locate_Some [OF assms(5)]
  have len: "c_len K (key_ends a) = length ls" using container.len_view [OF keys] assms(2) by simp
  have G: "get_loc C D loc a w = (Err (CoderError x), a\<lparr>entries := (entries a)[entry_idx loc := e]\<rparr>, w1)"
    using loc assms(3,6) by (simp add: get_loc_def)
  obtain it1 where A: "advance (starts_from 0 ls) (ends_from 0 ls) n it = (Ok (Some ()), it1)"
      and it1: "it1 = \<lparr>it_pos = p + n, it_loc = loc\<rparr>"
    using advance_at [OF assms(4), of n] inside assms(5) by (metis not_le option.inject)
  have "iter_at ls (p + n) it1" using iter_at_located [OF assms(5)] it1 by simp
  then show ?thesis
  proof (cases rule: advance_at [where n = 1])
    case (Inside loc2)
    with A G it1 loc len show ?thesis
      by (simp add: iter_nth_def iter_nth_by_def Let_def assms(1,2) iter_at_located)
  next
    case (Beyond it2)
    with A G it1 loc len show ?thesis
      by (simp add: iter_nth_def iter_nth_by_def Let_def assms(1,2))
  qed
qed

end

section \<open>Iterating over chunks in plain files\<close>



text \<open>
  \<open>size_hint\<close> is the number of elements left as long as the iterator has not been moved beyond the
  end, and panics (it subtracts the position from the length) once a call of \<open>nth\<close> has been made
  that skips past the last element, although that call itself returned \<open>None\<close>.
\<close>

theorem iter_size_hint_exact:
  assumes "coder_roundtrip C" and "array_represents vec_ops C plainfile_disk a s xss"
  shows "case iter_nths vec_ops C plainfile_disk ns array_iter_new a s of (rs, it', a', s') \<Rightarrow>
    iter_size_hint vec_ops it' a' =
      (if spec_end (length (concat xss)) ns 0 \<le> length (concat xss)
       then Ok (length (concat xss) - spec_end (length (concat xss)) ns 0) else Panic)"
proof -
  note A = growing_array.axioms(1) [OF plain_array [OF assms(1)]]
  from array_backing.iter_nths_represents [OF A assms(2) iter_at_new, of ns] obtain it' a' where
    N: "iter_nths vec_ops C plainfile_disk ns array_iter_new a s =
      (map (\<lambda>x. Ok (map_option Ok x)) (spec_nths (concat xss) ns 0), it', a', s)"
    "iter_at (map length xss) (spec_end (length (concat xss)) ns 0) it'"
    "array_represents vec_ops C plainfile_disk a' s xss" by blast
  from N(2) have "it_pos it' = spec_end (length (concat xss)) ns 0" by (simp add: iter_at_def)
  with N array_backing.represents_array_len [OF A N(3)] show ?thesis
    by (simp add: iter_size_hint_def usub_def)
qed

theorem iter_size_hint_exact_witness:
  "(case iter_nths vec_ops prefix_ops plainfile_disk [1, 0] array_iter_new demo_array demo_store of
      (rs, it', a', s') \<Rightarrow> iter_size_hint vec_ops it' a' = Ok 3) \<and>
   (case iter_nths vec_ops prefix_ops plainfile_disk [7] array_iter_new demo_array demo_store of
      (rs, it', a', s') \<Rightarrow> iter_size_hint vec_ops it' a' = Panic)"
  using iter_size_hint_exact [OF prefix_roundtrip demo_represents(1), of "[1, 0]"]
    iter_size_hint_exact [OF prefix_roundtrip demo_represents(1), of "[7]"]
  by (simp add: numeral_3_eq_3 del: iter_nths.simps)

text \<open>
  a chunk that cannot be read does not stop the iteration: every element of it comes out as the
  read error, the iterator moves on by one element each time, and the chunks after it are reached.
\<close>

theorem iter_failed_chunk:
  assumes "coder_roundtrip C" and "key_starts a = starts_from 0 ls" and "key_ends a = ends_from 0 ls"
    and "length (entries a) = length ls" and "iter_at ls p it" and "locate ls (p + n) = Some loc"
    and "entry_load C plainfile_disk (entries a ! entry_idx loc) s = (Err x, e, s')"
  shows "\<exists>it' a'. iter_nth vec_ops C plainfile_disk n it a s = (Ok (Some (Err x)), it', a', s) \<and>
    iter_at ls (p + n + 1) it' \<and> entries a' = entries a"
proof -
  note B = plainfile_backing [OF assms(1)]
  have pure: "s' = s" "e = entries a ! entry_idx loc"
    using backing.load_pure [OF B assms(7)] assms(7) backing.load_eq [OF B, of "entries a ! entry_idx loc" s]
    by (auto split: option.splits)
  show ?thesis
    using array_backing.iter_nth_failed [OF growing_array.axioms(1) [OF plain_array [OF assms(1)]] _ _ assms(4,5,6,7)]
      assms(2,3) pure by auto
qed

theorem iter_failed_chunk_witness:
  "\<exists>it' a'. iter_nth vec_ops prefix_ops plainfile_disk 1
      \<lparr>it_pos = 1, it_loc = \<lparr>entry_idx = 0, inside_entry_idx = 1\<rparr>\<rparr> demo_array empty_fs =
      (Ok (Some (Err (PrefixIo NotFound))), it', a', empty_fs) \<and> it_pos it' = 3"
proof -
  have L: "entry_load prefix_ops plainfile_disk (entries demo_array ! 1) empty_fs =
      (Err (PrefixIo NotFound), entries demo_array ! 1, empty_fs)"
    by (simp add: entry_load_def oc_get_def read_value_def plainfile_disk_def plainfile_read_disk_def
        fs_read_def empty_fs_def)
  have keys: "key_starts demo_array = starts_from 0 [2, 1, 3]" "key_ends demo_array = ends_from 0 [2, 1, 3]"
    "length (entries demo_array) = length [2, 1, 3 :: nat]" by simp_all
  have at: "iter_at [2, 1, 3] 1 \<lparr>it_pos = 1, it_loc = \<lparr>entry_idx = 0, inside_entry_idx = 1\<rparr>\<rparr>"
    by (simp add: iter_at_def)
  have loc: "locate [2, 1, 3] (1 + 1) = Some \<lparr>entry_idx = 1, inside_entry_idx = 0\<rparr>" by simp
  obtain it' a' where N: "iter_nth vec_ops prefix_ops plainfile_disk 1
      \<lparr>it_pos = 1, it_loc = \<lparr>entry_idx = 0, inside_entry_idx = 1\<rparr>\<rparr> demo_array empty_fs =
      (Ok (Some (Err (PrefixIo NotFound))), it', a', empty_fs)" and "iter_at [2, 1, 3] (1 + 1 + 1) it'"
    using iter_failed_chunk [OF prefix_roundtrip keys at loc, unfolded array_loc.simps, OF L] by blast
  then have "it_pos it' = 3" by (simp add: iter_at_def)
  with N show ?thesis by blast
qed

end
