(* ===== verification/Array_Iter_Mut.thy ===== *)
theory Array_Iter_Mut
  imports Array_Iter
begin

text \<open>
  The mutable iterators over a \<open>BackedArray\<close> (\<open>BackedArrayIterMut\<close> in \<open>src/array/sync_impl/slice.rs\<close>,
  \<open>BackedArrayGenericIterMut\<close> in \<open>generic.rs\<close>) and the handles to elements they give out
  (\<open>CountedHandle\<close>, \<open>src/array/sync_impl/mod.rs\<close>). The iterator opens a \<open>BackedEntryMut\<close> for each chunk
  it reaches and shares it, behind an \<open>Arc<Mutex<..>>\<close>, with the handles to elements of the chunk;
  whoever drops the last reference writes the chunk to disk. The sharing is explicit here: the
  opened chunks are a list with reference counts, and a handle is an index into it.
\<close>

section \<open>Opened chunks\<close>

text \<open>
  An opened chunk: which entry it borrows, its \<open>BackedEntryMut\<close> (the modified flag, the entry
  itself stays in the list of entries) or the error of opening it, and how many references to it
  are alive (the iterator's own one included).
\<close>

record 'e opened =
  op_entry :: nat
  op_state :: "(bool, 'e) result"
  op_refs :: nat

record ('a, 'd, 'c, 'e) mut_iter =
  mi_pos :: nat
  mi_len :: nat
  mi_keys :: "(nat \<times> nat) list"
  mi_next :: nat
  mi_entries :: "('a list, 'd, 'c) backed_entry list"
  mi_opened :: "'e opened list"

text \<open>A \<open>CountedHandle\<close>: the opened chunk it shares and the element it points at.\<close>

record counted =
  ch_opened :: nat
  ch_inner :: nat

datatype 'e mut_item = Item counted | ItemErr 'e

text \<open>\<open>entry.get_mut().mut_handle()\<close>, pushed to the handles.\<close>

definition open_entry ::
  "('c, 'a list, 'e) coder_ops \<Rightarrow> ('d, 'wr, 'w) disk_ops \<Rightarrow> nat \<Rightarrow> ('a, 'd, 'c, 'e) mut_iter \<Rightarrow> 'w \<Rightarrow>
     (unit, unit) result \<times> ('a, 'd, 'c, 'e) mut_iter \<times> 'w" where
  "open_entry C D i m w =
     (case mut_handle C D (mi_entries m ! i) w of
        (Panic, e1, w1) \<Rightarrow> (Panic, m\<lparr>mi_entries := (mi_entries m)[i := e1]\<rparr>, w1)
      | (r, e1, w1) \<Rightarrow>
          (Ok (), m\<lparr>mi_entries := (mi_entries m)[i := e1],
             mi_opened := mi_opened m @ [\<lparr>op_entry = i, op_state = map_ok mh_modified r, op_refs = 1\<rparr>]\<rparr>, w1))"

definition iter_mut_new ::
  "('k, nat) resizing_ops \<Rightarrow> ('c, 'a list, 'e) coder_ops \<Rightarrow> ('d, 'wr, 'w) disk_ops \<Rightarrow>
   ('k, 'a, 'd, 'c) backed_array \<Rightarrow> 'w \<Rightarrow> (unit, unit) result \<times> ('a, 'd, 'c, 'e) mut_iter \<times> 'w" where
  "iter_mut_new K C D a w =
     (let m = \<lparr>mi_pos = 0, mi_len = array_len K a,
          mi_keys = zip (c_ref K (key_starts a)) (c_ref K (key_ends a)),
          mi_next = 0, mi_entries = entries a, mi_opened = []\<rparr> in
      if entries a = [] then (Ok (), m, w) else open_entry C D 0 (m\<lparr>mi_next := 1\<rparr>) w)"

definition set_modified :: "nat \<Rightarrow> bool \<Rightarrow> ('a, 'd, 'c, 'e) mut_iter \<Rightarrow> ('a, 'd, 'c, 'e) mut_iter" where
  "set_modified k b m = m\<lparr>mi_opened := (mi_opened m)[k := (mi_opened m ! k)\<lparr>op_state := Ok b\<rparr>]\<rparr>"

definition add_refs :: "nat \<Rightarrow> (nat \<Rightarrow> nat) \<Rightarrow> ('a, 'd, 'c, 'e) mut_iter \<Rightarrow> ('a, 'd, 'c, 'e) mut_iter" where
  "add_refs k f m = m\<lparr>mi_opened := (mi_opened m)[k := (mi_opened m ! k)\<lparr>op_refs := f (op_refs (mi_opened m ! k))\<rparr>]\<rparr>"

text \<open>
  \<open>nth\<close>, first half: drop the keys that end at or before the position, and open the chunk of the key
  that is left if any key was dropped. Returns the position inside that chunk.
\<close>

definition iter_mut_seek ::
  "('c, 'a list, 'e) coder_ops \<Rightarrow> ('d, 'wr, 'w) disk_ops \<Rightarrow> nat \<Rightarrow> ('a, 'd, 'c, 'e) mut_iter \<Rightarrow> 'w \<Rightarrow>
     (nat option, unit) result \<times> ('a, 'd, 'c, 'e) mut_iter \<times> 'w" where
  "iter_mut_seek C D n m w =
     (let pos = mi_pos m + n;
          keys = dropWhile (\<lambda>key. snd key \<le> pos) (mi_keys m);
          step_count = length (takeWhile (\<lambda>key. snd key \<le> pos) (mi_keys m)) in
      case keys of
        [] \<Rightarrow> (Ok None, m\<lparr>mi_pos := pos, mi_keys := keys\<rparr>, w)
      | key # _ \<Rightarrow>
          (case (usub pos (fst key) :: (nat, unit) result) of
             Ok inner_pos \<Rightarrow>
               (let m1 = m\<lparr>mi_pos := pos + 1, mi_keys := keys\<rparr>; i = mi_next m1 + (step_count - 1) in
                if step_count = 0 then (Ok (Some inner_pos), m1, w)
                else if i < length (mi_entries m1) then
                  (case open_entry C D i (m1\<lparr>mi_next := i + 1\<rparr>) w of
                     (r, m2, w2) \<Rightarrow> (map_ok (\<lambda>_. Some inner_pos) r, m2, w2))
                else (Panic, m1\<lparr>mi_next := length (mi_entries m1)\<rparr>, w))
           | _ \<Rightarrow> (Panic, m\<lparr>mi_pos := pos, mi_keys := keys\<rparr>, w)))"

text \<open>
  Second half: lock the last opened chunk and point at the element. Dereferencing the
  \<open>BackedEntryMut\<close> mutably sets its flag, also when the element is only read. \<open>oob\<close> is what happens
  outside the chunk: the slice iterator panics, the generic one returns \<open>None\<close>.
\<close>

definition iter_mut_nth_by ::
  "('e mut_item option, unit) result \<Rightarrow> ('c, 'a list, 'e) coder_ops \<Rightarrow> ('d, 'wr, 'w) disk_ops \<Rightarrow> nat \<Rightarrow>
   ('a, 'd, 'c, 'e) mut_iter \<Rightarrow> 'w \<Rightarrow>
     ('e mut_item option, unit) result \<times> ('a, 'd, 'c, 'e) mut_iter \<times> 'w" where
  "iter_mut_nth_by oob C D n m w =
     (case iter_mut_seek C D n m w of
        (Ok (Some inner_pos), m1, w1) \<Rightarrow>
          if mi_opened m1 = [] then (Panic, m1, w1)
          else (let k = length (mi_opened m1) - 1; h = mi_opened m1 ! k in
            case op_state h of
              Ok _ \<Rightarrow>
                (let m2 = set_modified k True m1 in
                 case entry_value (mi_entries m1 ! op_entry h) of
                   None \<Rightarrow> (Panic, m2, w1)
                 | Some xs \<Rightarrow>
                     if inner_pos < length xs then
                       (Ok (Some (Item \<lparr>ch_opened = k, ch_inner = inner_pos\<rparr>)), add_refs k Suc m2, w1)
                     else (oob, m2, w1))
            | Err e \<Rightarrow> (Ok (Some (ItemErr e)), m1, w1)
            | Panic \<Rightarrow> (Panic, m1, w1))
      | (Ok None, m1, w1) \<Rightarrow> (Ok None, m1, w1)
      | (_, m1, w1) \<Rightarrow> (Panic, m1, w1))"

definition iter_mut_nth ::
  "('c, 'a list, 'e) coder_ops \<Rightarrow> ('d, 'wr, 'w) disk_ops \<Rightarrow> nat \<Rightarrow> ('a, 'd, 'c, 'e) mut_iter \<Rightarrow> 'w \<Rightarrow>
     ('e mut_item option, unit) result \<times> ('a, 'd, 'c, 'e) mut_iter \<times> 'w" where
  "iter_mut_nth C D n m w = iter_mut_nth_by Panic C D n m w"

definition generic_iter_mut_nth ::
  "('c, 'a list, 'e) coder_ops \<Rightarrow> ('d, 'wr, 'w) disk_ops \<Rightarrow> nat \<Rightarrow> ('a, 'd, 'c, 'e) mut_iter \<Rightarrow> 'w \<Rightarrow>
     ('e mut_item option, unit) result \<times> ('a, 'd, 'c, 'e) mut_iter \<times> 'w" where
  "generic_iter_mut_nth C D n m w = iter_mut_nth_by (Ok None) C D n m w"

definition iter_mut_size_hint :: "('a, 'd, 'c, 'e) mut_iter \<Rightarrow> (nat, unit) result" where
  "iter_mut_size_hint m = usub (mi_len m) (mi_pos m)"

section \<open>Handles\<close>

text \<open>Reading and writing through the handle touches the element only, not the modified flag.\<close>

definition counted_deref :: "counted \<Rightarrow> ('a, 'd, 'c, 'e) mut_iter \<Rightarrow> 'a" where
  "counted_deref ch m =
     the (entry_value (mi_entries m ! op_entry (mi_opened m ! ch_opened ch))) ! ch_inner ch"

definition counted_deref_mut :: "('a \<Rightarrow> 'a) \<Rightarrow> counted \<Rightarrow> ('a, 'd, 'c, 'e) mut_iter \<Rightarrow> ('a, 'd, 'c, 'e) mut_iter" where
  "counted_deref_mut f ch m =
     (let i = op_entry (mi_opened m ! ch_opened ch); e = mi_entries m ! i in
      case entry_value e of
        None \<Rightarrow> m
      | Some xs \<Rightarrow>
          m\<lparr>mi_entries := (mi_entries m)[i := e\<lparr>entry_value := Some (xs[ch_inner ch := f (xs ! ch_inner ch)])\<rparr>]\<rparr>)"

text \<open>Flushing one opened chunk; one that could not be opened has nothing to flush.\<close>

definition flush_opened ::
  "('c, 'a list, 'e) coder_ops \<Rightarrow> ('d, 'wr, 'w) disk_ops \<Rightarrow> nat \<Rightarrow> ('a, 'd, 'c, 'e) mut_iter \<Rightarrow> 'w \<Rightarrow>
     (unit, 'e) result \<times> ('a, 'd, 'c, 'e) mut_iter \<times> 'w" where
  "flush_opened C D k m w =
     (let h = mi_opened m ! k in
      case op_state h of
        Ok b \<Rightarrow>
          (case mut_flush C D \<lparr>mh_entry = mi_entries m ! op_entry h, mh_modified = b\<rparr> w of
             (r, mh, w1) \<Rightarrow> (r, set_modified k (mh_modified mh) m, w1))
      | _ \<Rightarrow> (Ok (), m, w))"

definition counted_flush ::
  "('c, 'a list, 'e) coder_ops \<Rightarrow> ('d, 'wr, 'w) disk_ops \<Rightarrow> counted \<Rightarrow> ('a, 'd, 'c, 'e) mut_iter \<Rightarrow> 'w \<Rightarrow>
     (unit, 'e) result \<times> ('a, 'd, 'c, 'e) mut_iter \<times> 'w" where
  "counted_flush C D ch m w = flush_opened C D (ch_opened ch) m w"

text \<open>Dropping a handle flushes if it is the last reference, and panics if that flush fails.\<close>

definition counted_drop ::
  "('c, 'a list, 'e) coder_ops \<Rightarrow> ('d, 'wr, 'w) disk_ops \<Rightarrow> counted \<Rightarrow> ('a, 'd, 'c, 'e) mut_iter \<Rightarrow> 'w \<Rightarrow>
     (unit, unit) result \<times> ('a, 'd, 'c, 'e) mut_iter \<times> 'w" where
  "counted_drop C D ch m w =
     (let k = ch_opened ch in
      if op_refs (mi_opened m ! k) = 1 then
        (case flush_opened C D k m w of
           (Ok _, m1, w1) \<Rightarrow> (Ok (), add_refs k (\<lambda>n. n - 1) m1, w1)
         | (_, m1, w1) \<Rightarrow> (Panic, m1, w1))
      else (Ok (), add_refs k (\<lambda>n. n - 1) m, w))"

text \<open>\<open>flush\<close> of the iterator: all opened chunks in order, up to the first error.\<close>

fun flush_all ::
  "('c, 'a list, 'e) coder_ops \<Rightarrow> ('d, 'wr, 'w) disk_ops \<Rightarrow> nat list \<Rightarrow> ('a, 'd, 'c, 'e) mut_iter \<Rightarrow> 'w \<Rightarrow>
     (unit, 'e) result \<times> ('a, 'd, 'c, 'e) mut_iter \<times> 'w" where
  "flush_all C D [] m w = (Ok (), m, w)"
| "flush_all C D (k # ks) m w =
     (case flush_opened C D k m w of
        (Ok _, m1, w1) \<Rightarrow> flush_all C D ks m1 w1
      | (r, m1, w1) \<Rightarrow> (r, m1, w1))"

definition iter_mut_flush ::
  "('c, 'a list, 'e) coder_ops \<Rightarrow> ('d, 'wr, 'w) disk_ops \<Rightarrow> ('a, 'd, 'c, 'e) mut_iter \<Rightarrow> 'w \<Rightarrow>
     (unit, 'e) result \<times> ('a, 'd, 'c, 'e) mut_iter \<times> 'w" where
  "iter_mut_flush C D m w = flush_all C D [0..<length (mi_opened m)] m w"

text \<open>Dropping the iterator flushes the chunks no handle shares, then gives up its references.\<close>

fun drop_opened ::
  "('c, 'a list, 'e) coder_ops \<Rightarrow> ('d, 'wr, 'w) disk_ops \<Rightarrow> nat list \<Rightarrow> ('a, 'd, 'c, 'e) mut_iter \<Rightarrow> 'w \<Rightarrow>
     (unit, unit) result \<times> ('a, 'd, 'c, 'e) mut_iter \<times> 'w" where
  "drop_opened C D [] m w = (Ok (), m, w)"
| "drop_opened C D (k # ks) m w =
     (if op_refs (mi_opened m ! k) = 1 then
        (case flush_opened C D k m w of
           (Ok _, m1, w1) \<Rightarrow> drop_opened C D ks m1 w1
         | (_, m1, w1) \<Rightarrow> (Panic, m1, w1))
      else drop_opened C D ks m w)"

definition iter_mut_drop ::
  "('c, 'a list, 'e) coder_ops \<Rightarrow> ('d, 'wr, 'w) disk_ops \<Rightarrow> ('a, 'd, 'c, 'e) mut_iter \<Rightarrow> 'w \<Rightarrow>
     (unit, unit) result \<times> ('a, 'd, 'c, 'e) mut_iter \<times> 'w" where
  "iter_mut_drop C D m w =
     (case drop_opened C D [0..<length (mi_opened m)] m w of
        (Ok _, m1, w1) \<Rightarrow>
          (Ok (), m1\<lparr>mi_opened := map (\<lambda>h. h\<lparr>op_refs := op_refs h - 1\<rparr>) (mi_opened m1)\<rparr>, w1)
      | (r, m1, w1) \<Rightarrow> (r, m1, w1))"

section \<open>Modifying every element\<close>

text \<open>
  The program \<open>for x in array.iter_mut() { *x = f(*x) }\<close>: each handle is written through and
  dropped before the next call of \<open>next\<close>; the fuel bounds the number of calls.
\<close>

fun mut_for ::
  "('c, 'a list, 'e) coder_ops \<Rightarrow> ('d, 'wr, 'w) disk_ops \<Rightarrow> ('a \<Rightarrow> 'a) \<Rightarrow> nat \<Rightarrow> ('a, 'd, 'c, 'e) mut_iter \<Rightarrow> 'w \<Rightarrow>
     (unit option, unit) result \<times> ('a, 'd, 'c, 'e) mut_iter \<times> 'w" where
  "mut_for C D f 0 m w = (Ok None, m, w)"
| "mut_for C D f (Suc fuel) m w =
     (case iter_mut_nth C D 0 m w of
        (Ok (Some (Item ch)), m1, w1) \<Rightarrow>
          (case counted_drop C D ch (counted_deref_mut f ch m1) w1 of
             (Ok _, m2, w2) \<Rightarrow> mut_for C D f fuel m2 w2
           | (_, m2, w2) \<Rightarrow> (Panic, m2, w2))
      | (Ok (Some (ItemErr _)), m1, w1) \<Rightarrow> mut_for C D f fuel m1 w1
      | (Ok None, m1, w1) \<Rightarrow> (Ok (Some ()), m1, w1)
      | (_, m1, w1) \<Rightarrow> (Panic, m1, w1))"

definition map_in_place ::
  "('k, nat) resizing_ops \<Rightarrow> ('c, 'a list, 'e) coder_ops \<Rightarrow> ('d, 'wr, 'w) disk_ops \<Rightarrow> ('a \<Rightarrow> 'a) \<Rightarrow>
   ('k, 'a, 'd, 'c) backed_array \<Rightarrow> 'w \<Rightarrow> (unit option, unit) result \<times> ('k, 'a, 'd, 'c) backed_array \<times> 'w" where
  "map_in_place K C D f a w =
     (case iter_mut_new K C D a w of
        (Ok _, m, w1) \<Rightarrow>
          (case mut_for C D f (Suc (mi_len m)) m w1 of
             (Ok (Some _), m1, w2) \<Rightarrow>
               (case iter_mut_drop C D m1 w2 of
                  (r, m2, w3) \<Rightarrow> (map_ok Some r, a\<lparr>entries := mi_entries m2\<rparr>, w3))
           | (r, m1, w2) \<Rightarrow> (r, a\<lparr>entries := mi_entries m1\<rparr>, w2))
      | (_, m, w1) \<Rightarrow> (Panic, a\<lparr>entries := mi_entries m\<rparr>, w1))"

section \<open>The invariant of the opened chunks\<close>

text \<open>
  \<open>dirty m\<close>: the entries whose disk may be behind. \<open>mut_ok\<close>: the entries hold the chunks \<open>ys\<close>, every
  opened one is in memory and opened once, and every entry that is not dirty is in step.
\<close>

definition dirty :: "('a, 'd, 'c, 'e) mut_iter \<Rightarrow> nat set" where
  "dirty m = {op_entry h |h. h \<in> set (mi_opened m) \<and> op_state h = Ok True}"

definition mut_env :: "('a, 'd, 'c, 'e) mut_iter \<Rightarrow> ('d \<times> 'c) list" where
  "mut_env m = map (\<lambda>e. (entry_disk e, entry_coder e)) (mi_entries m)"

context array_backing
begin

definition mut_ok :: "('a, 'd, 'c, 'e) mut_iter \<Rightarrow> 'w \<Rightarrow> 'a list list \<Rightarrow> bool" where
  "mut_ok m w ys \<longleftrightarrow>
     length (mi_entries m) = length ys \<and>
     (\<forall>i<length ys. entry_abs C D (mi_entries m ! i) w = Some (ys ! i)) \<and>
     distinct (map op_entry (mi_opened m)) \<and>
     (\<forall>h\<in>set (mi_opened m). op_entry h < length ys \<and> (\<exists>b. op_state h = Ok b) \<and> is_loaded (mi_entries m ! op_entry h)) \<and>
     (\<forall>i<length ys. i \<notin> dirty m \<longrightarrow> synced C D (mi_entries m ! i) w)"

lemma mut_ok_opened:
  assumes "mut_ok m w ys" and "k < length (mi_opened m)"
  obtains b where "op_state (mi_opened m ! k) = Ok b" "op_entry (mi_opened m ! k) < length ys"
    "entry_value (mi_entries m ! op_entry (mi_opened m ! k)) = Some (ys ! op_entry (mi_opened m ! k))"
proof -
  let ?h = "mi_opened m ! k"
  have h: "op_entry ?h < length ys" "\<exists>b. op_state ?h = Ok b" "is_loaded (mi_entries m ! op_entry ?h)"
    using assms nth_mem [OF assms(2)] by (auto simp: mut_ok_def)
  then obtain v where "entry_value (mi_entries m ! op_entry ?h) = Some v" by (auto simp: is_loaded_iff)
  moreover from this assms(1) h(1) have "v = ys ! op_entry ?h" by (auto simp: mut_ok_def)
  ultimately show thesis using h that by blast
qed

text \<open>No two opened chunks borrow the same entry.\<close>

lemma mut_ok_same_entry:
  assumes "mut_ok m w ys" "h \<in> set (mi_opened m)" "k < length (mi_opened m)"
    "op_entry h = op_entry (mi_opened m ! k)"
  shows "h = mi_opened m ! k"
  using assms by (metis (no_types, lifting) distinct_map inj_on_def mut_ok_def nth_mem)

lemma mut_ok_view:
  "mut_ok m w ys \<longleftrightarrow>
     (let v = map (\<lambda>h. (op_entry h, op_state h)) (mi_opened m) in
      length (mi_entries m) = length ys \<and>
      (\<forall>i<length ys. entry_abs C D (mi_entries m ! i) w = Some (ys ! i)) \<and>
      distinct (map fst v) \<and>
      (\<forall>x\<in>set v. fst x < length ys \<and> (\<exists>b. snd x = Ok b) \<and> is_loaded (mi_entries m ! fst x)) \<and>
      (\<forall>i<length ys. (i, Ok True) \<notin> set v \<longrightarrow> synced C D (mi_entries m ! i) w))"
proof -
  have "dirty m = {i. (i, Ok True) \<in> set (map (\<lambda>h. (op_entry h, op_state h)) (mi_opened m))}"
    by (auto simp: dirty_def image_iff)
  then have "i \<in> dirty m \<longleftrightarrow> (i, Ok True) \<in> set (map (\<lambda>h. (op_entry h, op_state h)) (mi_opened m))" for i
    by blast
  then show ?thesis unfolding mut_ok_def Let_def by (simp add: o_def)
qed

lemma mut_ok_refs [simp]: "mut_ok (add_refs k g m) w ys = mut_ok m w ys"
proof -
  have "map (\<lambda>h. (op_entry h, op_state h)) (mi_opened (add_refs k g m)) = map (\<lambda>h. (op_entry h, op_state h)) (mi_opened m)"
    by (cases "k < length (mi_opened m)") (simp_all add: add_refs_def map_update list_update_same_conv list_update_beyond)
  moreover have "mi_entries (add_refs k g m) = mi_entries m" by (simp add: add_refs_def)
  ultimately show ?thesis unfolding mut_ok_view by simp
qed

text \<open>Setting or clearing a flag, possibly with a new value in memory or on disk.\<close>

lemma dirty_set_modified:
  assumes "mut_ok m w ys" "k < length (mi_opened m)"
  shows "dirty (set_modified k b m) =
    (if b then insert (op_entry (mi_opened m ! k)) (dirty m) else dirty m - {op_entry (mi_opened m ! k)})"
proof -
  let ?h = "mi_opened m ! k"
  have "distinct (map op_entry (mi_opened m))" using assms(1) by (simp add: mut_ok_def)
  then have other: "op_entry (mi_opened m ! j) \<noteq> op_entry ?h" if "j < length (mi_opened m)" "j \<noteq> k" for j
    using that assms(2) nth_eq_iff_index_eq [of "map op_entry (mi_opened m)" j k] by simp
  have D: "i \<in> dirty n \<longleftrightarrow> (\<exists>j<length (mi_opened n). op_entry (mi_opened n ! j) = i \<and> op_state (mi_opened n ! j) = Ok True)"
    for i and n :: "('a, 'd, 'c, 'e) mut_iter"
    by (auto simp: dirty_def in_set_conv_nth)
  have E: "i \<in> dirty (set_modified k b m) \<longleftrightarrow>
      (\<exists>j<length (mi_opened m). op_entry (mi_opened m ! j) = i \<and> (if j = k then b else op_state (mi_opened m ! j) = Ok True))" for i
    unfolding D by (auto simp: set_modified_def nth_list_update)
  show ?thesis
  proof (rule set_eqI)
    fix i
    show "i \<in> dirty (set_modified k b m) \<longleftrightarrow>
        i \<in> (if b then insert (op_entry ?h) (dirty m) else dirty m - {op_entry ?h})"
      using other assms(2) unfolding E by (cases b) (simp_all add: D [of _ m], metis+)
  qed
qed

lemma mut_ok_set_modified:
  assumes ok: "mut_ok m w ys" and k: "k < length (mi_opened m)" and i: "i = op_entry (mi_opened m ! k)"
    and es: "es = (mi_entries m)[i := (mi_entries m ! i)\<lparr>entry_value := Some v\<rparr>]"
    and others: "\<And>j. j < length ys \<Longrightarrow> j \<noteq> i \<Longrightarrow>
      entry_abs C D (mi_entries m ! j) w' = entry_abs C D (mi_entries m ! j) w \<and>
      synced C D (mi_entries m ! j) w' = synced C D (mi_entries m ! j) w"
    and clean: "\<not> b \<Longrightarrow> on_disk (entry_coder (mi_entries m ! i)) (entry_disk (mi_entries m ! i)) w' = Some v"
  shows "mut_ok (set_modified k b (m\<lparr>mi_entries := es\<rparr>)) w' (ys[i := v])"
proof -
  let ?m = "set_modified k b (m\<lparr>mi_entries := es\<rparr>)"
  have il: "i < length ys" "length (mi_entries m) = length ys"
    using ok k i nth_mem by (auto simp: mut_ok_def)
  have fields: "mi_entries ?m = es" "map op_entry (mi_opened ?m) = map op_entry (mi_opened m)"
    using k by (simp_all add: set_modified_def map_update list_update_same_conv)
  have dirty: "dirty ?m = (if b then insert i (dirty m) else dirty m - {i})"
  proof -
    have "dirty ?m = dirty (set_modified k b m)" by (simp add: dirty_def set_modified_def)
    then show ?thesis using dirty_set_modified [OF ok k] i by simp
  qed
  have mem: "op_entry h < length ys \<and> (\<exists>c. op_state h = Ok c) \<and> is_loaded (es ! op_entry h)"
    if "h \<in> set (mi_opened ?m)" for h
  proof -
    have "h = (mi_opened m ! k)\<lparr>op_state := Ok b\<rparr> \<or> h \<in> set (mi_opened m)"
      using that set_update_subset_insert [of "mi_opened m" k] by (auto simp: set_modified_def)
    then show ?thesis
    proof
      assume "h = (mi_opened m ! k)\<lparr>op_state := Ok b\<rparr>"
      with i il es show ?thesis by (simp add: is_loaded_iff)
    next
      assume h: "h \<in> set (mi_opened m)"
      with ok il es show ?thesis
        by (cases "op_entry h = i") (auto simp: mut_ok_def is_loaded_iff nth_list_update)
    qed
  qed
  have abs: "entry_abs C D (es ! j) w' = Some (ys[i := v] ! j)" if "j < length ys" for j
    using ok others [OF that] that il es by (cases "j = i") (auto simp: mut_ok_def)
  have sync: "synced C D (es ! j) w'" if "j < length ys" "j \<notin> dirty ?m" for j
  proof (cases "j = i")
    case True
    with that dirty have "\<not> b" by auto
    from clean [OF this] True es il show ?thesis by (simp add: synced_on_disk)
  next
    case False
    with that dirty have "j \<notin> dirty m" by (auto split: if_splits)
    with ok others [OF that(1) False] that(1) False es show ?thesis by (auto simp: mut_ok_def)
  qed
  show ?thesis
    unfolding mut_ok_def fields using ok il es mem abs sync fields by (auto simp: mut_ok_def)
qed

end

section \<open>Flushing and dropping\<close>

context array_backing
begin

text \<open>The store lets every chunk be written, and the coder accepts every chunk.\<close>

definition flushable :: "('a, 'd, 'c, 'e) mut_iter \<Rightarrow> 'w \<Rightarrow> 'a list list \<Rightarrow> bool" where
  "flushable m w ys \<longleftrightarrow> distinct (map (site \<circ> fst) (mut_env m)) \<and> length (mut_env m) = length ys \<and>
     (\<forall>i<length ys. writable (fst (mut_env m ! i)) w \<and> accepts C (snd (mut_env m ! i)) (ys ! i))"

lemma mut_env_set_modified [simp]: "mut_env (set_modified k b m) = mut_env m"
  by (simp add: mut_env_def set_modified_def)

lemma mut_env_refs [simp]: "mut_env (add_refs k g m) = mut_env m"
  by (simp add: mut_env_def add_refs_def)

lemma flush_opened_ok:
  assumes ok: "mut_ok m w ys" and k: "k < length (mi_opened m)" and fl: "flushable m w ys"
  shows "\<exists>w'. flush_opened C D k m w = (Ok (), set_modified k False m, w') \<and>
    mut_ok (set_modified k False m) w' ys \<and> flushable (set_modified k False m) w' ys"
proof -
  let ?i = "op_entry (mi_opened m ! k)"
  let ?e = "mi_entries m ! ?i"
  from mut_ok_opened [OF ok k] obtain b where b: "op_state (mi_opened m ! k) = Ok b" and i: "?i < length ys"
    and v: "entry_value ?e = Some (ys ! ?i)" by blast
  have len: "length (mi_entries m) = length ys" using ok by (simp add: mut_ok_def)
  have same: "mi_entries m = (mi_entries m)[?i := ?e\<lparr>entry_value := Some (ys ! ?i)\<rparr>]"
  proof -
    have "?e\<lparr>entry_value := Some (ys ! ?i)\<rparr> = ?e" using v by (cases ?e) simp
    then show ?thesis by simp
  qed
  have m: "m = m\<lparr>mi_entries := mi_entries m\<rparr>" by simp
  have ys: "ys = ys[?i := ys ! ?i]" by simp
  show ?thesis
  proof (cases b)
    case True
    have wr: "writable (entry_disk ?e) w" "accepts C (entry_coder ?e) (ys ! ?i)"
      using fl i len by (auto simp: flushable_def mut_env_def)
    obtain w' where W: "write_value C D (entry_coder ?e) (entry_disk ?e) (ys ! ?i) w = (Ok (), w')"
      using write_value_succeeds [OF wr] by blast
    have F: "flush_opened C D k m w = (Ok (), set_modified k False m, w')"
      using W v b True by (simp add: flush_opened_def mut_flush_def entry_update_def oc_get_def)
    have others: "entry_abs C D (mi_entries m ! j) w' = entry_abs C D (mi_entries m ! j) w \<and>
        synced C D (mi_entries m ! j) w' = synced C D (mi_entries m ! j) w" if "j < length ys" "j \<noteq> ?i" for j
    proof -
      have d: "distinct (map (site \<circ> fst) (mut_env m))" using fl by (simp add: flushable_def)
      have "site (entry_disk (mi_entries m ! j)) \<noteq> site (entry_disk ?e)"
        using nth_eq_iff_index_eq [OF d, of j ?i] that i len by (simp add: mut_env_def)
      then show ?thesis
        using write_value_frame [OF W] by (simp add: abs_on_disk synced_on_disk split: option.splits)
    qed
    have "mut_ok (set_modified k False (m\<lparr>mi_entries := mi_entries m\<rparr>)) w' (ys[?i := ys ! ?i])"
      using mut_ok_set_modified [OF ok k refl same others] write_value_ok(1) [OF W] by simp
    then have "mut_ok (set_modified k False m) w' ys" by simp
    moreover have "flushable (set_modified k False m) w' ys"
      using fl write_value_writable [OF W] by (simp add: flushable_def)
    ultimately show ?thesis using F by blast
  next
    case False
    have "set_modified k False m = m"
      using b False by (cases "mi_opened m ! k") (auto simp: set_modified_def intro!: mut_iter.equality list_update_same_conv [THEN iffD2] k)
    with ok fl b False v show ?thesis by (simp add: flush_opened_def mut_flush_def)
  qed
qed

lemma set_modified_simps [simp]:
  "mi_entries (set_modified k b m) = mi_entries m" "length (mi_opened (set_modified k b m)) = length (mi_opened m)"
  "map op_refs (mi_opened (set_modified k b m)) = map op_refs (mi_opened m)"
  "map op_entry (mi_opened (set_modified k b m)) = map op_entry (mi_opened m)"
  by (cases "k < length (mi_opened m)";
      simp add: set_modified_def map_update list_update_same_conv list_update_beyond)+

lemma drop_opened_ok:
  assumes "mut_ok m w ys" "flushable m w ys" "\<forall>k\<in>set ks. k < length (mi_opened m)"
    and "\<forall>h\<in>set (mi_opened m). op_refs h = 1"
  shows "\<exists>m' w'. drop_opened C D ks m w = (Ok (), m', w') \<and> mut_ok m' w' ys \<and> mi_entries m' = mi_entries m \<and>
    length (mi_opened m') = length (mi_opened m) \<and>
    (\<forall>k<length (mi_opened m). op_state (mi_opened m' ! k) =
       (if k \<in> set ks then Ok False else op_state (mi_opened m ! k)))"
  using assms
proof (induction ks arbitrary: m w)
  case (Cons k ks)
  let ?m = "set_modified k False m"
  have k: "k < length (mi_opened m)" using Cons.prems(3) by simp
  have refs: "op_refs (mi_opened m ! k) = 1" using Cons.prems(4) nth_mem [OF k] by blast
  obtain w1 where F: "flush_opened C D k m w = (Ok (), ?m, w1)" "mut_ok ?m w1 ys" "flushable ?m w1 ys"
    using flush_opened_ok [OF Cons.prems(1) k Cons.prems(2)] by blast
  have refs': "\<forall>h\<in>set (mi_opened ?m). op_refs h = 1"
  proof -
    have "op_refs ` set (mi_opened ?m) = op_refs ` set (mi_opened m)"
      using set_modified_simps(3) [of k False m] by (metis list.set_map)
    with Cons.prems(4) show ?thesis by (metis (no_types, lifting) image_iff)
  qed
  have state: "op_state (mi_opened ?m ! j) = (if j = k then Ok False else op_state (mi_opened m ! j))"
    if "j < length (mi_opened m)" for j
    using that by (simp add: set_modified_def nth_list_update)
  obtain m' w' where R: "drop_opened C D ks ?m w1 = (Ok (), m', w')" "mut_ok m' w' ys" "mi_entries m' = mi_entries m"
      "length (mi_opened m') = length (mi_opened m)"
      "\<forall>j<length (mi_opened m). op_state (mi_opened m' ! j) =
        (if j \<in> set ks then Ok False else op_state (mi_opened ?m ! j))"
    using Cons.IH [OF F(2,3) _ refs'] Cons.prems(3) by auto
  with F(1) refs state show ?case by (intro exI [of _ m'] exI [of _ w']) auto
qed auto

text \<open>After the iterator is dropped nothing is dirty: memory and disk agree on every chunk.\<close>

lemma iter_mut_drop_ok:
  assumes "mut_ok m w ys" "flushable m w ys" "\<forall>h\<in>set (mi_opened m). op_refs h = 1"
  shows "\<exists>m' w'. iter_mut_drop C D m w = (Ok (), m', w') \<and> mi_entries m' = mi_entries m \<and>
    (\<forall>i<length ys. entry_abs C D (mi_entries m' ! i) w' = Some (ys ! i) \<and> synced C D (mi_entries m' ! i) w')"
proof -
  obtain m' w' where d: "drop_opened C D [0..<length (mi_opened m)] m w = (Ok (), m', w')" "mut_ok m' w' ys"
      "mi_entries m' = mi_entries m" "length (mi_opened m') = length (mi_opened m)"
      "\<forall>k<length (mi_opened m). op_state (mi_opened m' ! k) = Ok False"
    using drop_opened_ok [OF assms(1,2) _ assms(3), of "[0..<length (mi_opened m)]"] by auto
  have "dirty m' = {}" using d(4,5) by (auto simp: dirty_def in_set_conv_nth)
  with d show ?thesis by (auto simp: iter_mut_drop_def mut_ok_def)
qed

end

section \<open>Opening the next chunk\<close>

lemma dropWhile_takeWhile_at:
  assumes "c \<le> c'" and "c' < length zs" and "\<forall>i. c \<le> i \<longrightarrow> i < c' \<longrightarrow> P (zs ! i)" and "\<not> P (zs ! c')"
  shows "dropWhile P (drop c zs) = drop c' zs \<and> length (takeWhile P (drop c zs)) = c' - c"
  using assms
proof (induction "c' - c" arbitrary: c)
  case 0
  then have "c = c'" by simp
  with 0 show ?case by (simp add: Cons_nth_drop_Suc [symmetric])
next
  case (Suc n)
  then have c: "c < c'" "c < length zs" by auto
  have "P (zs ! c)" using Suc.prems(3) c by simp
  moreover have "dropWhile P (drop (Suc c) zs) = drop c' zs \<and> length (takeWhile P (drop (Suc c) zs)) = c' - Suc c"
    using Suc.hyps Suc.prems c by (intro Suc.hyps(1)) auto
  ultimately show ?case using c by (simp add: Cons_nth_drop_Suc [symmetric])
qed

context array_backing
begin

lemma open_entry_ok:
  assumes ok: "mut_ok m w ys" and i: "i < length ys" "i \<notin> op_entry ` set (mi_opened m)"
  shows "\<exists>es. open_entry C D i m w = (Ok (), m\<lparr>mi_entries := es,
      mi_opened := mi_opened m @ [\<lparr>op_entry = i, op_state = Ok False, op_refs = 1\<rparr>]\<rparr>, w) \<and>
    mut_ok (m\<lparr>mi_entries := es, mi_opened := mi_opened m @ [\<lparr>op_entry = i, op_state = Ok False, op_refs = 1\<rparr>]\<rparr>) w ys \<and>
    map (\<lambda>e. (entry_disk e, entry_coder e)) es = mut_env m"
proof -
  let ?e = "mi_entries m ! i"
  let ?e1 = "?e\<lparr>entry_value := Some (ys ! i)\<rparr>"
  let ?es = "(mi_entries m)[i := ?e1]"
  let ?m = "m\<lparr>mi_entries := ?es, mi_opened := mi_opened m @ [\<lparr>op_entry = i, op_state = Ok False, op_refs = 1\<rparr>]\<rparr>"
  have len: "length (mi_entries m) = length ys" and abs: "entry_abs C D ?e w = Some (ys ! i)"
    using ok i by (auto simp: mut_ok_def)
  have H: "mut_handle C D ?e w = (Ok \<lparr>mh_entry = ?e1, mh_modified = False\<rparr>, ?e1, w)"
    using abs by (simp add: mut_handle_Ok)
  then have O: "open_entry C D i m w = (Ok (), ?m, w)" by (simp add: open_entry_def)
  have clean: "i \<notin> dirty m" using i(2) by (auto simp: dirty_def)
  have "synced C D ?e w" using ok i(1) clean by (simp add: mut_ok_def)
  moreover have "entry_load C D ?e w = (Ok (ys ! i), ?e1, w)" using abs by (rule load_abs)
  ultimately have sync: "synced C D ?e1 w" using load_synced by blast
  have d: "dirty ?m = dirty m" by (auto simp: dirty_def)
  have "mut_ok ?m w ys"
    unfolding mut_ok_def d
    using ok i len sync
    by (auto simp: mut_ok_def nth_list_update is_loaded_iff)
  moreover have "map (\<lambda>e. (entry_disk e, entry_coder e)) ?es = mut_env m"
    using i len by (simp add: mut_env_def map_update list_update_same_conv)
  ultimately show ?thesis using O by blast
qed

end

section \<open>One step of the iteration\<close>

text \<open>The chunks after the first \<open>p\<close> elements have been mapped.\<close>

definition map_part :: "('x \<Rightarrow> 'x) \<Rightarrow> nat \<Rightarrow> 'x list \<Rightarrow> 'x list" where
  "map_part f n xs = map f (take n xs) @ drop n xs"

definition mapped :: "('x \<Rightarrow> 'x) \<Rightarrow> nat \<Rightarrow> 'x list list \<Rightarrow> 'x list list" where
  "mapped f p xss =
     map (\<lambda>i. map_part f (p - sum_list (take i (map length xss))) (xss ! i)) [0..<length xss]"

lemma length_map_part [simp]: "length (map_part f n xs) = length xs"
  by (simp add: map_part_def)

lemma map_part_0 [simp]: "map_part f 0 xs = xs"
  by (simp add: map_part_def)

lemma map_part_all: "length xs \<le> n \<Longrightarrow> map_part f n xs = map f xs"
  by (simp add: map_part_def)

lemma map_part_Suc:
  "n < length xs \<Longrightarrow> map_part f (Suc n) xs = (map_part f n xs)[n := f (map_part f n xs ! n)]"
  by (simp add: map_part_def nth_append take_Suc_conv_app_nth list_update_append Cons_nth_drop_Suc [symmetric])

lemma length_mapped [simp]: "length (mapped f p xss) = length xss"
  by (simp add: mapped_def)

lemma nth_mapped [simp]:
  "i < length xss \<Longrightarrow> mapped f p xss ! i = map_part f (p - sum_list (take i (map length xss))) (xss ! i)"
  by (simp add: mapped_def)

lemma mapped_0 [simp]: "mapped f 0 xss = xss"
  by (rule nth_equalityI) simp_all

lemma mapped_all: "sum_list (map length xss) \<le> p \<Longrightarrow> mapped f p xss = map (map f) xss"
proof (rule nth_equalityI)
  fix i assume p: "sum_list (map length xss) \<le> p" and "i < length (mapped f p xss)"
  then have i: "i < length xss" by simp
  have "sum_list (take (Suc i) (map length xss)) \<le> sum_list (map length xss)"
    using sum_list_take_mono [of "Suc i" "length xss" "map length xss"] i by simp
  with p i show "mapped f p xss ! i = map (map f) xss ! i"
    by (simp add: map_part_all sum_list_take_Suc)
qed simp

lemma mapped_step:
  assumes "c < length xss" "sum_list (take c (map length xss)) \<le> p" "p < sum_list (take (Suc c) (map length xss))"
  defines "j \<equiv> p - sum_list (take c (map length xss))"
  shows "mapped f (Suc p) xss = (mapped f p xss)[c := (mapped f p xss ! c)[j := f (mapped f p xss ! c ! j)]]"
proof (rule nth_equalityI)
  let ?ls = "map length xss"
  fix i assume "i < length (mapped f (Suc p) xss)"
  then have i: "i < length xss" by simp
  consider "i < c" | "i = c" | "c < i" by linarith
  then show "mapped f (Suc p) xss ! i = (mapped f p xss)[c := (mapped f p xss ! c)[j := f (mapped f p xss ! c ! j)]] ! i"
  proof cases
    case 1
    then have "sum_list (take (Suc i) ?ls) \<le> p"
      using sum_list_take_mono [of "Suc i" c ?ls] assms(2) by simp
    then have "length (xss ! i) \<le> p - sum_list (take i ?ls)"
      using i by (simp add: sum_list_take_Suc)
    with 1 i show ?thesis by (simp add: map_part_all)
  next
    case 2
    have "j < length (xss ! c)" using assms by (simp add: sum_list_take_Suc)
    moreover have "Suc p - sum_list (take c ?ls) = Suc j" using assms(2) by (simp add: j_def Suc_diff_le)
    ultimately show ?thesis using 2 assms(1) by (simp add: map_part_Suc j_def)
  next
    case 3
    then have "Suc p \<le> sum_list (take i ?ls)"
      using sum_list_take_mono [of "Suc c" i ?ls] assms(3) by simp
    with 3 i show ?thesis by simp
  qed
qed simp

section \<open>The whole loop\<close>

definition all_keys :: "'x list list \<Rightarrow> (nat \<times> nat) list" where
  "all_keys xss = zip (starts_from 0 (map length xss)) (ends_from 0 (map length xss))"

lemma length_all_keys [simp]: "length (all_keys xss) = length xss"
  by (simp add: all_keys_def)

lemma nth_all_keys [simp]: "i < length xss \<Longrightarrow> all_keys xss ! i =
    (sum_list (take i (map length xss)), sum_list (take (Suc i) (map length xss)))"
  by (simp add: all_keys_def)

context array_backing
begin

definition mut_at :: "('a \<Rightarrow> 'a) \<Rightarrow> 'a list list \<Rightarrow> nat \<Rightarrow> ('a, 'd, 'c, 'e) mut_iter \<Rightarrow> 'w \<Rightarrow> bool" where
  "mut_at f xss p m w \<longleftrightarrow>
     mi_pos m = p \<and> mut_ok m w (mapped f p xss) \<and> (\<forall>h\<in>set (mi_opened m). op_refs h = 1) \<and>
     (if xss = [] then mi_keys m = []
      else \<exists>c<length xss. mi_keys m = drop c (all_keys xss) \<and> mi_next m = Suc c \<and>
        sum_list (take c (map length xss)) \<le> p \<and> mi_opened m \<noteq> [] \<and> op_entry (last (mi_opened m)) = c \<and>
        (\<forall>h\<in>set (mi_opened m). op_entry h \<le> c))"

lemma mut_at_new:
  assumes "represents a w xss" and "all_synced a w"
  shows "\<exists>m. iter_mut_new K C D a w = (Ok (), m, w) \<and> mut_at f xss 0 m w \<and> mi_len m = length (concat xss) \<and>
    mut_env m = map (\<lambda>e. (entry_disk e, entry_coder e)) (entries a)"
proof -
  let ?m = "\<lparr>mi_pos = 0, mi_len = array_len K a, mi_keys = all_keys xss, mi_next = 0,
     mi_entries = entries a, mi_opened = []\<rparr> :: ('a, 'd, 'c, 'e) mut_iter"
  have keys: "zip (c_ref K (key_starts a)) (c_ref K (key_ends a)) = all_keys xss"
    using assms(1) by (simp add: array_represents_def all_keys_def)
  have len: "array_len K a = length (concat xss)" using assms(1) by (rule represents_array_len)
  have n: "length (entries a) = length xss" using assms(1) by (rule represents_length)
  have ok: "mut_ok (?m\<lparr>mi_next := i\<rparr>) w xss" for i
    using assms n represents_nth [OF assms(1)]
    by (auto simp: mut_ok_def array_synced_def list_all_length)
  show ?thesis
  proof (cases "xss = []")
    case True
    with n keys len ok [of 0] show ?thesis
      by (auto simp: iter_mut_new_def mut_at_def mut_env_def Let_def mapped_def all_keys_def)
  next
    case False
    from open_entry_ok [OF ok, of 0 1] False obtain es where O:
      "open_entry C D 0 (?m\<lparr>mi_next := 1\<rparr>) w = (Ok (), ?m\<lparr>mi_next := 1, mi_entries := es,
        mi_opened := [\<lparr>op_entry = 0, op_state = Ok False, op_refs = 1\<rparr>]\<rparr>, w)"
      "mut_ok (?m\<lparr>mi_next := 1, mi_entries := es, mi_opened := [\<lparr>op_entry = 0, op_state = Ok False, op_refs = 1\<rparr>]\<rparr>) w xss"
      "map (\<lambda>e. (entry_disk e, entry_coder e)) es = map (\<lambda>e. (entry_disk e, entry_coder e)) (entries a)"
      by (auto simp: mut_env_def)
    have "entries a \<noteq> []" using False n by auto
    with O keys len False show ?thesis
      by (intro exI [of _ "?m\<lparr>mi_next := 1, mi_entries := es,
          mi_opened := [\<lparr>op_entry = 0, op_state = Ok False, op_refs = 1\<rparr>]\<rparr>"])
        (auto simp: iter_mut_new_def mut_at_def mut_env_def)
  qed
qed

lemma seek_keys:
  assumes "mut_at f xss p m w" and "p < length (concat xss)"
  obtains c c' where "c < length xss" "c \<le> c'" "c' < length xss" "mi_next m = Suc c"
    "sum_list (take c' (map length xss)) \<le> p" "p < sum_list (take (Suc c') (map length xss))"
    "dropWhile (\<lambda>key. snd key \<le> p) (mi_keys m) = drop c' (all_keys xss)"
    "length (takeWhile (\<lambda>key. snd key \<le> p) (mi_keys m)) = c' - c"
    "mi_opened m \<noteq> []" "op_entry (last (mi_opened m)) = c" "\<forall>h\<in>set (mi_opened m). op_entry h \<le> c"
proof -
  let ?ls = "map length xss"
  have "p < sum_list ?ls" using assms(2) by (simp add: length_concat)
  then obtain c' where c': "c' < length xss" "sum_list (take c' ?ls) \<le> p" "p < sum_list (take (Suc c') ?ls)"
    by (rule chunk_of_position) simp
  have "xss \<noteq> []" using c' by auto
  then obtain c where c: "c < length xss" "mi_keys m = drop c (all_keys xss)" "mi_next m = Suc c"
      "sum_list (take c ?ls) \<le> p" "mi_opened m \<noteq> []" "op_entry (last (mi_opened m)) = c"
      "\<forall>h\<in>set (mi_opened m). op_entry h \<le> c"
    using assms(1) by (auto simp: mut_at_def)
  have "c \<le> c'"
  proof (rule ccontr)
    assume "\<not> c \<le> c'"
    then have "sum_list (take (Suc c') ?ls) \<le> sum_list (take c ?ls)" by (intro sum_list_take_mono) simp
    with c c' show False by simp
  qed
  have "sum_list (take (Suc i) ?ls) \<le> p" if "i < c'" for i
    using sum_list_take_mono [of "Suc i" c' ?ls] that c'(2) by simp
  then have "dropWhile (\<lambda>key. snd key \<le> p) (drop c (all_keys xss)) = drop c' (all_keys xss) \<and>
      length (takeWhile (\<lambda>key. snd key \<le> p) (drop c (all_keys xss))) = c' - c"
    using \<open>c \<le> c'\<close> c' by (intro dropWhile_takeWhile_at) auto
  with c c' \<open>c \<le> c'\<close> that show thesis by metis
qed

lemma seek_ok:
  assumes at: "mut_at f xss p m w" and p: "p < length (concat xss)"
  obtains c m1 where "iter_mut_seek C D 0 m w = (Ok (Some (p - sum_list (take c (map length xss)))), m1, w)"
    "c < length xss" "sum_list (take c (map length xss)) \<le> p" "p < sum_list (take (Suc c) (map length xss))"
    "mi_pos m1 = Suc p" "mut_ok m1 w (mapped f p xss)" "\<forall>h\<in>set (mi_opened m1). op_refs h = 1"
    "mi_keys m1 = drop c (all_keys xss)" "mi_next m1 = Suc c" "mi_opened m1 \<noteq> []"
    "op_entry (last (mi_opened m1)) = c" "\<forall>h\<in>set (mi_opened m1). op_entry h \<le> c" "mut_env m1 = mut_env m"
proof -
  let ?ls = "map length xss"
  from at p obtain c c' where c: "c < length xss" "c \<le> c'" "c' < length xss" "mi_next m = Suc c"
    "sum_list (take c' ?ls) \<le> p" "p < sum_list (take (Suc c') ?ls)"
    "dropWhile (\<lambda>key. snd key \<le> p) (mi_keys m) = drop c' (all_keys xss)"
    "length (takeWhile (\<lambda>key. snd key \<le> p) (mi_keys m)) = c' - c"
    "mi_opened m \<noteq> []" "op_entry (last (mi_opened m)) = c" "\<forall>h\<in>set (mi_opened m). op_entry h \<le> c"
    by (rule seek_keys)
  have pos: "mi_pos m = p" and ok: "mut_ok m w (mapped f p xss)" and refs: "\<forall>h\<in>set (mi_opened m). op_refs h = 1"
    using at by (auto simp: mut_at_def)
  have hd: "drop c' (all_keys xss) = all_keys xss ! c' # drop (Suc c') (all_keys xss)"
    by (rule Cons_nth_drop_Suc [symmetric]) (simp add: c(3))
  let ?m = "m\<lparr>mi_pos := p + 1, mi_keys := drop c' (all_keys xss)\<rparr>"
  have ok': "mut_ok (m\<lparr>mi_pos := p + 1, mi_keys := drop c' (all_keys xss), mi_next := i\<rparr>) w (mapped f p xss)"
    "mut_ok ?m w (mapped f p xss)" for i
    using ok by (simp_all add: mut_ok_def dirty_def)
  show thesis
  proof (cases "c' = c")
    case True
    have "iter_mut_seek C D 0 m w = (Ok (Some (p - sum_list (take c ?ls))), ?m, w)"
      using c pos hd True by (simp add: iter_mut_seek_def Let_def usub_def)
    with c True ok' refs show thesis
      by (intro that [of c ?m]) (simp_all add: mut_env_def)
  next
    case False
    then have gt: "c < c'" using c(2) by simp
    let ?n = "m\<lparr>mi_pos := p + 1, mi_keys := drop c' (all_keys xss), mi_next := Suc c'\<rparr>"
    have "c' \<notin> op_entry ` set (mi_opened ?n)" using c(11) gt by auto
    from open_entry_ok [OF ok'(1) _ this] c(3) obtain es where O:
      "open_entry C D c' ?n w = (Ok (), ?n\<lparr>mi_entries := es,
        mi_opened := mi_opened ?n @ [\<lparr>op_entry = c', op_state = Ok False, op_refs = 1\<rparr>]\<rparr>, w)"
      "mut_ok (?n\<lparr>mi_entries := es, mi_opened := mi_opened ?n @ [\<lparr>op_entry = c', op_state = Ok False, op_refs = 1\<rparr>]\<rparr>) w (mapped f p xss)"
      "map (\<lambda>e. (entry_disk e, entry_coder e)) es = mut_env ?n" by auto
    let ?m1 = "?n\<lparr>mi_entries := es, mi_opened := mi_opened ?n @ [\<lparr>op_entry = c', op_state = Ok False, op_refs = 1\<rparr>]\<rparr>"
    have i: "mi_next m + (c' - c - 1) = c'" using c(4) gt by simp
    have len: "length (mi_entries m) = length xss" using ok by (simp add: mut_ok_def)
    have "iter_mut_seek C D 0 m w = (Ok (Some (p - sum_list (take c' ?ls))), ?m1, w)"
      using c pos hd gt i len O(1) by (simp add: iter_mut_seek_def Let_def usub_def)
    moreover have "mut_env ?m1 = mut_env m" using O(3) by (simp add: mut_env_def)
    moreover have "\<forall>h\<in>set (mi_opened ?m1). op_entry h \<le> c'" using c(11) gt by auto
    ultimately show thesis
      using c O(2) refs by (intro that [of c' ?m1]) simp_all
  qed
qed

end

context array_backing
begin

lemma mut_step:
  assumes at: "mut_at f xss p m w" and p: "p < length (concat xss)"
  obtains ch m1 m2 where "iter_mut_nth C D 0 m w = (Ok (Some (Item ch)), m1, w)"
    "counted_deref ch m1 = concat xss ! p"
    "counted_drop C D ch (counted_deref_mut f ch m1) w = (Ok (), m2, w)"
    "mut_at f xss (Suc p) m2 w" "mut_env m2 = mut_env m"
proof -
  let ?ls = "map length xss"
  from at p obtain c m1 where S:
    "iter_mut_seek C D 0 m w = (Ok (Some (p - sum_list (take c ?ls))), m1, w)"
    "c < length xss" "sum_list (take c ?ls) \<le> p" "p < sum_list (take (Suc c) ?ls)"
    "mi_pos m1 = Suc p" "mut_ok m1 w (mapped f p xss)" "\<forall>h\<in>set (mi_opened m1). op_refs h = 1"
    "mi_keys m1 = drop c (all_keys xss)" "mi_next m1 = Suc c" "mi_opened m1 \<noteq> []"
    "op_entry (last (mi_opened m1)) = c" "\<forall>h\<in>set (mi_opened m1). op_entry h \<le> c" "mut_env m1 = mut_env m"
    by (rule seek_ok)
  define j where "j = p - sum_list (take c ?ls)"
  define k where "k = length (mi_opened m1) - 1"
  have k: "k < length (mi_opened m1)" "mi_opened m1 ! k = last (mi_opened m1)"
    using S(10) by (simp_all add: k_def last_conv_nth)
  have j: "j < length (xss ! c)" using S(2-4) by (simp add: j_def sum_list_take_Suc)
  let ?ys = "mapped f p xss"
  let ?e = "mi_entries m1 ! c"
  obtain b where b: "op_state (mi_opened m1 ! k) = Ok b" and v: "entry_value ?e = Some (?ys ! c)"
    using mut_ok_opened [OF S(6) k(1)] k(2) S(11) by metis
  have len: "length (mi_entries m1) = length xss" "length (?ys ! c) = length (xss ! c)"
    using S(2,6) by (simp_all add: mut_ok_def)
  let ?ch = "\<lparr>ch_opened = k, ch_inner = j\<rparr>"
  let ?m1 = "add_refs k Suc (set_modified k True m1)"
  have k': "length (mi_opened m1) - Suc 0 = k" by (simp add: k_def)
  have modified: "mi_entries (set_modified k True m1) = mi_entries m1" by simp
  have N: "iter_mut_nth C D 0 m w = (Ok (Some (Item ?ch)), ?m1, w)"
    using S(10,11) b v j len k
    by (simp add: iter_mut_nth_def iter_mut_nth_by_def S(1) Let_def k' j_def [symmetric])
  have entry: "op_entry (mi_opened ?m1 ! k) = c" "mi_entries ?m1 = mi_entries m1"
    using k S(11) by (simp_all add: add_refs_def set_modified_def)
  have "?ys ! c ! j = xss ! c ! j" using S(2) j by (simp add: map_part_def j_def [symmetric] nth_append)
  also have "\<dots> = concat xss ! p" using nth_concat_chunk [OF S(2) j] S(3) by (simp add: j_def)
  finally have V: "counted_deref ?ch ?m1 = concat xss ! p"
    using entry v by (simp add: counted_deref_def)
  define val where "val = (?ys ! c)[j := f (?ys ! c ! j)]"
  define es where "es = (mi_entries m1)[c := ?e\<lparr>entry_value := Some val\<rparr>]"
  have W: "counted_deref_mut f ?ch ?m1 = ?m1\<lparr>mi_entries := es\<rparr>"
    using entry v by (simp add: counted_deref_mut_def Let_def val_def es_def)
  let ?m2 = "set_modified k True (m1\<lparr>mi_entries := es\<rparr>)"
  have refs1: "op_refs (mi_opened m1 ! k) = 1" using S(7) k(1) nth_mem by blast
  have two: "op_refs (mi_opened (?m1\<lparr>mi_entries := es\<rparr>) ! k) = 2"
    using k(1) refs1 by (simp add: add_refs_def set_modified_def)
  have once: "h\<lparr>op_state := s, op_refs := Suc 0\<rparr> = h\<lparr>op_state := s\<rparr>" if "op_refs h = Suc 0" for h :: "'e opened" and s
    using that by (cases h) simp
  have "add_refs k (\<lambda>n. n - 1) (?m1\<lparr>mi_entries := es\<rparr>) = ?m2"
    using k(1) refs1 by (simp add: add_refs_def set_modified_def once)
  with two have Dr: "counted_drop C D ?ch (counted_deref_mut f ?ch ?m1) w = (Ok (), ?m2, w)"
    by (simp add: W counted_drop_def Let_def)
  have "mut_ok ?m2 w (?ys[c := val])"
    by (rule mut_ok_set_modified [OF S(6) k(1)]) (use k S(11) es_def in simp_all)
  also have "?ys[c := val] = mapped f (Suc p) xss"
    using mapped_step [OF S(2-4), of f] by (simp add: val_def j_def)
  finally have ok: "mut_ok ?m2 w (mapped f (Suc p) xss)" .
  have "op_refs ` set (mi_opened ?m2) = op_refs ` set (mi_opened m1)"
    using set_modified_simps(3) [of k True "m1\<lparr>mi_entries := es\<rparr>"] by (metis list.set_map mut_iter.select_convs(6) mut_iter.update_convs(5) mut_iter.surjective)
  with S(7) have refs2: "\<forall>h\<in>set (mi_opened ?m2). op_refs h = 1" by (metis (no_types, lifting) image_iff)
  have entries2: "map op_entry (mi_opened ?m2) = map op_entry (mi_opened m1)" by simp
  have "op_entry ` set (mi_opened ?m2) = op_entry ` set (mi_opened m1)"
    by (metis entries2 list.set_map)
  with S(12) have le: "\<forall>h\<in>set (mi_opened ?m2). op_entry h \<le> c" by (metis (no_types, lifting) image_iff)
  have ne: "mi_opened ?m2 \<noteq> []" using S(10) by (simp add: set_modified_def)
  have la: "op_entry (last (mi_opened ?m2)) = c"
    using ne S(10,11) entries2 last_map by metis
  have fields: "mi_pos ?m2 = Suc p" "mi_keys ?m2 = drop c (all_keys xss)" "mi_next ?m2 = Suc c"
    using S(5,8,9) by (simp_all add: set_modified_def)
  have "xss \<noteq> []" using S(2) by auto
  then have "mut_at f xss (Suc p) ?m2 w"
    unfolding mut_at_def using ok refs2 le ne la fields S(2,3) by auto
  moreover have "mut_env ?m2 = mut_env m"
  proof -
    have "map (\<lambda>e. (entry_disk e, entry_coder e)) es = mut_env m1"
      using len S(2) by (simp add: es_def mut_env_def map_update list_update_same_conv)
    then show ?thesis using S(13) by (simp add: mut_env_def)
  qed
  ultimately show thesis using N V Dr that by blast
qed

lemma mut_end:
  assumes at: "mut_at f xss p m w" and p: "p = length (concat xss)"
  obtains m1 where "iter_mut_nth C D 0 m w = (Ok None, m1, w)" "mut_ok m1 w (mapped f p xss)"
    "\<forall>h\<in>set (mi_opened m1). op_refs h = 1" "mut_env m1 = mut_env m"
proof -
  have "snd key \<le> p" if "key \<in> set (mi_keys m)" for key
  proof -
    have "key \<in> set (all_keys xss)"
      using that at by (auto simp: mut_at_def split: if_splits dest: in_set_dropD)
    then obtain i where i: "i < length xss" "key = all_keys xss ! i" by (auto simp: in_set_conv_nth)
    have "sum_list (take (Suc i) (map length xss)) \<le> sum_list (map length xss)"
      using sum_list_take_mono [of "Suc i" "length xss" "map length xss"] i(1) by simp
    with i p show ?thesis by (simp add: length_concat)
  qed
  then have none: "dropWhile (\<lambda>key. snd key \<le> p) (mi_keys m) = []" by simp
  have "mi_pos m = p" using at by (simp add: mut_at_def)
  with none have "iter_mut_seek C D 0 m w = (Ok None, m\<lparr>mi_pos := p, mi_keys := []\<rparr>, w)"
    by (simp only: iter_mut_seek_def Let_def add_0_right list.case)
  then have "iter_mut_nth C D 0 m w = (Ok None, m\<lparr>mi_pos := p, mi_keys := []\<rparr>, w)"
    by (simp add: iter_mut_nth_def iter_mut_nth_by_def)
  with at show thesis
    by (intro that [of "m\<lparr>mi_pos := p, mi_keys := []\<rparr>"])
      (simp_all add: mut_at_def mut_ok_def dirty_def mut_env_def)
qed

lemma mut_for_ok:
  assumes "mut_at f xss p m w" and "p + n = length (concat xss)" and "n < fuel"
  shows "\<exists>m'. mut_for C D f fuel m w = (Ok (Some ()), m', w) \<and>
    mut_ok m' w (mapped f (length (concat xss)) xss) \<and> (\<forall>h\<in>set (mi_opened m'). op_refs h = 1) \<and> mut_env m' = mut_env m"
  using assms
proof (induction n arbitrary: p m fuel)
  case 0
  then obtain fuel' where fuel: "fuel = Suc fuel'" by (cases fuel) auto
  from 0 have "p = length (concat xss)" by simp
  from mut_end [OF 0(1) this] obtain m1 where "iter_mut_nth C D 0 m w = (Ok None, m1, w)"
    "mut_ok m1 w (mapped f p xss)" "\<forall>h\<in>set (mi_opened m1). op_refs h = 1" "mut_env m1 = mut_env m" by blast
  with \<open>p = length (concat xss)\<close> fuel show ?case by auto
next
  case (Suc n)
  then obtain fuel' where fuel: "fuel = Suc fuel'" "n < fuel'" by (cases fuel) auto
  from Suc.prems have "p < length (concat xss)" by simp
  from mut_step [OF Suc.prems(1) this] obtain ch m1 m2 where
    N: "iter_mut_nth C D 0 m w = (Ok (Some (Item ch)), m1, w)"
    "counted_drop C D ch (counted_deref_mut f ch m1) w = (Ok (), m2, w)"
    "mut_at f xss (Suc p) m2 w" "mut_env m2 = mut_env m" by metis
  from Suc.IH [OF N(3) _ fuel(2)] Suc.prems(2) N fuel(1) show ?case by simp
qed

end

context array_backing
begin

text \<open>The whole program: every element mapped, in memory and on disk.\<close>

lemma map_in_place_ok:
  assumes a: "represents a w xss" "all_synced a w"
    and d: "distinct (sites a)"
    and wr: "\<forall>e\<in>set (entries a). writable (entry_disk e) w"
    and acc: "\<forall>i<length xss. accepts C (entry_coder (entries a ! i)) (map f (xss ! i))"
  shows "\<exists>a' w'. map_in_place K C D f a w = (Ok (Some ()), a', w') \<and>
    represents a' w' (map (map f) xss) \<and> all_synced a' w'"
proof -
  let ?n = "length (concat xss)"
  have n: "length (entries a) = length xss" using a(1) by (rule represents_length)
  obtain m where M: "iter_mut_new K C D a w = (Ok (), m, w)" "mut_at f xss 0 m w" "mi_len m = ?n"
      "mut_env m = map (\<lambda>e. (entry_disk e, entry_coder e)) (entries a)"
    using mut_at_new [OF a, of f] by blast
  obtain m1 where L: "mut_for C D f (Suc (mi_len m)) m w = (Ok (Some ()), m1, w)"
      "mut_ok m1 w (mapped f ?n xss)" "\<forall>h\<in>set (mi_opened m1). op_refs h = 1" "mut_env m1 = mut_env m"
    using mut_for_ok [OF M(2), of ?n "Suc (mi_len m)"] M(3) by auto
  have all: "mapped f ?n xss = map (map f) xss" by (rule mapped_all) (simp add: length_concat)
  have env: "map (site \<circ> fst) (mut_env m1) = sites a"
    unfolding L(4) M(4) by (simp add: array_sites_def)
  have env': "mut_env m1 ! i = (entry_disk (entries a ! i), entry_coder (entries a ! i))" if "i < length xss" for i
    using that n unfolding L(4) M(4) by simp
  have len: "length (mut_env m1) = length xss" using n unfolding L(4) M(4) by simp
  have "flushable m1 w (map (map f) xss)"
    unfolding flushable_def env using d wr acc n len env' by simp
  from iter_mut_drop_ok [OF L(2) [unfolded all] this L(3)] obtain m2 w2 where R:
    "iter_mut_drop C D m1 w = (Ok (), m2, w2)" "mi_entries m2 = mi_entries m1"
    "\<forall>i<length xss. entry_abs C D (mi_entries m2 ! i) w2 = Some (map f (xss ! i)) \<and> synced C D (mi_entries m2 ! i) w2"
    by auto
  have "length (mi_entries m2) = length xss" using L(2) R(2) by (simp add: mut_ok_def)
  then have "represents (a\<lparr>entries := mi_entries m2\<rparr>) w2 (map (map f) xss) \<and> all_synced (a\<lparr>entries := mi_entries m2\<rparr>) w2"
    using R(3) a(1) by (simp add: array_represents_def array_synced_def list_all2_conv_all_nth list_all_length o_def)
  then show ?thesis using M(1) L(1) R(1) by (simp add: map_in_place_def)
qed

end

section \<open>Properties\<close>

text \<open>
  C6: mutable iteration. On an array over plain files that represents its chunks, is in step with its
  files and whose chunks are at distinct, writable paths, the program
  \<open>for x in array.iter_mut() { *x = f(*x) }\<close> ends without a panic, visits every element once, and
  after the iterator is dropped the array represents the mapped chunks and every file holds its
  mapped chunk, although only the drops write.
\<close>

theorem iter_mut_maps_array:
  assumes "coder_roundtrip C" and "array_represents vec_ops C plainfile_disk a s xss"
    and "array_synced C plainfile_disk a s" and "distinct (array_sites pf_path a)"
    and "\<forall>e\<in>set (entries a). file_writable (pf_path (entry_disk e)) s"
    and "\<forall>i<length xss. accepts C (entry_coder (entries a ! i)) (map f (xss ! i))"
  shows "\<exists>a' s'. map_in_place vec_ops C plainfile_disk f a s = (Ok (Some ()), a', s') \<and>
    array_represents vec_ops C plainfile_disk a' s' (map (map f) xss) \<and> array_synced C plainfile_disk a' s'"
  by (rule array_backing.map_in_place_ok [OF growing_array.axioms(1) [OF plain_array [OF assms(1)]] assms(2-6)])

theorem iter_mut_maps_array_witness:
  "\<exists>a' s'. map_in_place vec_ops prefix_ops plainfile_disk (\<lambda>x. x + 1) demo_array demo_store = (Ok (Some ()), a', s') \<and>
    array_represents vec_ops prefix_ops plainfile_disk a' s' [[11, 12], [13], [14, 15, 16]]"
proof -
  have "distinct (array_sites pf_path demo_array)" by (simp add: array_sites_def)
  moreover have "\<forall>e\<in>set (entries demo_array). file_writable (pf_path (entry_disk e)) demo_store"
    by (simp add: file_writable_def empty_fs_def parent_def)
  moreover have "\<forall>i<length [[10, 11], [12], [13, 14, 15]].
      accepts prefix_ops (entry_coder (entries demo_array ! i)) (map (\<lambda>x. x + 1) ([[10, 11], [12], [13, 14, 15]] ! i))"
    by (auto simp: less_Suc_eq numeral_3_eq_3)
  ultimately show ?thesis
    using iter_mut_maps_array [OF prefix_roundtrip demo_represents, of "\<lambda>x. x + 1"] by auto
qed

section \<open>Writes after a flush\<close>

text \<open>No opened chunk has its flag set.\<close>

definition clean :: "('a, 'd, 'c, 'e) mut_iter \<Rightarrow> bool" where
  "clean m \<longleftrightarrow> (\<forall>h\<in>set (mi_opened m). op_state h \<noteq> Ok True)"

lemma mut_flush_clears:
  "mut_flush C D mh w = (Ok u, mh', w') \<Longrightarrow> \<not> mh_modified mh'"
  by (auto simp: mut_flush_def split: if_splits prod.splits result.splits)

lemma flush_opened_state:
  assumes "flush_opened C D k m w = (Ok u, m', w')" and "k < length (mi_opened m)"
  shows "length (mi_opened m') = length (mi_opened m) \<and> op_state (mi_opened m' ! k) \<noteq> Ok True \<and>
    (\<forall>j<length (mi_opened m). j \<noteq> k \<longrightarrow> mi_opened m' ! j = mi_opened m ! j)"
  using assms
  by (auto simp: flush_opened_def Let_def set_modified_def dest: mut_flush_clears split: result.splits prod.splits)

lemma flush_all_state:
  "flush_all C D ks m w = (Ok u, m', w') \<Longrightarrow> \<forall>k\<in>set ks. k < length (mi_opened m) \<Longrightarrow>
    length (mi_opened m') = length (mi_opened m) \<and>
    (\<forall>j<length (mi_opened m). (j \<in> set ks \<or> op_state (mi_opened m ! j) \<noteq> Ok True) \<longrightarrow> op_state (mi_opened m' ! j) \<noteq> Ok True)"
proof (induction ks arbitrary: m w)
  case (Cons k ks)
  then obtain v m1 w1 where F: "flush_opened C D k m w = (Ok v, m1, w1)" and R: "flush_all C D ks m1 w1 = (Ok u, m', w')"
    by (auto split: prod.splits result.splits)
  from flush_opened_state [OF F] Cons.prems(2) have S: "length (mi_opened m1) = length (mi_opened m)"
    "op_state (mi_opened m1 ! k) \<noteq> Ok True"
    "\<forall>j<length (mi_opened m). j \<noteq> k \<longrightarrow> mi_opened m1 ! j = mi_opened m ! j" by auto
  have IH: "length (mi_opened m') = length (mi_opened m1)"
    "\<forall>j<length (mi_opened m1). (j \<in> set ks \<or> op_state (mi_opened m1 ! j) \<noteq> Ok True) \<longrightarrow> op_state (mi_opened m' ! j) \<noteq> Ok True"
    using Cons.IH [OF R] Cons.prems(2) S(1) by auto
  with S show ?case by (metis set_ConsD)
qed simp

lemma iter_mut_flush_clean:
  assumes "iter_mut_flush C D m w = (Ok u, m', w')"
  shows "clean m'"
  using flush_all_state [OF assms [unfolded iter_mut_flush_def]]
  by (auto simp: clean_def in_set_conv_nth)

lemma clean_flush_opened:
  assumes "clean m" and "k < length (mi_opened m)"
  shows "flush_opened C D k m w = (Ok (), m, w)"
proof -
  let ?h = "mi_opened m ! k"
  have "op_state ?h \<noteq> Ok True" using assms nth_mem by (auto simp: clean_def)
  moreover have "set_modified k False m = m" if "op_state ?h = Ok False"
  proof -
    have "?h\<lparr>op_state := Ok False\<rparr> = ?h" using that by (cases ?h) simp
    then have "(mi_opened m)[k := ?h\<lparr>op_state := Ok False\<rparr>] = mi_opened m" by (metis list_update_id)
    then show ?thesis by (simp add: set_modified_def)
  qed
  ultimately show ?thesis
    by (auto simp: flush_opened_def Let_def mut_flush_def split: result.splits)
qed

lemma clean_drop_opened:
  "clean m \<Longrightarrow> \<forall>k\<in>set ks. k < length (mi_opened m) \<Longrightarrow> drop_opened C D ks m w = (Ok (), m, w)"
  by (induction ks) (simp_all add: clean_flush_opened)

lemma clean_deref_mut [simp]: "mi_opened (counted_deref_mut f ch m) = mi_opened m"
  by (simp add: counted_deref_mut_def Let_def split: option.splits)

text \<open>
  a write through a handle after the iterator was flushed never reaches the disk. \<open>flush\<close> clears
  the modified flag of every opened chunk, and a \<open>CountedHandle\<close> taken before it writes through a
  pointer into the chunk, which does not set the flag again: dropping the iterator and then the
  handle succeeds and leaves the disk as the flush left it, whatever was written in between.
\<close>

theorem write_after_flush_is_lost:
  assumes "iter_mut_flush C D m w = (Ok u, m1, w1)" and "ch_opened ch < length (mi_opened m1)"
    and "1 < op_refs (mi_opened m1 ! ch_opened ch)"
  shows "\<exists>m2 m3. iter_mut_drop C D (counted_deref_mut f ch m1) w1 = (Ok (), m2, w1) \<and>
    counted_drop C D ch m2 w1 = (Ok (), m3, w1) \<and>
    mi_entries m3 = mi_entries (counted_deref_mut f ch m1)"
proof -
  let ?m = "counted_deref_mut f ch m1"
  let ?m2 = "?m\<lparr>mi_opened := map (\<lambda>h. h\<lparr>op_refs := op_refs h - Suc 0\<rparr>) (mi_opened m1)\<rparr>"
  have c: "clean m1" using iter_mut_flush_clean [OF assms(1)] .
  then have c': "clean ?m" and c2: "clean ?m2" by (simp_all add: clean_def)
  have "iter_mut_drop C D ?m w1 = (Ok (), ?m2, w1)"
    by (simp add: iter_mut_drop_def clean_drop_opened [OF c'])
  moreover have "counted_drop C D ch ?m2 w1 = (Ok (), add_refs (ch_opened ch) (\<lambda>n. n - Suc 0) ?m2, w1)"
    using assms(2) by (simp add: counted_drop_def Let_def clean_flush_opened [OF c2])
  ultimately show ?thesis by (auto simp: add_refs_def)
qed

text \<open>One chunk in memory; the first element is taken, the iterator flushed, the element set to 9.\<close>

abbreviation held_iter :: "(byte, plainfile, bincode_coder, prefix_err) mut_iter" where
  "held_iter \<equiv> \<lparr>mi_pos = 1, mi_len = 2, mi_keys = [(0, 2)], mi_next = 1,
     mi_entries = [demo_entry\<lparr>entry_value := Some [10, 11]\<rparr>],
     mi_opened = [\<lparr>op_entry = 0, op_state = Ok False, op_refs = 2\<rparr>]\<rparr>"

theorem write_after_flush_is_lost_witness:
  "\<exists>m2 m3. iter_mut_drop prefix_ops plainfile_disk
      (counted_deref_mut (\<lambda>_. 9) \<lparr>ch_opened = 0, ch_inner = 0\<rparr> held_iter) demo_store = (Ok (), m2, demo_store) \<and>
    counted_drop prefix_ops plainfile_disk \<lparr>ch_opened = 0, ch_inner = 0\<rparr> m2 demo_store = (Ok (), m3, demo_store) \<and>
    map entry_value (mi_entries m3) = [Some [9, 11]]"
proof -
  have "iter_mut_flush prefix_ops plainfile_disk held_iter demo_store = (Ok (), held_iter, demo_store)"
    by (simp add: iter_mut_flush_def flush_opened_def mut_flush_def set_modified_def)
  from write_after_flush_is_lost [OF this, of "\<lparr>ch_opened = 0, ch_inner = 0\<rparr>" "\<lambda>_. 9"]
  show ?thesis by (auto simp: counted_deref_mut_def)
qed

end
