(* ===== verification/Array_Chunks.thy ===== *)
theory Array_Chunks
  imports Array_Iter_Mut
begin

text \<open>
  The mutable iterators over whole chunks (\<open>chunk_mut_iter\<close> in \<open>src/array/sync_impl/slice.rs\<close>,
  \<open>generic_chunk_mut_iter\<close> in \<open>generic.rs\<close>), and \<open>BackedArrayGenericIterMut\<close> of \<open>generic.rs\<close>, the
  iterator over elements for containers behind handles, whose constructor, flush and drop are those
  of the slice iterator.
\<close>

section \<open>Handles to chunks\<close>

text \<open>
  The iterator is lazy and its items borrow different entries; here it is run to its end and the items
  are held together. An item is the handle, or the error of opening it beside the entry as it is left.
\<close>

fun chunk_mut_iter_from ::
  "('c, 'a list, 'e) coder_ops \<Rightarrow> ('d, 'wr, 'w) disk_ops \<Rightarrow> ('a list, 'd, 'c) backed_entry list \<Rightarrow> 'w \<Rightarrow>
     ((('a list, 'd, 'c) entry_mut, 'e) result \<times> ('a list, 'd, 'c) backed_entry) list \<times> 'w" where
  "chunk_mut_iter_from C D [] w = ([], w)"
| "chunk_mut_iter_from C D (e # es) w =
     (case mut_handle C D e w of
        (r, e1, w1) \<Rightarrow> (case chunk_mut_iter_from C D es w1 of (rs, w2) \<Rightarrow> ((r, e1) # rs, w2)))"

definition chunk_mut_iter ::
  "('c, 'a list, 'e) coder_ops \<Rightarrow> ('d, 'wr, 'w) disk_ops \<Rightarrow> ('k, 'a, 'd, 'c) backed_array \<Rightarrow> 'w \<Rightarrow>
     ((('a list, 'd, 'c) entry_mut, 'e) result \<times> ('a list, 'd, 'c) backed_entry) list \<times> 'w" where
  "chunk_mut_iter C D a w = chunk_mut_iter_from C D (entries a) w"

text \<open>The generic iterator keeps the borrow of the entry beside its handle; dropping an item drops both.\<close>

definition generic_chunk_mut_iter ::
  "('c, 'a list, 'e) coder_ops \<Rightarrow> ('d, 'wr, 'w) disk_ops \<Rightarrow> ('k, 'a, 'd, 'c) backed_array \<Rightarrow> 'w \<Rightarrow>
     ((('a list, 'd, 'c) entry_mut, 'e) result \<times> ('a list, 'd, 'c) backed_entry) list \<times> 'w" where
  "generic_chunk_mut_iter C D a w = chunk_mut_iter_from C D (entries a) w"

text \<open>\<open>generic_chunk_iter\<close> loads each chunk as \<open>chunk_iter\<close> does.\<close>

definition generic_chunk_iter ::
  "('c, 'a list, 'e) coder_ops \<Rightarrow> ('d, 'wr, 'w) disk_ops \<Rightarrow> ('k, 'a, 'd, 'c) backed_array \<Rightarrow> 'w \<Rightarrow>
     ('a list, 'e) result list \<times> ('k, 'a, 'd, 'c) backed_array \<times> 'w" where
  "generic_chunk_iter C D a w =
     (case chunk_iter_from C D (entries a) w of (rs, es, w1) \<Rightarrow> (rs, a\<lparr>entries := es\<rparr>, w1))"

text \<open>
  The program that collects the handles of \<open>array.chunk_mut_iter()\<close>, then replaces each chunk by \<open>f\<close> of
  it and drops the handle, and returns at the first one that could not be opened.
\<close>

fun write_chunks ::
  "('c, 'a list, 'e) coder_ops \<Rightarrow> ('d, 'wr, 'w) disk_ops \<Rightarrow> ('a list \<Rightarrow> 'a list) \<Rightarrow>
   ((('a list, 'd, 'c) entry_mut, 'e) result \<times> ('a list, 'd, 'c) backed_entry) list \<Rightarrow> 'w \<Rightarrow>
     (unit, 'e) result \<times> ('a list, 'd, 'c) backed_entry list \<times> 'w" where
  "write_chunks C D f [] w = (Ok (), [], w)"
| "write_chunks C D f ((r, e) # items) w =
     (case r of
        Ok h \<Rightarrow>
          (case mut_deref_mut f h of
             (Ok u, h1) \<Rightarrow>
               (case mut_drop C D h1 w of
                  (Ok v, e1, w1) \<Rightarrow>
                    (case write_chunks C D f items w1 of (q, es, w2) \<Rightarrow> (map_ok (\<lambda>_. u) q, e1 # es, w2))
                | (q, e1, w1) \<Rightarrow> (map_ok (\<lambda>_. ()) q, e1 # map snd items, w1))
           | (q, h1) \<Rightarrow> (q, mh_entry h1 # map snd items, w))
      | Err x \<Rightarrow> (Err x, e # map snd items, w)
      | Panic \<Rightarrow> (Panic, e # map snd items, w))"

definition map_chunks ::
  "('c, 'a list, 'e) coder_ops \<Rightarrow> ('d, 'wr, 'w) disk_ops \<Rightarrow> ('a list \<Rightarrow> 'a list) \<Rightarrow> ('k, 'a, 'd, 'c) backed_array \<Rightarrow> 'w \<Rightarrow>
     (unit, 'e) result \<times> ('k, 'a, 'd, 'c) backed_array \<times> 'w" where
  "map_chunks C D f a w =
     (case chunk_mut_iter C D a w of
        (items, w1) \<Rightarrow> (case write_chunks C D f items w1 of (r, es, w2) \<Rightarrow> (r, a\<lparr>entries := es\<rparr>, w2)))"

section \<open>Every chunk written\<close>

context array_backing
begin

abbreviation "opened_with e xs \<equiv> (e :: ('a list, 'd, 'c) backed_entry)\<lparr>entry_value := Some xs\<rparr>"

lemma chunk_mut_iter_from_ok:
  "list_all2 (\<lambda>e xs. entry_abs C D e w = Some xs) es xss \<Longrightarrow>
   chunk_mut_iter_from C D es w =
     (map2 (\<lambda>e xs. (Ok \<lparr>mh_entry = opened_with e xs, mh_modified = False\<rparr>, opened_with e xs)) es xss, w)"
  by (induction es xss rule: list_all2_induct) (simp_all add: mut_handle_def load_abs)

lemma write_chunks_ok:
  assumes "length es = length xss" and "distinct (map (site \<circ> entry_disk) es)"
    and "\<forall>e\<in>set es. writable (entry_disk e) w"
    and "\<forall>i<length xss. accepts C (entry_coder (es ! i)) (f (xss ! i))"
  shows "\<exists>w'. write_chunks C D f
      (map2 (\<lambda>e xs. (Ok \<lparr>mh_entry = opened_with e xs, mh_modified = False\<rparr>, opened_with e xs)) es xss) w =
      (Ok (), map2 (\<lambda>e xs. opened_with e (f xs)) es xss, w') \<and>
    (\<forall>i<length xss. on_disk (entry_coder (es ! i)) (entry_disk (es ! i)) w' = Some (f (xss ! i))) \<and>
    (\<forall>c d. site d \<notin> site ` entry_disk ` set es \<longrightarrow> on_disk c d w' = on_disk c d w)"
  using assms
proof (induction es xss arbitrary: w rule: list_induct2)
  case (Cons e es xs xss)
  have acc: "accepts C (entry_coder e) (f xs)" "\<forall>i<length xss. accepts C (entry_coder (es ! i)) (f (xss ! i))"
    using Cons.prems(3) by force+
  obtain w1 where W: "write_value C D (entry_coder e) (entry_disk e) (f xs) w = (Ok (), w1)"
    using write_value_succeeds [OF _ acc(1)] Cons.prems(2) by (metis list.set_intros(1))
  have "\<forall>e\<in>set es. writable (entry_disk e) w1"
    using Cons.prems(2) write_value_writable [OF W] by simp
  from Cons.IH [OF _ this acc(2)] Cons.prems(1) obtain w' where R:
    "write_chunks C D f
      (map2 (\<lambda>e xs. (Ok \<lparr>mh_entry = opened_with e xs, mh_modified = False\<rparr>, opened_with e xs)) es xss) w1 =
      (Ok (), map2 (\<lambda>e xs. opened_with e (f xs)) es xss, w')"
    "\<forall>i<length xss. on_disk (entry_coder (es ! i)) (entry_disk (es ! i)) w' = Some (f (xss ! i))"
    "\<forall>c d. site d \<notin> site ` entry_disk ` set es \<longrightarrow> on_disk c d w' = on_disk c d w1" by auto
  have drop: "mut_drop C D \<lparr>mh_entry = opened_with e (f xs), mh_modified = True\<rparr> w = (Ok (), opened_with e (f xs), w1)"
    using W by (simp add: mut_drop_def mut_flush_def entry_update_def oc_get_def)
  have "site (entry_disk e) \<notin> site ` entry_disk ` set es" using Cons.prems(1) by auto
  then have "on_disk (entry_coder e) (entry_disk e) w' = Some (f xs)"
    using R(3) write_value_ok(1) [OF W] by simp
  with R drop write_value_frame [OF W] show ?case
    by (auto simp: mut_deref_mut_def oc_get_def less_Suc_eq_0_disj)
qed simp

text \<open>What the program leaves: the keys as they were, every entry loaded with its new chunk.\<close>

lemma map_chunks_result:
  assumes a: "represents a w xss" and d: "distinct (sites a)"
    and wr: "\<forall>e\<in>set (entries a). writable (entry_disk e) w"
    and acc: "\<forall>i<length xss. accepts C (entry_coder (entries a ! i)) (f (xss ! i))"
  shows "\<exists>w'. map_chunks C D f a w =
      (Ok (), a\<lparr>entries := map2 (\<lambda>e xs. opened_with e (f xs)) (entries a) xss\<rparr>, w') \<and>
    all_synced (a\<lparr>entries := map2 (\<lambda>e xs. opened_with e (f xs)) (entries a) xss\<rparr>) w'"
proof -
  have n: "length (entries a) = length xss" using a by (rule represents_length)
  let ?es = "map2 (\<lambda>e xs. opened_with e (f xs)) (entries a) xss"
  obtain w' where W: "write_chunks C D f
      (map2 (\<lambda>e xs. (Ok \<lparr>mh_entry = opened_with e xs, mh_modified = False\<rparr>, opened_with e xs)) (entries a) xss) w =
      (Ok (), ?es, w')"
    "\<forall>i<length xss. on_disk (entry_coder (entries a ! i)) (entry_disk (entries a ! i)) w' = Some (f (xss ! i))"
    using write_chunks_ok [OF n _ wr acc] d by (auto simp: array_sites_def)
  have "map_chunks C D f a w = (Ok (), a\<lparr>entries := ?es\<rparr>, w')"
    using a W(1) chunk_mut_iter_from_ok [of w "entries a" xss]
    by (simp add: map_chunks_def chunk_mut_iter_def array_represents_def)
  moreover have "all_synced (a\<lparr>entries := ?es\<rparr>) w'"
    using W(2) n by (simp add: array_synced_def list_all_length synced_on_disk)
  ultimately show ?thesis by blast
qed

lemma map_chunks_ok:
  assumes a: "represents a w xss" "distinct (sites a)"
    and "\<forall>e\<in>set (entries a). writable (entry_disk e) w"
    and "\<forall>i<length xss. accepts C (entry_coder (entries a ! i)) (f (xss ! i))"
    and len: "\<forall>xs\<in>set xss. length (f xs) = length xs"
  shows "\<exists>a' w'. map_chunks C D f a w = (Ok (), a', w') \<and> represents a' w' (map f xss) \<and> all_synced a' w'"
proof -
  have "map length (map f xss) = map length xss" using len by simp
  with a(1) represents_length [OF a(1)]
  have "represents (a\<lparr>entries := map2 (\<lambda>e xs. opened_with e (f xs)) (entries a) xss\<rparr>) w' (map f xss)" for w'
    by (simp add: array_represents_def list_all2_conv_all_nth del: map_map)
  with map_chunks_result [OF assms(1-4)] show ?thesis by blast
qed

end

section \<open>The generic iterator over elements\<close>

definition generic_iter_mut_new ::
  "('k, nat) resizing_ops \<Rightarrow> ('c, 'a list, 'e) coder_ops \<Rightarrow> ('d, 'wr, 'w) disk_ops \<Rightarrow>
   ('k, 'a, 'd, 'c) backed_array \<Rightarrow> 'w \<Rightarrow> (unit, unit) result \<times> ('a, 'd, 'c, 'e) mut_iter \<times> 'w" where
  "generic_iter_mut_new K C D a w =
     (let m = \<lparr>mi_pos = 0, mi_len = last_or 0 (c_ref K (key_ends a)),
          mi_keys = zip (c_ref K (key_starts a)) (c_ref K (key_ends a)),
          mi_next = 0, mi_entries = entries a, mi_opened = []\<rparr> in
      case entries a of
        [] \<Rightarrow> (Ok (), m, w)
      | _ \<Rightarrow> open_entry C D 0 (m\<lparr>mi_next := 1\<rparr>) w)"

definition generic_iter_mut_flush ::
  "('c, 'a list, 'e) coder_ops \<Rightarrow> ('d, 'wr, 'w) disk_ops \<Rightarrow> ('a, 'd, 'c, 'e) mut_iter \<Rightarrow> 'w \<Rightarrow>
     (unit, 'e) result \<times> ('a, 'd, 'c, 'e) mut_iter \<times> 'w" where
  "generic_iter_mut_flush C D m w = flush_all C D [0..<length (mi_opened m)] m w"

definition generic_iter_mut_drop ::
  "('c, 'a list, 'e) coder_ops \<Rightarrow> ('d, 'wr, 'w) disk_ops \<Rightarrow> ('a, 'd, 'c, 'e) mut_iter \<Rightarrow> 'w \<Rightarrow>
     (unit, unit) result \<times> ('a, 'd, 'c, 'e) mut_iter \<times> 'w" where
  "generic_iter_mut_drop C D m w =
     (case drop_opened C D [0..<length (mi_opened m)] m w of
        (Ok _, m1, w1) \<Rightarrow>
          (Ok (), m1\<lparr>mi_opened := map (\<lambda>h. h\<lparr>op_refs := op_refs h - 1\<rparr>) (mi_opened m1)\<rparr>, w1)
      | (r, m1, w1) \<Rightarrow> (r, m1, w1))"

text \<open>The program \<open>for x in array.generic_iter_mut() { *x = f(*x) }\<close>.\<close>

fun generic_mut_for ::
  "('c, 'a list, 'e) coder_ops \<Rightarrow> ('d, 'wr, 'w) disk_ops \<Rightarrow> ('a \<Rightarrow> 'a) \<Rightarrow> nat \<Rightarrow> ('a, 'd, 'c, 'e) mut_iter \<Rightarrow> 'w \<Rightarrow>
     (unit option, unit) result \<times> ('a, 'd, 'c, 'e) mut_iter \<times> 'w" where
  "generic_mut_for C D f 0 m w = (Ok None, m, w)"
| "generic_mut_for C D f (Suc fuel) m w =
     (case generic_iter_mut_nth C D 0 m w of
        (Ok (Some (Item ch)), m1, w1) \<Rightarrow>
          (case counted_drop C D ch (counted_deref_mut f ch m1) w1 of
             (Ok _, m2, w2) \<Rightarrow> generic_mut_for C D f fuel m2 w2
           | (_, m2, w2) \<Rightarrow> (Panic, m2, w2))
      | (Ok (Some (ItemErr _)), m1, w1) \<Rightarrow> generic_mut_for C D f fuel m1 w1
      | (Ok None, m1, w1) \<Rightarrow> (Ok (Some ()), m1, w1)
      | (_, m1, w1) \<Rightarrow> (Panic, m1, w1))"

definition generic_map_in_place ::
  "('k, nat) resizing_ops \<Rightarrow> ('c, 'a list, 'e) coder_ops \<Rightarrow> ('d, 'wr, 'w) disk_ops \<Rightarrow> ('a \<Rightarrow> 'a) \<Rightarrow>
   ('k, 'a, 'd, 'c) backed_array \<Rightarrow> 'w \<Rightarrow> (unit option, unit) result \<times> ('k, 'a, 'd, 'c) backed_array \<times> 'w" where
  "generic_map_in_place K C D f a w =
     (case generic_iter_mut_new K C D a w of
        (Ok _, m, w1) \<Rightarrow>
          (case generic_mut_for C D f (Suc (mi_len m)) m w1 of
             (Ok (Some _), m1, w2) \<Rightarrow>
               (case generic_iter_mut_drop C D m1 w2 of
                  (r, m2, w3) \<Rightarrow> (map_ok Some r, a\<lparr>entries := mi_entries m2\<rparr>, w3))
           | (r, m1, w2) \<Rightarrow> (r, a\<lparr>entries := mi_entries m1\<rparr>, w2))
      | (_, m, w1) \<Rightarrow> (Panic, a\<lparr>entries := mi_entries m\<rparr>, w1))"

text \<open>Where the slice iterator does not panic the generic one does the same.\<close>

lemma generic_nth_agrees:
  "iter_mut_nth C D n m w = (r, m1, w1) \<Longrightarrow> r \<noteq> Panic \<Longrightarrow> generic_iter_mut_nth C D n m w = (r, m1, w1)"
  by (auto simp: iter_mut_nth_def generic_iter_mut_nth_def iter_mut_nth_by_def Let_def
      split: prod.splits result.splits option.splits if_splits)

lemma generic_mut_for_agrees:
  "mut_for C D f fuel m w = (r, m1, w1) \<Longrightarrow> r \<noteq> Panic \<Longrightarrow> generic_mut_for C D f fuel m w = (r, m1, w1)"
proof (induction fuel arbitrary: m w)
  case (Suc fuel)
  obtain q m2 w2 where N: "iter_mut_nth C D 0 m w = (q, m2, w2)" by (metis prod_cases3)
  from Suc.prems N have "q \<noteq> Panic" by auto
  from generic_nth_agrees [OF N this] N Suc show ?case
    by (auto split: result.splits option.splits mut_item.splits prod.splits)
qed simp

lemma generic_new_same: "generic_iter_mut_new K C D a w = iter_mut_new K C D a w"
  by (simp add: generic_iter_mut_new_def iter_mut_new_def array_len_def Let_def split: list.splits)

lemma generic_drop_same: "generic_iter_mut_drop C D m w = iter_mut_drop C D m w"
  by (simp add: generic_iter_mut_drop_def iter_mut_drop_def)

lemma generic_map_agrees:
  assumes "map_in_place K C D f a w = (r, a1, w1)" and "r \<noteq> Panic"
  shows "generic_map_in_place K C D f a w = (r, a1, w1)"
proof -
  obtain q m w2 where N: "iter_mut_new K C D a w = (q, m, w2)" by (metis prod_cases3)
  obtain p m1 w3 where L: "mut_for C D f (Suc (mi_len m)) m w2 = (p, m1, w3)" by (metis prod_cases3)
  have "q \<noteq> Panic \<and> (\<forall>x. q \<noteq> Err x)" using assms N by (auto simp: map_in_place_def)
  then obtain u where q: "q = Ok u" by (cases q) auto
  have "p \<noteq> Panic" using assms N q L by (auto simp: map_in_place_def)
  note G = generic_mut_for_agrees [OF L this]
  from assms(1) show ?thesis
    unfolding map_in_place_def generic_map_in_place_def generic_new_same generic_drop_same N q
    by (simp add: L G del: mut_for.simps generic_mut_for.simps)
qed

section \<open>Properties\<close>

text \<open>
  C11: writing whole chunks. On an array over plain files at distinct, writable paths, collecting the
  handles of \<open>chunk_mut_iter\<close>, replacing each chunk by one of the same length and dropping the handles
  succeeds: the array represents the new chunks and every file holds its own.
\<close>

theorem chunk_handles_map_array:
  assumes "coder_roundtrip C" and "array_represents vec_ops C plainfile_disk a s xss"
    and "distinct (array_sites pf_path a)"
    and "\<forall>e\<in>set (entries a). file_writable (pf_path (entry_disk e)) s"
    and "\<forall>i<length xss. accepts C (entry_coder (entries a ! i)) (f (xss ! i))"
    and "\<forall>xs\<in>set xss. length (f xs) = length xs"
  shows "\<exists>a' s'. map_chunks C plainfile_disk f a s = (Ok (), a', s') \<and>
    array_represents vec_ops C plainfile_disk a' s' (map f xss) \<and> array_synced C plainfile_disk a' s'"
  by (rule array_backing.map_chunks_ok [OF growing_array.axioms(1) [OF plain_array [OF assms(1)]] assms(2-6)])

lemma demo_distinct: "distinct (array_sites pf_path demo_array)"
  by (simp add: array_sites_def)

lemma demo_writable_entries: "\<forall>e\<in>set (entries demo_array). file_writable (pf_path (entry_disk e)) demo_store"
  by (simp add: file_writable_def empty_fs_def parent_def)

lemma demo_accepts:
  assumes "\<And>xs. length (f xs) \<le> length xs"
  shows "\<forall>i<length [[10, 11], [12], [13, 14, 15 :: byte]].
    accepts prefix_ops (entry_coder (entries demo_array ! i)) (f ([[10, 11], [12], [13, 14, 15]] ! i))"
proof -
  have "length (f xs) < 256" if "length xs < 256" for xs using assms [of xs] that by linarith
  then show ?thesis by (auto simp: less_Suc_eq)
qed

theorem chunk_handles_map_array_witness:
  "\<exists>a' s'. map_chunks prefix_ops plainfile_disk rev demo_array demo_store = (Ok (), a', s') \<and>
    array_represents vec_ops prefix_ops plainfile_disk a' s' [[11, 10], [12], [15, 14, 13]]"
proof -
  have "\<forall>i<length [[10, 11], [12], [13, 14, 15 :: byte]].
      accepts prefix_ops (entry_coder (entries demo_array ! i)) (rev ([[10, 11], [12], [13, 14, 15]] ! i))"
    by (rule demo_accepts) simp
  from chunk_handles_map_array [OF prefix_roundtrip demo_represents(1) demo_distinct demo_writable_entries this]
  show ?thesis by auto
qed

text \<open>
  a chunk of another length can be written through its handle, the keys are not adjusted: the array
  then answers a valid index of the old length with a panic.
\<close>

theorem chunk_handle_stale_keys:
  "\<exists>a' s'. map_chunks prefix_ops plainfile_disk (\<lambda>xs. take 1 xs) demo_array demo_store = (Ok (), a', s') \<and>
    array_len vec_ops a' = 6 \<and> fst (array_get bsearch_last vec_ops prefix_ops plainfile_disk 1 a' s') = Panic"
proof -
  let ?f = "\<lambda>xs :: bytes. take 1 xs"
  have "\<forall>i<length [[10, 11], [12], [13, 14, 15 :: byte]].
      accepts prefix_ops (entry_coder (entries demo_array ! i)) (?f ([[10, 11], [12], [13, 14, 15]] ! i))"
    by (rule demo_accepts) simp
  from prefix_array.map_chunks_result [OF demo_represents(1) demo_distinct demo_writable_entries this] obtain s' where
    "map_chunks prefix_ops plainfile_disk ?f demo_array demo_store = (Ok (), demo_array\<lparr>entries :=
       map2 (\<lambda>e xs. e\<lparr>entry_value := Some (?f xs)\<rparr>) (entries demo_array) [[10, 11], [12], [13, 14, 15]]\<rparr>, s')" by blast
  moreover have "internal_idx bsearch_last [0, 2, 3] [2, 3, 6] 1 = Ok (Some \<lparr>entry_idx = 0, inside_entry_idx = 1\<rparr>)"
    using internal_idx_correct_last [of "[2, 1, 3]" 1] by (simp add: numeral_eq_Suc)
  ultimately show ?thesis
    by (auto simp: array_len_def array_get_def get_loc_def index_def entry_load_def oc_get_def)
qed

text \<open>
  C7: the generic mutable iterator does what the slice iterator does: on an array over plain files that
  represents its chunks, is in step with its files and whose chunks are at distinct, writable paths,
  \<open>for x in array.generic_iter_mut() { *x = f(*x) }\<close> ends without a panic and leaves the same array and
  store as \<open>iter_mut\<close>, with every element mapped in memory and on disk.
\<close>

theorem generic_iter_mut_agrees:
  assumes "coder_roundtrip C" and "array_represents vec_ops C plainfile_disk a s xss"
    and "array_synced C plainfile_disk a s" and "distinct (array_sites pf_path a)"
    and "\<forall>e\<in>set (entries a). file_writable (pf_path (entry_disk e)) s"
    and "\<forall>i<length xss. accepts C (entry_coder (entries a ! i)) (map f (xss ! i))"
  shows "generic_map_in_place vec_ops C plainfile_disk f a s = map_in_place vec_ops C plainfile_disk f a s \<and>
    (\<exists>a' s'. generic_map_in_place vec_ops C plainfile_disk f a s = (Ok (Some ()), a', s') \<and>
      array_represents vec_ops C plainfile_disk a' s' (map (map f) xss) \<and> array_synced C plainfile_disk a' s')"
proof -
  obtain a' s' where M: "map_in_place vec_ops C plainfile_disk f a s = (Ok (Some ()), a', s')"
    "array_represents vec_ops C plainfile_disk a' s' (map (map f) xss)" "array_synced C plainfile_disk a' s'"
    using array_backing.map_in_place_ok [OF growing_array.axioms(1) [OF plain_array [OF assms(1)]] assms(2-6)]
    by blast
  from generic_map_agrees [OF M(1)] M show ?thesis by simp
qed

theorem generic_iter_mut_agrees_witness:
  "\<exists>a' s'. generic_map_in_place vec_ops prefix_ops plainfile_disk (\<lambda>x. x + 1) demo_array demo_store =
      (Ok (Some ()), a', s') \<and>
    array_represents vec_ops prefix_ops plainfile_disk a' s' [[11, 12], [13], [14, 15, 16]]"
proof -
  have "\<forall>i<length [[10, 11], [12], [13, 14, 15 :: byte]].
      accepts prefix_ops (entry_coder (entries demo_array ! i)) (map (\<lambda>x. x + 1) ([[10, 11], [12], [13, 14, 15 :: byte]] ! i))"
    by (rule demo_accepts) simp
  from generic_iter_mut_agrees [OF prefix_roundtrip demo_represents demo_distinct demo_writable_entries this, THEN conjunct2]
  obtain a' s' where "generic_map_in_place vec_ops prefix_ops plainfile_disk (\<lambda>x. x + 1) demo_array demo_store =
      (Ok (Some ()), a', s')"
    and "array_represents vec_ops prefix_ops plainfile_disk a' s' (map (map (\<lambda>x. x + 1)) [[10, 11], [12], [13, 14, 15]])"
    by blast
  then show ?thesis by simp
qed

end
