(* ===== verification/Custom_Disks.thy ===== *)
theory Custom_Disks
  imports Disks
begin

text \<open>
  The custom disks of \<open>src/entry/disks/custom.rs\<close>: a disk made of a function that opens a reader
  and one that opens a writer. The four structs only forward to the functions; a disk built from
  the functions of another disk therefore runs every session and every read exactly as that disk
  does (the lemmas at the end), so it keeps whatever contract that disk keeps.
\<close>

section \<open>The structs\<close>

text \<open>
  A function of the program is a function on the store. A future is what awaiting it does, so the
  asynchronous structs hold functions of the same type.
\<close>

type_synonym 'w opener = "'w \<Rightarrow> (bytes, io_error) result \<times> 'w"
type_synonym ('wr, 'w) writer_opener = "'w \<Rightarrow> ('wr, io_error) result \<times> 'w"

datatype 'w custom_read = CustomRead "'w opener"
datatype ('wr, 'w) custom_write = CustomWrite "('wr, 'w) writer_opener"
datatype ('wr, 'w) custom_sync = CustomSync "'w custom_read" "('wr, 'w) custom_write"
datatype 'w custom_async_read = CustomAsyncRead "'w opener"
datatype ('wr, 'w) custom_async_write = CustomAsyncWrite "('wr, 'w) writer_opener"
datatype ('wr, 'w) custom_async = CustomAsync "'w custom_async_read" "('wr, 'w) custom_async_write"
datatype ('wr, 'aw, 'w) custom_full = CustomFull "('wr, 'w) custom_sync" "('aw, 'w) custom_async"

fun custom_read_disk :: "'w custom_read \<Rightarrow> 'w opener" where
  "custom_read_disk (CustomRead f) w = f w"

fun custom_write_disk :: "('wr, 'w) custom_write \<Rightarrow> ('wr, 'w) writer_opener" where
  "custom_write_disk (CustomWrite f) w = f w"

fun custom_sync_read_disk :: "('wr, 'w) custom_sync \<Rightarrow> 'w opener" where
  "custom_sync_read_disk (CustomSync r _) w = custom_read_disk r w"

fun custom_sync_write_disk :: "('wr, 'w) custom_sync \<Rightarrow> ('wr, 'w) writer_opener" where
  "custom_sync_write_disk (CustomSync _ wr) w = custom_write_disk wr w"

fun custom_async_read_read_disk :: "'w custom_async_read \<Rightarrow> 'w opener" where
  "custom_async_read_read_disk (CustomAsyncRead f) w = f w"

fun custom_async_write_write_disk :: "('wr, 'w) custom_async_write \<Rightarrow> ('wr, 'w) writer_opener" where
  "custom_async_write_write_disk (CustomAsyncWrite f) w = f w"

fun custom_async_read_disk :: "('wr, 'w) custom_async \<Rightarrow> 'w opener" where
  "custom_async_read_disk (CustomAsync r _) w = custom_async_read_read_disk r w"

fun custom_async_write_disk :: "('wr, 'w) custom_async \<Rightarrow> ('wr, 'w) writer_opener" where
  "custom_async_write_disk (CustomAsync _ wr) w = custom_async_write_write_disk wr w"

fun custom_full_read_disk :: "('wr, 'aw, 'w) custom_full \<Rightarrow> 'w opener" where
  "custom_full_read_disk (CustomFull s _) w = custom_sync_read_disk s w"

fun custom_full_write_disk :: "('wr, 'aw, 'w) custom_full \<Rightarrow> ('wr, 'w) writer_opener" where
  "custom_full_write_disk (CustomFull s _) w = custom_sync_write_disk s w"

fun custom_full_async_read_disk :: "('wr, 'aw, 'w) custom_full \<Rightarrow> 'w opener" where
  "custom_full_async_read_disk (CustomFull _ a) w = custom_async_read_disk a w"

fun custom_full_async_write_disk :: "('wr, 'aw, 'w) custom_full \<Rightarrow> ('aw, 'w) writer_opener" where
  "custom_full_async_write_disk (CustomFull _ a) w = custom_async_write_disk a w"

text \<open>The writers come from the functions, so their operations are those of another disk.\<close>

definition custom_full_disk ::
  "('d, 'wr, 'w) disk_ops \<Rightarrow> (('wr, 'aw, 'w) custom_full, 'wr, 'w) disk_ops" where
  "custom_full_disk D = \<lparr>d_read = custom_full_read_disk, d_write = custom_full_write_disk,
     wr_write = wr_write D, wr_flush = wr_flush D, wr_drop = wr_drop D\<rparr>"

definition custom_of ::
  "('d, 'wr, 'w) disk_ops \<Rightarrow> 'd \<Rightarrow> ('aw, 'w) custom_async \<Rightarrow> ('wr, 'aw, 'w) custom_full" where
  "custom_of D d a = CustomFull (CustomSync (CustomRead (d_read D d)) (CustomWrite (d_write D d))) a"

section \<open>A custom disk behaves as the disk its functions come from\<close>

lemma custom_ops [simp]:
  "wr_write (custom_full_disk D) = wr_write D" "wr_flush (custom_full_disk D) = wr_flush D"
  "wr_drop (custom_full_disk D) = wr_drop D" "d_read (custom_full_disk D) = custom_full_read_disk"
  "d_write (custom_full_disk D) = custom_full_write_disk"
  by (simp_all add: custom_full_disk_def)

lemma custom_pieces: "write_pieces (custom_full_disk D) wr ps w = write_pieces D wr ps w"
  by (induction ps arbitrary: wr w) (auto split: prod.splits result.splits)

lemma custom_serialize_flush: "serialize_flush (custom_full_disk D) = serialize_flush D"
  unfolding serialize_flush_def custom_pieces custom_ops fun_eq_iff by simp

lemma custom_put: "put (custom_full_disk D) (custom_of D d a) ps ok w = put D d ps ok w"
  unfolding put_def custom_serialize_flush by (simp add: custom_of_def)

lemma custom_read: "d_read (custom_full_disk D) (custom_of D d a) w = d_read D d w"
  by (simp add: custom_of_def)

end
