(* ===== verification/Directory_Array.thy ===== *)
theory Directory_Array
  imports Backed_Array
begin

text \<open>
  \<open>DirectoryBackedArray\<close> (\<open>src/directory/mod.rs\<close>, \<open>sync_impl.rs\<close>, the error types of \<open>err.rs\<close>): an
  array that creates the disks of its chunks in a directory, moves and deletes the files, and
  stores itself in \<open>meta.dat\<close>. The operations use the file system directly, so the world is the
  store \<open>fs\<close>. The names \<open>Uuid::new_v4\<close> makes up are arguments.
\<close>

section \<open>The array and its errors\<close>

record ('k, 'a, 'd, 'c) dir_array =
  da_array :: "('k, 'a, 'd, 'c) backed_array"
  da_root :: path

definition meta_file :: string where
  "meta_file = ''meta.dat''"

datatype 'e disk_create_err = CreateIo io_error | CreateDisk 'e

datatype ('a, 'e) disk_write_err = WriteErr 'a | WriteIoErr io_error | WriteDisk 'e

datatype ('a, 'e) disk_read_err = ReadErr 'a | ReadIoErr io_error | ReadDisk 'e

text \<open>What is asked of the disks: \<open>TryFrom<PathBuf>\<close> and \<open>AsRef<Path>\<close>.\<close>

record ('d, 'e) path_disk =
  pd_from :: "path \<Rightarrow> ('d, 'e) result"
  pd_path :: "'d \<Rightarrow> path"

definition plain_paths :: "(plainfile, 'e) path_disk" where
  "plain_paths = \<lparr>pd_from = (\<lambda>p. Ok (plainfile_new p)), pd_path = pf_path\<rparr>"

section \<open>Adding and removing chunks\<close>

definition dir_remove ::
  "('k, nat) resizing_ops \<Rightarrow> ('d, 'x) path_disk \<Rightarrow> nat \<Rightarrow> ('k, 'a, 'd, 'c) dir_array \<Rightarrow> fs \<Rightarrow>
     (unit, io_error) result \<times> ('k, 'a, 'd, 'c) dir_array \<times> fs" where
  "dir_remove K P i a s =
     (let removed = (case nth_opt (entries (da_array a)) i of
            Some e \<Rightarrow> fs_remove_file (pd_path P (entry_disk e)) s
          | None \<Rightarrow> (Ok (), s)) in
      case removed of
        (Ok _, s1) \<Rightarrow>
          (case array_remove K i (da_array a) of (r, b) \<Rightarrow> (expect r, a\<lparr>da_array := b\<rparr>, s1))
      | (r, s1) \<Rightarrow> (r, a, s1))"

text \<open>
  \<open>delete\<close>: the chunks one by one, then the directory, if nothing else is in it. The fuel bounds the
  number of rounds.
\<close>

fun dir_delete_chunks ::
  "('k, nat) resizing_ops \<Rightarrow> ('d, 'x) path_disk \<Rightarrow> nat \<Rightarrow> ('k, 'a, 'd, 'c) dir_array \<Rightarrow> fs \<Rightarrow>
     (unit option, io_error) result \<times> ('k, 'a, 'd, 'c) dir_array \<times> fs" where
  "dir_delete_chunks K P 0 a s = (Ok None, a, s)"
| "dir_delete_chunks K P (Suc fuel) a s =
     (if array_is_empty (da_array a) then (Ok (Some ()), a, s)
      else case dir_remove K P 0 a s of
        (Ok _, a1, s1) \<Rightarrow> dir_delete_chunks K P fuel a1 s1
      | (Err e, a1, s1) \<Rightarrow> (Err e, a1, s1)
      | (Panic, a1, s1) \<Rightarrow> (Panic, a1, s1))"

definition dir_delete ::
  "('k, nat) resizing_ops \<Rightarrow> ('d, 'x) path_disk \<Rightarrow> nat \<Rightarrow> ('k, 'a, 'd, 'c) dir_array \<Rightarrow> fs \<Rightarrow>
     (unit option, io_error) result \<times> fs" where
  "dir_delete K P fuel a s =
     (case dir_delete_chunks K P fuel a s of
        (Ok (Some _), a1, s1) \<Rightarrow> (Ok (Some ()), snd (fs_remove_dir (da_root a1) s1))
      | (r, a1, s1) \<Rightarrow> (r, s1))"

definition next_target :: "('d, 'x) path_disk \<Rightarrow> string \<Rightarrow> ('k, 'a, 'd, 'c) dir_array \<Rightarrow> ('d, 'x) result" where
  "next_target P uuid a = pd_from P (join (da_root a) uuid)"

definition dir_append ::
  "('k, nat) resizing_ops \<Rightarrow> ('c, 'a list, 'e) coder_ops \<Rightarrow> ('d, 'wr, fs) disk_ops \<Rightarrow> ('d, 'x) path_disk \<Rightarrow> 'c \<Rightarrow>
   string \<Rightarrow> 'a list \<Rightarrow> ('k, 'a, 'd, 'c) dir_array \<Rightarrow> fs \<Rightarrow>
     (unit, ('e, 'x) disk_write_err) result \<times> ('k, 'a, 'd, 'c) dir_array \<times> fs" where
  "dir_append K C D P c uuid vals a s =
     (case next_target P uuid a of
        Ok d \<Rightarrow>
          (case array_append K C D vals d c (da_array a) s of
             (r, b, s1) \<Rightarrow> (map_err WriteErr r, a\<lparr>da_array := b\<rparr>, s1))
      | Err x \<Rightarrow> (Err (WriteDisk x), a, s)
      | Panic \<Rightarrow> (Panic, a, s))"

definition dir_append_memory ::
  "('k, nat) resizing_ops \<Rightarrow> ('c, 'a list, 'e) coder_ops \<Rightarrow> ('d, 'wr, fs) disk_ops \<Rightarrow> ('d, 'x) path_disk \<Rightarrow> 'c \<Rightarrow>
   string \<Rightarrow> 'a list \<Rightarrow> ('k, 'a, 'd, 'c) dir_array \<Rightarrow> fs \<Rightarrow>
     (unit, ('e, 'x) disk_write_err) result \<times> ('k, 'a, 'd, 'c) dir_array \<times> fs" where
  "dir_append_memory K C D P c uuid vals a s =
     (case next_target P uuid a of
        Ok d \<Rightarrow>
          (case array_append_memory K C D vals d c (da_array a) s of
             (r, b, s1) \<Rightarrow> (map_err WriteErr r, a\<lparr>da_array := b\<rparr>, s1))
      | Err x \<Rightarrow> (Err (WriteDisk x), a, s)
      | Panic \<Rightarrow> (Panic, a, s))"

section \<open>Moving chunks\<close>

text \<open>Moving one file into a directory: a rename, or else a copy and a removal.\<close>

definition move_chunk :: "path \<Rightarrow> path \<Rightarrow> fs \<Rightarrow> (unit, io_error) result \<times> fs" where
  "move_chunk root p s =
     (case file_name p of
        None \<Rightarrow> (Panic, s)
      | Some n \<Rightarrow>
          (let new_loc = join root n in
           if p \<noteq> new_loc then
             (case fs_rename p new_loc s of
                (Ok _, s1) \<Rightarrow> (Ok (), s1)
              | (_, s1) \<Rightarrow>
                  (case fs_copy p new_loc s1 of
                     (Ok _, s2) \<Rightarrow> fs_remove_file p s2
                   | (r, s2) \<Rightarrow> (r, s2)))
           else (Ok (), s)))"

text \<open>\<open>collect::<Result<Vec<_>, _>>\<close> over the chunks: in order, up to the first error.\<close>

fun for_paths ::
  "(path \<Rightarrow> fs \<Rightarrow> (unit, io_error) result \<times> fs) \<Rightarrow> path list \<Rightarrow> fs \<Rightarrow> (unit, io_error) result \<times> fs" where
  "for_paths f [] s = (Ok (), s)"
| "for_paths f (p # ps) s =
     (case f p s of
        (Ok _, s1) \<Rightarrow> for_paths f ps s1
      | (r, s1) \<Rightarrow> (r, s1))"

abbreviation chunk_paths :: "('d, 'x) path_disk \<Rightarrow> ('k, 'a, 'd, 'c) backed_array \<Rightarrow> path list" where
  "chunk_paths P b \<equiv> map (\<lambda>e. pd_path P (entry_disk e)) (entries b)"

definition dir_merge ::
  "('k, nat) resizing_ops \<Rightarrow> ('k, 'a, 'd, 'c) backed_array \<Rightarrow> ('k, 'a, 'd, 'c) dir_array \<Rightarrow>
     (unit, io_error) result \<times> ('k, 'a, 'd, 'c) dir_array" where
  "dir_merge K rhs a = (case array_merge K (da_array a) rhs of (r, b) \<Rightarrow> (expect r, a\<lparr>da_array := b\<rparr>))"

definition dir_append_dir ::
  "('k, nat) resizing_ops \<Rightarrow> ('d, 'x) path_disk \<Rightarrow> ('k, 'a, 'd, 'c) dir_array \<Rightarrow> ('k, 'a, 'd, 'c) dir_array \<Rightarrow> fs \<Rightarrow>
     (unit, io_error) result \<times> ('k, 'a, 'd, 'c) dir_array \<times> fs" where
  "dir_append_dir K P rhs a s =
     (let moved = (if da_root a \<noteq> da_root rhs then
            (case for_paths (move_chunk (da_root a)) (chunk_paths P (da_array rhs)) s of
               (Ok _, s1) \<Rightarrow>
                 (let s2 = snd (fs_remove_file (join (da_root rhs) meta_file) s1) in
                  (Ok (), snd (fs_remove_dir (da_root rhs) s2)))
             | (r, s1) \<Rightarrow> (r, s1))
          else (Ok (), s)) in
      case moved of
        (Ok _, s1) \<Rightarrow> (case dir_merge K (da_array rhs) a of (r, a1) \<Rightarrow> (r, a1, s1))
      | (r, s1) \<Rightarrow> (r, a, s1))"

definition dir_append_array ::
  "('k, nat) resizing_ops \<Rightarrow> ('d, 'x) path_disk \<Rightarrow> ('k, 'a, 'd, 'c) backed_array \<Rightarrow> ('k, 'a, 'd, 'c) dir_array \<Rightarrow> fs \<Rightarrow>
     (unit, io_error) result \<times> ('k, 'a, 'd, 'c) dir_array \<times> fs" where
  "dir_append_array K P rhs a s =
     (case for_paths (move_chunk (da_root a)) (chunk_paths P rhs) s of
        (Ok _, s1) \<Rightarrow> (case dir_merge K rhs a of (r, a1) \<Rightarrow> (r, a1, s1))
      | (r, s1) \<Rightarrow> (r, a, s1))"

section \<open>Changing the root\<close>

text \<open>The disks are replaced in place, so an error leaves the ones before it changed.\<close>

fun update_disks ::
  "('d, 'x) path_disk \<Rightarrow> path \<Rightarrow> ('v, 'd, 'c) backed_entry list \<Rightarrow> (unit, 'x) result \<times> ('v, 'd, 'c) backed_entry list" where
  "update_disks P root [] = (Ok (), [])"
| "update_disks P root (e # es) =
     (case file_name (pd_path P (entry_disk e)) of
        None \<Rightarrow> (Panic, e # es)
      | Some n \<Rightarrow>
          (case pd_from P (join root n) of
             Ok d \<Rightarrow> (case update_disks P root es of (r, es1) \<Rightarrow> (r, e\<lparr>entry_disk := d\<rparr> # es1))
           | Err x \<Rightarrow> (Err x, e # es)
           | Panic \<Rightarrow> (Panic, e # es)))"

definition update_root ::
  "('d, 'x) path_disk \<Rightarrow> path \<Rightarrow> ('k, 'a, 'd, 'c) dir_array \<Rightarrow>
     (unit, 'x disk_create_err) result \<times> ('k, 'a, 'd, 'c) dir_array" where
  "update_root P root a =
     (case update_disks P root (entries (da_array a)) of
        (Ok _, es) \<Rightarrow> (Ok (), a\<lparr>da_array := (da_array a)\<lparr>entries := es\<rparr>, da_root := root\<rparr>)
      | (r, es) \<Rightarrow> (map_err CreateDisk r, a\<lparr>da_array := (da_array a)\<lparr>entries := es\<rparr>\<rparr>))"

definition copy_chunk :: "path \<Rightarrow> path \<Rightarrow> fs \<Rightarrow> (unit, io_error) result \<times> fs" where
  "copy_chunk root p s =
     (case file_name p of
        None \<Rightarrow> (Err NotFound, s)
      | Some n \<Rightarrow>
          (case fs_copy p (join root n) s of
             (Ok _, s1) \<Rightarrow> fs_remove_file p s1
           | (r, s1) \<Rightarrow> (r, s1)))"

definition move_root ::
  "('d, 'x) path_disk \<Rightarrow> path \<Rightarrow> ('k, 'a, 'd, 'c) dir_array \<Rightarrow> fs \<Rightarrow>
     (unit, 'x disk_create_err) result \<times> ('k, 'a, 'd, 'c) dir_array \<times> fs" where
  "move_root P root a s =
     (let moved = (case fs_rename (da_root a) root s of
            (Ok _, s1) \<Rightarrow> (Ok (), s1)
          | (_, s1) \<Rightarrow>
              (case fs_create_dir_all root s1 of
                 (Ok _, s2) \<Rightarrow> for_paths (copy_chunk root) (chunk_paths P (da_array a)) s2
               | (r, s2) \<Rightarrow> (r, s2))) in
      case moved of
        (Ok _, s1) \<Rightarrow> (case update_root P root a of (r, a1) \<Rightarrow> (r, a1, s1))
      | (r, s1) \<Rightarrow> (map_ok id (map_err CreateIo r), a, s1))"

section \<open>Creating, saving and loading\<close>

definition dir_new :: "('k, nat) resizing_ops \<Rightarrow> path \<Rightarrow> fs \<Rightarrow> (('k, 'a, 'd, 'c) dir_array, io_error) result \<times> fs" where
  "dir_new K root s =
     (case fs_create_dir_all root s of
        (r, s1) \<Rightarrow> (map_ok (\<lambda>_. \<lparr>da_array = array_default K, da_root = root\<rparr>) r, s1))"

definition from_existing_array :: "('k, 'a, 'd, 'c) backed_array \<Rightarrow> path \<Rightarrow> ('k, 'a, 'd, 'c) dir_array" where
  "from_existing_array b root = \<lparr>da_array = b, da_root = root\<rparr>"

text \<open>
  What serde stores of the array: the value of an entry is skipped (\<open>#[serde(skip)]\<close>), and
  comes back as the default, an empty cell.
\<close>

definition serialized :: "('k, 'a, 'd, 'c) dir_array \<Rightarrow> ('k, 'a, 'd, 'c) dir_array" where
  "serialized a = a\<lparr>da_array := (da_array a)\<lparr>entries := map (\<lambda>e. e\<lparr>entry_value := oc_new\<rparr>) (entries (da_array a))\<rparr>\<rparr>"

definition dir_save ::
  "('m, ('k, 'a, 'd, 'c) dir_array, 'e) coder_ops \<Rightarrow> ('d, 'wr, fs) disk_ops \<Rightarrow> ('d, 'x) path_disk \<Rightarrow> 'm \<Rightarrow>
   ('k, 'a, 'd, 'c) dir_array \<Rightarrow> fs \<Rightarrow> (unit, ('e, 'x) disk_write_err) result \<times> fs" where
  "dir_save M D P coder a s =
     (case pd_from P (join (da_root a) meta_file) of
        Err x \<Rightarrow> (Err (WriteDisk x), s)
      | Panic \<Rightarrow> (Panic, s)
      | Ok d \<Rightarrow>
          (case d_write D d s of
             (Ok wr, s1) \<Rightarrow> (case encode M D coder (serialized a) wr s1 of (r, s2) \<Rightarrow> (map_err WriteErr r, s2))
           | (Err e, s1) \<Rightarrow> (Err (WriteIoErr e), s1)
           | (Panic, s1) \<Rightarrow> (Panic, s1)))"

definition dir_load ::
  "('m, ('k, 'a, 'd, 'c) dir_array, 'e) coder_ops \<Rightarrow> ('d, 'wr, fs) disk_ops \<Rightarrow> ('d, 'x) path_disk \<Rightarrow> 'm \<Rightarrow>
   path \<Rightarrow> fs \<Rightarrow> (('k, 'a, 'd, 'c) dir_array, ('x, 'e) disk_read_err) result \<times> fs" where
  "dir_load M D P coder root s =
     (case pd_from P (join root meta_file) of
        Err x \<Rightarrow> (Err (ReadErr x), s)
      | Panic \<Rightarrow> (Panic, s)
      | Ok d \<Rightarrow>
          (case d_read D d s of
             (Ok b, s1) \<Rightarrow> (map_err ReadDisk (decode M coder b), s1)
           | (Err e, s1) \<Rightarrow> (Err (ReadIoErr e), s1)
           | (Panic, s1) \<Rightarrow> (Panic, s1)))"

section \<open>Relocating files\<close>

text \<open>
  What one step of a move does to the store when it succeeds: nothing for a file that is in place,
  and otherwise the contents are at the new path and the old path is gone.
\<close>

definition relocated :: "path \<Rightarrow> path \<Rightarrow> fs \<Rightarrow> fs \<Rightarrow> bool" where
  "relocated root p s s' \<longleftrightarrow> (\<exists>n. file_name p = Some n \<and>
     (if p = join root n then s' = s
      else \<exists>c. files s p = Some c \<and> \<not> faulty s (join root n) \<and> s' = set_file (join root n) (Some c) (set_file p None s)))"

definition name_of :: "path \<Rightarrow> string" where
  "name_of p = the (file_name p)"

lemma relocated_env: "relocated root p s s' \<Longrightarrow> dirs s' = dirs s \<and> faulty s' = faulty s \<and> full s' = full s \<and> device s' = device s"
  by (auto simp: relocated_def split: if_splits)

lemma relocated_files:
  assumes "relocated root p s s'"
  shows "files s' q = (if p = join root (name_of p) then files s q
    else if q = join root (name_of p) then files s p else if q = p then None else files s q)"
proof -
  from assms obtain n where n: "file_name p = Some n" by (auto simp: relocated_def)
  then have name: "name_of p = n" by (simp add: name_of_def)
  show ?thesis unfolding name
  proof (cases "p = join root n")
    case True
    with assms n have "s' = s" by (auto simp: relocated_def)
    with True show "files s' q = (if p = join root n then files s q
        else if q = join root n then files s p else if q = p then None else files s q)" by simp
  next
    case False
    with assms n obtain c where "files s p = Some c" "s' = set_file (join root n) (Some c) (set_file p None s)"
      by (auto simp: relocated_def)
    with False show "files s' q = (if p = join root n then files s q
        else if q = join root n then files s p else if q = p then None else files s q)" by simp
  qed
qed

lemma remove_file_Ok:
  "fs_remove_file p s = (Ok u, s') \<longleftrightarrow> \<not> faulty s p \<and> (\<exists>c. files s p = Some c) \<and> s' = set_file p None s"
  by (auto simp: fs_remove_file_def split: option.splits)

lemma copy_Ok:
  assumes "fs_copy p q s = (Ok u, s')" and "p \<noteq> q"
  shows "\<exists>c. files s p = Some c \<and> \<not> faulty s p \<and> \<not> faulty s q \<and> s' = set_file q (Some c) s"
  using assms
  by (auto simp: fs_copy_def fs_read_def fs_open_truncate_def split: if_splits option.splits result.splits prod.splits)

lemma copy_remove_relocates:
  assumes "fs_copy p (join root n) s = (Ok u, s1)" and "fs_remove_file p s1 = (Ok v, s2)"
    and "file_name p = Some n" and "p \<noteq> join root n"
  shows "relocated root p s s2"
proof -
  from copy_Ok [OF assms(1,4)] obtain c where c: "files s p = Some c" "\<not> faulty s (join root n)"
    "s1 = set_file (join root n) (Some c) s" by blast
  with assms(2) have "s2 = set_file p None (set_file (join root n) (Some c) s)" by (simp add: remove_file_Ok)
  also have "\<dots> = set_file (join root n) (Some c) (set_file p None s)"
    using assms(4) by (simp add: set_file_def fun_upd_twist)
  finally show ?thesis using c assms(3,4) by (auto simp: relocated_def)
qed

text \<open>The interface of a step: on the paths it is allowed on, a success relocates.\<close>

locale relocation =
  fixes f :: "path \<Rightarrow> path \<Rightarrow> fs \<Rightarrow> (unit, io_error) result \<times> fs"
    and allowed :: "path \<Rightarrow> path \<Rightarrow> (path \<Rightarrow> bool) \<Rightarrow> bool"
  assumes relocates: "f root p s = (Ok u, s') \<Longrightarrow> allowed root p (dirs s) \<Longrightarrow> relocated root p s s'"
begin

lemma for_paths_Cons:
  assumes "for_paths (f root) (p # ps) s = (Ok u, s')" and "\<forall>q\<in>set (p # ps). allowed root q (dirs s)"
  obtains s1 where "relocated root p s s1" "for_paths (f root) ps s1 = (Ok u, s')"
    "\<forall>q\<in>set ps. allowed root q (dirs s1)"
proof -
  from assms(1) obtain v s1 where F: "f root p s = (Ok v, s1)" and R: "for_paths (f root) ps s1 = (Ok u, s')"
    by (auto split: prod.splits result.splits)
  have rel: "relocated root p s s1" using relocates [OF F] assms(2) by simp
  then show thesis using relocated_env [OF rel] R assms(2) that by simp
qed

lemma for_paths_env:
  "for_paths (f root) ps s = (Ok u, s') \<Longrightarrow> \<forall>q\<in>set ps. allowed root q (dirs s) \<Longrightarrow>
   dirs s' = dirs s \<and> faulty s' = faulty s"
proof (induction ps arbitrary: s)
  case (Cons p ps)
  from Cons.prems obtain s1 where "relocated root p s s1" "for_paths (f root) ps s1 = (Ok u, s')"
    "\<forall>q\<in>set ps. allowed root q (dirs s1)" by (rule for_paths_Cons)
  with Cons.IH [of s1] relocated_env show ?case by metis
qed simp

text \<open>A moved file that was outside the root is no longer where it was.\<close>

lemma for_paths_gone:
  "for_paths (f root) ps s = (Ok u, s') \<Longrightarrow> \<forall>q\<in>set ps. allowed root q (dirs s) \<Longrightarrow>
   \<forall>n. q \<noteq> join root n \<Longrightarrow> q \<in> set ps \<or> files s q = None \<Longrightarrow> files s' q = None"
proof (induction ps arbitrary: s)
  case (Cons p ps)
  from Cons.prems(1,2) obtain s1 where R: "relocated root p s s1" "for_paths (f root) ps s1 = (Ok u, s')"
    "\<forall>q\<in>set ps. allowed root q (dirs s1)" by (rule for_paths_Cons)
  have "q \<in> set ps \<or> files s1 q = None"
    using Cons.prems(3,4) relocated_files [OF R(1), of q] by auto
  with Cons.IH [OF R(2,3) Cons.prems(3)] show ?case by blast
qed auto

text \<open>With distinct file names every file arrives, and the files outside the two sets of paths stay.\<close>

lemma for_paths_arrives:
  "for_paths (f root) ps s = (Ok u, s') \<Longrightarrow> \<forall>q\<in>set ps. allowed root q (dirs s) \<Longrightarrow>
   distinct (map name_of ps) \<Longrightarrow>
   (\<forall>p\<in>set ps. files s' (join root (name_of p)) = files s p) \<and>
   (\<forall>q. q \<notin> set ps \<longrightarrow> q \<notin> join root ` name_of ` set ps \<longrightarrow> files s' q = files s q)"
proof (induction ps arbitrary: s)
  case (Cons p ps)
  from Cons.prems(1,2) obtain s1 where R: "relocated root p s s1" "for_paths (f root) ps s1 = (Ok u, s')"
    "\<forall>q\<in>set ps. allowed root q (dirs s1)" by (rule for_paths_Cons)
  from Cons.IH [OF R(2,3)] Cons.prems(3)
  have IH: "\<forall>p\<in>set ps. files s' (join root (name_of p)) = files s1 p"
    "\<forall>q. q \<notin> set ps \<longrightarrow> q \<notin> join root ` name_of ` set ps \<longrightarrow> files s' q = files s1 q" by auto
  have name: "name_of q \<noteq> name_of p" if "q \<in> set ps" for q
    using Cons.prems(3) that by (metis distinct.simps(2) image_eqI list.set_map list.simps(9))
  have name_join: "name_of (join root (name_of p)) = name_of p"
    using R(1) by (auto simp: relocated_def name_of_def join_def file_name_def split: if_splits)
  have "files s1 q = files s q" if "q \<in> set ps" for q
    using relocated_files [OF R(1), of q] name [OF that] name_join that by (auto split: if_splits)
  moreover have "files s' (join root (name_of p)) = files s p"
  proof -
    have "join root (name_of p) \<notin> set ps" using name name_join by metis
    moreover have "join root (name_of p) \<notin> join root ` name_of ` set ps"
      using name by (metis imageE join_inject)
    ultimately show ?thesis using IH(2) relocated_files [OF R(1)] by metis
  qed
  moreover have "files s' q = files s q" if "q \<notin> set (p # ps)" "q \<notin> join root ` name_of ` set (p # ps)" for q
  proof -
    have "files s' q = files s1 q" using IH(2) that by auto
    also have "\<dots> = files s q" using relocated_files [OF R(1), of q] that by auto
    finally show ?thesis .
  qed
  ultimately show ?case using IH(1) by auto
qed auto

text \<open>A file that is really moved can be opened at its new path.\<close>

lemma for_paths_not_faulty:
  "for_paths (f root) ps s = (Ok u, s') \<Longrightarrow> \<forall>q\<in>set ps. allowed root q (dirs s) \<Longrightarrow>
   p \<in> set ps \<Longrightarrow> \<not> faulty s p \<Longrightarrow> \<not> faulty s (join root (name_of p)) \<and> file_name p \<noteq> None"
proof (induction ps arbitrary: s)
  case (Cons p' ps)
  from Cons.prems(1,2) obtain s1 where R: "relocated root p' s s1" "for_paths (f root) ps s1 = (Ok u, s')"
    "\<forall>q\<in>set ps. allowed root q (dirs s1)" by (rule for_paths_Cons)
  have "faulty s1 = faulty s" using relocated_env [OF R(1)] by simp
  with Cons.IH [OF R(2,3)] Cons.prems(3,4) R(1) show ?case
    by (auto simp: relocated_def name_of_def split: if_splits)
qed simp

end

interpretation mover: relocation move_chunk "\<lambda>root p d. \<not> d p"
proof
  fix root p s u s'
  assume M: "move_chunk root p s = (Ok u, s')" and nd: "\<not> dirs s p"
  from M obtain n where n: "file_name p = Some n" by (auto simp: move_chunk_def split: option.splits)
  show "relocated root p s s'"
  proof (cases "p = join root n")
    case True
    with M n show ?thesis by (simp add: move_chunk_def relocated_def)
  next
    case False
    have err: "s1 = s" if "fs_rename_file p (join root n) s = (r, s1)" "\<forall>v. r \<noteq> Ok v" for r s1
      using that by (auto simp: fs_rename_file_def split: if_splits option.splits)
    obtain r s1 where R: "fs_rename_file p (join root n) s = (r, s1)" by fastforce
    show ?thesis
    proof (cases r)
      case (Ok v)
      with R M n nd False have "s' = s1" by (simp add: move_chunk_def fs_rename_def)
      with R Ok n False show ?thesis
        by (auto simp: relocated_def fs_rename_file_def split: if_splits option.splits)
    qed (use R M n nd False err copy_remove_relocates in
        \<open>auto simp: move_chunk_def fs_rename_def split: result.splits prod.splits\<close>)
  qed
qed

interpretation copier: relocation copy_chunk "\<lambda>root p d. p \<noteq> join root (name_of p)"
proof
  fix root p s u s'
  assume C: "copy_chunk root p s = (Ok u, s')" and ne: "p \<noteq> join root (name_of p)"
  from C obtain n where n: "file_name p = Some n" by (auto simp: copy_chunk_def split: option.splits)
  with ne have "p \<noteq> join root n" by (simp add: name_of_def)
  with C n show "relocated root p s s'"
    by (auto simp: copy_chunk_def split: result.splits prod.splits intro: copy_remove_relocates)
qed

section \<open>Arrays whose files move\<close>

context backing
begin

text \<open>The logical value of an entry in step with its disk is what the disk holds.\<close>

lemma in_step_iff:
  "entry_abs C D e w = Some v \<and> synced C D e w \<longleftrightarrow>
   on_disk (entry_coder e) (entry_disk e) w = Some v \<and> (entry_value e = None \<or> entry_value e = Some v)"
  by (auto simp: abs_on_disk synced_on_disk split: option.splits)

end

definition rehome :: "path \<Rightarrow> ('v, plainfile, 'c) backed_entry \<Rightarrow> ('v, plainfile, 'c) backed_entry" where
  "rehome root e = e\<lparr>entry_disk := Plainfile (join root (name_of (pf_path (entry_disk e))))\<rparr>"

lemma rehome_simps [simp]:
  "entry_coder (rehome root e) = entry_coder e" "entry_value (rehome root e) = entry_value e"
  "pf_path (entry_disk (rehome root e)) = join root (name_of (pf_path (entry_disk e)))"
  by (simp_all add: rehome_def)

lemma update_disks_plain:
  "\<forall>e\<in>set es. file_name (pf_path (entry_disk e)) \<noteq> None \<Longrightarrow>
   update_disks plain_paths root es = (Ok (), map (rehome root) es)"
  by (induction es) (auto simp: plain_paths_def rehome_def name_of_def plainfile_new_def)

lemma in_step_list:
  assumes "coder_roundtrip C"
  shows "array_represents vec_ops C plainfile_disk b s xss \<and> array_synced C plainfile_disk b s \<longleftrightarrow>
    key_starts b = starts_from 0 (map length xss) \<and> key_ends b = ends_from 0 (map length xss) \<and>
    list_all2 (\<lambda>e xs. backing.on_disk (\<lambda>d. file_stored (pf_path d)) C (entry_coder e) (entry_disk e) s = Some xs \<and>
      (entry_value e = None \<or> entry_value e = Some xs)) (entries b) xss"
proof -
  have "list_all2 (\<lambda>e xs. entry_abs C plainfile_disk e s = Some xs) (entries b) xss \<and>
      list_all (\<lambda>e. synced C plainfile_disk e s) (entries b) \<longleftrightarrow>
    list_all2 (\<lambda>e xs. entry_abs C plainfile_disk e s = Some xs \<and> synced C plainfile_disk e s) (entries b) xss"
    by (auto simp: list_all2_conv_all_nth list_all_length)
  then show ?thesis
    unfolding array_represents_def array_synced_def backing.in_step_iff [OF plainfile_backing [OF assms]]
    by (simp add: slice_defs vec_ops_def)
qed

text \<open>Where the files went, the entries can follow: the array still represents its chunks.\<close>

lemma rehome_represents:
  assumes C: "coder_roundtrip C"
    and rep: "array_represents vec_ops C plainfile_disk b s xss" "array_synced C plainfile_disk b s"
    and files: "\<forall>e\<in>set (entries b). file_stored (join root (name_of (pf_path (entry_disk e)))) s' = file_stored (pf_path (entry_disk e)) s"
  shows "array_represents vec_ops C plainfile_disk (b\<lparr>entries := map (rehome root) (entries b)\<rparr>) s' xss \<and>
    array_synced C plainfile_disk (b\<lparr>entries := map (rehome root) (entries b)\<rparr>) s'"
proof -
  note B = plainfile_backing [OF C]
  have "backing.on_disk (\<lambda>d. file_stored (pf_path d)) C (entry_coder e) (entry_disk (rehome root e)) s' =
      backing.on_disk (\<lambda>d. file_stored (pf_path d)) C (entry_coder e) (entry_disk e) s" if "e \<in> set (entries b)" for e
    using files that by (simp add: backing.on_disk_def [OF B] rehome_def)
  moreover have "array_represents vec_ops C plainfile_disk b s xss \<and> array_synced C plainfile_disk b s"
    using rep by simp
  ultimately show ?thesis
    unfolding in_step_list [OF C] by (simp add: list_all2_conv_all_nth)
qed

lemma in_step_stored:
  assumes "coder_roundtrip C" and "array_represents vec_ops C plainfile_disk b s xss"
    and "array_synced C plainfile_disk b s" and "e \<in> set (entries b)"
  shows "\<not> faulty s (pf_path (entry_disk e))" and "files s (pf_path (entry_disk e)) \<noteq> None"
proof -
  note B = plainfile_backing [OF assms(1)]
  obtain i where i: "i < length (entries b)" "e = entries b ! i" using assms(4) by (auto simp: in_set_conv_nth)
  have "array_represents vec_ops C plainfile_disk b s xss \<and> array_synced C plainfile_disk b s" using assms by simp
  then have "\<exists>v. backing.on_disk (\<lambda>d. file_stored (pf_path d)) C (entry_coder e) (entry_disk e) s = Some v"
    unfolding in_step_list [OF assms(1)] using i by (auto simp: list_all2_conv_all_nth)
  then have "file_stored (pf_path (entry_disk e)) s \<noteq> None"
    by (auto simp: backing.on_disk_def [OF B] split: option.splits)
  then show "\<not> faulty s (pf_path (entry_disk e))" "files s (pf_path (entry_disk e)) \<noteq> None"
    by (auto simp: file_stored_def split: if_splits)
qed

text \<open>The layout \<open>append\<close> creates: every chunk is directly below the root, the names differ.\<close>

definition dir_layout :: "('k, 'a, plainfile, 'c) dir_array \<Rightarrow> bool" where
  "dir_layout a \<longleftrightarrow> distinct (map (\<lambda>e. name_of (pf_path (entry_disk e))) (entries (da_array a))) \<and>
     (\<forall>e\<in>set (entries (da_array a)). file_name (pf_path (entry_disk e)) \<noteq> None \<and>
        pf_path (entry_disk e) = join (da_root a) (name_of (pf_path (entry_disk e))))"

lemma name_of_join [simp]:
  "file_name p = Some n \<Longrightarrow> file_name (join root n) = Some n"
  "file_name p = Some n \<Longrightarrow> name_of (join root n) = n"
  by (auto simp: name_of_def file_name_def join_def split: if_splits)

lemma rehome_layout:
  assumes "distinct (map (\<lambda>e. name_of (pf_path (entry_disk e))) (entries (da_array a)))"
    and "\<forall>e\<in>set (entries (da_array a)). file_name (pf_path (entry_disk e)) \<noteq> None"
  shows "dir_layout (a\<lparr>da_array := (da_array a)\<lparr>entries := map (rehome root) (entries (da_array a))\<rparr>, da_root := root\<rparr>)"
proof -
  have names: "file_name (join root (name_of (pf_path (entry_disk e)))) = Some (name_of (pf_path (entry_disk e))) \<and>
      name_of (join root (name_of (pf_path (entry_disk e)))) = name_of (pf_path (entry_disk e))"
    if "e \<in> set (entries (da_array a))" for e
    using assms(2) that name_of_join by (auto simp: name_of_def)
  then have same: "map (\<lambda>e. name_of (join root (name_of (pf_path (entry_disk e))))) (entries (da_array a)) =
      map (\<lambda>e. name_of (pf_path (entry_disk e))) (entries (da_array a))" by simp
  show ?thesis using assms(1) names by (simp add: dir_layout_def o_def same)
qed

lemma dir_layout_rehome:
  "dir_layout a \<Longrightarrow> dir_layout (a\<lparr>da_array := (da_array a)\<lparr>entries := map (rehome root) (entries (da_array a))\<rparr>, da_root := root\<rparr>)"
  using rehome_layout [of a root] by (simp add: dir_layout_def)

lemma plain_path [simp]: "pd_path plain_paths = pf_path"
  by (simp add: plain_paths_def)

lemma update_root_plain:
  assumes "\<forall>e\<in>set (entries (da_array a)). file_name (pf_path (entry_disk e)) \<noteq> None"
  shows "update_root plain_paths root a =
    (Ok (), a\<lparr>da_array := (da_array a)\<lparr>entries := map (rehome root) (entries (da_array a))\<rparr>, da_root := root\<rparr>)"
  by (simp add: update_root_def update_disks_plain [OF assms])

section \<open>Moving the root\<close>

lemma create_dir_all_env:
  "fs_create_dir_all_from d ns s = (r, s') \<Longrightarrow> files s' = files s \<and> faulty s' = faulty s \<and> full s' = full s \<and> device s' = device s"
  by (induction d ns s rule: fs_create_dir_all_from.induct) (auto simp: Let_def split: if_splits)

lemma dir_rename_stored:
  assumes "fs_rename p q s = (Ok u, s')" and "dirs s p" and "p \<noteq> q"
  shows "files s' (join q n) = files s (join p n)" and "faulty s' = faulty s"
proof -
  have s': "s' = s\<lparr>files := move_below p q (files s) None, dirs := move_below p q (dirs s) False\<rparr>"
    using assms by (auto simp: fs_rename_def fs_rename_dir_def split: if_splits)
  have "below q (join q n)" and "drop (length q) (join q n) = [n]" by (simp_all add: below_def join_def)
  then show "files s' (join q n) = files s (join p n)" "faulty s' = faulty s"
    by (simp_all add: s' move_below_def join_def)
qed

text \<open>Whichever way \<open>move_root\<close> goes, every chunk file is at its name below the new root.\<close>

lemma move_root_files:
  assumes "move_root (plain_paths :: (plainfile, 'x) path_disk) root a s = (Ok u, a', s')" and lay: "dir_layout a"
    and dir: "dirs s (da_root a)" and ne: "root \<noteq> da_root a"
    and nf: "\<forall>e\<in>set (entries (da_array a)). \<not> faulty s (pf_path (entry_disk e)) \<and>
      \<not> faulty s (join root (name_of (pf_path (entry_disk e))))"
  shows "update_root (plain_paths :: (plainfile, 'x) path_disk) root a = (Ok (), a')"
    and "\<forall>e\<in>set (entries (da_array a)). file_stored (join root (name_of (pf_path (entry_disk e)))) s' = file_stored (pf_path (entry_disk e)) s"
proof -
  let ?P = "plain_paths :: (plainfile, 'x) path_disk"
  let ?ps = "chunk_paths ?P (da_array a)"
  have U: "\<exists>a2. update_root ?P root a = (Ok (), a2)"
    using lay by (auto simp: dir_layout_def update_root_plain)
  with assms(1) show "update_root ?P root a = (Ok (), a')"
    by (auto simp: move_root_def Let_def split: prod.splits result.splits)
  have paths: "p = join (da_root a) (name_of p)" if "p \<in> set ?ps" for p using lay that by (auto simp: dir_layout_def)
  show "\<forall>e\<in>set (entries (da_array a)). file_stored (join root (name_of (pf_path (entry_disk e)))) s' = file_stored (pf_path (entry_disk e)) s"
  proof (cases "fs_rename (da_root a) root s")
    case (Pair r s1)
    show ?thesis
    proof (cases "\<exists>v. r = Ok v")
      case True
      then obtain v where R: "fs_rename (da_root a) root s = (Ok v, s1)" using Pair by blast
      with assms(1) have "s' = s1" by (auto simp: move_root_def Let_def split: prod.splits result.splits)
      with dir_rename_stored [OF R dir ne [symmetric]] paths nf show ?thesis
        by (auto simp: file_stored_def)
    next
      case False
      with Pair have "s1 = s" by (auto simp: fs_rename_def fs_rename_dir_def fs_rename_file_def split: if_splits option.splits)
      with assms(1) Pair False obtain s2 v where
        D: "fs_create_dir_all root s = (Ok v, s2)" and F: "for_paths (copy_chunk root) ?ps s2 = (Ok u, s')"
        by (auto simp: move_root_def Let_def split: prod.splits result.splits)
      have env: "files s2 = files s" "faulty s2 = faulty s"
        using create_dir_all_env D by (auto simp: fs_create_dir_all_def)
      have al: "\<forall>p\<in>set ?ps. p \<noteq> join root (name_of p)" using paths ne by (metis join_inject)
      have "distinct (map name_of ?ps)" using lay by (simp add: dir_layout_def o_def)
      with copier.for_paths_arrives [OF F al] env(1)
      have "\<forall>p\<in>set ?ps. files s' (join root (name_of p)) = files s p" by simp
      moreover have "faulty s' = faulty s" using copier.for_paths_env [OF F al] env(2) by simp
      ultimately show ?thesis using nf by (simp add: file_stored_def)
    qed
  qed
qed

text \<open>
  C22: moving a directory. If \<open>move_root\<close> of an array with the layout \<open>append\<close> creates returns
  \<open>Ok\<close>, by a rename or by copying file by file to another device, then the array represents the
  same chunks from the new root and is in step with its files there, and it keeps the layout.
\<close>

theorem move_root_keeps:
  assumes "coder_roundtrip C" and "array_represents vec_ops C plainfile_disk (da_array a) s xss"
    and "array_synced C plainfile_disk (da_array a) s" and "dir_layout a"
    and "dirs s (da_root a)" and "root \<noteq> da_root a"
    and "\<forall>e\<in>set (entries (da_array a)). \<not> faulty s (join root (name_of (pf_path (entry_disk e))))"
    and "move_root plain_paths root a s = (Ok u, a', s')"
  shows "array_represents vec_ops C plainfile_disk (da_array a') s' xss \<and>
    array_synced C plainfile_disk (da_array a') s' \<and> da_root a' = root \<and> dir_layout a'"
proof -
  have nf: "\<forall>e\<in>set (entries (da_array a)). \<not> faulty s (pf_path (entry_disk e)) \<and>
      \<not> faulty s (join root (name_of (pf_path (entry_disk e))))"
    using in_step_stored(1) [OF assms(1-3)] assms(7) by blast
  note M = move_root_files [OF assms(8,4,5,6) nf]
  have names: "\<forall>e\<in>set (entries (da_array a)). file_name (pf_path (entry_disk e)) \<noteq> None"
    using assms(4) by (simp add: dir_layout_def)
  have a': "a' = a\<lparr>da_array := (da_array a)\<lparr>entries := map (rehome root) (entries (da_array a))\<rparr>, da_root := root\<rparr>"
    using M(1) by (simp add: update_root_plain [OF names])
  have "dir_layout a'"
    using assms(4) unfolding a' by (rule dir_layout_rehome)
  with rehome_represents [OF assms(1-3) M(2)] show ?thesis by (simp add: a')
qed

text \<open>
  a move between devices leaves \<open>meta.dat\<close> behind. When the rename of the root fails and
  \<open>move_root\<close> returns \<open>Ok\<close> all the same (the chunks were copied), every file of the old root that is
  not a chunk is still there, the saved array in \<open>meta.dat\<close> among them, and it has not arrived at
  the new root.
\<close>

theorem move_root_leaves_meta:
  assumes "dir_layout a" and "root \<noteq> da_root a" and "fs_rename (da_root a) root s = (Err e, s)"
    and "\<forall>e\<in>set (entries (da_array a)). name_of (pf_path (entry_disk e)) \<noteq> meta_file"
    and "move_root plain_paths root a s = (Ok u, a', s')"
  shows "files s' (join (da_root a) meta_file) = files s (join (da_root a) meta_file) \<and>
    files s' (join root meta_file) = files s (join root meta_file)"
proof -
  let ?ps = "map (\<lambda>e. pf_path (entry_disk e)) (entries (da_array a))"
  from assms(3,5) obtain s2 v where
    D: "fs_create_dir_all root s = (Ok v, s2)" and F: "for_paths (copy_chunk root) ?ps s2 = (Ok u, s')"
    by (auto simp: move_root_def Let_def split: prod.splits result.splits)
  have env: "files s2 = files s" using create_dir_all_env D by (auto simp: fs_create_dir_all_def)
  have paths: "p = join (da_root a) (name_of p)" if "p \<in> set ?ps" for p using assms(1) that by (auto simp: dir_layout_def)
  have al: "\<forall>p\<in>set ?ps. p \<noteq> join root (name_of p)" using paths assms(2) by (metis join_inject)
  have d: "distinct (map name_of ?ps)" using assms(1) by (simp add: dir_layout_def o_def)
  have other: "join r meta_file \<notin> set ?ps \<and> join r meta_file \<notin> join root ` name_of ` set ?ps" for r
  proof -
    have "\<forall>p\<in>set ?ps. name_of p \<noteq> meta_file" using assms(4) by simp
    with paths show ?thesis by (metis (no_types, lifting) imageE join_inject)
  qed
  from copier.for_paths_arrives [OF F al d] other env show ?thesis by metis
qed

section \<open>Appending a directory\<close>

lemma merge_entries:
  assumes "dir_merge vec_ops rhs a = (Ok u, a')"
  shows "entries (da_array a') = entries (da_array a) @ entries rhs \<and> da_root a' = da_root a"
  using assms
  by (auto simp: dir_merge_def array_merge_def Let_def expect_def split: prod.splits result.splits)

lemma remove_leftovers:
  "files (snd (fs_remove_dir p (snd (fs_remove_file q s)))) r = (if r = q \<and> \<not> faulty s q then None else files s r) \<and>
   faulty (snd (fs_remove_dir p (snd (fs_remove_file q s)))) = faulty s"
  by (auto simp: fs_remove_dir_def fs_remove_file_def split: option.splits)

lemma missing_file:
  assumes "coder_roundtrip C" and "files s (pf_path (entry_disk e)) = None" and "\<not> is_loaded e"
  shows "entry_abs C plainfile_disk e s = None"
proof -
  have "entry_value e = None" using assms(3) by (cases "entry_value e") (simp_all add: is_loaded_iff)
  then show ?thesis
    using assms(2) by (simp add: backing.abs_on_disk [OF plainfile_backing [OF assms(1)]]
        backing.on_disk_def [OF plainfile_backing [OF assms(1)]] file_stored_def)
qed

text \<open>A successful \<open>append_dir\<close> of another root, taken apart.\<close>

lemma append_dir_Ok:
  assumes "dir_append_dir K P rhs a s = (Ok u, a', s')" and "da_root a \<noteq> da_root rhs"
  obtains v s1 where "for_paths (move_chunk (da_root a)) (chunk_paths P (da_array rhs)) s = (Ok v, s1)"
    "s' = snd (fs_remove_dir (da_root rhs) (snd (fs_remove_file (join (da_root rhs) meta_file) s1)))"
    "dir_merge K (da_array rhs) a = (Ok u, a')"
proof -
  obtain r s1 where F: "for_paths (move_chunk (da_root a)) (chunk_paths P (da_array rhs)) s = (r, s1)" by fastforce
  obtain r2 a2 where M: "dir_merge K (da_array rhs) a = (r2, a2)" by fastforce
  show thesis using assms F M by (cases r) (simp_all add: dir_append_dir_def Let_def that)
qed

text \<open>
  \<open>append_dir\<close> moves the files of the other array but not its disks. When it succeeds with an
  array of another root, every chunk of that array that was not directly in the target directory
  still names the path its file has left: unless the chunk is in memory it cannot be read any more,
  although the array counts it.
\<close>

theorem append_dir_loses_chunks:
  assumes "coder_roundtrip C" and "da_root a \<noteq> da_root rhs"
    and "\<forall>e\<in>set (entries (da_array rhs)). \<not> dirs s (pf_path (entry_disk e))"
    and "dir_append_dir vec_ops plain_paths rhs a s = (Ok u, a', s')"
  shows "entries (da_array a') = entries (da_array a) @ entries (da_array rhs) \<and>
    (\<forall>e\<in>set (entries (da_array rhs)). (\<forall>n. pf_path (entry_disk e) \<noteq> join (da_root a) n) \<longrightarrow>
       files s' (pf_path (entry_disk e)) = None \<and> (\<not> is_loaded e \<longrightarrow> entry_abs C plainfile_disk e s' = None))"
proof -
  let ?ps = "map (\<lambda>e. pf_path (entry_disk e)) (entries (da_array rhs))"
  from append_dir_Ok [OF assms(4,2)] obtain v s1 where F: "for_paths (move_chunk (da_root a)) ?ps s = (Ok v, s1)"
    and s': "s' = snd (fs_remove_dir (da_root rhs) (snd (fs_remove_file (join (da_root rhs) meta_file) s1)))"
    and M: "dir_merge vec_ops (da_array rhs) a = (Ok u, a')"
    by (metis plain_path)
  have nd: "\<forall>p\<in>set ?ps. \<not> dirs s p" using assms(3) by simp
  have "files s' (pf_path (entry_disk e)) = None"
    if "e \<in> set (entries (da_array rhs))" "\<forall>n. pf_path (entry_disk e) \<noteq> join (da_root a) n" for e
  proof -
    have "files s1 (pf_path (entry_disk e)) = None"
      using mover.for_paths_gone [OF F nd that(2)] that(1) by simp
    then show ?thesis by (simp add: s' remove_leftovers)
  qed
  then show ?thesis using merge_entries [OF M] missing_file [OF assms(1)] by blast
qed

lemma represents_transfer:
  assumes C: "coder_roundtrip C"
    and rep: "array_represents vec_ops C plainfile_disk b s xss" "array_synced C plainfile_disk b s"
    and files: "\<forall>e\<in>set (entries b). file_stored (pf_path (entry_disk e)) s' = file_stored (pf_path (entry_disk e)) s"
  shows "array_represents vec_ops C plainfile_disk b s' xss \<and> array_synced C plainfile_disk b s'"
proof -
  note B = plainfile_backing [OF C]
  have "backing.on_disk (\<lambda>d. file_stored (pf_path d)) C (entry_coder e) (entry_disk e) s' =
      backing.on_disk (\<lambda>d. file_stored (pf_path d)) C (entry_coder e) (entry_disk e) s" if "e \<in> set (entries b)" for e
    using files that by (simp add: backing.on_disk_def [OF B])
  moreover have "array_represents vec_ops C plainfile_disk b s xss \<and> array_synced C plainfile_disk b s"
    using rep by simp
  ultimately show ?thesis unfolding in_step_list [OF C] by (simp add: list_all2_conv_all_nth)
qed

lemma merge_dirs:
  assumes "coder_roundtrip C"
    and "array_represents vec_ops C plainfile_disk (da_array a) s xss" "array_synced C plainfile_disk (da_array a) s"
    and "array_represents vec_ops C plainfile_disk b s yss" "array_synced C plainfile_disk b s"
    and "dir_merge vec_ops b a = (Ok u, a')"
  shows "array_represents vec_ops C plainfile_disk (da_array a') s (xss @ yss) \<and>
    array_synced C plainfile_disk (da_array a') s"
proof -
  obtain m where m: "array_merge vec_ops (da_array a) b = (Ok (), m)"
      "array_represents vec_ops C plainfile_disk m s (xss @ yss)" "array_synced C plainfile_disk m s"
    using growing_array.merge_represents [OF plain_array [OF assms(1)] assms(2-5)] by blast
  have "a' = a\<lparr>da_array := m\<rparr>" using assms(6) m(1) by (simp add: dir_merge_def expect_def)
  with m show ?thesis by simp
qed

text \<open>
  \<open>append_dir\<close> is right when it is followed by \<open>update_root\<close> with the array's own root: with
  different file names, the array then represents the chunks of both arrays, from the files that
  were moved, and keeps the layout.
\<close>

theorem append_dir_then_update_root:
  assumes C: "coder_roundtrip C"
    and a: "array_represents vec_ops C plainfile_disk (da_array a) s xss" "array_synced C plainfile_disk (da_array a) s"
      "dir_layout a"
    and rhs: "array_represents vec_ops C plainfile_disk (da_array rhs) s yss"
      "array_synced C plainfile_disk (da_array rhs) s" "dir_layout rhs"
      "\<forall>e\<in>set (entries (da_array rhs)). \<not> dirs s (pf_path (entry_disk e))"
    and ne: "da_root a \<noteq> da_root rhs"
    and names: "\<forall>e\<in>set (entries (da_array a)). \<forall>e'\<in>set (entries (da_array rhs)).
      name_of (pf_path (entry_disk e)) \<noteq> name_of (pf_path (entry_disk e'))"
    and run: "dir_append_dir vec_ops plain_paths rhs a s = (Ok u, a', s')"
  shows "\<exists>a''. update_root plain_paths (da_root a) a' = (Ok (), a'') \<and>
    array_represents vec_ops C plainfile_disk (da_array a'') s' (xss @ yss) \<and>
    array_synced C plainfile_disk (da_array a'') s' \<and> dir_layout a''"
proof -
  let ?path = "\<lambda>e. pf_path (entry_disk e)"
  let ?ps = "map ?path (entries (da_array rhs))"
  let ?root = "da_root a"
  from append_dir_Ok [OF run ne] obtain v s1 where F: "for_paths (move_chunk ?root) ?ps s = (Ok v, s1)"
    and s': "s' = snd (fs_remove_dir (da_root rhs) (snd (fs_remove_file (join (da_root rhs) meta_file) s1)))"
    and M: "dir_merge vec_ops (da_array rhs) a = (Ok u, a')"
    by (metis plain_path)
  have nd: "\<forall>p\<in>set ?ps. \<not> dirs s p" using rhs(4) by simp
  have d: "distinct (map name_of ?ps)" using rhs(3) by (simp add: dir_layout_def o_def)
  note arrives = mover.for_paths_arrives [OF F nd d]
  have faulty: "faulty s' = faulty s" using mover.for_paths_env [OF F nd] by (simp add: s' remove_leftovers)
  have files: "files s' (join ?root n) = files s1 (join ?root n)" for n
    using ne by (simp add: s' remove_leftovers)
  have pa: "?path e = join ?root (name_of (?path e))" "file_name (?path e) \<noteq> None" if "e \<in> set (entries (da_array a))" for e
    using a(3) that by (simp_all add: dir_layout_def)
  have pr: "?path e = join (da_root rhs) (name_of (?path e))" "file_name (?path e) \<noteq> None" if "e \<in> set (entries (da_array rhs))" for e
    using rhs(3) that by (simp_all add: dir_layout_def)
  have "file_stored (join ?root (name_of (?path e))) s' = file_stored (?path e) s" if "e \<in> set (entries (da_array a))" for e
  proof -
    have parent: "parent (?path e) = ?root" using pa(1) [OF that] parent_join by metis
    have "?path e \<noteq> ?path e'" if "e' \<in> set (entries (da_array rhs))" for e'
      using pr(1) [OF that] parent ne parent_join by metis
    then have "?path e \<notin> set ?ps" by auto
    moreover have "?path e \<noteq> join ?root (name_of (?path e'))" if "e' \<in> set (entries (da_array rhs))" for e'
      using pa(1) [OF \<open>e \<in> set (entries (da_array a))\<close>] names \<open>e \<in> set (entries (da_array a))\<close> that
      by (metis join_inject)
    then have "?path e \<notin> join ?root ` name_of ` set ?ps" by auto
    ultimately have "files s1 (?path e) = files s (?path e)" using arrives by blast
    then have "files s' (?path e) = files s (?path e)" by (metis files pa(1) that)
    then have "file_stored (?path e) s' = file_stored (?path e) s" using faulty by (simp add: file_stored_def)
    then show ?thesis by (simp only: pa(1) [OF that, symmetric])
  qed
  moreover have "file_stored (join ?root (name_of (?path e))) s' = file_stored (?path e) s" if "e \<in> set (entries (da_array rhs))" for e
  proof -
    have e: "?path e \<in> set ?ps" using that by simp
    have "\<not> faulty s (?path e)" using in_step_stored(1) [OF C rhs(1,2) that] .
    moreover have "files s1 (join ?root (name_of (?path e))) = files s (?path e)" using arrives that by simp
    ultimately show ?thesis
      using mover.for_paths_not_faulty [OF F nd e] files faulty by (simp add: file_stored_def)
  qed
  ultimately have stored: "\<forall>e\<in>set (entries (da_array a')). file_stored (join ?root (name_of (?path e))) s' = file_stored (?path e) s"
    using merge_entries [OF M] by auto
  have fn: "\<forall>e\<in>set (entries (da_array a')). file_name (?path e) \<noteq> None" using merge_entries [OF M] pa(2) pr(2) by auto
  note R = merge_dirs [OF C a(1,2) rhs(1,2) M]
  have "dir_layout (a'\<lparr>da_array := (da_array a')\<lparr>entries := map (rehome ?root) (entries (da_array a'))\<rparr>, da_root := ?root\<rparr>)"
  proof -
    have "distinct (map (\<lambda>e. name_of (?path e)) (entries (da_array a')))"
      using a(3) rhs(3) names merge_entries [OF M] by (auto simp: dir_layout_def)
    then show ?thesis using rehome_layout fn by simp
  qed
  with rehome_represents [OF C R [THEN conjunct1] R [THEN conjunct2] stored] show ?thesis
    by (simp add: update_root_plain [OF fn])
qed

section \<open>Deleting\<close>

lemma dir_remove_at:
  assumes C: "coder_roundtrip C"
    and rep: "array_represents vec_ops C plainfile_disk (da_array a) s xss" "array_synced C plainfile_disk (da_array a) s"
    and d: "distinct (array_sites pf_path (da_array a))" and i: "i < length xss"
  shows "\<exists>b. let p = array_sites pf_path (da_array a) ! i; s' = set_file p None s in
    dir_remove vec_ops (plain_paths :: (plainfile, 'x) path_disk) i a s = (Ok (), a\<lparr>da_array := b\<rparr>, s') \<and>
    entries b = take i (entries (da_array a)) @ drop (Suc i) (entries (da_array a)) \<and>
    array_represents vec_ops C plainfile_disk b s' (take i xss @ drop (Suc i) xss) \<and> array_synced C plainfile_disk b s'"
proof -
  have n: "i < length (entries (da_array a))"
    using rep(1) i by (auto simp: array_represents_def dest: list_all2_lengthD)
  let ?e = "entries (da_array a) ! i"
  let ?p = "pf_path (entry_disk ?e)"
  let ?s = "set_file ?p None s"
  have "?e \<in> set (entries (da_array a))" using n by simp
  from in_step_stored [OF C rep this] have rm: "fs_remove_file ?p s = (Ok (), ?s)" by (auto simp: fs_remove_file_def)
  obtain b where b: "array_remove vec_ops i (da_array a) = (Ok (), b)"
    "array_represents vec_ops C plainfile_disk b s (take i xss @ drop (Suc i) xss)" "array_synced C plainfile_disk b s"
    "array_sites pf_path b = take i (array_sites pf_path (da_array a)) @ drop (Suc i) (array_sites pf_path (da_array a))"
    using growing_array.remove_represents [OF plain_array [OF C] rep i] by auto
  have keys: "slice_c_get (key_starts (da_array a)) i \<noteq> None" "slice_c_get (key_ends (da_array a)) i \<noteq> None"
    using rep(1) i by (auto simp: array_represents_def slice_c_get_def nth_opt_def)
  have es: "entries b = take i (entries (da_array a)) @ drop (Suc i) (entries (da_array a))"
    using b(1) n keys by (auto simp: array_remove_def vec_c_remove_def split: option.splits prod.splits result.splits if_splits)
  have site: "array_sites pf_path (da_array a) ! i = ?p" using n by (simp add: array_sites_def)
  have "?p \<notin> set (array_sites pf_path b)"
  proof -
    have "i < length (array_sites pf_path (da_array a))" using n by (simp add: array_sites_def)
    from id_take_nth_drop [OF this] d have
      "distinct (take i (array_sites pf_path (da_array a)) @ ?p # drop (Suc i) (array_sites pf_path (da_array a)))"
      unfolding site by metis
    then show ?thesis unfolding b(4) by auto
  qed
  then have "pf_path (entry_disk e') \<noteq> ?p" if "e' \<in> set (entries b)" for e'
    using that by (metis array_sites_def comp_apply image_eqI list.set_map)
  then have "\<forall>e'\<in>set (entries b). file_stored (pf_path (entry_disk e')) ?s = file_stored (pf_path (entry_disk e')) s"
    by (simp add: file_stored_def)
  from represents_transfer [OF C b(2,3) this] es rm b(1) n site show ?thesis
    by (intro exI [of _ b]) (simp add: Let_def dir_remove_def nth_opt_def expect_def)
qed

lemma dir_remove_first:
  assumes C: "coder_roundtrip C"
    and rep: "array_represents vec_ops C plainfile_disk (da_array a) s (xs # xss)" "array_synced C plainfile_disk (da_array a) s"
    and d: "distinct (array_sites pf_path (da_array a))"
  obtains a1 p where "array_sites pf_path (da_array a) = p # array_sites pf_path (da_array a1)"
    "dir_remove vec_ops (plain_paths :: (plainfile, 'x) path_disk) 0 a s = (Ok (), a1, set_file p None s)" "da_root a1 = da_root a"
    "array_represents vec_ops C plainfile_disk (da_array a1) (set_file p None s) xss"
    "array_synced C plainfile_disk (da_array a1) (set_file p None s)"
proof -
  have "length (entries (da_array a)) = length (xs # xss)"
    using rep(1) by (auto simp: array_represents_def dest: list_all2_lengthD)
  then obtain e es where es: "entries (da_array a) = e # es" by (cases "entries (da_array a)") auto
  from dir_remove_at [OF C rep d, of 0] obtain b where
    "dir_remove vec_ops (plain_paths :: (plainfile, 'x) path_disk) 0 a s = (Ok (), a\<lparr>da_array := b\<rparr>, set_file (array_sites pf_path (da_array a) ! 0) None s)"
    "entries b = drop 1 (entries (da_array a))"
    "array_represents vec_ops C plainfile_disk b (set_file (array_sites pf_path (da_array a) ! 0) None s) xss"
    "array_synced C plainfile_disk b (set_file (array_sites pf_path (da_array a) ! 0) None s)" by (auto simp: Let_def)
  with es show thesis
    using that [of "pf_path (entry_disk e)" "a\<lparr>da_array := b\<rparr>"] by (simp add: array_sites_def)
qed

lemma dir_delete_chunks_ok:
  assumes C: "coder_roundtrip C"
  shows "array_represents vec_ops C plainfile_disk (da_array a) s xss \<Longrightarrow> array_synced C plainfile_disk (da_array a) s \<Longrightarrow>
    distinct (array_sites pf_path (da_array a)) \<Longrightarrow> length xss < fuel \<Longrightarrow>
    \<exists>a1. dir_delete_chunks vec_ops (plain_paths :: (plainfile, 'x) path_disk) fuel a s = (Ok (Some ()), a1,
        s\<lparr>files := \<lambda>p. if p \<in> set (array_sites pf_path (da_array a)) then None else files s p\<rparr>) \<and> da_root a1 = da_root a"
proof (induction xss arbitrary: a s fuel)
  case Nil
  then obtain fuel' where "fuel = Suc fuel'" by (cases fuel) auto
  moreover have "entries (da_array a) = []" using Nil(1) by (auto simp: array_represents_def)
  ultimately show ?case by (simp add: array_is_empty_def array_sites_def)
next
  case (Cons xs xss)
  then obtain fuel' where fuel: "fuel = Suc fuel'" "length xss < fuel'" by (cases fuel) auto
  from dir_remove_first [OF C Cons.prems(1-3)] obtain a1 p where R:
    "array_sites pf_path (da_array a) = p # array_sites pf_path (da_array a1)"
    "dir_remove vec_ops (plain_paths :: (plainfile, 'x) path_disk) 0 a s = (Ok (), a1, set_file p None s)" "da_root a1 = da_root a"
    "array_represents vec_ops C plainfile_disk (da_array a1) (set_file p None s) xss"
    "array_synced C plainfile_disk (da_array a1) (set_file p None s)" by metis
  have "distinct (array_sites pf_path (da_array a1))" using R(1) Cons.prems(3) by simp
  from Cons.IH [OF R(4,5) this fuel(2)] obtain a2 where IH:
    "dir_delete_chunks vec_ops (plain_paths :: (plainfile, 'x) path_disk) fuel' a1 (set_file p None s) = (Ok (Some ()), a2,
      (set_file p None s)\<lparr>files := \<lambda>q. if q \<in> set (array_sites pf_path (da_array a1)) then None else files (set_file p None s) q\<rparr>)"
    "da_root a2 = da_root a1" by blast
  have "\<not> array_is_empty (da_array a)" using R(1) by (auto simp: array_is_empty_def array_sites_def)
  moreover have "(set_file p None s)\<lparr>files := \<lambda>q. if q \<in> set (array_sites pf_path (da_array a1)) then None else files (set_file p None s) q\<rparr> =
      s\<lparr>files := \<lambda>q. if q \<in> set (array_sites pf_path (da_array a)) then None else files s q\<rparr>"
    unfolding R(1) by (simp add: set_file_def fun_eq_iff)
  ultimately show ?case using IH R(2,3) fuel(1) by auto
qed

text \<open>
  \<open>delete\<close> removes exactly the files of the chunks, returns \<open>Ok\<close>, and then removes the directory
  if it has become empty. A directory that was saved is therefore left behind: while \<open>meta.dat\<close> (or
  anything else) is in it, the directories are as before.
\<close>

theorem dir_delete_removes_files:
  assumes "coder_roundtrip C" and "array_represents vec_ops C plainfile_disk (da_array a) s xss"
    and "array_synced C plainfile_disk (da_array a) s" and "distinct (array_sites pf_path (da_array a))"
  shows "\<exists>s'. dir_delete vec_ops (plain_paths :: (plainfile, 'x) path_disk) (Suc (chunks_len (da_array a))) a s = (Ok (Some ()), s') \<and>
    (\<forall>p. files s' p = (if p \<in> set (array_sites pf_path (da_array a)) then None else files s p)) \<and>
    (files s (join (da_root a) n) \<noteq> None \<and> join (da_root a) n \<notin> set (array_sites pf_path (da_array a)) \<longrightarrow> dirs s' = dirs s)"
proof -
  let ?P = "plain_paths :: (plainfile, 'x) path_disk"
  let ?s1 = "s\<lparr>files := \<lambda>p. if p \<in> set (array_sites pf_path (da_array a)) then None else files s p\<rparr>"
  have "length xss < Suc (chunks_len (da_array a))"
    using array_backing.represents_chunks_len [OF growing_array.axioms(1) [OF plain_array [OF assms(1)]] assms(2)] by simp
  from dir_delete_chunks_ok [OF assms this] obtain a1 where
    "dir_delete_chunks vec_ops ?P (Suc (chunks_len (da_array a))) a s = (Ok (Some ()), a1, ?s1)"
    "da_root a1 = da_root a" by blast
  then have "dir_delete vec_ops ?P (Suc (chunks_len (da_array a))) a s =
      (Ok (Some ()), snd (fs_remove_dir (da_root a) ?s1))" by (simp add: dir_delete_def del: dir_delete_chunks.simps)
  moreover have "files (snd (fs_remove_dir (da_root a) ?s1)) = files ?s1" by (simp add: fs_remove_dir_def)
  moreover have "dirs (snd (fs_remove_dir (da_root a) ?s1)) = dirs s"
    if "files s (join (da_root a) n) \<noteq> None" "join (da_root a) n \<notin> set (array_sites pf_path (da_array a))"
  proof -
    have "\<not> dir_empty (da_root a) ?s1" using that by (auto simp: dir_empty_def)
    then show ?thesis by (simp add: fs_remove_dir_def)
  qed
  ultimately show ?thesis by auto
qed

section \<open>Appending\<close>

lemma dir_append_eq:
  "dir_append K C D plain_paths c uuid vals a s =
     (case array_append K C D vals (Plainfile (join (da_root a) uuid)) c (da_array a) s of
        (r, b, s1) \<Rightarrow> (map_err WriteErr r, a\<lparr>da_array := b\<rparr>, s1))"
  "dir_append_memory K C D plain_paths c uuid vals a s =
     (case array_append_memory K C D vals (Plainfile (join (da_root a) uuid)) c (da_array a) s of
        (r, b, s1) \<Rightarrow> (map_err WriteErr r, a\<lparr>da_array := b\<rparr>, s1))"
  by (simp_all add: dir_append_def dir_append_memory_def next_target_def plain_paths_def plainfile_new_def)

lemma push_range_entries: "push_range K n b = (r, b') \<Longrightarrow> entries b' = entries b"
  by (auto simp: push_range_def Let_def split: prod.splits result.splits)

lemma append_entries:
  "array_append K C D vals d c b s = (Ok u, b', s') \<Longrightarrow> \<exists>e. entries b' = entries b @ [e] \<and> entry_disk e = d"
proof -
  assume A: "array_append K C D vals d c b s = (Ok u, b', s')"
  obtain r e s1 where W: "entry_write_unload C D id vals (entry_new d c) s = (r, e, s1)" by (metis prod_cases3)
  obtain r2 b2 where P: "push_range K (length vals) (b\<lparr>entries := entries b @ [e]\<rparr>) = (r2, b2)" by fastforce
  have "entry_disk e = d"
    using W by (auto simp: entry_write_unload_def Let_def unload_def entry_new_def split: prod.splits)
  with A W P push_range_entries [OF P] show ?thesis by (cases r) (auto simp: array_append_def)
qed

lemma append_memory_entries:
  "array_append_memory K C D vals d c b s = (Ok u, b', s') \<Longrightarrow> \<exists>e. entries b' = entries b @ [e] \<and> entry_disk e = d"
proof -
  assume A: "array_append_memory K C D vals d c b s = (Ok u, b', s')"
  obtain r e s1 where W: "entry_write C D vals (entry_new d c) s = (r, e, s1)" by (metis prod_cases3)
  obtain r2 b2 where P: "push_range K (length vals) (b\<lparr>entries := entries b @ [e]\<rparr>) = (r2, b2)" by fastforce
  have "entry_disk e = d"
    using W by (auto simp: entry_write_def entry_new_def split: prod.splits result.splits)
  with A W P push_range_entries [OF P] show ?thesis by (cases r) (auto simp: array_append_memory_def)
qed

lemma layout_snoc:
  assumes "dir_layout a" and "entries b = entries (da_array a) @ [e]" and "entry_disk e = Plainfile (join (da_root a) uuid)"
    and "\<forall>e\<in>set (entries (da_array a)). name_of (pf_path (entry_disk e)) \<noteq> uuid" and "uuid \<noteq> ''..''"
  shows "dir_layout (a\<lparr>da_array := b\<rparr>)"
proof -
  have "name_of (join (da_root a) uuid) = uuid" "file_name (join (da_root a) uuid) = Some uuid"
    using assms(5) by (simp_all add: name_of_def)
  moreover have "uuid \<notin> (\<lambda>e. name_of (pf_path (entry_disk e))) ` set (entries (da_array a))" using assms(4) by auto
  ultimately show ?thesis using assms(1-3) by (simp add: dir_layout_def)
qed

lemma dir_append_ok:
  assumes C: "coder_roundtrip C" and a: "array_represents vec_ops C plainfile_disk (da_array a) s xss"
    "array_synced C plainfile_disk (da_array a) s" "dir_layout a"
    and fresh: "\<forall>e\<in>set (entries (da_array a)). name_of (pf_path (entry_disk e)) \<noteq> uuid" "uuid \<noteq> ''..''"
    and f: "f = dir_append \<or> f = dir_append_memory"
  shows "case f vec_ops C plainfile_disk plain_paths c uuid vals a s of (r, a', s') \<Rightarrow>
    array_synced C plainfile_disk (da_array a') s' \<and> dir_layout a' \<and>
    ((r = Ok () \<and> array_represents vec_ops C plainfile_disk (da_array a') s' (xss @ [vals])) \<or>
     (\<exists>x. r = Err (WriteErr x) \<and> a' = a \<and> array_represents vec_ops C plainfile_disk (da_array a) s' xss))"
proof -
  let ?d = "Plainfile (join (da_root a) uuid)"
  have site: "pf_path ?d \<notin> set (array_sites pf_path (da_array a))"
  proof -
    have "name_of (pf_path ?d) = uuid" using fresh(2) by (simp add: name_of_def)
    with fresh(1) show ?thesis by (auto simp: array_sites_def)
  qed
  note G = plain_array [OF C]
  obtain r b s' where A: "array_append vec_ops C plainfile_disk vals ?d c (da_array a) s = (r, b, s')" by (metis prod_cases3)
  obtain r2 b2 s2 where M: "array_append_memory vec_ops C plainfile_disk vals ?d c (da_array a) s = (r2, b2, s2)"
    by (metis prod_cases3)
  have "r = Ok () \<Longrightarrow> dir_layout (a\<lparr>da_array := b\<rparr>)" "r2 = Ok () \<Longrightarrow> dir_layout (a\<lparr>da_array := b2\<rparr>)"
    using append_entries A append_memory_entries M layout_snoc [OF a(3) _ _ fresh] by metis+
  then show ?thesis
    using f A M growing_array.append_Ok [OF G a(1,2) site A] growing_array.append_memory_Ok [OF G a(1,2) site M] a(3)
    by (auto simp: dir_append_eq)
qed

text \<open>
  C24: appending to a directory. With a fresh name from the generator, \<open>append\<close> and \<open>append_memory\<close>
  either add the chunk, in a file of that name directly below the root, or report the write error
  and leave the array alone; the array stays in step with its files and keeps the layout.
\<close>

theorem dir_append_keeps:
  assumes C: "coder_roundtrip C" and a: "array_represents vec_ops C plainfile_disk (da_array a) s xss"
    "array_synced C plainfile_disk (da_array a) s" "dir_layout a"
    and fresh: "\<forall>e\<in>set (entries (da_array a)). name_of (pf_path (entry_disk e)) \<noteq> uuid" "uuid \<noteq> ''..''"
    and f: "f = dir_append \<or> f = dir_append_memory"
  shows "case f vec_ops C plainfile_disk plain_paths c uuid vals a s of (r, a', s') \<Rightarrow>
    array_synced C plainfile_disk (da_array a') s' \<and> dir_layout a' \<and>
    ((r = Ok () \<and> array_represents vec_ops C plainfile_disk (da_array a') s' (xss @ [vals])) \<or>
     (\<exists>x. r = Err (WriteErr x) \<and> a' = a \<and> array_represents vec_ops C plainfile_disk (da_array a) s' xss))"
  by (rule dir_append_ok [OF assms])

section \<open>Saving and loading\<close>

lemma serialized_clears: "serialized a = a\<lparr>da_array := clear_memory (da_array a)\<rparr>"
  by (simp add: serialized_def clear_memory_def unload_def)

text \<open>Saving and loading are writing and reading one value in \<open>meta.dat\<close>, up to the error type.\<close>

lemma dir_save_Ok:
  "write_value M D coder d (serialized a) s = (Ok (), s') \<Longrightarrow> pd_from P (join (da_root a) meta_file) = Ok d \<Longrightarrow>
   dir_save M D P coder a s = (Ok (), s')"
  by (auto simp: write_value_def dir_save_def split: prod.splits result.splits)

lemma dir_load_Ok:
  "read_value M D coder d s = (Ok v, s') \<Longrightarrow> pd_from P (join root meta_file) = Ok d \<Longrightarrow>
   dir_load M D P coder root s = (Ok v, s')"
  by (auto simp: read_value_def dir_load_def split: prod.splits result.splits)

lemma save_load_ok:
  assumes M: "coder_roundtrip M" and C: "coder_roundtrip C"
    and rep: "array_represents vec_ops C plainfile_disk (da_array a) s xss" "array_synced C plainfile_disk (da_array a) s"
    and meta: "accepts M coder (serialized a)" "file_writable (join (da_root a) meta_file) s"
      "join (da_root a) meta_file \<notin> set (array_sites pf_path (da_array a))"
  shows "\<exists>s'. dir_save M plainfile_disk plain_paths coder a s = (Ok (), s') \<and>
    dir_load M plainfile_disk plain_paths coder (da_root a) s' = (Ok (serialized a), s') \<and>
    array_represents vec_ops C plainfile_disk (da_array (serialized a)) s' xss"
proof -
  let ?d = "Plainfile (join (da_root a) meta_file)"
  note B = plainfile_backing [OF M]
  obtain s' where W: "write_value M plainfile_disk coder ?d (serialized a) s = (Ok (), s')"
    using backing.write_value_succeeds [OF B, of ?d s coder "serialized a"] meta by auto
  have R: "read_value M plainfile_disk coder ?d s' = (Ok (serialized a), s')"
    using backing.read_value_ok [OF B backing.write_value_ok(1) [OF B W]] .
  obtain r1 where P: "put plainfile_disk ?d (fst (c_pieces M coder (serialized a))) (accepts M coder (serialized a)) s = (r1, s')"
    using W unfolding write_value_put by (auto split: prod.splits)
  have "\<forall>e\<in>set (entries (da_array a)). file_stored (pf_path (entry_disk e)) s' = file_stored (pf_path (entry_disk e)) s"
  proof
    fix e assume "e \<in> set (entries (da_array a))"
    then have "pf_path (entry_disk e) \<in> set (array_sites pf_path (da_array a))" by (simp add: array_sites_def)
    with meta(3) have "pf_path (entry_disk e) \<noteq> pf_path ?d" by auto
    from byte_disk.put_frame [OF backing.axioms(1) [OF B] P this]
    show "file_stored (pf_path (entry_disk e)) s' = file_stored (pf_path (entry_disk e)) s" .
  qed
  from represents_transfer [OF C rep this] have
    "array_represents vec_ops C plainfile_disk (clear_memory (da_array a)) s' xss"
    using array_backing.clear_memory_represents(1) [OF growing_array.axioms(1) [OF plain_array [OF C]]] by blast
  moreover have "pd_from plain_paths p = Ok (Plainfile p)" for p by (simp add: plain_paths_def plainfile_new_def)
  ultimately show ?thesis
    using dir_save_Ok [OF W] dir_load_Ok [OF R] by (metis serialized_clears dir_array.select_convs(1) dir_array.surjective dir_array.update_convs(1))
qed

text \<open>
  C21: \<open>save\<close> followed by \<open>load\<close>. When \<open>meta.dat\<close> can be written, is not one of the chunks and the
  coder accepts the array, \<open>load\<close> of the same root returns the array with every value out of
  memory, and that array represents the same chunks from the files.
\<close>

theorem save_then_load:
  assumes M: "coder_roundtrip M" and C: "coder_roundtrip C"
    and rep: "array_represents vec_ops C plainfile_disk (da_array a) s xss" "array_synced C plainfile_disk (da_array a) s"
    and meta: "accepts M coder (serialized a)" "file_writable (join (da_root a) meta_file) s"
      "join (da_root a) meta_file \<notin> set (array_sites pf_path (da_array a))"
  shows "\<exists>s'. dir_save M plainfile_disk plain_paths coder a s = (Ok (), s') \<and>
    dir_load M plainfile_disk plain_paths coder (da_root a) s' = (Ok (serialized a), s') \<and>
    array_represents vec_ops C plainfile_disk (da_array (serialized a)) s' xss"
  by (rule save_load_ok [OF assms])

section \<open>A directory with two chunks\<close>

abbreviation demo_paths :: "(plainfile, unit) path_disk" where
  "demo_paths \<equiv> plain_paths"

abbreviation demo_dir :: "(nat list, byte, plainfile, bincode_coder) dir_array" where
  "demo_dir \<equiv> \<lparr>da_array = \<lparr>key_starts = [0, 2], key_ends = [2, 3],
     entries = [(entry_new (Plainfile [''r'', ''u'']) BincodeCoder)\<lparr>entry_value := Some [10, 11]\<rparr>,
       entry_new (Plainfile [''r'', ''v'']) BincodeCoder]\<rparr>, da_root = [''r'']\<rparr>"

abbreviation demo_other :: "(nat list, byte, plainfile, bincode_coder) dir_array" where
  "demo_other \<equiv> \<lparr>da_array = \<lparr>key_starts = [0], key_ends = [1],
     entries = [entry_new (Plainfile [''t'', ''w'']) BincodeCoder]\<rparr>, da_root = [''t'']\<rparr>"

definition demo_disk :: fs where
  "demo_disk = set_file [''r'', ''u''] (Some [2, 10, 11]) (set_file [''r'', ''v''] (Some [1, 12])
     (set_file [''t'', ''w''] (Some [1, 13]) (set_file [''r'', ''meta.dat''] (Some [])
       (empty_fs\<lparr>dirs := \<lambda>p. p = [] \<or> p = [''r''] \<or> p = [''t''], device := \<lambda>p. if p = [''x''] then 1 else 0\<rparr>))))"

lemma demo_disk_simps [simp]:
  "files demo_disk p = (if p = [''r'', ''u''] then Some [2, 10, 11] else if p = [''r'', ''v''] then Some [1, 12]
     else if p = [''t'', ''w''] then Some [1, 13] else if p = [''r'', ''meta.dat''] then Some [] else None)"
  "dirs demo_disk p = (p = [] \<or> p = [''r''] \<or> p = [''t''])"
  "\<not> faulty demo_disk p" "\<not> full demo_disk p" "device demo_disk p = (if p = [''x''] then 1 else 0)"
  by (simp_all add: demo_disk_def empty_fs_def)

lemma demo_dir_reads:
  "read_value prefix_ops plainfile_disk BincodeCoder (Plainfile [''r'', ''u'']) demo_disk = (Ok [10, 11], demo_disk)"
  "read_value prefix_ops plainfile_disk BincodeCoder (Plainfile [''r'', ''v'']) demo_disk = (Ok [12], demo_disk)"
  "read_value prefix_ops plainfile_disk BincodeCoder (Plainfile [''t'', ''w'']) demo_disk = (Ok [13], demo_disk)"
  by (simp_all add: read_value_def plainfile_disk_def plainfile_read_disk_def fs_read_def decode_def)

lemma demo_dir_represents:
  "array_represents vec_ops prefix_ops plainfile_disk (da_array demo_dir) demo_disk [[10, 11], [12]]"
  "array_synced prefix_ops plainfile_disk (da_array demo_dir) demo_disk"
  "dir_layout demo_dir"
  "array_represents vec_ops prefix_ops plainfile_disk (da_array demo_other) demo_disk [[13]]"
  "array_synced prefix_ops plainfile_disk (da_array demo_other) demo_disk"
  "dir_layout demo_other"
  by (simp_all add: array_represents_def array_synced_def synced_def entry_abs_def demo_dir_reads dir_layout_def
      name_of_def file_name_def join_def)

lemma demo_rename:
  "fs_rename [''r''] [''q''] demo_disk = (Ok (), demo_disk\<lparr>files := move_below [''r''] [''q''] (files demo_disk) None,
     dirs := move_below [''r''] [''q''] (dirs demo_disk) False\<rparr>)"
  "fs_rename [''r''] [''x''] demo_disk = (Err CrossesDevices, demo_disk)"
  by (simp_all add: fs_rename_def fs_rename_dir_def below_def parent_def)

theorem move_root_keeps_witness:
  "\<exists>a' s'. move_root demo_paths [''q''] demo_dir demo_disk = (Ok (), a', s') \<and>
    array_represents vec_ops prefix_ops plainfile_disk (da_array a') s' [[10, 11], [12]] \<and> da_root a' = [''q'']"
proof -
  have "\<exists>a'. update_root demo_paths [''q''] demo_dir = (Ok (), a')"
    by (simp add: update_root_plain file_name_def)
  then obtain a' s' where M: "move_root demo_paths [''q''] demo_dir demo_disk = (Ok (), a', s')"
    by (auto simp: move_root_def demo_rename)
  have "dirs demo_disk (da_root demo_dir)" "[''q''] \<noteq> da_root demo_dir"
    "\<forall>e\<in>set (entries (da_array demo_dir)). \<not> faulty demo_disk (join [''q''] (name_of (pf_path (entry_disk e))))"
    by simp_all
  from move_root_keeps [OF prefix_roundtrip demo_dir_represents(1-3) this M] M show ?thesis by blast
qed

lemma demo_copies:
  "\<exists>s'. for_paths (copy_chunk [''x'']) [[''r'', ''u''], [''r'', ''v'']] (demo_disk\<lparr>dirs := (dirs demo_disk)([''x''] := True)\<rparr>) = (Ok (), s')"
  by (simp add: copy_chunk_def fs_copy_def fs_read_def fs_open_truncate_def fs_remove_file_def parent_def file_name_def join_def)

theorem move_root_leaves_meta_witness:
  "\<exists>a' s'. move_root demo_paths [''x''] demo_dir demo_disk = (Ok (), a', s') \<and>
    files s' [''r'', ''meta.dat''] = Some [] \<and> files s' [''x'', ''meta.dat''] = None"
proof -
  have "\<exists>a'. update_root demo_paths [''x''] demo_dir = (Ok (), a')"
    by (simp add: update_root_plain file_name_def)
  then obtain a' s' where M: "move_root demo_paths [''x''] demo_dir demo_disk = (Ok (), a', s')"
    using demo_copies
    by (auto simp: move_root_def demo_rename fs_create_dir_all_def join_def simp del: for_paths.simps)
  have "\<forall>e\<in>set (entries (da_array demo_dir)). name_of (pf_path (entry_disk e)) \<noteq> meta_file"
    by (simp add: name_of_def file_name_def meta_file_def)
  moreover have "fs_rename (da_root demo_dir) [''x''] demo_disk = (Err CrossesDevices, demo_disk)" by (simp add: demo_rename)
  ultimately show ?thesis
    using move_root_leaves_meta [OF demo_dir_represents(3) _ _ _ M] M by (auto simp: join_def meta_file_def)
qed

theorem append_dir_loses_chunks_witness:
  "\<exists>a' s'. dir_append_dir vec_ops demo_paths demo_other demo_dir demo_disk = (Ok (), a', s') \<and>
    length (entries (da_array a')) = 3 \<and>
    entry_abs prefix_ops plainfile_disk (entry_new (Plainfile [''t'', ''w'']) BincodeCoder) s' = None"
proof -
  have "fst (dir_append_dir vec_ops demo_paths demo_other demo_dir demo_disk) = Ok ()"
    by (simp add: dir_append_dir_def move_chunk_def file_name_def join_def fs_rename_def fs_rename_file_def parent_def
        dir_merge_def array_merge_def vec_ops_def vec_defs slice_defs expect_def)
  then obtain a' s' where A: "dir_append_dir vec_ops demo_paths demo_other demo_dir demo_disk = (Ok (), a', s')"
    by (metis prod.collapse)
  have "da_root demo_dir \<noteq> da_root demo_other" "\<forall>e\<in>set (entries (da_array demo_other)). \<not> dirs demo_disk (pf_path (entry_disk e))"
    by simp_all
  from append_dir_loses_chunks [OF prefix_roundtrip this A]
  have "length (entries (da_array a')) = 3" "entry_abs prefix_ops plainfile_disk (entry_new (Plainfile [''t'', ''w'']) BincodeCoder) s' = None"
    by (simp_all add: join_def is_loaded_iff)
  with A show ?thesis by blast
qed

theorem append_dir_then_update_root_witness:
  "\<exists>a' s' a''. dir_append_dir vec_ops demo_paths demo_other demo_dir demo_disk = (Ok (), a', s') \<and>
    update_root demo_paths [''r''] a' = (Ok (), a'') \<and>
    array_represents vec_ops prefix_ops plainfile_disk (da_array a'') s' [[10, 11], [12], [13]]"
proof -
  have "fst (dir_append_dir vec_ops demo_paths demo_other demo_dir demo_disk) = Ok ()"
    by (simp add: dir_append_dir_def move_chunk_def file_name_def join_def fs_rename_def fs_rename_file_def parent_def
        dir_merge_def array_merge_def vec_ops_def vec_defs slice_defs expect_def)
  then obtain a' s' where A: "dir_append_dir vec_ops demo_paths demo_other demo_dir demo_disk = (Ok (), a', s')"
    by (metis prod.collapse)
  from append_dir_then_update_root [OF prefix_roundtrip demo_dir_represents _ _ _ A] A show ?thesis
    by (simp add: name_of_def file_name_def) blast
qed

theorem dir_delete_removes_files_witness:
  "\<exists>s'. dir_delete vec_ops demo_paths 3 demo_dir demo_disk = (Ok (Some ()), s') \<and>
    files s' [''r'', ''u''] = None \<and> files s' [''r'', ''meta.dat''] = Some [] \<and> dirs s' [''r'']"
proof -
  have "distinct (array_sites pf_path (da_array demo_dir))" by (simp add: array_sites_def)
  from dir_delete_removes_files [OF prefix_roundtrip demo_dir_represents(1,2) this, of meta_file] show ?thesis
    by (auto simp: chunks_len_def array_sites_def join_def meta_file_def numeral_3_eq_3 simp del: dir_delete_chunks.simps)
qed

theorem dir_append_keeps_witness:
  "case dir_append vec_ops prefix_ops plainfile_disk demo_paths BincodeCoder ''n'' [7] demo_dir demo_disk of
     (r, a', s') \<Rightarrow> array_synced prefix_ops plainfile_disk (da_array a') s' \<and> dir_layout a'"
proof -
  have "\<forall>e\<in>set (entries (da_array demo_dir)). name_of (pf_path (entry_disk e)) \<noteq> ''n''"
    by (simp add: name_of_def file_name_def)
  then have "case dir_append vec_ops prefix_ops plainfile_disk demo_paths BincodeCoder ''n'' [7] demo_dir demo_disk of (r, a', s') \<Rightarrow>
    array_synced prefix_ops plainfile_disk (da_array a') s' \<and> dir_layout a' \<and>
    ((r = Ok () \<and> array_represents vec_ops prefix_ops plainfile_disk (da_array a') s' ([[10, 11], [12]] @ [[7]])) \<or>
     (\<exists>x. r = Err (WriteErr x) \<and> a' = demo_dir \<and> array_represents vec_ops prefix_ops plainfile_disk (da_array demo_dir) s' [[10, 11], [12]]))"
    by (intro dir_append_keeps [OF prefix_roundtrip demo_dir_represents(1-3)]) simp_all
  then show ?thesis by (auto split: prod.splits)
qed

text \<open>A coder for the array itself: it knows one array and refuses the others.\<close>

definition one_dir_ops :: "(unit, (nat list, byte, plainfile, bincode_coder) dir_array, unit) coder_ops" where
  "one_dir_ops = \<lparr>c_pieces = (\<lambda>_ v. if v = serialized demo_dir then ([[1]], None) else ([], Some ())),
     c_write_io = (\<lambda>_. ()), c_from_io = (\<lambda>_. ()), c_parse = (\<lambda>_ b. if b = [1] then Ok (serialized demo_dir) else Err ())\<rparr>"

theorem save_then_load_witness:
  "\<exists>s'. dir_save one_dir_ops plainfile_disk demo_paths () demo_dir demo_disk = (Ok (), s') \<and>
    dir_load one_dir_ops plainfile_disk demo_paths () [''r''] s' = (Ok (serialized demo_dir), s') \<and>
    array_represents vec_ops prefix_ops plainfile_disk (da_array (serialized demo_dir)) s' [[10, 11], [12]]"
proof -
  have "coder_roundtrip one_dir_ops" by (simp add: coder_roundtrip_def accepts_def encoding_def one_dir_ops_def)
  moreover have "accepts one_dir_ops () (serialized demo_dir)" by (simp add: accepts_def one_dir_ops_def)
  moreover have "file_writable (join (da_root demo_dir) meta_file) demo_disk" by (simp add: file_writable_def join_def parent_def)
  moreover have "join (da_root demo_dir) meta_file \<notin> set (array_sites pf_path (da_array demo_dir))"
    by (simp add: array_sites_def join_def meta_file_def)
  ultimately show ?thesis
    using save_then_load [OF _ prefix_roundtrip demo_dir_represents(1,2)] by auto
qed

end
