(* ===== verification/Async_Once.thy ===== *)
theory Async_Once
  imports Once_Cell
begin

text \<open>
  \<open>AsyncOnceLock\<close> and \<open>TryInitFuture\<close> (\<open>src/utils/sync.rs\<close>): a cell that several tasks may try to
  initialize at the same time, one of them running the initializer and the others waiting for it.
  A future is its phase; what it does under one hold of the lock (or without it) is one segment,
  and \<open>poll\<close> runs segments until it returns. The tasks of a program are a state machine whose
  actions are single segments, so every interleaving the lock permits is a run of it. The
  initializing future of the caller is a parameter.
\<close>

section \<open>The cell and the futures\<close>

record ('v, 'k) init_cell =
  ic_inner :: "'v once_cell"
  ic_initializing :: bool
  ic_wakers :: "'k list"
  ic_poisoned :: bool

text \<open>The caller's \<open>F\<close>: the future \<open>f()\<close> returns, and one \<open>poll\<close> of it (\<open>None\<close> is pending).\<close>

record ('f, 'v, 'e) init_fn =
  if_start :: 'f
  if_poll :: "'f \<Rightarrow> ('v, 'e) result option \<times> 'f"

text \<open>\<open>Locking\<close> is \<open>create\<close> between its first look at the cell and taking the lock.\<close>

datatype ('f, 'v) phase = Creating | Locking | Initialized 'v | Initializing 'f | Waiting nat

datatype ('v, 'e) outcome = Continue | Return "('v, 'e) result option" | Panicked

definition lock_new :: "('v, 'k) init_cell" where
  "lock_new = \<lparr>ic_inner = oc_new, ic_initializing = False, ic_wakers = [], ic_poisoned = False\<rparr>"

definition lock_new_with :: "'v option \<Rightarrow> ('v, 'k) init_cell" where
  "lock_new_with value = (case value of None \<Rightarrow> lock_new | Some v \<Rightarrow> lock_new\<lparr>ic_inner := snd (oc_set v oc_new)\<rparr>)"

text \<open>\<open>Clone\<close> copies the value and starts an empty queue.\<close>

definition lock_clone :: "('v, 'k) init_cell \<Rightarrow> ('v, 'k) init_cell" where
  "lock_clone c = \<lparr>ic_inner = ic_inner c, ic_initializing = False, ic_wakers = [], ic_poisoned = False\<rparr>"

definition lock_get :: "('v, 'k) init_cell \<Rightarrow> 'v option" where
  "lock_get c = oc_get (ic_inner c)"

definition lock_set :: "'v \<Rightarrow> ('v, 'k) init_cell \<Rightarrow> (unit, 'v) result \<times> ('v, 'k) init_cell" where
  "lock_set v c = (case oc_set v (ic_inner c) of (r, i) \<Rightarrow> (r, c\<lparr>ic_inner := i\<rparr>))"

definition lock_take :: "('v, 'k) init_cell \<Rightarrow> 'v option \<times> ('v, 'k) init_cell" where
  "lock_take c = (case oc_take (ic_inner c) of (v, i) \<Rightarrow> (v, c\<lparr>ic_inner := i\<rparr>))"

definition lock_into_inner :: "('v, 'k) init_cell \<Rightarrow> 'v option" where
  "lock_into_inner c = oc_into_inner (ic_inner c)"

text \<open>\<open>get_or_init\<close> calls \<open>f\<close> always, sets, and takes what is there.\<close>

definition lock_get_or_init ::
  "('s \<Rightarrow> 'v \<times> 's) \<Rightarrow> ('v, 'k) init_cell \<Rightarrow> 's \<Rightarrow> ('v, unit) result \<times> ('v, 'k) init_cell \<times> 's" where
  "lock_get_or_init f c s =
     (case f s of (v, s') \<Rightarrow> case lock_set v c of (_, c') \<Rightarrow> (unwrap_opt (lock_get c'), c', s'))"

definition async_once_ops :: "(('v, 'k) init_cell, 'v, 's) once_ops" where
  "async_once_ops = \<lparr>o_new = lock_new, o_get = lock_get, o_set = lock_set, o_get_or_init = lock_get_or_init,
     o_into_inner = lock_into_inner, o_take = lock_take\<rparr>"

lemmas lock_defs = lock_new_def lock_get_def lock_set_def lock_take_def lock_into_inner_def lock_get_or_init_def

interpretation async_once: once async_once_ops "\<lambda>_. True"
  by unfold_locales (auto simp: async_once_ops_def lock_defs oc_defs unwrap_opt_def split: option.splits prod.splits)

section \<open>One segment\<close>

text \<open>
  \<open>segment F k ph c\<close>: what the future in phase \<open>ph\<close> with waker \<open>k\<close> does next, its new phase, the
  new cell and the wakers it has called. A panic while the lock is held poisons it.
\<close>

definition lock_segment ::
  "('f, 'v, 'e) init_fn \<Rightarrow> 'k \<Rightarrow> ('v, 'k) init_cell \<Rightarrow> ('v, 'e) outcome \<times> ('f, 'v) phase \<times> ('v, 'k) init_cell \<times> 'k list" where
  "lock_segment F k c =
     (if ic_poisoned c then (Panicked, Locking, c, [])
      else if ic_initializing c then
        (Return None, Waiting (length (ic_wakers c)), c\<lparr>ic_wakers := ic_wakers c @ [k]\<rparr>, [])
      else (case lock_get c of
          Some v \<Rightarrow> (Continue, Initialized v, c, [])
        | None \<Rightarrow> (Continue, Initializing (if_start F), c\<lparr>ic_initializing := True\<rparr>, [])))"

definition init_segment ::
  "('f, 'v, 'e) init_fn \<Rightarrow> 'f \<Rightarrow> ('v, 'k) init_cell \<Rightarrow> ('v, 'e) outcome \<times> ('f, 'v) phase \<times> ('v, 'k) init_cell \<times> 'k list" where
  "init_segment F f c =
     (case if_poll F f of
        (None, f') \<Rightarrow> (Return None, Initializing f', c, [])
      | (Some Panic, f') \<Rightarrow> (Panicked, Initializing f', c, [])
      | (Some r, f') \<Rightarrow>
          if ic_poisoned c then (Panicked, Initializing f', c, [])
          else (let c1 = c\<lparr>ic_initializing := False, ic_wakers := []\<rparr> in
            case r of
              Ok v \<Rightarrow>
                (case lock_get_or_init (\<lambda>s. (v, s)) c1 () of
                   (Ok x, c2, _) \<Rightarrow> (Continue, Initialized x, c2, ic_wakers c)
                 | (_, c2, _) \<Rightarrow> (Panicked, Initializing f', c2\<lparr>ic_poisoned := True\<rparr>, ic_wakers c))
            | _ \<Rightarrow> (Return (Some r), Initializing f', c1, ic_wakers c)))"

definition wait_segment ::
  "('f, 'v, 'e) init_fn \<Rightarrow> 'k \<Rightarrow> nat \<Rightarrow> ('v, 'k) init_cell \<Rightarrow> ('v, 'e) outcome \<times> ('f, 'v) phase \<times> ('v, 'k) init_cell \<times> 'k list" where
  "wait_segment F k pos c =
     (if ic_poisoned c then (Panicked, Waiting pos, c, [])
      else if ic_initializing c then
        (if pos < length (ic_wakers c) then (Return None, Waiting pos, c\<lparr>ic_wakers := (ic_wakers c)[pos := k]\<rparr>, [])
         else (Panicked, Waiting pos, c\<lparr>ic_poisoned := True\<rparr>, []))
      else (case lock_get c of
          Some v \<Rightarrow> (Continue, Initialized v, c, [])
        | None \<Rightarrow> (Continue, Initializing (if_start F), c\<lparr>ic_initializing := True\<rparr>, [])))"

fun segment ::
  "('f, 'v, 'e) init_fn \<Rightarrow> 'k \<Rightarrow> ('f, 'v) phase \<Rightarrow> ('v, 'k) init_cell \<Rightarrow>
     ('v, 'e) outcome \<times> ('f, 'v) phase \<times> ('v, 'k) init_cell \<times> 'k list" where
  "segment F k Creating c =
     (case lock_get c of Some v \<Rightarrow> (Continue, Initialized v, c, []) | None \<Rightarrow> (Continue, Locking, c, []))"
| "segment F k Locking c = lock_segment F k c"
| "segment F k (Initialized v) c = (Return (Some (Ok v)), Initialized v, c, [])"
| "segment F k (Initializing f) c = init_segment F f c"
| "segment F k (Waiting pos) c = wait_segment F k pos c"

text \<open>\<open>poll\<close>: segments until one returns. Every \<open>Continue\<close> goes to a later phase.\<close>

fun stage :: "('f, 'v) phase \<Rightarrow> nat" where
  "stage Creating = 4"
| "stage Locking = 3"
| "stage (Waiting _) = 3"
| "stage (Initializing _) = 2"
| "stage (Initialized _) = 1"

lemma segment_continue: "segment F k ph c = (Continue, ph', c', ws) \<Longrightarrow> stage ph' < stage ph"
  by (cases ph)
    (auto simp: lock_segment_def init_segment_def wait_segment_def Let_def
      split: if_splits option.splits result.splits prod.splits)

function poll ::
  "('f, 'v, 'e) init_fn \<Rightarrow> 'k \<Rightarrow> ('f, 'v) phase \<Rightarrow> ('v, 'k) init_cell \<Rightarrow>
     ('v, 'e) outcome \<times> ('f, 'v) phase \<times> ('v, 'k) init_cell \<times> 'k list" where
  "poll F k ph c =
     (case segment F k ph c of
        (Continue, ph1, c1, ws) \<Rightarrow> (case poll F k ph1 c1 of (r, ph2, c2, ws2) \<Rightarrow> (r, ph2, c2, ws @ ws2))
      | r \<Rightarrow> r)"
  by pat_completeness auto
termination by (relation "measure (\<lambda>(F, k, ph, c). stage ph)") (auto intro: segment_continue [OF sym])

declare poll.simps [simp del]

lemma poll_never_continues: "fst (poll F k ph c) \<noteq> Continue"
proof (induction F k ph c rule: poll.induct)
  case (1 F k ph c)
  show ?case
  proof (cases "segment F k ph c")
    case (fields r ph1 c1 ws)
    with 1 show ?thesis by (subst poll.simps) (cases r; force split: prod.splits)
  qed
qed

text \<open>A lone future whose initializer completes at once: what \<open>get_or_try_init(..).await\<close> gives.\<close>

definition ready_fn :: "('v, 'e) result \<Rightarrow> (unit, 'v, 'e) init_fn" where
  "ready_fn r = \<lparr>if_start = (), if_poll = (\<lambda>_. (Some r, ()))\<rparr>"

definition get_or_try_init ::
  "('v, 'e) result \<Rightarrow> ('v, unit) init_cell \<Rightarrow> ('v, 'e) result \<times> ('v, unit) init_cell" where
  "get_or_try_init r c =
     (case poll (ready_fn r) () Creating c of
        (Return (Some x), _, c', _) \<Rightarrow> (x, c')
      | (_, _, c', _) \<Rightarrow> (Panic, c'))"

definition idle :: "('v, 'k) init_cell \<Rightarrow> bool" where
  "idle c \<longleftrightarrow> \<not> ic_initializing c \<and> \<not> ic_poisoned c \<and> ic_wakers c = []"

lemma get_or_try_init_full: "lock_get c = Some v \<Longrightarrow> get_or_try_init r c = (Ok v, c)"
  by (simp add: get_or_try_init_def poll.simps)

lemma get_or_try_init_empty:
  assumes "lock_get c = None" and "idle c"
  shows "get_or_try_init (Ok v) c = (Ok v, c\<lparr>ic_inner := Some v\<rparr>)"
    and "get_or_try_init (Err e) c = (Err e, c)"
  using assms
  by (cases c; simp add: get_or_try_init_def poll.simps [of _ _ Creating] poll.simps [of _ _ Locking]
      poll.simps [of _ _ "Initializing _"] poll.simps [of _ _ "Initialized _"] lock_segment_def
      init_segment_def ready_fn_def idle_def lock_get_or_init_def lock_set_def lock_get_def oc_defs unwrap_opt_def)+

section \<open>Tasks sharing a cell\<close>

text \<open>
  A task makes one call, with an initializer of its own, owns the future it returns, and its waker is its
  number. A finished task has its result (\<open>Panic\<close> for a
  task that panicked); \<open>woken\<close> collects the tasks whose wakers were called.
\<close>

record ('f, 'v, 'e) tasks =
  tk_cell :: "('v, nat) init_cell"
  tk_phase :: "nat \<Rightarrow> ('f, 'v) phase option"
  tk_result :: "nat \<Rightarrow> ('v, 'e) result option"
  tk_woken :: "nat set"

definition tasks_start :: "('f, 'v, 'e) tasks" where
  "tasks_start = \<lparr>tk_cell = lock_new, tk_phase = (\<lambda>_. None), tk_result = (\<lambda>_. None), tk_woken = {}\<rparr>"

datatype action = Spawn nat | Run nat | Cancel nat

definition run_task :: "('f, 'v, 'e) init_fn \<Rightarrow> nat \<Rightarrow> ('f, 'v) phase \<Rightarrow> ('f, 'v, 'e) tasks \<Rightarrow> ('f, 'v, 'e) tasks" where
  "run_task F i ph s =
     (case segment F i ph (tk_cell s) of
        (out, ph', c', ws) \<Rightarrow>
          (let s1 = s\<lparr>tk_cell := c', tk_woken := tk_woken s \<union> set ws\<rparr> in
           case out of
             Continue \<Rightarrow> s1\<lparr>tk_phase := (tk_phase s)(i := Some ph')\<rparr>
           | Return None \<Rightarrow> s1\<lparr>tk_phase := (tk_phase s)(i := Some ph')\<rparr>
           | Return (Some r) \<Rightarrow> s1\<lparr>tk_phase := (tk_phase s)(i := None), tk_result := (tk_result s)(i := Some r)\<rparr>
           | Panicked \<Rightarrow> s1\<lparr>tk_phase := (tk_phase s)(i := None), tk_result := (tk_result s)(i := Some Panic)\<rparr>))"

fun act :: "(nat \<Rightarrow> ('f, 'v, 'e) init_fn) \<Rightarrow> action \<Rightarrow> ('f, 'v, 'e) tasks \<Rightarrow> ('f, 'v, 'e) tasks option" where
  "act F (Spawn i) s =
     (if tk_phase s i = None \<and> tk_result s i = None
      then Some (s\<lparr>tk_phase := (tk_phase s)(i := Some Creating)\<rparr>) else None)"
| "act F (Run i) s = map_option (\<lambda>ph. run_task (F i) i ph s) (tk_phase s i)"
| "act F (Cancel i) s =
     (if tk_phase s i = None then None else Some (s\<lparr>tk_phase := (tk_phase s)(i := None)\<rparr>))"

inductive reaches ::
  "(nat \<Rightarrow> ('f, 'v, 'e) init_fn) \<Rightarrow> (action \<Rightarrow> bool) \<Rightarrow> ('f, 'v, 'e) tasks \<Rightarrow> ('f, 'v, 'e) tasks \<Rightarrow> bool"
  for F :: "nat \<Rightarrow> ('f, 'v, 'e) init_fn" and allowed :: "action \<Rightarrow> bool" and s :: "('f, 'v, 'e) tasks" where
  here: "reaches F allowed s s"
| step: "reaches F allowed s t \<Longrightarrow> allowed a \<Longrightarrow> act F a t = Some t' \<Longrightarrow> reaches F allowed s t'"

text \<open>A list of actions performed in order.\<close>

fun acts :: "(nat \<Rightarrow> ('f, 'v, 'e) init_fn) \<Rightarrow> action list \<Rightarrow> ('f, 'v, 'e) tasks \<Rightarrow> ('f, 'v, 'e) tasks option" where
  "acts F [] s = Some s"
| "acts F (a # as) s = Option.bind (act F a s) (acts F as)"

lemma reaches_trans: "reaches F A t u \<Longrightarrow> reaches F A s t \<Longrightarrow> reaches F A s u"
  by (induction rule: reaches.induct) (auto intro: reaches.step)

lemma acts_reaches: "acts F as s = Some t \<Longrightarrow> \<forall>a\<in>set as. A a \<Longrightarrow> reaches F A s t"
proof (induction as arbitrary: s)
  case (Cons a as)
  then obtain u where u: "act F a s = Some u" "acts F as u = Some t" by (auto simp: bind_eq_Some_conv)
  have "reaches F A s u" using reaches.step [OF reaches.here _ u(1)] Cons.prems(2) by simp
  moreover have "reaches F A u t" using Cons.IH [OF u(2)] Cons.prems(2) by simp
  ultimately show ?case by (rule reaches_trans [rotated])
qed (simp add: reaches.here)

text \<open>An invariant of the runs: true at the start, kept by spawning, by a segment, by cancelling.\<close>

lemma reaches_invariant:
  assumes "reaches F A s t" and "I s"
    and "\<And>t i. I t \<Longrightarrow> A (Spawn i) \<Longrightarrow> tk_phase t i = None \<Longrightarrow> tk_result t i = None \<Longrightarrow>
      I (t\<lparr>tk_phase := (tk_phase t)(i := Some Creating)\<rparr>)"
    and "\<And>t i ph. I t \<Longrightarrow> A (Run i) \<Longrightarrow> tk_phase t i = Some ph \<Longrightarrow> I (run_task (F i) i ph t)"
    and "\<And>t i. I t \<Longrightarrow> A (Cancel i) \<Longrightarrow> tk_phase t i \<noteq> None \<Longrightarrow> I (t\<lparr>tk_phase := (tk_phase t)(i := None)\<rparr>)"
  shows "I t"
  using assms(1,2)
proof (induction rule: reaches.induct)
  case (step t a t')
  then show ?case using assms(3-5) by (cases a) (auto split: if_splits)
qed

section \<open>What one segment does\<close>

lemmas segment_defs = lock_segment_def init_segment_def wait_segment_def lock_get_or_init_def lock_set_def lock_get_def
  oc_defs unwrap_opt_def Let_def

text \<open>A value that is in the cell stays, and a future that says it is initialized has the cell's value.\<close>

lemma segment_value:
  assumes "segment F k ph c = (out, ph', c', ws)" and "\<forall>v. ph = Initialized v \<longrightarrow> ic_inner c = Some v"
  shows "(\<forall>v. ic_inner c = Some v \<longrightarrow> ic_inner c' = Some v) \<and>
    (\<forall>v. ph' = Initialized v \<longrightarrow> ic_inner c' = Some v) \<and> (\<forall>v. out = Return (Some (Ok v)) \<longrightarrow> ic_inner c' = Some v)"
  using assms
  by (cases ph) (auto simp: segment_defs split: if_splits option.splits result.splits prod.splits)

text \<open>
  The flag: it is set by the future that starts initializing, and taken back by the one that was.
\<close>

lemma segment_flag:
  assumes "segment F k ph c = (out, ph', c', ws)"
  shows "(\<exists>f. ph' = Initializing f) \<and> (\<forall>f. ph \<noteq> Initializing f) \<Longrightarrow> \<not> ic_initializing c \<and> ic_initializing c' \<and> out = Continue"
    and "\<forall>f. ph \<noteq> Initializing f \<Longrightarrow> ic_initializing c \<Longrightarrow> ic_initializing c'"
    and "ph = Initializing f \<Longrightarrow> out = Return None \<Longrightarrow> ic_initializing c' = ic_initializing c"
    and "ph = Initializing f \<Longrightarrow> out = Continue \<Longrightarrow> \<exists>v. ph' = Initialized v"
  using assms
  by (cases ph; auto simp: segment_defs split: if_splits option.splits result.splits prod.splits)+

section \<open>Agreement and mutual exclusion\<close>

lemma run_task_cases:
  obtains (live) ph' c' ws where "\<exists>out. segment F i ph (tk_cell s) = (out, ph', c', ws) \<and> (out = Continue \<or> out = Return None)"
      "run_task F i ph s = s\<lparr>tk_cell := c', tk_woken := tk_woken s \<union> set ws, tk_phase := (tk_phase s)(i := Some ph')\<rparr>"
    | (finished) r ph' c' ws where "segment F i ph (tk_cell s) = (Return (Some r), ph', c', ws)"
      "run_task F i ph s = s\<lparr>tk_cell := c', tk_woken := tk_woken s \<union> set ws,
         tk_phase := (tk_phase s)(i := None), tk_result := (tk_result s)(i := Some r)\<rparr>"
    | (panicked) ph' c' ws where "segment F i ph (tk_cell s) = (Panicked, ph', c', ws)"
      "run_task F i ph s = s\<lparr>tk_cell := c', tk_woken := tk_woken s \<union> set ws,
         tk_phase := (tk_phase s)(i := None), tk_result := (tk_result s)(i := Some Panic)\<rparr>"
proof -
  obtain out ph' c' ws where S: "segment F i ph (tk_cell s) = (out, ph', c', ws)" by (metis prod_cases4)
  show thesis
  proof (cases out)
    case (Return r)
    then show thesis using S by (cases r) (auto simp: run_task_def Let_def intro: live finished)
  qed (use S in \<open>auto simp: run_task_def Let_def intro: live panicked\<close>)
qed

text \<open>Every value anybody has seen is the value of the cell.\<close>

definition agreed :: "('f, 'v, 'e) tasks \<Rightarrow> bool" where
  "agreed s \<longleftrightarrow>
     (\<forall>i v. tk_phase s i = Some (Initialized v) \<longrightarrow> ic_inner (tk_cell s) = Some v) \<and>
     (\<forall>i v. tk_result s i = Some (Ok v) \<longrightarrow> ic_inner (tk_cell s) = Some v)"

lemma agreed_run:
  assumes "agreed s" and "tk_phase s i = Some ph"
  shows "agreed (run_task F i ph s)"
proof -
  have ph: "\<forall>v. ph = Initialized v \<longrightarrow> ic_inner (tk_cell s) = Some v" using assms by (auto simp: agreed_def)
  show ?thesis
  proof (cases rule: run_task_cases [of F i ph s])
    case (live ph' c' ws)
    then obtain out where "segment F i ph (tk_cell s) = (out, ph', c', ws)" by blast
    from assms(1) segment_value [OF this ph] show ?thesis unfolding live(2) by (auto simp: agreed_def)
  next
    case (finished r ph' c' ws)
    then show ?thesis using assms(1) segment_value [OF finished(1) ph] by (auto simp: agreed_def)
  next
    case (panicked ph' c' ws)
    then show ?thesis using assms(1) segment_value [OF panicked(1) ph] by (auto simp: agreed_def)
  qed
qed

lemma reaches_agreed: "reaches F A s t \<Longrightarrow> agreed s \<Longrightarrow> agreed t"
  by (erule (1) reaches_invariant) (simp_all add: agreed_run, auto simp: agreed_def)

text \<open>At most one task is running the initializer, and the flag is set while it does.\<close>

definition exclusive :: "('f, 'v, 'e) tasks \<Rightarrow> bool" where
  "exclusive s \<longleftrightarrow>
     (\<forall>i f. tk_phase s i = Some (Initializing f) \<longrightarrow> ic_initializing (tk_cell s)) \<and>
     (\<forall>i j f g. tk_phase s i = Some (Initializing f) \<longrightarrow> tk_phase s j = Some (Initializing g) \<longrightarrow> i = j)"

lemma exclusive_run:
  assumes ex: "exclusive s" and ph: "tk_phase s i = Some ph"
  shows "exclusive (run_task F i ph s)"
proof -
  have other: "\<not> (\<exists>f. ph = Initializing f)" if "tk_phase s j = Some (Initializing g)" "j \<noteq> i" for j g
    using ex ph that by (auto simp: exclusive_def)
  have flag: "ic_initializing (tk_cell s)" if "tk_phase s j = Some (Initializing g)" for j g
    using ex that by (auto simp: exclusive_def)
  show ?thesis
  proof (cases rule: run_task_cases [of F i ph s])
    case (live ph' c' ws)
    then obtain out where S: "segment F i ph (tk_cell s) = (out, ph', c', ws)" "out = Continue \<or> out = Return None" by blast
    note SF = segment_flag [OF S(1)]
    show ?thesis
    proof (cases "\<exists>f. ph = Initializing f")
      case True
      then obtain f where f: "ph = Initializing f" by blast
      with SF(3,4) [OF f] S(2) flag [of i f] ph have "(\<exists>v. ph' = Initialized v) \<or> ic_initializing c'" by auto
      moreover have "tk_phase s j \<noteq> Some (Initializing g)" if "j \<noteq> i" for j g using other [of j g] that f by blast
      ultimately show ?thesis unfolding live(2) exclusive_def by auto
    next
      case False
      with SF(1,2) flag have "(\<exists>g. ph' = Initializing g) \<longrightarrow> ic_initializing c' \<and> \<not> ic_initializing (tk_cell s)"
        "\<And>j g. tk_phase s j = Some (Initializing g) \<Longrightarrow> ic_initializing c'" by blast+
      with ex flag show ?thesis unfolding live(2) exclusive_def by auto
    qed
  next
    case (finished r ph' c' ws)
    then show ?thesis using ex other flag segment_flag(2) [OF finished(1)] unfolding exclusive_def by auto
  next
    case (panicked ph' c' ws)
    then show ?thesis using ex other flag segment_flag(2) [OF panicked(1)] unfolding exclusive_def by auto
  qed
qed

lemma reaches_exclusive: "reaches F A s t \<Longrightarrow> exclusive s \<Longrightarrow> exclusive t"
  by (erule (1) reaches_invariant) (simp_all add: exclusive_run, auto simp: exclusive_def)

section \<open>Nobody waits for ever\<close>

text \<open>
  With an initializer that cannot fail and no task cancelled: nothing panics, the flag has an owner,
  and a waiting task is in the queue at its own position or has been woken.
\<close>

definition infallible :: "('f, 'v, 'e) init_fn \<Rightarrow> bool" where
  "infallible F \<longleftrightarrow> (\<forall>f r f'. if_poll F f = (Some r, f') \<longrightarrow> is_ok r)"

definition not_cancel :: "action \<Rightarrow> bool" where
  "not_cancel a \<longleftrightarrow> (\<forall>i. a \<noteq> Cancel i)"

definition owned :: "(nat \<Rightarrow> ('f, 'v) phase option) \<Rightarrow> bool" where
  "owned P \<longleftrightarrow> (\<exists>i f. P i = Some (Initializing f))"

lemma owned_simps [simp]: "owned (P(i := Some (Initializing f)))"
  by (auto simp: owned_def)

lemma owned_other:
  "owned P \<Longrightarrow> \<forall>f. P i \<noteq> Some (Initializing f) \<Longrightarrow> owned (P(i := x))"
  by (auto simp: owned_def)

definition attended :: "('f, 'v, 'e) tasks \<Rightarrow> bool" where
  "attended s \<longleftrightarrow>
     \<not> ic_poisoned (tk_cell s) \<and> (\<forall>i. tk_result s i \<noteq> Some Panic) \<and>
     (ic_initializing (tk_cell s) \<longrightarrow> ic_inner (tk_cell s) = None \<and> owned (tk_phase s)) \<and>
     (\<forall>i pos. tk_phase s i = Some (Waiting pos) \<longrightarrow>
        (ic_initializing (tk_cell s) \<and> pos < length (ic_wakers (tk_cell s)) \<and> ic_wakers (tk_cell s) ! pos = i) \<or>
        (ic_inner (tk_cell s) \<noteq> None \<and> i \<in> tk_woken s))"

lemma attended_Creating:
  assumes "attended s" "tk_phase s i = Some Creating"
  shows "attended (run_task F i Creating s)"
  using assms
  by (auto simp: attended_def run_task_def lock_get_def oc_get_def owned_other split: option.splits)

lemma attended_Locking:
  assumes a: "attended s" "tk_phase s i = Some Locking"
  shows "attended (run_task F i Locking s)"
proof (cases "ic_initializing (tk_cell s)")
  case True
  then show ?thesis using a
    by (auto simp: attended_def run_task_def lock_segment_def nth_append owned_other)
next
  case False
  then show ?thesis using a
    by (auto simp: attended_def run_task_def lock_segment_def lock_get_def oc_get_def split: option.splits)
qed

lemma attended_Initialized:
  assumes "attended s" "tk_phase s i = Some (Initialized v)"
  shows "attended (run_task F i (Initialized v) s)"
  using assms by (auto simp: attended_def run_task_def Let_def owned_other)

lemma attended_Waiting:
  assumes a: "attended s" "tk_phase s i = Some (Waiting pos)"
  shows "attended (run_task F i (Waiting pos) s)"
proof (cases "ic_initializing (tk_cell s)")
  case True
  then have "pos < length (ic_wakers (tk_cell s))" "ic_wakers (tk_cell s) ! pos = i" "\<not> ic_poisoned (tk_cell s)"
    using a by (auto simp: attended_def)
  then have "run_task F i (Waiting pos) s = s"
    using True a(2) by (simp add: run_task_def wait_segment_def fun_upd_idem list_update_same_conv)
  then show ?thesis using a(1) by simp
next
  case False
  then obtain v where "ic_inner (tk_cell s) = Some v" using a by (auto simp: attended_def)
  then show ?thesis using a False
    by (auto simp: attended_def run_task_def wait_segment_def lock_get_def oc_get_def)
qed

lemma attended_Initializing:
  assumes a: "attended s" "tk_phase s i = Some (Initializing f)" and ex: "exclusive s" and F: "infallible F"
  shows "attended (run_task F i (Initializing f) s)"
proof -
  have flag: "ic_initializing (tk_cell s)" "ic_inner (tk_cell s) = None" "\<not> ic_poisoned (tk_cell s)"
    using a ex by (auto simp: attended_def exclusive_def)
  obtain r f' where P: "if_poll F f = (r, f')" by fastforce
  show ?thesis
  proof (cases r)
    case None
    then show ?thesis using a P by (auto simp: attended_def run_task_def init_segment_def)
  next
    case (Some x)
    then obtain v where x: "x = Ok v" using F P by (auto simp: infallible_def is_ok_iff)
    have S: "segment F i (Initializing f) (tk_cell s) =
        (Continue, Initialized v, (tk_cell s)\<lparr>ic_initializing := False, ic_wakers := [], ic_inner := Some v\<rparr>, ic_wakers (tk_cell s))"
      using flag P Some x by (simp add: segment_defs)
    have "j \<in> set (ic_wakers (tk_cell s))" if "tk_phase s j = Some (Waiting pos)" for j pos
      using a(1) that flag(2) nth_mem [of pos "ic_wakers (tk_cell s)"] by (auto simp: attended_def)
    then show ?thesis using a flag S by (auto simp: attended_def run_task_def)
  qed
qed

lemma attended_run:
  assumes "attended s" "exclusive s" "infallible F" "tk_phase s i = Some ph"
  shows "attended (run_task F i ph s)"
  using assms attended_Creating attended_Locking attended_Initialized attended_Waiting attended_Initializing
  by (cases ph) auto

lemma reaches_attended:
  assumes "reaches F not_cancel s t" and "attended s" and "exclusive s" and F: "\<forall>i. infallible (F i)"
  shows "attended t \<and> exclusive t"
proof (rule reaches_invariant [OF assms(1), where I = "\<lambda>t. attended t \<and> exclusive t"])
  fix t :: "('a, 'b, 'c) tasks" and i
  assume "attended t \<and> exclusive t" "tk_phase t i = None"
  then show "attended (t\<lparr>tk_phase := (tk_phase t)(i := Some Creating)\<rparr>) \<and> exclusive (t\<lparr>tk_phase := (tk_phase t)(i := Some Creating)\<rparr>)"
    by (auto simp: attended_def exclusive_def owned_other)
qed (use assms in \<open>auto simp: attended_run exclusive_run not_cancel_def\<close>)

text \<open>Without failing initializers no task ends in an error.\<close>

lemma segment_no_error:
  assumes "infallible F"
  shows "segment F k ph c \<noteq> (Return (Some (Err e)), ph', c', ws)"
proof (cases ph)
  case (Initializing f)
  obtain r f' where "if_poll F f = (r, f')" by fastforce
  with assms Initializing show ?thesis
    by (cases r) (auto simp: segment_defs infallible_def is_ok_iff split: if_splits option.splits result.splits)
qed (auto simp: segment_defs split: if_splits option.splits)

lemma reaches_no_error:
  assumes "reaches F A tasks_start s" and "\<forall>i. infallible (F i)"
  shows "tk_result s k \<noteq> Some (Err e)"
proof -
  have "\<forall>k e. tk_result s k \<noteq> Some (Err e)"
  proof (rule reaches_invariant [OF assms(1), where I = "\<lambda>t. \<forall>k e. tk_result t k \<noteq> Some (Err e)"])
    fix t :: "('a, 'b, 'c) tasks" and i ph
    assume I: "\<forall>k e. tk_result t k \<noteq> Some (Err e)"
    from assms(2) have F: "infallible (F i)" by blast
    show "\<forall>k e. tk_result (run_task (F i) i ph t) k \<noteq> Some (Err e)"
    proof (cases rule: run_task_cases [of "F i" i ph t])
      case (finished r ph' c' ws)
      have "r \<noteq> Err e" for e using finished(1) segment_no_error [OF F] by fastforce
      with I show ?thesis unfolding finished(2) by simp
    qed (simp_all add: I)
  qed (simp_all add: tasks_start_def)
  then show ?thesis by blast
qed

section \<open>Properties\<close>

lemma start_ok: "agreed tasks_start" "exclusive tasks_start" "attended tasks_start"
  by (simp_all add: tasks_start_def agreed_def exclusive_def attended_def lock_new_def)

text \<open>
  C23: all tasks agree. However the segments of the tasks interleave, whatever the initializer each of
  them brings would give, with failing initializers and cancelled tasks, two tasks that return a value
  return the same one, which is the one in the cell; and at most one task is running its initializer at
  any time.
\<close>

theorem once_agreement:
  assumes "reaches F A tasks_start s"
  shows "(tk_result s i = Some (Ok v) \<longrightarrow> ic_inner (tk_cell s) = Some v) \<and>
    (tk_phase s i = Some (Initializing f) \<and> tk_phase s j = Some (Initializing g) \<longrightarrow> i = j)"
  using reaches_agreed [OF assms start_ok(1)] reaches_exclusive [OF assms start_ok(2)]
  by (auto simp: agreed_def exclusive_def)

text \<open>
  C24: with initializers that do not fail and no cancelled task, no task panics and nobody is
  forgotten: as long as a task waits, some task is running its initializer, or a value is there
  and the waiting task has been woken, and then its next \<open>poll\<close> returns the value. Neither condition can
  be dropped: see \<open>failed_init_stale_positions\<close> and what is shown of a cancelled initializer.
\<close>

theorem once_waiters_served:
  assumes "\<forall>i. infallible (F i)" and "reaches F not_cancel tasks_start s"
  shows "tk_result s i \<noteq> Some Panic \<and>
    (tk_phase s i = Some (Waiting pos) \<longrightarrow>
      (case ic_inner (tk_cell s) of
         None \<Rightarrow> \<exists>j f. tk_phase s j = Some (Initializing f)
       | Some v \<Rightarrow> i \<in> tk_woken s \<and> fst (poll (F i) i (Waiting pos) (tk_cell s)) = Return (Some (Ok v))))"
proof -
  have a: "attended s" using reaches_attended [OF assms(2) start_ok(3,2) assms(1)] by simp
  have "fst (poll (F i) i (Waiting pos) (tk_cell s)) = Return (Some (Ok v))" if "ic_inner (tk_cell s) = Some v" for v
    using a that
    by (auto simp: poll.simps [of _ _ "Waiting _"] poll.simps [of _ _ "Initialized _"] wait_segment_def attended_def
        lock_get_def oc_get_def)
  with a show ?thesis by (auto simp: attended_def owned_def split: option.split)
qed

text \<open>
  \<open>get_or_try_init\<close> on a cell nobody is initializing. A full cell returns its value and the
  initializer does not count; an empty one stores and returns the initializer's value, or returns
  its error and stays empty.
\<close>

theorem get_or_try_init_correct:
  assumes "idle c" and "r \<noteq> Panic"
  shows "get_or_try_init r c = (case lock_get c of
      Some v \<Rightarrow> (Ok v, c)
    | None \<Rightarrow> (case r of Ok v \<Rightarrow> (Ok v, c\<lparr>ic_inner := Some v\<rparr>) | _ \<Rightarrow> (r, c)))"
  using assms get_or_try_init_full get_or_try_init_empty by (cases r) (auto split: option.split)

text \<open>
  \<open>blocked W s\<close>: the flag is set and nobody owns it; every task has yet to look or waits at a position of
  the queue, none has ended, and those woken are \<open>W\<close>.
\<close>

definition blocked :: "nat set \<Rightarrow> ('f, 'v, 'e) tasks \<Rightarrow> bool" where
  "blocked W s \<longleftrightarrow> ic_initializing (tk_cell s) \<and> ic_inner (tk_cell s) = None \<and> \<not> ic_poisoned (tk_cell s) \<and> tk_woken s = W \<and>
     (\<forall>i ph. tk_phase s i = Some ph \<longrightarrow> ph = Creating \<or> ph = Locking \<or> (\<exists>pos < length (ic_wakers (tk_cell s)). ph = Waiting pos)) \<and>
     (\<forall>i. tk_result s i = None)"

lemma blocked_run:
  assumes "blocked W s" "tk_phase s i = Some ph"
  shows "blocked W (run_task F i ph s)"
proof -
  have ph: "ph = Creating \<or> ph = Locking \<or> (\<exists>pos < length (ic_wakers (tk_cell s)). ph = Waiting pos)"
    using assms by (auto simp: blocked_def)
  have c: "ic_initializing (tk_cell s)" "lock_get (tk_cell s) = None" "\<not> ic_poisoned (tk_cell s)"
    using assms(1) by (simp_all add: blocked_def lock_get_def oc_get_def)
  from ph show ?thesis
  proof (elim disjE exE conjE)
    assume "ph = Locking"
    with c assms(1) show ?thesis
      by (auto simp: run_task_def lock_segment_def blocked_def Let_def dest: less_SucI)
  qed (use c assms(1) in \<open>auto simp: run_task_def wait_segment_def blocked_def Let_def\<close>)
qed

lemma blocked_reaches:
  assumes "reaches F A s t" "blocked W s"
  shows "blocked W t"
proof (rule reaches_invariant [OF assms(1), where I = "blocked W"])
  fix t :: "('a, 'b, 'c) tasks" and i
  assume "blocked W t"
  then show "blocked W (t\<lparr>tk_phase := (tk_phase t)(i := Some Creating)\<rparr>)"
    and "blocked W (t\<lparr>tk_phase := (tk_phase t)(i := None)\<rparr>)"
    by (simp_all add: blocked_def)
qed (use assms(2) in \<open>simp_all add: blocked_run\<close>)

text \<open>
  C27: dropping the future of a task that is initializing blocks the cell for good. From any state reached
  with initializers that do not fail, cancel the task that runs its initializer; whatever the tasks do
  from then on, old ones and new ones, none of them ends, with a value, an error or a panic, none starts
  its initializer, and no waker is called.
\<close>

theorem cancelled_initializer_blocks:
  assumes "\<forall>i. infallible (F i)" and "reaches F not_cancel tasks_start s"
    and "tk_phase s j = Some (Initializing f)" and "act F (Cancel j) s = Some s1" and "reaches F A s1 t"
  shows "tk_result t i = None \<and> tk_phase t i \<noteq> Some (Initializing g) \<and> tk_woken t = tk_woken s"
proof -
  have a: "attended s" "exclusive s" using reaches_attended [OF assms(2) start_ok(3,2) assms(1)] by simp_all
  have flag: "ic_initializing (tk_cell s)" "ic_inner (tk_cell s) = None" "\<not> ic_poisoned (tk_cell s)"
    using a assms(3) by (auto simp: attended_def exclusive_def)
  have "agreed s" by (rule reaches_agreed [OF assms(2) start_ok(1)])
  with flag(2) have phase: "tk_phase s k \<noteq> Some (Initialized v)" and result: "tk_result s k \<noteq> Some (Ok v)" for k v
    by (auto simp: agreed_def)
  have "tk_result s k \<noteq> Some (Err e)" for k e
    using reaches_no_error [OF assms(2,1)] by simp
  with result a(1) have none: "tk_result s k = None" for k
    by (cases "tk_result s k"; cases "the (tk_result s k)") (auto simp: attended_def)
  have "ph = Creating \<or> ph = Locking \<or> (\<exists>pos < length (ic_wakers (tk_cell s)). ph = Waiting pos)"
    if "tk_phase s k = Some ph" "k \<noteq> j" for k ph
    using that a phase [of k] assms(3) flag(2) by (cases ph) (auto simp: attended_def exclusive_def)
  moreover have "s1 = s\<lparr>tk_phase := (tk_phase s)(j := None)\<rparr>" using assms(3,4) by simp
  ultimately have "blocked (tk_woken s) s1" using flag none by (simp add: blocked_def)
  then have "blocked (tk_woken s) t" by (rule blocked_reaches [OF assms(5)])
  then show ?thesis by (auto simp: blocked_def)
qed

text \<open>An initializer that returns 7 on its second poll, and one that fails on its second poll.\<close>

abbreviation second_poll :: "(nat, string) result \<Rightarrow> (bool, nat, string) init_fn" where
  "second_poll r \<equiv> \<lparr>if_start = False, if_poll = (\<lambda>f. if f then (Some r, True) else (None, True))\<rparr>"

text \<open>
  a failed initialization makes the queue positions of the waiting tasks stale. Task 0 fails
  while tasks 1 and 2 wait; in the first run task 3 starts over, and the next \<open>poll\<close> of task 1
  indexes past the end of the new queue and panics, which poisons the lock; in the second run task
  4 has registered at position 0 in the meantime, task 1 overwrites its waker, and when the
  initialization ends task 4 is still waiting and was not woken.
\<close>

theorem failed_init_stale_positions:
  "(\<exists>s. acts (\<lambda>_. second_poll (Err ''x'')) [Spawn 0, Run 0, Run 0, Run 0, Spawn 1, Run 1, Run 1, Run 0,
       Spawn 3, Run 3, Run 3, Run 1] tasks_start = Some s \<and>
     tk_result s 1 = Some Panic \<and> ic_poisoned (tk_cell s)) \<and>
   (\<exists>s. acts (\<lambda>_. second_poll (Err ''x'')) [Spawn 0, Run 0, Run 0, Run 0, Spawn 1, Run 1, Run 1, Run 0,
       Spawn 3, Run 3, Run 3, Spawn 4, Run 4, Run 4, Run 1, Run 3, Run 3] tasks_start = Some s \<and>
     tk_phase s 4 = Some (Waiting 0) \<and> \<not> ic_initializing (tk_cell s) \<and> 4 \<notin> tk_woken s)"
  by (simp add: tasks_start_def run_task_def segment_defs lock_new_def)

text \<open>
  Three tasks with initializers of their own: that of task 0 fails, that of task 1 gives 8, that of
  task 2 would give 9.
\<close>

theorem once_agreement_witness:
  "let F = (\<lambda>i. second_poll (if i = 0 then Err ''x'' else Ok (7 + i))) in
   \<exists>s. acts F [Spawn 0, Run 0, Run 0, Run 0, Run 0, Spawn 1, Run 1, Run 1, Run 1, Spawn 2, Run 2, Run 2, Run 1,
         Run 1, Run 2, Run 2] tasks_start = Some s \<and>
     tk_result s 0 = Some (Err ''x'') \<and> tk_result s 1 = Some (Ok 8) \<and> tk_result s 2 = Some (Ok 8) \<and>
     ic_inner (tk_cell s) = Some 8"
proof -
  let ?F = "\<lambda>i. second_poll (if i = 0 then Err ''x'' else Ok (7 + i))"
  obtain s where s: "acts ?F [Spawn 0, Run 0, Run 0, Run 0, Run 0, Spawn 1, Run 1, Run 1, Run 1, Spawn 2, Run 2, Run 2,
      Run 1, Run 1, Run 2, Run 2] tasks_start = Some s"
    "tk_result s 0 = Some (Err ''x'')" "tk_result s 1 = Some (Ok 8)" "tk_result s 2 = Some (Ok 8)"
    by (simp add: tasks_start_def run_task_def segment_defs lock_new_def)
  have "reaches ?F (\<lambda>_. True) tasks_start s" using s(1) by (rule acts_reaches) simp
  from once_agreement [OF this, of 2 8] s show ?thesis by (simp add: Let_def)
qed

lemma second_poll_infallible: "infallible (second_poll (Ok v))"
  by (auto simp: infallible_def split: if_splits)

theorem once_waiters_served_witness:
  "\<exists>s. acts (\<lambda>_. second_poll (Ok 7)) [Spawn 0, Run 0, Run 0, Run 0, Spawn 1, Run 1, Run 1, Run 0] tasks_start = Some s \<and>
     tk_phase s 1 = Some (Waiting 0) \<and> 1 \<in> tk_woken s \<and>
     fst (poll (second_poll (Ok 7)) 1 (Waiting 0) (tk_cell s)) = Return (Some (Ok 7))"
proof -
  obtain s where s: "acts (\<lambda>_. second_poll (Ok 7)) [Spawn 0, Run 0, Run 0, Run 0, Spawn 1, Run 1, Run 1, Run 0] tasks_start = Some s"
    "tk_phase s 1 = Some (Waiting 0)" "ic_inner (tk_cell s) = Some 7"
    by (simp add: tasks_start_def run_task_def segment_defs lock_new_def)
  have "reaches (\<lambda>_. second_poll (Ok 7)) not_cancel tasks_start s"
    using s(1) by (rule acts_reaches) (simp add: not_cancel_def)
  moreover have "\<forall>i. infallible ((\<lambda>_. second_poll (Ok 7)) i)" by (simp add: second_poll_infallible)
  ultimately show ?thesis using once_waiters_served [of "\<lambda>_. second_poll (Ok 7)" s 1 0] s by auto
qed

theorem get_or_try_init_correct_witness:
  "get_or_try_init (Ok 3) (lock_new :: (nat, unit) init_cell) = (Ok 3 :: (nat, string) result, lock_new\<lparr>ic_inner := Some 3\<rparr>)"
  using get_or_try_init_correct [of "lock_new :: (nat, unit) init_cell" "Ok 3 :: (nat, string) result"]
  by (simp add: idle_def lock_defs oc_defs)

theorem cancelled_initializer_blocks_witness:
  "\<exists>s s1 t. acts (\<lambda>_. second_poll (Ok 7)) [Spawn 0, Run 0, Run 0, Run 0, Spawn 1, Run 1, Run 1] tasks_start = Some s \<and>
     act (\<lambda>_. second_poll (Ok 7)) (Cancel 0) s = Some s1 \<and>
     acts (\<lambda>_. second_poll (Ok 7)) [Run 1, Spawn 2, Run 2, Run 2, Run 1] s1 = Some t \<and>
     tk_phase t 1 = Some (Waiting 0) \<and> tk_result t 1 = None \<and> tk_woken t = tk_woken s"
proof -
  let ?F = "\<lambda>_. second_poll (Ok 7)"
  obtain s where s: "acts ?F [Spawn 0, Run 0, Run 0, Run 0, Spawn 1, Run 1, Run 1] tasks_start = Some s"
    "tk_phase s 0 = Some (Initializing True)"
    "s = \<lparr>tk_cell = \<lparr>ic_inner = None, ic_initializing = True, ic_wakers = [1], ic_poisoned = False\<rparr>,
       tk_phase = (\<lambda>i. if i = 0 then Some (Initializing True) else if i = 1 then Some (Waiting 0) else None),
       tk_result = (\<lambda>_. None), tk_woken = {}\<rparr>"
    by (simp add: tasks_start_def run_task_def segment_defs lock_new_def fun_eq_iff)
  obtain s1 where s1: "act ?F (Cancel 0) s = Some s1" "s1 = s\<lparr>tk_phase := (tk_phase s)(0 := None)\<rparr>"
    using s(2) by simp
  obtain t where t: "acts ?F [Run 1, Spawn 2, Run 2, Run 2, Run 1] s1 = Some t" "tk_phase t 1 = Some (Waiting 0)"
    by (simp add: s1(2) s(3) run_task_def segment_defs)
  have "reaches ?F not_cancel tasks_start s" using s(1) by (rule acts_reaches) (simp add: not_cancel_def)
  moreover have "reaches ?F (\<lambda>_. True) s1 t" using t(1) by (rule acts_reaches) simp
  moreover have "\<forall>i. infallible (?F i)" by (simp add: second_poll_infallible)
  ultimately have "tk_result t 1 = None \<and> tk_woken t = tk_woken s"
    using cancelled_initializer_blocks [of ?F s 0 True s1 "\<lambda>_. True" t 1] s(2) s1(1) by simp
  with s(1) s1(1) t show ?thesis by blast
qed

end
