(* ===== verification/Async_Entry.thy ===== *)
theory Async_Entry
  imports Backed_Entry Async_Once
begin

text \<open>
  \<open>BackedEntryAsync\<close> (\<open>src/entry/async_impl.rs\<close>): a \<open>BackedEntry\<close> whose cell is an \<open>AsyncOnceLock\<close>. An
  asynchronous operation is modelled by its effect once it has been awaited to completion, on the
  same disk and coder operations as the synchronous entry; what several tasks do with one cell
  while a load is pending is the subject of \<open>Async_Once\<close>. The lemmas relate each operation to its
  synchronous twin, and the conversions \<open>to_sync\<close> and \<open>from_sync\<close> between the two kinds of entry.
\<close>

section \<open>The entry\<close>

record ('v, 'd, 'c) async_entry =
  ae_value :: "('v, unit) init_cell"
  ae_disk :: 'd
  ae_coder :: 'c

text \<open>\<open>BackedEntry::new\<close> at this cell type, and the synchronous operations that need no disk.\<close>

definition a_entry_new :: "'d \<Rightarrow> 'c \<Rightarrow> ('v, 'd, 'c) async_entry" where
  "a_entry_new d c = \<lparr>ae_value = lock_new, ae_disk = d, ae_coder = c\<rparr>"

definition a_is_loaded :: "('v, 'd, 'c) async_entry \<Rightarrow> bool" where
  "a_is_loaded e = (lock_get (ae_value e) \<noteq> None)"

definition a_unload :: "('v, 'd, 'c) async_entry \<Rightarrow> ('v, 'd, 'c) async_entry" where
  "a_unload e = e\<lparr>ae_value := lock_new\<rparr>"

text \<open>\<open>loaded_with v e\<close>: \<open>e\<close> with a new cell in which \<open>v\<close> has been set.\<close>

definition loaded_with :: "'v \<Rightarrow> ('v, 'd, 'c) async_entry \<Rightarrow> ('v, 'd, 'c) async_entry" where
  "loaded_with v e = e\<lparr>ae_value := snd (lock_set v lock_new)\<rparr>"

definition a_update ::
  "('c, 'v, 'e) coder_ops \<Rightarrow> ('d, 'wr, 'w) disk_ops \<Rightarrow> ('v, 'd, 'c) async_entry \<Rightarrow> 'w \<Rightarrow>
     (unit, 'e) result \<times> 'w" where
  "a_update C D e w =
     (case lock_get (ae_value e) of
        None \<Rightarrow> (Ok (), w)
      | Some v \<Rightarrow> write_value C D (ae_coder e) (ae_disk e) v w)"

definition a_write ::
  "('c, 'v, 'e) coder_ops \<Rightarrow> ('d, 'wr, 'w) disk_ops \<Rightarrow> 'v \<Rightarrow> ('v, 'd, 'c) async_entry \<Rightarrow> 'w \<Rightarrow>
     (unit, 'e) result \<times> ('v, 'd, 'c) async_entry \<times> 'w" where
  "a_write C D v e w =
     (case write_value C D (ae_coder e) (ae_disk e) v w of
        (Ok _, w1) \<Rightarrow> (Ok (), loaded_with v e, w1)
      | (Err x, w1) \<Rightarrow> (Err x, e, w1)
      | (Panic, w1) \<Rightarrow> (Panic, e, w1))"

text \<open>
  \<open>get_or_try_init\<close> with an initializer that has an effect: the initializer runs only when the
  future gets to its initializing phase, on an empty cell that nobody else is initializing.
\<close>

definition try_init_with ::
  "('s \<Rightarrow> ('v, 'e) result \<times> 's) \<Rightarrow> ('v, unit) init_cell \<Rightarrow> 's \<Rightarrow> ('v, 'e) result \<times> ('v, unit) init_cell \<times> 's" where
  "try_init_with f c s =
     (if lock_get c = None \<and> \<not> ic_initializing c \<and> \<not> ic_poisoned c then
        (case f s of (r, s1) \<Rightarrow> case get_or_try_init r c of (x, c1) \<Rightarrow> (x, c1, s1))
      else (case get_or_try_init Panic c of (x, c1) \<Rightarrow> (x, c1, s)))"

definition a_load ::
  "('c, 'v, 'e) coder_ops \<Rightarrow> ('d, 'wr, 'w) disk_ops \<Rightarrow> ('v, 'd, 'c) async_entry \<Rightarrow> 'w \<Rightarrow>
     ('v, 'e) result \<times> ('v, 'd, 'c) async_entry \<times> 'w" where
  "a_load C D e w =
     (case try_init_with (read_value C D (ae_coder e) (ae_disk e)) (ae_value e) w of
        (r, c1, w1) \<Rightarrow> (r, e\<lparr>ae_value := c1\<rparr>, w1))"

definition a_write_unload ::
  "('c, 'v, 'e) coder_ops \<Rightarrow> ('d, 'wr, 'w) disk_ops \<Rightarrow> ('u \<Rightarrow> 'v) \<Rightarrow> 'u \<Rightarrow>
     ('v, 'd, 'c) async_entry \<Rightarrow> 'w \<Rightarrow> (unit, 'e) result \<times> ('v, 'd, 'c) async_entry \<times> 'w" where
  "a_write_unload C D into u e w =
     (let e1 = a_unload e in
      case write_value C D (ae_coder e1) (ae_disk e1) (into u) w of (r, w1) \<Rightarrow> (r, e1, w1))"

definition a_change_backing ::
  "('c, 'v, 'e) coder_ops \<Rightarrow> ('d, 'wr, 'w) disk_ops \<Rightarrow>
   ('c2, 'v, 'e2) coder_ops \<Rightarrow> ('d2, 'wr2, 'w) disk_ops \<Rightarrow> 'd2 \<Rightarrow> 'c2 \<Rightarrow>
   ('v, 'd, 'c) async_entry \<Rightarrow> 'w \<Rightarrow> (('v, 'd2, 'c2) async_entry, 'e + 'e2) result \<times> 'w" where
  "a_change_backing C D C2 D2 d2 c2 e w =
     (case a_load C D e w of
        (Ok _, e1, w1) \<Rightarrow>
          (let other = \<lparr>ae_value = ae_value e1, ae_disk = d2, ae_coder = c2\<rparr> in
           case a_update C2 D2 other w1 of
             (Ok _, w2) \<Rightarrow> (Ok other, w2)
           | (Err x, w2) \<Rightarrow> (Err (Inr x), w2)
           | (Panic, w2) \<Rightarrow> (Panic, w2))
      | (Err x, e1, w1) \<Rightarrow> (Err (Inl x), w1)
      | (Panic, e1, w1) \<Rightarrow> (Panic, w1))"

section \<open>The mutable handle\<close>

text \<open>
  \<open>BackedEntryAsyncMut\<close>. Both dereferences are \<open>todo!()\<close>; \<open>deref_mut\<close> sets the flag first. Unlike
  the synchronous handle, \<open>flush\<close> does not look at the flag and a drop does not try to write.
\<close>

record ('v, 'd, 'c) async_mut =
  am_entry :: "('v, 'd, 'c) async_entry"
  am_modified :: bool

definition a_mut_handle ::
  "('c, 'v, 'e) coder_ops \<Rightarrow> ('d, 'wr, 'w) disk_ops \<Rightarrow> ('v, 'd, 'c) async_entry \<Rightarrow> 'w \<Rightarrow>
     (('v, 'd, 'c) async_mut, 'e) result \<times> ('v, 'd, 'c) async_entry \<times> 'w" where
  "a_mut_handle C D e w =
     (case a_load C D e w of
        (r, e1, w1) \<Rightarrow> (map_ok (\<lambda>_. \<lparr>am_entry = e1, am_modified = False\<rparr>) r, e1, w1))"

definition a_deref :: "('v, 'd, 'c) async_mut \<Rightarrow> ('v, 'e) result" where
  "a_deref h = Panic"

definition a_deref_mut :: "('v \<Rightarrow> 'v) \<Rightarrow> ('v, 'd, 'c) async_mut \<Rightarrow> (unit, 'e) result \<times> ('v, 'd, 'c) async_mut" where
  "a_deref_mut f h = (Panic, h\<lparr>am_modified := True\<rparr>)"

definition a_is_modified :: "('v, 'd, 'c) async_mut \<Rightarrow> bool" where
  "a_is_modified h = am_modified h"

definition a_flush ::
  "('c, 'v, 'e) coder_ops \<Rightarrow> ('d, 'wr, 'w) disk_ops \<Rightarrow> ('v, 'd, 'c) async_mut \<Rightarrow> 'w \<Rightarrow>
     (unit, 'e) result \<times> ('v, 'd, 'c) async_mut \<times> 'w" where
  "a_flush C D h w =
     (case a_update C D (am_entry h) w of
        (Ok _, w1) \<Rightarrow> (Ok (), h\<lparr>am_modified := False\<rparr>, w1)
      | (r, w1) \<Rightarrow> (r, h, w1))"

definition a_drop :: "('v, 'd, 'c) async_mut \<Rightarrow> (unit, 'e) result" where
  "a_drop h = (if am_modified h then Panic else Ok ())"

section \<open>Moving between synchronous and asynchronous entries\<close>

text \<open>
  The \<open>BlockingFn\<close>s: \<open>UpdateBlocking\<close> owns its entry and gives it back; \<open>LoadBlocking\<close> shares its entry with
  \<open>from_sync\<close> and gives back nothing. \<open>blocking_fn\<close>, the caller's way to run them, is a parameter. Of
  \<open>to_sync\<close> it returns the entry. Of \<open>from_sync\<close> it must return an entry too, on success, which is
  dropped: what counts is the shared entry afterwards; the model says besides whether \<open>blocking_fn\<close> has
  kept its share alive. \<open>cur_thread\<close> runs the call at once.
\<close>

definition update_call ::
  "('c, 'v, 'e) coder_ops \<Rightarrow> ('d, 'wr, 'w) disk_ops \<Rightarrow> ('v, 'd, 'c) backed_entry \<Rightarrow> 'w \<Rightarrow>
     (('v, 'd, 'c) backed_entry, 'e) result \<times> 'w" where
  "update_call C D e w = (case entry_update C D e w of (r, w1) \<Rightarrow> (map_ok (\<lambda>_. e) r, w1))"

definition load_call ::
  "('c, 'v, 'e) coder_ops \<Rightarrow> ('d, 'wr, 'w) disk_ops \<Rightarrow> ('v, 'd, 'c) backed_entry \<Rightarrow> 'w \<Rightarrow>
     (unit, 'e) result \<times> ('v, 'd, 'c) backed_entry \<times> 'w" where
  "load_call C D e w = (case entry_load C D e w of (r, e1, w1) \<Rightarrow> (map_ok (\<lambda>_. ()) r, e1, w1))"

definition cur_thread :: "('a \<Rightarrow> 'w \<Rightarrow> 'r) \<Rightarrow> 'a \<Rightarrow> 'w \<Rightarrow> 'r" where
  "cur_thread call a w = call a w"

definition to_sync ::
  "('c, 'v, 'e) coder_ops \<Rightarrow> ('d, 'wr, 'w) disk_ops \<Rightarrow> 'd2 \<Rightarrow> 'c2 \<Rightarrow>
   (('v, 'd2, 'c2) backed_entry \<Rightarrow> 'w \<Rightarrow> (('v, 'd2, 'c2) backed_entry, 'e2) result \<times> 'w) \<Rightarrow>
   ('v, 'd, 'c) async_entry \<Rightarrow> 'w \<Rightarrow> (('v, 'd2, 'c2) backed_entry, 'e + 'e2) result \<times> 'w" where
  "to_sync C D d2 c2 blocking_fn e w =
     (case a_load C D e w of
        (Ok _, e1, w1) \<Rightarrow>
          (case lock_into_inner (ae_value e1) of
             None \<Rightarrow> (Panic, w1)
           | Some v \<Rightarrow>
               (case blocking_fn \<lparr>entry_value = snd (oc_set v oc_new), entry_disk = d2, entry_coder = c2\<rparr> w1 of
                  (r, w2) \<Rightarrow> (map_err Inr r, w2)))
      | (Err x, e1, w1) \<Rightarrow> (Err (Inl x), w1)
      | (Panic, e1, w1) \<Rightarrow> (Panic, w1))"

definition from_sync ::
  "('c, 'v, 'e) coder_ops \<Rightarrow> ('d, 'wr, 'w) disk_ops \<Rightarrow>
   (('v, 'd2, 'c2) backed_entry \<Rightarrow> 'w \<Rightarrow>
      (('v, 'd2, 'c2) backed_entry, 'e2) result \<times> ('v, 'd2, 'c2) backed_entry \<times> bool \<times> 'w) \<Rightarrow>
   ('v, 'd2, 'c2) backed_entry \<Rightarrow> 'd \<Rightarrow> 'c \<Rightarrow> 'w \<Rightarrow> (('v, 'd, 'c) async_entry, 'e2 + 'e) result \<times> 'w" where
  "from_sync C D blocking_fn other d c w =
     (case blocking_fn other w of
        (Ok _, other1, kept, w1) \<Rightarrow>
          if kept then (Panic, w1)
          else
            (let this = \<lparr>ae_value = lock_new_with (oc_into_inner (entry_value other1)), ae_disk = d, ae_coder = c\<rparr> in
             case a_update C D this w1 of
               (Ok _, w2) \<Rightarrow> (Ok this, w2)
             | (Err x, w2) \<Rightarrow> (Err (Inr x), w2)
             | (Panic, w2) \<Rightarrow> (Panic, w2))
      | (Err x, other1, kept, w1) \<Rightarrow> (Err (Inl x), w1)
      | (Panic, other1, kept, w1) \<Rightarrow> (Panic, w1))"

text \<open>
  A \<open>blocking_fn\<close> of \<open>from_sync\<close>, \<open>|f| async { f.call()?; Ok(spare) }\<close>: it calls its argument, which
  drops it, and returns an entry of its own in the place of the unit the call gives. (The entry inside
  \<open>LoadBlocking\<close> is private: it cannot be returned.)
\<close>

definition call_for ::
  "('v, 'd, 'c) backed_entry \<Rightarrow> (('v, 'd, 'c) backed_entry \<Rightarrow> 'w \<Rightarrow> (unit, 'e) result \<times> ('v, 'd, 'c) backed_entry \<times> 'w) \<Rightarrow>
   ('v, 'd, 'c) backed_entry \<Rightarrow> 'w \<Rightarrow> (('v, 'd, 'c) backed_entry, 'e) result \<times> ('v, 'd, 'c) backed_entry \<times> bool \<times> 'w" where
  "call_for spare call e w = (case cur_thread call e w of (r, e1, w1) \<Rightarrow> (map_ok (\<lambda>_. spare) r, e1, False, w1))"

section \<open>The synchronous entry behind it\<close>

definition sync_view :: "('v, 'd, 'c) async_entry \<Rightarrow> ('v, 'd, 'c) backed_entry" where
  "sync_view e = \<lparr>entry_value = lock_get (ae_value e), entry_disk = ae_disk e, entry_coder = ae_coder e\<rparr>"

lemma sync_view_simps [simp]:
  "entry_value (sync_view e) = lock_get (ae_value e)" "entry_disk (sync_view e) = ae_disk e"
  "entry_coder (sync_view e) = ae_coder e"
  by (simp_all add: sync_view_def)

lemma lock_new_simps [simp]: "lock_get lock_new = None" "idle lock_new"
  by (simp_all add: lock_defs oc_defs idle_def)

lemma lock_set_new [simp]: "lock_get (snd (lock_set v lock_new)) = Some v" "idle (snd (lock_set v lock_new))"
  by (simp_all add: lock_defs oc_defs idle_def)

lemma lock_new_with_simps [simp]: "lock_get (lock_new_with x) = x" "idle (lock_new_with x)"
  by (cases x; simp add: lock_new_with_def lock_defs oc_defs idle_def)+

lemma sync_view_new [simp]: "sync_view (a_entry_new d c) = entry_new d c"
  by (simp add: sync_view_def a_entry_new_def entry_new_def oc_new_def)

lemma a_entry_new_simps [simp]:
  "ae_value (a_entry_new d c) = lock_new" "ae_disk (a_entry_new d c) = d" "ae_coder (a_entry_new d c) = c"
  by (simp_all add: a_entry_new_def)

lemma sync_view_unload: "sync_view (a_unload e) = unload (sync_view e)"
  by (simp add: sync_view_def a_unload_def unload_def oc_new_def)

lemma sync_view_loaded_with: "sync_view (loaded_with v e) = (sync_view e)\<lparr>entry_value := Some v\<rparr>"
  by (simp add: sync_view_def loaded_with_def)

lemma get_or_try_init_panic:
  "lock_get c = None \<Longrightarrow> idle c \<Longrightarrow> fst (get_or_try_init Panic c) = Panic \<and> lock_get (snd (get_or_try_init Panic c)) = None"
  by (cases c) (simp add: get_or_try_init_def poll.simps [of _ _ Creating] poll.simps [of _ _ Locking]
      poll.simps [of _ _ "Initializing _"] lock_segment_def init_segment_def ready_fn_def idle_def lock_get_def oc_get_def)

lemma try_init_with_full: "lock_get c = Some v \<Longrightarrow> try_init_with f c s = (Ok v, c, s)"
  by (simp add: try_init_with_def get_or_try_init_full)

lemma try_init_with_empty:
  assumes "idle c" "lock_get c = None" "f s = (r, s1)"
  shows "\<exists>c'. try_init_with f c s = (r, c', s1) \<and> lock_get c' = (case r of Ok v \<Rightarrow> Some v | _ \<Rightarrow> None) \<and>
    (r \<noteq> Panic \<longrightarrow> idle c')"
proof (cases r)
  case Panic
  then show ?thesis using assms get_or_try_init_panic [OF assms(2,1)]
    by (simp add: try_init_with_def idle_def split_def)
qed (use assms in \<open>simp_all add: try_init_with_def get_or_try_init_empty [OF assms(2,1)], simp_all add: idle_def lock_get_def oc_get_def\<close>)

section \<open>Simulation\<close>

text \<open>
  Each operation on an idle cell does to the view of the entry, to the store and in its result what
  the synchronous operation does. The cell is idle again, unless the disk or the coder panicked.
\<close>

lemma a_load_sim:
  assumes "idle (ae_value e)" and "a_load C D e w = (r, e', w')"
  shows "entry_load C D (sync_view e) w = (r, sync_view e', w')" and "r \<noteq> Panic \<Longrightarrow> idle (ae_value e')"
    and "ae_disk e' = ae_disk e \<and> ae_coder e' = ae_coder e"
proof -
  obtain c' where T: "try_init_with (read_value C D (ae_coder e) (ae_disk e)) (ae_value e) w = (r, c', w')"
    "e' = e\<lparr>ae_value := c'\<rparr>"
    using assms(2) by (auto simp: a_load_def split: prod.splits)
  show "ae_disk e' = ae_disk e \<and> ae_coder e' = ae_coder e" by (simp add: T)
  have "entry_load C D (sync_view e) w = (r, sync_view e', w') \<and> (r \<noteq> Panic \<longrightarrow> idle (ae_value e'))"
  proof (cases "lock_get (ae_value e)")
    case (Some v)
    with T assms(1) show ?thesis
      by (auto simp: try_init_with_full entry_load_def oc_get_def)
  next
    case None
    obtain x s where R: "read_value C D (ae_coder e) (ae_disk e) w = (x, s)" by fastforce
    from try_init_with_empty [where f = "read_value C D (ae_coder e) (ae_disk e)" and s = w, OF assms(1) None R] T R None
    show ?thesis
      by (cases r) (auto simp: entry_load_def oc_get_def oc_get_or_init_def sync_view_def)
  qed
  then show "entry_load C D (sync_view e) w = (r, sync_view e', w')" "r \<noteq> Panic \<Longrightarrow> idle (ae_value e')" by blast+
qed

lemma a_update_sim: "a_update C D e w = entry_update C D (sync_view e) w"
  by (simp add: a_update_def entry_update_def oc_get_def split: option.split)

lemma a_write_sim:
  assumes "a_write C D v e w = (r, e', w')"
  shows "entry_write C D v (sync_view e) w = (r, sync_view e', w')" and "idle (ae_value e) \<Longrightarrow> idle (ae_value e')"
    and "ae_disk e' = ae_disk e \<and> ae_coder e' = ae_coder e"
  using assms
  by (auto simp: a_write_def entry_write_def sync_view_loaded_with oc_set_def oc_new_def loaded_with_def
      split: prod.splits result.splits)

lemma a_write_unload_sim:
  assumes "a_write_unload C D into u e w = (r, e', w')"
  shows "entry_write_unload C D into u (sync_view e) w = (r, sync_view e', w')" and "idle (ae_value e')"
  using assms
  by (auto simp: a_write_unload_def entry_write_unload_def Let_def sync_view_unload [symmetric] a_unload_def
      split: prod.splits)

lemma a_change_backing_sim:
  assumes "idle (ae_value e)" and "a_change_backing C D C2 D2 d2 c2 e w = (r, w')"
  shows "change_backing C D C2 D2 d2 c2 (sync_view e) w = (map_ok sync_view r, w')"
proof -
  obtain x e1 w1 where L: "a_load C D e w = (x, e1, w1)" by (metis prod_cases3)
  note S = a_load_sim [OF assms(1) L]
  have V: "sync_view \<lparr>ae_value = ae_value e1, ae_disk = d2, ae_coder = c2\<rparr> =
      \<lparr>entry_value = entry_value (sync_view e1), entry_disk = d2, entry_coder = c2\<rparr>"
    by (simp add: sync_view_def)
  show ?thesis using assms(2)
    by (cases x) (auto simp: a_change_backing_def change_backing_def L S(1) Let_def a_update_sim V
        split: prod.splits result.splits)
qed

text \<open>
  C14: loading, writing and moving an asynchronous entry is what it is for a synchronous one. On an entry
  whose cell nobody is using, \<open>a_load\<close>, \<open>a_write\<close>, \<open>a_write_unload\<close>, \<open>a_update\<close> and \<open>a_change_backing\<close>,
  awaited to their end, return what their synchronous twins return on the entry with the same value,
  disk and coder, and leave the same value in memory and the same store; after the first three the cell
  is free again, unless a load panicked. The mutable handle is not among them: see
  \<open>async_handle_unusable\<close>.
\<close>

theorem async_entry_simulates:
  assumes "idle (ae_value e)"
  shows "(case a_load C D e w of (r, e', w') \<Rightarrow>
      entry_load C D (sync_view e) w = (r, sync_view e', w') \<and> (r \<noteq> Panic \<longrightarrow> idle (ae_value e'))) \<and>
    (case a_write C D v e w of (r, e', w') \<Rightarrow>
      entry_write C D v (sync_view e) w = (r, sync_view e', w') \<and> idle (ae_value e')) \<and>
    (case a_write_unload C D into u e w of (r, e', w') \<Rightarrow>
      entry_write_unload C D into u (sync_view e) w = (r, sync_view e', w') \<and> idle (ae_value e')) \<and>
    a_update C D e w = entry_update C D (sync_view e) w \<and>
    (case a_change_backing C D C2 D2 d2 c2 e w of (r, w') \<Rightarrow>
      change_backing C D C2 D2 d2 c2 (sync_view e) w = (map_ok sync_view r, w'))"
  using a_load_sim [OF assms] a_write_sim assms a_write_unload_sim a_change_backing_sim [OF assms] a_update_sim
  by (auto split: prod.splits)

theorem async_entry_simulates_witness:
  "fst (a_load prefix_ops plainfile_disk (loaded_with [5] (a_entry_new (Plainfile [''f'']) BincodeCoder)) empty_fs) = Ok [5]"
proof -
  let ?e = "loaded_with [5] (a_entry_new (Plainfile [''f'']) BincodeCoder) :: (bytes, plainfile, bincode_coder) async_entry"
  have "idle (ae_value ?e)" by (simp add: loaded_with_def)
  from async_entry_simulates [OF this, of prefix_ops plainfile_disk empty_fs "[]" "\<lambda>x. x" "[]" prefix_ops plainfile_disk]
  have "case a_load prefix_ops plainfile_disk ?e empty_fs of (r, e', w') \<Rightarrow>
      entry_load prefix_ops plainfile_disk (sync_view ?e) empty_fs = (r, sync_view e', w')" by auto
  then show ?thesis by (auto simp: entry_load_def loaded_with_def oc_get_def split: prod.splits)
qed

text \<open>
  the asynchronous mutable handle. Opening it loads the value, but using it panics: both
  dereferences do, \<open>deref_mut\<close> after setting the flag, so that the drop while unwinding panics a
  second time. A flush writes the value whether or not the handle is modified, and after one that
  succeeds the handle can be dropped.
\<close>

theorem async_handle_unusable:
  assumes "a_mut_handle C D e w = (Ok h, e', w')"
  shows "a_deref h = Panic \<and> a_drop h = Ok () \<and>
    (case a_deref_mut f h of (r, h1) \<Rightarrow> r = Panic \<and> a_is_modified h1 \<and> a_drop h1 = Panic \<and>
      (case a_flush C D h1 w1 of (r2, h2, w2) \<Rightarrow>
         (r2, w2) = entry_update C D (sync_view e') w1 \<and> (r2 = Ok () \<longrightarrow> a_drop h2 = Ok ()) \<and>
         (r2 \<noteq> Ok () \<longrightarrow> a_drop h2 = Panic)))"
  using assms
  by (auto simp: a_mut_handle_def a_deref_def a_deref_mut_def a_drop_def a_is_modified_def a_flush_def a_update_sim
      split: prod.splits result.splits)

theorem async_handle_unusable_witness:
  "\<exists>h e' w'. a_mut_handle prefix_ops plainfile_disk (loaded_with [5] (a_entry_new (Plainfile [''f'']) BincodeCoder)) empty_fs =
     (Ok h, e', w') \<and> a_deref h = (Panic :: (bytes, prefix_err) result)"
proof -
  obtain h e' w' where "a_mut_handle prefix_ops plainfile_disk (loaded_with [5] (a_entry_new (Plainfile [''f'']) BincodeCoder)) empty_fs =
     (Ok h, e', w')"
    by (simp add: a_mut_handle_def a_load_def loaded_with_def try_init_with_full split: prod.splits)
  with async_handle_unusable [OF this] show ?thesis by blast
qed

text \<open>\<open>to_sync\<close> and \<open>from_sync\<close> in the current thread are \<open>change_backing\<close> between the two kinds.\<close>

lemma to_sync_sim:
  assumes "idle (ae_value e)"
  shows "to_sync C D d2 c2 (cur_thread (update_call C2 D2)) e w = change_backing C D C2 D2 d2 c2 (sync_view e) w"
proof -
  obtain r e1 w1 where L: "a_load C D e w = (r, e1, w1)" by (metis prod_cases3)
  note S = a_load_sim [OF assms L]
  show ?thesis
  proof (cases r)
    case (Ok v)
    with S(1) have "lock_get (ae_value e1) = Some v"
      by (auto simp: entry_load_def oc_get_def oc_get_or_init_def sync_view_def
          split: option.splits prod.splits result.splits)
    with Ok L S(1) show ?thesis
      by (simp add: to_sync_def change_backing_def cur_thread_def update_call_def lock_into_inner_def lock_get_def
          oc_defs Let_def sync_view_def split: prod.split result.split)
  qed (use L S(1) in \<open>simp_all add: to_sync_def change_backing_def\<close>)
qed

lemma from_sync_sim:
  assumes "from_sync C D (call_for spare (load_call C2 D2)) other d c w = (r, w')"
  shows "change_backing C2 D2 C D d c other w = (map_ok sync_view r, w')" and "r = Ok e \<Longrightarrow> idle (ae_value e)"
proof -
  obtain x o1 w1 where L: "entry_load C2 D2 other w = (x, o1, w1)" by (metis prod_cases3)
  have U: "a_update C D \<lparr>ae_value = lock_new_with v, ae_disk = d, ae_coder = c\<rparr> w1 =
      entry_update C D \<lparr>entry_value = v, entry_disk = d, entry_coder = c\<rparr> w1" for v
    by (simp add: a_update_sim sync_view_def)
  show "change_backing C2 D2 C D d c other w = (map_ok sync_view r, w')"
    using assms L
    by (cases x) (auto simp: from_sync_def call_for_def cur_thread_def load_call_def change_backing_def Let_def
        oc_into_inner_def U sync_view_def split: prod.splits result.splits)
  show "r = Ok e \<Longrightarrow> idle (ae_value e)" using assms L
    by (cases x) (auto simp: from_sync_def call_for_def cur_thread_def load_call_def Let_def
        split: prod.splits result.splits)
qed

text \<open>
  C15: from asynchronous to synchronous and back, over plain files. An entry whose value \<open>v\<close> can be loaded becomes, with
  \<open>to_sync\<close> in the current thread, a synchronous entry with \<open>v\<close> in memory and on its disk, and then
  with \<open>from_sync\<close> in the current thread an asynchronous entry with \<open>v\<close> in memory and on its own disk,
  provided the disks can be written and the coders accept \<open>v\<close>. The entry \<open>spare\<close> that the caller's
  blocking function has to return to \<open>from_sync\<close> does not matter.
\<close>

theorem to_sync_from_sync:
  assumes C: "coder_roundtrip C" "coder_roundtrip C2" "coder_roundtrip C3"
    and e: "idle (ae_value e)" "entry_abs C plainfile_disk (sync_view e) w = Some v"
    and ok: "file_writable (pf_path d2) w" "accepts C2 c2 v" "file_writable (pf_path d3) w" "accepts C3 c3 v"
  shows "\<exists>e2 w2 e3 w3.
    to_sync C plainfile_disk d2 c2 (cur_thread (update_call C2 plainfile_disk)) e w = (Ok e2, w2) \<and>
    entry_value e2 = Some v \<and> fst (read_value C2 plainfile_disk c2 d2 w2) = Ok v \<and>
    from_sync C3 plainfile_disk (call_for spare (load_call C2 plainfile_disk)) e2 d3 c3 w2 = (Ok e3, w3) \<and>
    lock_get (ae_value e3) = Some v \<and> idle (ae_value e3) \<and> fst (read_value C3 plainfile_disk c3 d3 w3) = Ok v"
proof -
  note B = plainfile_backing [OF C(1)] and B2 = plainfile_backing [OF C(2)] and B3 = plainfile_backing [OF C(3)]
  let ?e2 = "\<lparr>entry_value = Some v, entry_disk = d2, entry_coder = c2\<rparr>"
  obtain w2 where T: "change_backing C plainfile_disk C2 plainfile_disk d2 c2 (sync_view e) w = (Ok ?e2, w2)"
    and W2: "write_value C2 plainfile_disk c2 d2 v w = (Ok (), w2)"
    using change_backing_Ok [OF B B2 e(2) ok(1,2)] by blast
  note T = T [folded to_sync_sim [OF e(1)]]
  have "entry_abs C2 plainfile_disk ?e2 w2 = Some v" by simp
  moreover have "file_writable (pf_path d3) w2"
    using ok(3) backing.write_value_writable [OF B2 W2, of d3] by simp
  ultimately obtain w3 where F: "change_backing C2 plainfile_disk C3 plainfile_disk d3 c3 ?e2 w2 =
      (Ok \<lparr>entry_value = Some v, entry_disk = d3, entry_coder = c3\<rparr>, w3)"
    and W3: "write_value C3 plainfile_disk c3 d3 v w2 = (Ok (), w3)"
    using change_backing_Ok [OF B2 B3 _ _ ok(4)] by blast
  obtain r w' where R: "from_sync C3 plainfile_disk (call_for spare (load_call C2 plainfile_disk)) ?e2 d3 c3 w2 = (r, w')"
    by fastforce
  note R' = from_sync_sim [OF R]
  from R'(1) F obtain e3 where "r = Ok e3" "w' = w3"
    "sync_view e3 = \<lparr>entry_value = Some v, entry_disk = d3, entry_coder = c3\<rparr>"
    by (cases r) auto
  moreover from this have "lock_get (ae_value e3) = Some v" by (simp add: sync_view_def)
  ultimately show ?thesis
    using T R R'(2) backing.write_value_ok(1) [OF B2 W2] backing.write_value_ok(1) [OF B3 W3]
    by (auto simp: backing.read_value_iff [OF B2] backing.read_value_iff [OF B3])
qed

theorem to_sync_from_sync_witness:
  "\<exists>e2 w2 e3 w3. to_sync prefix_ops plainfile_disk (Plainfile [''g'']) BincodeCoder
      (cur_thread (update_call prefix_ops plainfile_disk)) (loaded_with [5] (a_entry_new (Plainfile [''f'']) BincodeCoder)) empty_fs =
      (Ok e2, w2) \<and>
    from_sync prefix_ops plainfile_disk (call_for (entry_new (Plainfile [''h'']) BincodeCoder) (load_call prefix_ops plainfile_disk)) e2 (Plainfile [''f'']) BincodeCoder w2 =
      (Ok e3, w3) \<and> lock_get (ae_value e3) = Some [5]"
proof -
  let ?e = "loaded_with [5] (a_entry_new (Plainfile [''f'']) BincodeCoder) :: (bytes, plainfile, bincode_coder) async_entry"
  have "idle (ae_value ?e)" "entry_abs prefix_ops plainfile_disk (sync_view ?e) empty_fs = Some [5]"
    "file_writable (pf_path (Plainfile [''g''])) empty_fs"
    by (simp_all add: loaded_with_def file_writable_def empty_fs_def parent_def)
  from to_sync_from_sync [OF prefix_roundtrip prefix_roundtrip prefix_roundtrip this(1,2,3), of BincodeCoder "Plainfile [''f'']" BincodeCoder "entry_new (Plainfile [''h'']) BincodeCoder"]
  show ?thesis by auto
qed

end
