(* ===== verification/Async_Array.thy ===== *)
theory Async_Array
  imports Backed_Array Async_Entry
begin

text \<open>
  \<open>BackedArray\<close> over asynchronous entries (\<open>src/array/async_impl/mod.rs\<close>, \<open>slice.rs\<close>, \<open>generic.rs\<close>): the
  asynchronous reads, appends and constructor, and the iterators that hand out one future per
  element. A future is what it will do when it is awaited: the position it reads. Awaiting futures is
  a step of its own, in whatever order the caller likes. The lemmas relate the operations to those of
  the synchronous array on the same chunks.
\<close>

section \<open>The array\<close>

record ('k, 'a, 'd, 'c) async_array =
  aa_starts :: 'k
  aa_ends :: 'k
  aa_entries :: "('a list, 'd, 'c) async_entry list"

definition aa_len :: "('k, nat) resizing_ops \<Rightarrow> ('k, 'a, 'd, 'c) async_array \<Rightarrow> nat" where
  "aa_len K a = last_or 0 (c_ref K (aa_ends a))"

section \<open>Reads\<close>

definition a_get_loc ::
  "('c, 'a list, 'e) coder_ops \<Rightarrow> ('d, 'wr, 'w) disk_ops \<Rightarrow> array_loc \<Rightarrow> ('k, 'a, 'd, 'c) async_array \<Rightarrow> 'w \<Rightarrow>
     ('a, 'e array_error) result \<times> ('k, 'a, 'd, 'c) async_array \<times> 'w" where
  "a_get_loc C D loc a w =
     (case index (aa_entries a) (entry_idx loc) of
        Ok e \<Rightarrow>
          (case a_load C D e w of
             (Ok xs, e1, w1) \<Rightarrow>
               (index xs (inside_entry_idx loc), a\<lparr>aa_entries := (aa_entries a)[entry_idx loc := e1]\<rparr>, w1)
           | (Err x, e1, w1) \<Rightarrow>
               (Err (CoderError x), a\<lparr>aa_entries := (aa_entries a)[entry_idx loc := e1]\<rparr>, w1)
           | (Panic, e1, w1) \<Rightarrow> (Panic, a\<lparr>aa_entries := (aa_entries a)[entry_idx loc := e1]\<rparr>, w1))
      | Err x \<Rightarrow> (Err x, a, w)
      | Panic \<Rightarrow> (Panic, a, w))"

definition a_get ::
  "searcher \<Rightarrow> ('k, nat) resizing_ops \<Rightarrow> ('c, 'a list, 'e) coder_ops \<Rightarrow> ('d, 'wr, 'w) disk_ops \<Rightarrow> nat \<Rightarrow>
   ('k, 'a, 'd, 'c) async_array \<Rightarrow> 'w \<Rightarrow> ('a, 'e array_error) result \<times> ('k, 'a, 'd, 'c) async_array \<times> 'w" where
  "a_get bs K C D idx a w =
     (case internal_idx bs (c_ref K (aa_starts a)) (c_ref K (aa_ends a)) idx of
        Ok None \<Rightarrow> (Err (OutsideEntryBounds idx), a, w)
      | Ok (Some loc) \<Rightarrow> a_get_loc C D loc a w
      | _ \<Rightarrow> (Panic, a, w))"

definition internal_a_get_loc ::
  "('c, 'a list, 'e) coder_ops \<Rightarrow> ('d, 'wr, 'w) disk_ops \<Rightarrow> array_loc \<Rightarrow> nat \<Rightarrow>
   ('k, 'a, 'd, 'c) async_array \<Rightarrow> 'w \<Rightarrow> ('a, 'e array_error) result \<times> ('k, 'a, 'd, 'c) async_array \<times> 'w" where
  "internal_a_get_loc C D loc idx a w =
     (case nth_opt (aa_entries a) (entry_idx loc) of
        None \<Rightarrow> (Err (OutsideEntryBounds idx), a, w)
      | Some e \<Rightarrow>
          (case a_load C D e w of
             (r, e1, w1) \<Rightarrow>
               (res_bind (map_err CoderError r)
                  (\<lambda>xs. ok_or (OutsideEntryBounds idx) (nth_opt xs (inside_entry_idx loc))),
                a\<lparr>aa_entries := (aa_entries a)[entry_idx loc := e1]\<rparr>, w1)))"

definition internal_a_get ::
  "searcher \<Rightarrow> ('k, nat) resizing_ops \<Rightarrow> ('c, 'a list, 'e) coder_ops \<Rightarrow> ('d, 'wr, 'w) disk_ops \<Rightarrow> nat \<Rightarrow>
   ('k, 'a, 'd, 'c) async_array \<Rightarrow> 'w \<Rightarrow> ('a, 'e array_error) result \<times> ('k, 'a, 'd, 'c) async_array \<times> 'w" where
  "internal_a_get bs K C D idx a w =
     (case internal_idx bs (c_ref K (aa_starts a)) (c_ref K (aa_ends a)) idx of
        Ok None \<Rightarrow> (Err (OutsideEntryBounds idx), a, w)
      | Ok (Some loc) \<Rightarrow> internal_a_get_loc C D loc idx a w
      | _ \<Rightarrow> (Panic, a, w))"

text \<open>\<open>a_generic_get\<close> wraps the borrow that \<open>internal_a_get\<close> returns.\<close>

definition a_generic_get ::
  "searcher \<Rightarrow> ('k, nat) resizing_ops \<Rightarrow> ('c, 'a list, 'e) coder_ops \<Rightarrow> ('d, 'wr, 'w) disk_ops \<Rightarrow> nat \<Rightarrow>
   ('k, 'a, 'd, 'c) async_array \<Rightarrow> 'w \<Rightarrow> ('a, 'e array_error) result \<times> ('k, 'a, 'd, 'c) async_array \<times> 'w" where
  "a_generic_get bs K C D idx a w = (case internal_a_get bs K C D idx a w of (r, a1, w1) \<Rightarrow> (map_ok id r, a1, w1))"

section \<open>Iterators of futures\<close>

text \<open>
  An iterator is its position; the array it borrows (or shares) is passed along. Making a future
  reads nothing. The position moves even when there is no element.
\<close>

record fut_iter =
  fi_pos :: nat

definition stream :: "fut_iter" where
  "stream = \<lparr>fi_pos = 0\<rparr>"

definition fut_nth ::
  "('k, nat) resizing_ops \<Rightarrow> ('k, 'a, 'd, 'c) async_array \<Rightarrow> nat \<Rightarrow> fut_iter \<Rightarrow> nat option \<times> fut_iter" where
  "fut_nth K a n it =
     (let cur_pos = fi_pos it + n; it1 = it\<lparr>fi_pos := fi_pos it + (n + 1)\<rparr> in
      if cur_pos < aa_len K a then (Some cur_pos, it1) else (None, it1))"

definition fut_next :: "('k, nat) resizing_ops \<Rightarrow> ('k, 'a, 'd, 'c) async_array \<Rightarrow> fut_iter \<Rightarrow> nat option \<times> fut_iter" where
  "fut_next K a it = fut_nth K a 0 it"

definition fut_size_hint :: "('k, nat) resizing_ops \<Rightarrow> ('k, 'a, 'd, 'c) async_array \<Rightarrow> fut_iter \<Rightarrow> (nat \<times> nat option, unit) result" where
  "fut_size_hint K a it = map_ok (\<lambda>r. (r, Some r)) (usub (aa_len K a) (fi_pos it))"

text \<open>
  Awaiting the future of a position, with the read it was made with. The futures treat a position
  outside the array as impossible.
\<close>

definition await_item ::
  "(nat \<Rightarrow> ('k, 'a, 'd, 'c) async_array \<Rightarrow> 'w \<Rightarrow> ('a, 'e array_error) result \<times> ('k, 'a, 'd, 'c) async_array \<times> 'w) \<Rightarrow>
   nat \<Rightarrow> ('k, 'a, 'd, 'c) async_array \<Rightarrow> 'w \<Rightarrow> ('a, 'e) result \<times> ('k, 'a, 'd, 'c) async_array \<times> 'w" where
  "await_item get pos a w =
     (case get pos a w of
        (Ok val, a1, w1) \<Rightarrow> (Ok val, a1, w1)
      | (Err (OutsideEntryBounds _), a1, w1) \<Rightarrow> (Panic, a1, w1)
      | (Err (CoderError c), a1, w1) \<Rightarrow> (Err c, a1, w1)
      | (Panic, a1, w1) \<Rightarrow> (Panic, a1, w1))"

definition fut_await ::
  "searcher \<Rightarrow> ('k, nat) resizing_ops \<Rightarrow> ('c, 'a list, 'e) coder_ops \<Rightarrow> ('d, 'wr, 'w) disk_ops \<Rightarrow> nat \<Rightarrow>
   ('k, 'a, 'd, 'c) async_array \<Rightarrow> 'w \<Rightarrow> ('a, 'e) result \<times> ('k, 'a, 'd, 'c) async_array \<times> 'w" where
  "fut_await bs K C D = await_item (a_get bs K C D)"

definition generic_fut_await ::
  "searcher \<Rightarrow> ('k, nat) resizing_ops \<Rightarrow> ('c, 'a list, 'e) coder_ops \<Rightarrow> ('d, 'wr, 'w) disk_ops \<Rightarrow> nat \<Rightarrow>
   ('k, 'a, 'd, 'c) async_array \<Rightarrow> 'w \<Rightarrow> ('a, 'e) result \<times> ('k, 'a, 'd, 'c) async_array \<times> 'w" where
  "generic_fut_await bs K C D = await_item (internal_a_get bs K C D)"

text \<open>
  The iterators of the other three kinds: \<open>stream_send\<close> shares the array, \<open>generic_stream\<close> and
  \<open>generic_stream_send\<close> make futures of \<open>internal_a_get\<close>.
\<close>

definition send_nth ::
  "('k, nat) resizing_ops \<Rightarrow> ('k, 'a, 'd, 'c) async_array \<Rightarrow> nat \<Rightarrow> fut_iter \<Rightarrow> nat option \<times> fut_iter" where
  "send_nth K a n it =
     (let cur_pos = fi_pos it + n; it1 = it\<lparr>fi_pos := fi_pos it + (n + 1)\<rparr>; backed = a in
      if cur_pos < aa_len K backed then (Some cur_pos, it1) else (None, it1))"

definition generic_fut_nth ::
  "('k, nat) resizing_ops \<Rightarrow> ('k, 'a, 'd, 'c) async_array \<Rightarrow> nat \<Rightarrow> fut_iter \<Rightarrow> nat option \<times> fut_iter" where
  "generic_fut_nth K a n it =
     (let cur_pos = fi_pos it + n; it1 = it\<lparr>fi_pos := fi_pos it + (n + 1)\<rparr> in
      if cur_pos < aa_len K a then (Some cur_pos, it1) else (None, it1))"

definition generic_send_nth ::
  "('k, nat) resizing_ops \<Rightarrow> ('k, 'a, 'd, 'c) async_array \<Rightarrow> nat \<Rightarrow> fut_iter \<Rightarrow> nat option \<times> fut_iter" where
  "generic_send_nth K a n it =
     (let cur_pos = fi_pos it + n; it1 = it\<lparr>fi_pos := fi_pos it + (n + 1)\<rparr>; backed = a in
      if cur_pos < aa_len K backed then (Some cur_pos, it1) else (None, it1))"

text \<open>\<open>chunk_stream\<close>: one future per entry, which loads it. \<open>generic_chunk_stream\<close> does the same behind handles.\<close>

definition chunk_stream :: "('k, 'a, 'd, 'c) async_array \<Rightarrow> nat list" where
  "chunk_stream a = [0..<length (aa_entries a)]"

definition chunk_await ::
  "('c, 'a list, 'e) coder_ops \<Rightarrow> ('d, 'wr, 'w) disk_ops \<Rightarrow> nat \<Rightarrow> ('k, 'a, 'd, 'c) async_array \<Rightarrow> 'w \<Rightarrow>
     ('a list, 'e) result \<times> ('k, 'a, 'd, 'c) async_array \<times> 'w" where
  "chunk_await C D i a w =
     (case a_load C D (aa_entries a ! i) w of (r, e1, w1) \<Rightarrow> (r, a\<lparr>aa_entries := (aa_entries a)[i := e1]\<rparr>, w1))"

text \<open>Awaiting a list of futures one after the other.\<close>

fun await_all :: "('i \<Rightarrow> 's \<Rightarrow> 'w \<Rightarrow> 'r \<times> 's \<times> 'w) \<Rightarrow> 'i list \<Rightarrow> 's \<Rightarrow> 'w \<Rightarrow> 'r list \<times> 's \<times> 'w" where
  "await_all await [] a w = ([], a, w)"
| "await_all await (p # ps) a w =
     (case await p a w of (r, a1, w1) \<Rightarrow> case await_all await ps a1 w1 of (rs, a2, w2) \<Rightarrow> (r # rs, a2, w2))"

section \<open>Writes\<close>

definition a_push_range ::
  "('k, nat) resizing_ops \<Rightarrow> nat \<Rightarrow> ('k, 'a, 'd, 'c) async_array \<Rightarrow> (unit, unit) result \<times> ('k, 'a, 'd, 'c) async_array" where
  "a_push_range K n a =
     (let start_idx = last_or 0 (c_ref K (aa_ends a)) in
      case c_push K start_idx (aa_starts a) of
        (Ok _, ks) \<Rightarrow>
          (case c_push K (start_idx + n) (aa_ends a) of
             (r, ke) \<Rightarrow> (r, a\<lparr>aa_starts := ks, aa_ends := ke\<rparr>))
      | (r, ks) \<Rightarrow> (r, a\<lparr>aa_starts := ks\<rparr>))"

definition a_append ::
  "('k, nat) resizing_ops \<Rightarrow> ('c, 'a list, 'e) coder_ops \<Rightarrow> ('d, 'wr, 'w) disk_ops \<Rightarrow> 'a list \<Rightarrow> 'd \<Rightarrow> 'c \<Rightarrow>
   ('k, 'a, 'd, 'c) async_array \<Rightarrow> 'w \<Rightarrow> (unit, 'e) result \<times> ('k, 'a, 'd, 'c) async_array \<times> 'w" where
  "a_append K C D vals d c a w =
     (let values_len = length vals in
      case a_write_unload C D id vals (a_entry_new d c) w of
        (Ok _, e, w1) \<Rightarrow>
          (case a_push_range K values_len (a\<lparr>aa_entries := aa_entries a @ [e]\<rparr>) of (r, a1) \<Rightarrow> (expect r, a1, w1))
      | (Err x, e, w1) \<Rightarrow> (Err x, a, w1)
      | (Panic, e, w1) \<Rightarrow> (Panic, a, w1))"

definition a_append_memory ::
  "('k, nat) resizing_ops \<Rightarrow> ('c, 'a list, 'e) coder_ops \<Rightarrow> ('d, 'wr, 'w) disk_ops \<Rightarrow> 'a list \<Rightarrow> 'd \<Rightarrow> 'c \<Rightarrow>
   ('k, 'a, 'd, 'c) async_array \<Rightarrow> 'w \<Rightarrow> (unit, 'e) result \<times> ('k, 'a, 'd, 'c) async_array \<times> 'w" where
  "a_append_memory K C D vals d c a w =
     (let values_len = length vals in
      case a_write C D vals (a_entry_new d c) w of
        (Ok _, e, w1) \<Rightarrow>
          (case a_push_range K values_len (a\<lparr>aa_entries := aa_entries a @ [e]\<rparr>) of (r, a1) \<Rightarrow> (expect r, a1, w1))
      | (Err x, e, w1) \<Rightarrow> (Err x, a, w1)
      | (Panic, e, w1) \<Rightarrow> (Panic, a, w1))"

text \<open>
  \<open>a_from_containers\<close>. \<open>buffered n fs\<close> is the stream adapter of the \<open>futures\<close> crate followed by
  \<open>try_collect\<close>: it runs up to \<open>n\<close> of the futures at a time, interleaving their effects as it likes, and
  collects their results in order; \<open>None\<close> is an await that never ends. It is a parameter. The number is
  computed from the size hint of the iterator.
\<close>

definition buffer_size :: "nat \<times> nat option \<Rightarrow> nat" where
  "buffer_size hint = (case snd hint of Some upper \<Rightarrow> upper | None \<Rightarrow> max (fst hint) 1)"

definition write_chunk ::
  "('c, 'a list, 'e) coder_ops \<Rightarrow> ('d, 'wr, 'w) disk_ops \<Rightarrow> 'd \<Rightarrow> 'c \<Rightarrow> 'a list \<Rightarrow> 'w \<Rightarrow>
     (nat \<times> ('a list, 'd, 'c) async_entry, 'e) result \<times> 'w" where
  "write_chunk C D d c x w =
     (let len = length x in
      case a_write C D x (a_entry_new d c) w of (r, e, w1) \<Rightarrow> (map_ok (\<lambda>_. (len, e)) r, w1))"

fun ranges_of :: "nat \<Rightarrow> nat list \<Rightarrow> (nat \<times> nat) list" where
  "ranges_of start [] = []"
| "ranges_of start (len # lens) = (start, start + len) # ranges_of (start + len) lens"

definition a_from_containers ::
  "(nat list \<Rightarrow> 'k) \<Rightarrow> ('c, 'a list, 'e) coder_ops \<Rightarrow> ('d, 'wr, 'w) disk_ops \<Rightarrow>
   (nat \<Rightarrow> ('w \<Rightarrow> (nat \<times> ('a list, 'd, 'c) async_entry, 'e) result \<times> 'w) list \<Rightarrow> 'w \<Rightarrow>
      (((nat \<times> ('a list, 'd, 'c) async_entry) list, 'e) result \<times> 'w) option) \<Rightarrow>
   nat \<times> nat option \<Rightarrow> 'a list list \<Rightarrow> 'd \<Rightarrow> 'c \<Rightarrow> 'w \<Rightarrow> ((('k, 'a, 'd, 'c) async_array, 'e) result \<times> 'w) option" where
  "a_from_containers from C D buffered hint xss d c w =
     (case buffered (buffer_size hint) (map (write_chunk C D d c) xss) w of
        None \<Rightarrow> None
      | Some (r, w1) \<Rightarrow>
          Some (map_ok (\<lambda>les. let ks = ranges_of 0 (map fst les) in
             \<lparr>aa_starts = from (map fst ks), aa_ends = from (map snd ks), aa_entries = map snd les\<rparr>) r, w1))"

text \<open>What \<open>buffered 1\<close> does: each future runs when the one before has finished.\<close>

fun in_order :: "('w \<Rightarrow> ('x, 'e) result \<times> 'w) list \<Rightarrow> 'w \<Rightarrow> ('x list, 'e) result \<times> 'w" where
  "in_order [] w = (Ok [], w)"
| "in_order (f # fs) w =
     (case f w of
        (Ok x, w1) \<Rightarrow> (case in_order fs w1 of (r, w2) \<Rightarrow> (map_ok (\<lambda>xs. x # xs) r, w2))
      | (Err e, w1) \<Rightarrow> (Err e, w1)
      | (Panic, w1) \<Rightarrow> (Panic, w1))"

section \<open>The synchronous array behind it\<close>

definition array_view :: "('k, 'a, 'd, 'c) async_array \<Rightarrow> ('k, 'a, 'd, 'c) backed_array" where
  "array_view a = \<lparr>key_starts = aa_starts a, key_ends = aa_ends a, entries = map sync_view (aa_entries a)\<rparr>"

definition all_idle :: "('k, 'a, 'd, 'c) async_array \<Rightarrow> bool" where
  "all_idle a \<longleftrightarrow> (\<forall>e\<in>set (aa_entries a). idle (ae_value e))"

lemma array_view_simps [simp]:
  "key_starts (array_view a) = aa_starts a" "key_ends (array_view a) = aa_ends a"
  "entries (array_view a) = map sync_view (aa_entries a)"
  by (simp_all add: array_view_def)

lemma array_view_len [simp]: "array_len K (array_view a) = aa_len K a"
  by (simp add: array_len_def aa_len_def)

lemma array_view_update:
  "array_view (a\<lparr>aa_entries := (aa_entries a)[i := e]\<rparr>) = (array_view a)\<lparr>entries := (entries (array_view a))[i := sync_view e]\<rparr>"
  by (simp add: array_view_def map_update)

lemma all_idle_update: "all_idle a \<Longrightarrow> idle (ae_value e) \<Longrightarrow> all_idle (a\<lparr>aa_entries := (aa_entries a)[i := e]\<rparr>)"
  using set_update_subset_insert [of "aa_entries a" i e] by (auto simp: all_idle_def)

lemma all_idle_nth: "all_idle a \<Longrightarrow> i < length (aa_entries a) \<Longrightarrow> idle (ae_value (aa_entries a ! i))"
  by (simp add: all_idle_def)

text \<open>A load of one entry in both arrays.\<close>

lemma load_view:
  assumes "all_idle a" and "i < length (aa_entries a)"
  obtains r e1 w1 where "a_load C D (aa_entries a ! i) w = (r, e1, w1)"
    and "entry_load C D (sync_view (aa_entries a ! i)) w = (r, sync_view e1, w1)"
    and "r \<noteq> Panic \<longrightarrow> all_idle (a\<lparr>aa_entries := (aa_entries a)[i := e1]\<rparr>)"
proof -
  obtain r e1 w1 where L: "a_load C D (aa_entries a ! i) w = (r, e1, w1)" by (metis prod_cases3)
  from a_load_sim [OF all_idle_nth [OF assms] this] all_idle_update [OF assms(1)] L that show thesis by blast
qed

lemma a_get_loc_sim:
  assumes "all_idle a" and "a_get_loc C D loc a w = (r, a', w')"
  shows "get_loc C D loc (array_view a) w = (r, array_view a', w') \<and> (r \<noteq> Panic \<longrightarrow> all_idle a')"
proof (cases "entry_idx loc < length (aa_entries a)")
  case True
  obtain x e1 w1 where L: "a_load C D (aa_entries a ! entry_idx loc) w = (x, e1, w1)"
    "entry_load C D (sync_view (aa_entries a ! entry_idx loc)) w = (x, sync_view e1, w1)"
    "x \<noteq> Panic \<longrightarrow> all_idle (a\<lparr>aa_entries := (aa_entries a)[entry_idx loc := e1]\<rparr>)"
    using load_view [OF assms(1) True, of C D w] by blast
  show ?thesis using assms(2) True L
    by (cases x) (auto simp: a_get_loc_def get_loc_def array_view_update)
qed (use assms in \<open>auto simp: a_get_loc_def get_loc_def index_def\<close>)

lemma internal_a_get_loc_sim:
  assumes "all_idle a" and "internal_a_get_loc C D loc idx a w = (r, a', w')"
  shows "generic_get_loc C D loc idx (array_view a) w = (r, array_view a', w') \<and> (r \<noteq> Panic \<longrightarrow> all_idle a')"
proof (cases "entry_idx loc < length (aa_entries a)")
  case True
  obtain x e1 w1 where L: "a_load C D (aa_entries a ! entry_idx loc) w = (x, e1, w1)"
    "entry_load C D (sync_view (aa_entries a ! entry_idx loc)) w = (x, sync_view e1, w1)"
    "x \<noteq> Panic \<longrightarrow> all_idle (a\<lparr>aa_entries := (aa_entries a)[entry_idx loc := e1]\<rparr>)"
    using load_view [OF assms(1) True, of C D w] by blast
  show ?thesis using assms(2) True L
    by (cases x) (auto simp: internal_a_get_loc_def generic_get_loc_def array_view_update)
qed (use assms in \<open>auto simp: internal_a_get_loc_def generic_get_loc_def\<close>)

lemma a_get_sim:
  assumes "all_idle a" and "a_get bs K C D k a w = (r, a', w')"
  shows "array_get bs K C D k (array_view a) w = (r, array_view a', w') \<and> (r \<noteq> Panic \<longrightarrow> all_idle a')"
proof (cases "internal_idx bs (c_ref K (aa_starts a)) (c_ref K (aa_ends a)) k")
  case (Ok x)
  then show ?thesis
  proof (cases x)
    case (Some loc)
    with Ok assms(2) have "a_get_loc C D loc a w = (r, a', w')" by (simp add: a_get_def)
    from a_get_loc_sim [OF assms(1) this] Ok Some show ?thesis by (simp add: array_get_def)
  qed (use Ok assms in \<open>auto simp: a_get_def array_get_def\<close>)
qed (use assms in \<open>auto simp: a_get_def array_get_def\<close>)

lemma internal_a_get_sim:
  assumes "all_idle a" and "internal_a_get bs K C D k a w = (r, a', w')"
  shows "generic_get bs K C D k (array_view a) w = (r, array_view a', w') \<and> (r \<noteq> Panic \<longrightarrow> all_idle a')"
proof (cases "internal_idx bs (c_ref K (aa_starts a)) (c_ref K (aa_ends a)) k")
  case (Ok x)
  then show ?thesis
  proof (cases x)
    case (Some loc)
    with Ok assms(2) have "internal_a_get_loc C D loc k a w = (r, a', w')" by (simp add: internal_a_get_def)
    from internal_a_get_loc_sim [OF assms(1) this] Ok Some show ?thesis by (simp add: generic_get_def)
  qed (use Ok assms in \<open>auto simp: internal_a_get_def generic_get_def\<close>)
qed (use assms in \<open>auto simp: internal_a_get_def generic_get_def\<close>)

lemma a_push_range_sim:
  "a_push_range K n a = (r, a') \<Longrightarrow> push_range K n (array_view a) = (r, array_view a') \<and> aa_entries a' = aa_entries a"
  by (auto simp: a_push_range_def push_range_def Let_def array_view_def split: prod.splits result.splits)

lemma a_append_sim:
  assumes "a_append K C D vals d c a w = (r, a', w')"
  shows "array_append K C D vals d c (array_view a) w = (r, array_view a', w')" and "all_idle a \<Longrightarrow> all_idle a'"
proof -
  obtain x e w1 where W: "a_write_unload C D id vals (a_entry_new d c) w = (x, e, w1)" by (metis prod_cases3)
  from a_write_unload_sim [OF W]
  have S: "entry_write_unload C D id vals (entry_new d c) w = (x, sync_view e, w1)" "idle (ae_value e)" by simp_all
  obtain r1 a1 where P: "a_push_range K (length vals) (a\<lparr>aa_entries := aa_entries a @ [e]\<rparr>) = (r1, a1)" by fastforce
  have V: "array_view (a\<lparr>aa_entries := aa_entries a @ [e]\<rparr>) = (array_view a)\<lparr>entries := map sync_view (aa_entries a) @ [sync_view e]\<rparr>"
    by (simp add: array_view_def)
  from a_push_range_sim [OF P] W S P assms
  show "array_append K C D vals d c (array_view a) w = (r, array_view a', w')" "all_idle a \<Longrightarrow> all_idle a'"
    by (cases x; force simp: a_append_def array_append_def Let_def V all_idle_def)+
qed

lemma a_append_memory_sim:
  assumes "a_append_memory K C D vals d c a w = (r, a', w')"
  shows "array_append_memory K C D vals d c (array_view a) w = (r, array_view a', w')" and "all_idle a \<Longrightarrow> all_idle a'"
proof -
  obtain x e w1 where W: "a_write C D vals (a_entry_new d c) w = (x, e, w1)" by (metis prod_cases3)
  from a_write_sim [OF W]
  have S: "entry_write C D vals (entry_new d c) w = (x, sync_view e, w1)" "idle (ae_value e)"
    by simp_all
  obtain r1 a1 where P: "a_push_range K (length vals) (a\<lparr>aa_entries := aa_entries a @ [e]\<rparr>) = (r1, a1)" by fastforce
  have V: "array_view (a\<lparr>aa_entries := aa_entries a @ [e]\<rparr>) = (array_view a)\<lparr>entries := map sync_view (aa_entries a) @ [sync_view e]\<rparr>"
    by (simp add: array_view_def)
  from a_push_range_sim [OF P] W S P assms
  show "array_append_memory K C D vals d c (array_view a) w = (r, array_view a', w')" "all_idle a \<Longrightarrow> all_idle a'"
    by (cases x; force simp: a_append_memory_def array_append_memory_def Let_def V all_idle_def)+
qed

text \<open>
  The constructor. When the iterator does not tell an upper bound and tells at most one element for sure,
  the writes run one after the other, and the array is that of the synchronous constructor. When it tells
  that it is empty, \<open>buffered\<close> is asked for no future at a time.
\<close>

lemma write_chunk_sim:
  assumes "write_chunk C D d c x w = (r, w')"
  shows "case r of Ok (l, e) \<Rightarrow> l = length x \<and> idle (ae_value e) \<and> entry_write C D x (entry_new d c) w = (Ok (), sync_view e, w')
    | Err y \<Rightarrow> \<exists>e. entry_write C D x (entry_new d c) w = (Err y, e, w')
    | Panic \<Rightarrow> \<exists>e. entry_write C D x (entry_new d c) w = (Panic, e, w')"
proof -
  obtain q e w1 where W: "a_write C D x (a_entry_new d c) w = (q, e, w1)" by (metis prod_cases3)
  with a_write_sim [OF W] assms show ?thesis
    by (cases q) (auto simp: write_chunk_def)
qed

lemma in_order_sim:
  assumes "in_order (map (write_chunk C D d c) xss) w = (r, w')"
  shows "from_containers_loop C D d c start xss w =
      (map_ok (\<lambda>les. zip (ranges_of start (map fst les)) (map (sync_view \<circ> snd) les)) r, w') \<and>
    (\<forall>les. r = Ok les \<longrightarrow> (\<forall>le\<in>set les. idle (ae_value (snd le))))"
  using assms
proof (induction xss arbitrary: w start r)
  case (Cons x xss)
  obtain q w1 where W: "write_chunk C D d c x w = (q, w1)" by fastforce
  obtain r1 w2 where I: "in_order (map (write_chunk C D d c) xss) w1 = (r1, w2)" by fastforce
  show ?case
  proof (cases q)
    case (Ok le)
    with Cons.prems W I have "r = map_ok (\<lambda>xs. le # xs) r1" "w' = w2" by auto
    then show ?thesis using Ok write_chunk_sim [OF W] Cons.IH [of w1 r1 "start + length x"] I
      by (cases r1) (auto simp: Let_def split: prod.splits)
  qed (use write_chunk_sim [OF W] Cons.prems W in auto)
qed simp

lemma length_ranges_of [simp]: "length (ranges_of start ls) = length ls"
  by (induction ls arbitrary: start) auto

lemma a_from_containers_sim:
  assumes "\<And>fs w. buffered 1 fs w = Some (in_order fs w)" and "lower \<le> 1"
    and "a_from_containers from C D buffered (lower, None) xss d c w = Some (r, w')"
  shows "from_containers from C D xss d c w = (map_ok array_view r, w')" and "r = Ok a \<Longrightarrow> all_idle a"
proof -
  have n: "buffer_size (lower, None) = 1" using assms(2) by (simp add: buffer_size_def)
  obtain q w1 where I: "in_order (map (write_chunk C D d c) xss) w = (q, w1)" by fastforce
  have R: "map fst (zip (ranges_of 0 (map fst les)) (map (sync_view \<circ> snd) les)) = ranges_of 0 (map fst les)"
    "map snd (zip (ranges_of 0 (map fst les)) (map (sync_view \<circ> snd) les)) = map (sync_view \<circ> snd) les" for les :: "(nat \<times> ('e, 'd, 'c) async_entry) list"
    by simp_all
  show "from_containers from C D xss d c w = (map_ok array_view r, w')"
    using assms(1,3) n I in_order_sim [OF I, of 0] R
    by (cases q) (auto simp: a_from_containers_def from_containers_def Let_def array_view_def map_map [symmetric] simp del: map_map)
  show "r = Ok a \<Longrightarrow> all_idle a"
    using assms(1,3) n I in_order_sim [OF I, of 0]
    by (cases q) (auto simp: a_from_containers_def Let_def all_idle_def)
qed

lemma a_from_containers_empty:
  assumes "\<And>w. buffered 0 [] w = None"
  shows "a_from_containers from C D buffered (0, Some 0) [] d c w = None"
  using assms by (simp add: a_from_containers_def buffer_size_def)

section \<open>What the operations promise\<close>

text \<open>
  C13: reading and appending to an array of asynchronous entries is what it is for a synchronous one. When
  no cell is in use, \<open>a_get\<close>, \<open>a_generic_get\<close>, \<open>a_append\<close> and \<open>a_append_memory\<close>, awaited to their end, return
  what \<open>get\<close>, \<open>generic_get\<close>, \<open>append\<close> and \<open>append_memory\<close> return on the array with the same keys and
  entries, with the same array and store afterwards, and again no cell in use (unless a read panics).
\<close>

theorem async_array_simulates:
  assumes "all_idle a"
  shows "(case a_get bs K C D k a w of (r, a', w') \<Rightarrow>
      array_get bs K C D k (array_view a) w = (r, array_view a', w') \<and> (r \<noteq> Panic \<longrightarrow> all_idle a')) \<and>
    (case a_generic_get bs K C D k a w of (r, a', w') \<Rightarrow>
      generic_get bs K C D k (array_view a) w = (r, array_view a', w') \<and> (r \<noteq> Panic \<longrightarrow> all_idle a')) \<and>
    (case a_append K C D vals d c a w of (r, a', w') \<Rightarrow>
      array_append K C D vals d c (array_view a) w = (r, array_view a', w') \<and> all_idle a') \<and>
    (case a_append_memory K C D vals d c a w of (r, a', w') \<Rightarrow>
      array_append_memory K C D vals d c (array_view a) w = (r, array_view a', w') \<and> all_idle a')"
proof -
  have "map_ok id r = r" for r :: "('b, 'e array_error) result" by (cases r) auto
  then have G: "a_generic_get bs K C D k a w = internal_a_get bs K C D k a w"
    by (simp add: a_generic_get_def split: prod.split)
  show ?thesis unfolding G
    by (intro conjI; simp split: prod.split; intro allI impI)
      (auto dest: a_get_sim [OF assms] internal_a_get_sim [OF assms] a_append_sim(1) a_append_sim(2) [OF _ assms]
        a_append_memory_sim(1) a_append_memory_sim(2) [OF _ assms])
qed

text \<open>The futures a sequence of \<open>nth\<close> calls makes, and the positions they are for.\<close>

fun fut_nths :: "('k, nat) resizing_ops \<Rightarrow> ('k, 'a, 'd, 'c) async_array \<Rightarrow> nat list \<Rightarrow> fut_iter \<Rightarrow> nat option list \<times> fut_iter" where
  "fut_nths K a [] it = ([], it)"
| "fut_nths K a (n # ns) it =
     (case fut_nth K a n it of (f, it1) \<Rightarrow> case fut_nths K a ns it1 of (fs, it2) \<Rightarrow> (f # fs, it2))"

fun nth_positions :: "nat \<Rightarrow> nat list \<Rightarrow> nat list" where
  "nth_positions pos [] = []"
| "nth_positions pos (n # ns) = (pos + n) # nth_positions (pos + n + 1) ns"

lemma fut_nths_positions:
  "fut_nths K a ns it = (map (\<lambda>p. if p < aa_len K a then Some p else None) (nth_positions (fi_pos it) ns),
     it\<lparr>fi_pos := fi_pos it + sum_list ns + length ns\<rparr>)"
  by (induction ns arbitrary: it) (auto simp: fut_nth_def Let_def ac_simps)

lemma the_four_iterators:
  "send_nth K a n it = fut_nth K a n it" "generic_fut_nth K a n it = fut_nth K a n it"
  "generic_send_nth K a n it = fut_nth K a n it"
  by (simp_all add: send_nth_def generic_fut_nth_def generic_send_nth_def fut_nth_def Let_def)

lemma nth_positions_next: "nth_positions pos (replicate n 0) = [pos..<pos + n]"
  by (induction n arbitrary: pos) (auto simp: upt_conv_Cons)

text \<open>Awaiting a future of the array: the element, an array that represents the same chunks.\<close>

lemma await_item_represents:
  assumes "coder_roundtrip C" "searches bs xss" "k < length (concat xss)"
    and "all_idle a" "array_represents vec_ops C plainfile_disk (array_view a) s xss"
    and "get = fut_await bs vec_ops C plainfile_disk \<or> get = generic_fut_await bs vec_ops C plainfile_disk"
  shows "\<exists>a'. get k a s = (Ok (concat xss ! k), a', s) \<and> all_idle a' \<and>
    array_represents vec_ops C plainfile_disk (array_view a') s xss"
proof -
  from plain_get [OF assms(1,5,2), of k] assms(3) obtain b where
    G: "array_get bs vec_ops C plainfile_disk k (array_view a) s = (Ok (concat xss ! k), b, s)"
      "generic_get bs vec_ops C plainfile_disk k (array_view a) s = (Ok (concat xss ! k), b, s)"
    and b: "array_represents vec_ops C plainfile_disk b s xss" by auto
  obtain r1 a1 s1 where A: "a_get bs vec_ops C plainfile_disk k a s = (r1, a1, s1)" by (metis prod_cases3)
  obtain r2 a2 s2 where B: "internal_a_get bs vec_ops C plainfile_disk k a s = (r2, a2, s2)" by (metis prod_cases3)
  from a_get_sim [OF assms(4) A] internal_a_get_sim [OF assms(4) B] G b assms(6) A B show ?thesis
    by (auto simp: fut_await_def generic_fut_await_def await_item_def)
qed

lemma await_all_represents:
  assumes "coder_roundtrip C" "searches bs xss"
    and "get = fut_await bs vec_ops C plainfile_disk \<or> get = generic_fut_await bs vec_ops C plainfile_disk"
  shows "all_idle a \<Longrightarrow> array_represents vec_ops C plainfile_disk (array_view a) s xss \<Longrightarrow>
    \<forall>p\<in>set ps. p < length (concat xss) \<Longrightarrow>
    \<exists>a'. await_all get ps a s = (map (\<lambda>p. Ok (concat xss ! p)) ps, a', s) \<and> all_idle a' \<and>
      array_represents vec_ops C plainfile_disk (array_view a') s xss"
proof (induction ps arbitrary: a)
  case (Cons p ps)
  from await_item_represents [OF assms(1,2) _ Cons.prems(1,2) assms(3), of p] Cons.prems(3)
  obtain a1 where A: "get p a s = (Ok (concat xss ! p), a1, s)" "all_idle a1"
    "array_represents vec_ops C plainfile_disk (array_view a1) s xss" by auto
  from Cons.IH [OF A(2,3)] Cons.prems(3) A(1) show ?case by auto
qed simp

text \<open>A small array of asynchronous entries over the store of the synchronous examples.\<close>

abbreviation demo_async :: "(nat list, byte, plainfile, bincode_coder) async_array" where
  "demo_async \<equiv> \<lparr>aa_starts = [0, 2, 3], aa_ends = [2, 3, 6],
     aa_entries = [loaded_with [10, 11] (a_entry_new (Plainfile [''f'']) BincodeCoder),
       a_entry_new (Plainfile [''g'']) BincodeCoder, a_entry_new (Plainfile [''h'']) BincodeCoder]\<rparr>"

lemma demo_async_view: "array_view demo_async = demo_array"
  by (simp add: array_view_def sync_view_loaded_with)

lemma demo_async_idle: "all_idle demo_async"
  by (simp add: all_idle_def loaded_with_def)

theorem async_array_simulates_witness:
  "(case a_get bsearch_early vec_ops prefix_ops plainfile_disk 4 demo_async demo_store of (r, a', w') \<Rightarrow>
      array_get bsearch_early vec_ops prefix_ops plainfile_disk 4 demo_array demo_store = (r, array_view a', w'))"
proof -
  let ?a = "a_get bsearch_early vec_ops prefix_ops plainfile_disk 4 demo_async demo_store"
  have "case ?a of (r, a', w') \<Rightarrow>
      array_get bsearch_early vec_ops prefix_ops plainfile_disk 4 (array_view demo_async) demo_store = (r, array_view a', w') \<and>
      (r \<noteq> Panic \<longrightarrow> all_idle a')"
    by (rule conjunct1 [OF async_array_simulates [OF demo_async_idle]])
  then show ?thesis by (simp only: demo_async_view) (auto split: prod.splits)
qed



text \<open>
  the position of a stream moves past the end, also by a plain \<open>next\<close>: after the last element
  has been handed out and \<open>None\<close> returned once, \<open>size_hint\<close> subtracts below zero and panics.
\<close>

theorem stream_size_hint_after_end:
  "case fut_nths K a (replicate (Suc (aa_len K a)) 0) stream of (fs, it) \<Rightarrow>
     fs = map Some [0..<aa_len K a] @ [None] \<and> fut_size_hint K a it = Panic"
proof -
  have "nth_positions 0 (replicate (Suc n) 0) = [0..<n] @ [n]" for n
    using nth_positions_next [of 0 "Suc n"] by simp
  then show ?thesis
    by (simp add: fut_nths_positions stream_def fut_size_hint_def usub_def sum_list_replicate del: replicate_Suc)
qed

end
