(* ===== verification/Async_Directory.thy ===== *)
theory Async_Directory
  imports Directory_Array Async_Array
begin

text \<open>
  The asynchronous operations of \<open>DirectoryBackedArray\<close> (\<open>src/directory/async_impl.rs\<close>), over arrays of
  asynchronous entries and the same explicit file system. They are the synchronous operations with
  one difference: \<open>a_append_dir\<close> does not remove the other directory's \<open>meta.dat\<close>. The functions of the
  array they use that exist once for both kinds of entries (\<open>remove\<close>, \<open>merge\<close>, \<open>update_root\<close>) are
  given here for asynchronous entries.
\<close>

section \<open>The array\<close>

record ('k, 'a, 'd, 'c) async_dir =
  ad_array :: "('k, 'a, 'd, 'c) async_array"
  ad_root :: path

definition aa_remove ::
  "('k, nat) resizing_ops \<Rightarrow> nat \<Rightarrow> ('k, 'a, 'd, 'c) async_array \<Rightarrow> (unit, unit) result \<times> ('k, 'a, 'd, 'c) async_array" where
  "aa_remove K i a =
     (case (c_get K (aa_starts a) i, c_get K (aa_ends a) i) of
        (Some start, Some stop) \<Rightarrow>
          (case usub stop start of
             Ok width \<Rightarrow>
               (case vec_c_remove i (aa_entries a) of
                  (Ok _, es) \<Rightarrow>
                    (case key_remove K i width (aa_starts a) of
                       (Ok _, ks) \<Rightarrow>
                         (case key_remove K i width (aa_ends a) of
                            (r, ke) \<Rightarrow> (r, a\<lparr>aa_entries := es, aa_starts := ks, aa_ends := ke\<rparr>))
                     | (r, ks) \<Rightarrow> (r, a\<lparr>aa_entries := es, aa_starts := ks\<rparr>))
                | (r, es) \<Rightarrow> (r, a))
           | Err x \<Rightarrow> (Err x, a)
           | Panic \<Rightarrow> (Panic, a))
      | _ \<Rightarrow> (Ok (), a))"

definition aa_merge ::
  "('k, nat) resizing_ops \<Rightarrow> ('k, 'a, 'd, 'c) async_array \<Rightarrow> ('k, 'a, 'd, 'c) async_array \<Rightarrow>
     (unit, unit) result \<times> ('k, 'a, 'd, 'c) async_array" where
  "aa_merge K a rhs =
     (let offset = last_or 0 (c_ref K (aa_ends a)) in
      case c_extend K (map (\<lambda>x. x + offset) (c_ref K (aa_starts rhs))) (aa_starts a) of
        (Ok _, ks) \<Rightarrow>
          (case c_extend K (map (\<lambda>x. x + offset) (c_ref K (aa_ends rhs))) (aa_ends a) of
             (Ok _, ke) \<Rightarrow> (Ok (), a\<lparr>aa_starts := ks, aa_ends := ke, aa_entries := aa_entries a @ aa_entries rhs\<rparr>)
           | (r, ke) \<Rightarrow> (r, a\<lparr>aa_starts := ks, aa_ends := ke\<rparr>))
      | (r, ks) \<Rightarrow> (r, a\<lparr>aa_starts := ks\<rparr>))"

section \<open>Operations\<close>

definition a_dir_remove ::
  "('k, nat) resizing_ops \<Rightarrow> ('d, 'x) path_disk \<Rightarrow> nat \<Rightarrow> ('k, 'a, 'd, 'c) async_dir \<Rightarrow> fs \<Rightarrow>
     (unit, io_error) result \<times> ('k, 'a, 'd, 'c) async_dir \<times> fs" where
  "a_dir_remove K P i a s =
     (let removed = (case nth_opt (aa_entries (ad_array a)) i of
            Some e \<Rightarrow> fs_remove_file (pd_path P (ae_disk e)) s
          | None \<Rightarrow> (Ok (), s)) in
      case removed of
        (Ok _, s1) \<Rightarrow>
          (case aa_remove K i (ad_array a) of (r, b) \<Rightarrow> (expect r, a\<lparr>ad_array := b\<rparr>, s1))
      | (r, s1) \<Rightarrow> (r, a, s1))"

fun a_dir_delete_chunks ::
  "('k, nat) resizing_ops \<Rightarrow> ('d, 'x) path_disk \<Rightarrow> nat \<Rightarrow> ('k, 'a, 'd, 'c) async_dir \<Rightarrow> fs \<Rightarrow>
     (unit option, io_error) result \<times> ('k, 'a, 'd, 'c) async_dir \<times> fs" where
  "a_dir_delete_chunks K P 0 a s = (Ok None, a, s)"
| "a_dir_delete_chunks K P (Suc fuel) a s =
     (if aa_entries (ad_array a) = [] then (Ok (Some ()), a, s)
      else case a_dir_remove K P 0 a s of
        (Ok _, a1, s1) \<Rightarrow> a_dir_delete_chunks K P fuel a1 s1
      | (Err e, a1, s1) \<Rightarrow> (Err e, a1, s1)
      | (Panic, a1, s1) \<Rightarrow> (Panic, a1, s1))"

definition a_dir_delete ::
  "('k, nat) resizing_ops \<Rightarrow> ('d, 'x) path_disk \<Rightarrow> nat \<Rightarrow> ('k, 'a, 'd, 'c) async_dir \<Rightarrow> fs \<Rightarrow>
     (unit option, io_error) result \<times> fs" where
  "a_dir_delete K P fuel a s =
     (case a_dir_delete_chunks K P fuel a s of
        (Ok (Some _), a1, s1) \<Rightarrow> (Ok (Some ()), snd (fs_remove_dir (ad_root a1) s1))
      | (r, a1, s1) \<Rightarrow> (r, s1))"

definition a_next_target :: "('d, 'x) path_disk \<Rightarrow> string \<Rightarrow> ('k, 'a, 'd, 'c) async_dir \<Rightarrow> ('d, 'x) result" where
  "a_next_target P uuid a = pd_from P (join (ad_root a) uuid)"

definition a_dir_append ::
  "('k, nat) resizing_ops \<Rightarrow> ('c, 'a list, 'e) coder_ops \<Rightarrow> ('d, 'wr, fs) disk_ops \<Rightarrow> ('d, 'x) path_disk \<Rightarrow> 'c \<Rightarrow>
   string \<Rightarrow> 'a list \<Rightarrow> ('k, 'a, 'd, 'c) async_dir \<Rightarrow> fs \<Rightarrow>
     (unit, ('e, 'x) disk_write_err) result \<times> ('k, 'a, 'd, 'c) async_dir \<times> fs" where
  "a_dir_append K C D P c uuid vals a s =
     (case a_next_target P uuid a of
        Ok d \<Rightarrow>
          (case a_append K C D vals d c (ad_array a) s of
             (r, b, s1) \<Rightarrow> (map_err WriteErr r, a\<lparr>ad_array := b\<rparr>, s1))
      | Err x \<Rightarrow> (Err (WriteDisk x), a, s)
      | Panic \<Rightarrow> (Panic, a, s))"

definition a_dir_append_memory ::
  "('k, nat) resizing_ops \<Rightarrow> ('c, 'a list, 'e) coder_ops \<Rightarrow> ('d, 'wr, fs) disk_ops \<Rightarrow> ('d, 'x) path_disk \<Rightarrow> 'c \<Rightarrow>
   string \<Rightarrow> 'a list \<Rightarrow> ('k, 'a, 'd, 'c) async_dir \<Rightarrow> fs \<Rightarrow>
     (unit, ('e, 'x) disk_write_err) result \<times> ('k, 'a, 'd, 'c) async_dir \<times> fs" where
  "a_dir_append_memory K C D P c uuid vals a s =
     (case a_next_target P uuid a of
        Ok d \<Rightarrow>
          (case a_append_memory K C D vals d c (ad_array a) s of
             (r, b, s1) \<Rightarrow> (map_err WriteErr r, a\<lparr>ad_array := b\<rparr>, s1))
      | Err x \<Rightarrow> (Err (WriteDisk x), a, s)
      | Panic \<Rightarrow> (Panic, a, s))"

definition a_chunk_paths :: "('d, 'x) path_disk \<Rightarrow> ('k, 'a, 'd, 'c) async_array \<Rightarrow> path list" where
  "a_chunk_paths P b = map (\<lambda>e. pd_path P (ae_disk e)) (aa_entries b)"

text \<open>\<open>stream::iter(..).then(..).try_collect()\<close> awaits one move after the other, up to the first error.\<close>

definition a_append_dir ::
  "('k, nat) resizing_ops \<Rightarrow> ('d, 'x) path_disk \<Rightarrow> ('k, 'a, 'd, 'c) async_dir \<Rightarrow> ('k, 'a, 'd, 'c) async_dir \<Rightarrow> fs \<Rightarrow>
     (unit, io_error) result \<times> ('k, 'a, 'd, 'c) async_dir \<times> fs" where
  "a_append_dir K P rhs a s =
     (let moved = (if ad_root a \<noteq> ad_root rhs then
            (case for_paths (move_chunk (ad_root a)) (a_chunk_paths P (ad_array rhs)) s of
               (Ok _, s1) \<Rightarrow> (Ok (), snd (fs_remove_dir (ad_root rhs) s1))
             | (r, s1) \<Rightarrow> (r, s1))
          else (Ok (), s)) in
      case moved of
        (Ok _, s1) \<Rightarrow> (case aa_merge K (ad_array a) (ad_array rhs) of (r, b) \<Rightarrow> (expect r, a\<lparr>ad_array := b\<rparr>, s1))
      | (r, s1) \<Rightarrow> (r, a, s1))"

definition a_dir_new :: "('k, nat) resizing_ops \<Rightarrow> path \<Rightarrow> fs \<Rightarrow> (('k, 'a, 'd, 'c) async_dir, io_error) result \<times> fs" where
  "a_dir_new K root s =
     (case fs_create_dir_all root s of
        (r, s1) \<Rightarrow>
          (map_ok (\<lambda>_. \<lparr>ad_array = \<lparr>aa_starts = c_default K, aa_ends = c_default K, aa_entries = []\<rparr>, ad_root = root\<rparr>) r, s1))"

fun a_update_disks ::
  "('d, 'x) path_disk \<Rightarrow> path \<Rightarrow> ('v, 'd, 'c) async_entry list \<Rightarrow> (unit, 'x) result \<times> ('v, 'd, 'c) async_entry list" where
  "a_update_disks P root [] = (Ok (), [])"
| "a_update_disks P root (e # es) =
     (case file_name (pd_path P (ae_disk e)) of
        None \<Rightarrow> (Panic, e # es)
      | Some n \<Rightarrow>
          (case pd_from P (join root n) of
             Ok d \<Rightarrow> (case a_update_disks P root es of (r, es1) \<Rightarrow> (r, e\<lparr>ae_disk := d\<rparr> # es1))
           | Err x \<Rightarrow> (Err x, e # es)
           | Panic \<Rightarrow> (Panic, e # es)))"

definition a_update_root ::
  "('d, 'x) path_disk \<Rightarrow> path \<Rightarrow> ('k, 'a, 'd, 'c) async_dir \<Rightarrow>
     (unit, 'x disk_create_err) result \<times> ('k, 'a, 'd, 'c) async_dir" where
  "a_update_root P root a =
     (case a_update_disks P root (aa_entries (ad_array a)) of
        (Ok _, es) \<Rightarrow> (Ok (), a\<lparr>ad_array := (ad_array a)\<lparr>aa_entries := es\<rparr>, ad_root := root\<rparr>)
      | (r, es) \<Rightarrow> (map_err CreateDisk r, a\<lparr>ad_array := (ad_array a)\<lparr>aa_entries := es\<rparr>\<rparr>))"

definition a_move_root ::
  "('d, 'x) path_disk \<Rightarrow> path \<Rightarrow> ('k, 'a, 'd, 'c) async_dir \<Rightarrow> fs \<Rightarrow>
     (unit, 'x disk_create_err) result \<times> ('k, 'a, 'd, 'c) async_dir \<times> fs" where
  "a_move_root P root a s =
     (let moved = (case fs_rename (ad_root a) root s of
            (Ok _, s1) \<Rightarrow> (Ok (), s1)
          | (_, s1) \<Rightarrow>
              (case fs_create_dir_all root s1 of
                 (Ok _, s2) \<Rightarrow> for_paths (copy_chunk root) (a_chunk_paths P (ad_array a)) s2
               | (r, s2) \<Rightarrow> (r, s2))) in
      case moved of
        (Ok _, s1) \<Rightarrow> (case a_update_root P root a of (r, a1) \<Rightarrow> (r, a1, s1))
      | (r, s1) \<Rightarrow> (map_ok id (map_err CreateIo r), a, s1))"

text \<open>Serde skips the value; it comes back as a new cell.\<close>

definition a_serialized :: "('k, 'a, 'd, 'c) async_dir \<Rightarrow> ('k, 'a, 'd, 'c) async_dir" where
  "a_serialized a = a\<lparr>ad_array := (ad_array a)\<lparr>aa_entries := map a_unload (aa_entries (ad_array a))\<rparr>\<rparr>"

definition a_dir_save ::
  "('m, ('k, 'a, 'd, 'c) async_dir, 'e) coder_ops \<Rightarrow> ('d, 'wr, fs) disk_ops \<Rightarrow> ('d, 'x) path_disk \<Rightarrow> 'm \<Rightarrow>
   ('k, 'a, 'd, 'c) async_dir \<Rightarrow> fs \<Rightarrow> (unit, ('e, 'x) disk_write_err) result \<times> fs" where
  "a_dir_save M D P coder a s =
     (case pd_from P (join (ad_root a) meta_file) of
        Err x \<Rightarrow> (Err (WriteDisk x), s)
      | Panic \<Rightarrow> (Panic, s)
      | Ok d \<Rightarrow>
          (case d_write D d s of
             (Ok wr, s1) \<Rightarrow> (case encode M D coder (a_serialized a) wr s1 of (r, s2) \<Rightarrow> (map_err WriteErr r, s2))
           | (Err e, s1) \<Rightarrow> (Err (WriteIoErr e), s1)
           | (Panic, s1) \<Rightarrow> (Panic, s1)))"

definition a_dir_load ::
  "('m, ('k, 'a, 'd, 'c) async_dir, 'e) coder_ops \<Rightarrow> ('d, 'wr, fs) disk_ops \<Rightarrow> ('d, 'x) path_disk \<Rightarrow> 'm \<Rightarrow>
   path \<Rightarrow> fs \<Rightarrow> (('k, 'a, 'd, 'c) async_dir, ('x, 'e) disk_read_err) result \<times> fs" where
  "a_dir_load M D P coder root s =
     (case pd_from P (join root meta_file) of
        Err x \<Rightarrow> (Err (ReadErr x), s)
      | Panic \<Rightarrow> (Panic, s)
      | Ok d \<Rightarrow>
          (case d_read D d s of
             (Ok b, s1) \<Rightarrow> (map_err ReadDisk (decode M coder b), s1)
           | (Err e, s1) \<Rightarrow> (Err (ReadIoErr e), s1)
           | (Panic, s1) \<Rightarrow> (Panic, s1)))"

text \<open>
  \<open>deconstruct\<close> gives the array in an \<open>Arc\<close> and a function that puts it back under the old root, if
  the \<open>Arc\<close> it is given is the only reference left.
\<close>

definition deconstruct ::
  "('k, 'a, 'd, 'c) async_dir \<Rightarrow>
     ('k, 'a, 'd, 'c) async_array \<times> (nat \<times> ('k, 'a, 'd, 'c) async_array \<Rightarrow> ('k, 'a, 'd, 'c) async_dir option)" where
  "deconstruct a =
     (ad_array a, \<lambda>(references, b). if references = 1 then Some \<lparr>ad_array = b, ad_root = ad_root a\<rparr> else None)"

section \<open>The synchronous directory behind it\<close>

definition dir_view :: "('k, 'a, 'd, 'c) async_dir \<Rightarrow> ('k, 'a, 'd, 'c) dir_array" where
  "dir_view a = \<lparr>da_array = array_view (ad_array a), da_root = ad_root a\<rparr>"

lemma dir_view_simps [simp]:
  "da_array (dir_view a) = array_view (ad_array a)" "da_root (dir_view a) = ad_root a"
  by (simp_all add: dir_view_def)

lemma aa_remove_sim: "aa_remove K i a = (r, a') \<Longrightarrow> array_remove K i (array_view a) = (r, array_view a')"
  by (auto simp: aa_remove_def array_remove_def array_view_def vec_c_remove_def take_map drop_map
      split: option.splits result.splits prod.splits if_splits)

lemma aa_merge_sim:
  "aa_merge K a b = (r, a') \<Longrightarrow> array_merge K (array_view a) (array_view b) = (r, array_view a')"
  by (auto simp: aa_merge_def array_merge_def array_view_def Let_def split: result.splits prod.splits)

lemma a_chunk_paths_sim: "a_chunk_paths P b = chunk_paths P (array_view b)"
  by (simp add: a_chunk_paths_def)

lemma a_update_disks_sim:
  "a_update_disks P root es = (r, es') \<Longrightarrow> update_disks P root (map sync_view es) = (r, map sync_view es')"
proof (induction es arbitrary: r es')
  case (Cons e es)
  then show ?case
    by (auto simp: sync_view_def split: option.splits result.splits prod.splits)
qed simp

lemma a_dir_remove_sim:
  "a_dir_remove K P i a s = (r, a', s') \<Longrightarrow> dir_remove K P i (dir_view a) s = (r, dir_view a', s')"
  by (cases "i < length (aa_entries (ad_array a))")
    (auto simp: a_dir_remove_def dir_remove_def Let_def dir_view_def nth_opt_def split: prod.splits result.splits
      dest: aa_remove_sim)

lemma a_dir_delete_chunks_sim:
  "a_dir_delete_chunks K P fuel a s = (r, a', s') \<Longrightarrow> dir_delete_chunks K P fuel (dir_view a) s = (r, dir_view a', s')"
proof (induction fuel arbitrary: a s)
  case (Suc fuel)
  obtain q a1 s1 where R: "a_dir_remove K P 0 a s = (q, a1, s1)" by (metis prod_cases3)
  show ?case
  proof (cases "aa_entries (ad_array a) = []")
    case False
    with Suc R a_dir_remove_sim [OF R] show ?thesis by (cases q) (auto simp: array_is_empty_def)
  qed (use Suc in \<open>simp add: array_is_empty_def\<close>)
qed simp

lemma a_dir_delete_sim: "a_dir_delete K P fuel a s = dir_delete K P fuel (dir_view a) s"
proof -
  obtain q a1 s1 where R: "a_dir_delete_chunks K P fuel a s = (q, a1, s1)" by (metis prod_cases3)
  from a_dir_delete_chunks_sim [OF R] R show ?thesis by (simp add: a_dir_delete_def dir_delete_def split: result.split option.split)
qed

lemma a_dir_append_sim:
  "a_dir_append K C D P c uuid vals a s = (r, a', s') \<Longrightarrow>
    dir_append K C D P c uuid vals (dir_view a) s = (r, dir_view a', s')"
  "a_dir_append_memory K C D P c uuid vals a s = (r, a', s') \<Longrightarrow>
    dir_append_memory K C D P c uuid vals (dir_view a) s = (r, dir_view a', s')"
  by (auto simp: a_dir_append_def dir_append_def a_dir_append_memory_def dir_append_memory_def a_next_target_def
      next_target_def dir_view_def split: prod.splits result.splits dest!: a_append_sim(1) a_append_memory_sim(1))

lemma a_update_root_sim: "a_update_root P root a = (r, a') \<Longrightarrow> update_root P root (dir_view a) = (r, dir_view a')"
  by (auto simp: a_update_root_def update_root_def dir_view_def array_view_def split: prod.splits result.splits
      dest!: a_update_disks_sim)

lemma a_move_root_sim: "a_move_root P root a s = (r, a', s') \<Longrightarrow> move_root P root (dir_view a) s = (r, dir_view a', s')"
  by (auto simp: a_move_root_def move_root_def a_chunk_paths_sim Let_def o_def split: prod.splits result.splits
      dest!: a_update_root_sim)

lemma a_serialized_sim: "dir_view (a_serialized a) = serialized (dir_view a)"
  by (simp add: dir_view_def a_serialized_def serialized_def array_view_def sync_view_unload unload_def)

lemma a_dir_new_sim: "a_dir_new K root s = (r, s') \<Longrightarrow> dir_new K root s = (map_ok dir_view r, s')"
  by (cases "fst (fs_create_dir_all root s)")
    (auto simp: a_dir_new_def dir_new_def dir_view_def array_view_def array_default_def split: prod.splits)

text \<open>
  C16: six asynchronous directory operations are the synchronous ones: creating the directory, both
  appends, removing a chunk, deleting the directory and moving the root return what their twins return
  on the array with the same keys and entries, and leave the same array and files; and what a save encodes is the
  same. Appending a directory is not among them: \<open>a_append_dir\<close> differs from its twin, as shown below.
\<close>

theorem async_dir_simulates:
  "(case a_dir_new K root s of (r, s') \<Rightarrow> dir_new K root s = (map_ok dir_view r, s')) \<and>
   (case a_dir_append K C D P c uuid vals a s of (r, a', s') \<Rightarrow>
      dir_append K C D P c uuid vals (dir_view a) s = (r, dir_view a', s')) \<and>
   (case a_dir_append_memory K C D P c uuid vals a s of (r, a', s') \<Rightarrow>
      dir_append_memory K C D P c uuid vals (dir_view a) s = (r, dir_view a', s')) \<and>
   (case a_dir_remove K P i a s of (r, a', s') \<Rightarrow> dir_remove K P i (dir_view a) s = (r, dir_view a', s')) \<and>
   a_dir_delete K P fuel a s = dir_delete K P fuel (dir_view a) s \<and>
   (case a_move_root P root a s of (r, a', s') \<Rightarrow> move_root P root (dir_view a) s = (r, dir_view a', s')) \<and>
   dir_view (a_serialized a) = serialized (dir_view a)"
  by (intro conjI; simp split: prod.split add: a_dir_delete_sim a_serialized_sim)
    (blast intro: a_dir_remove_sim a_dir_append_sim a_move_root_sim a_dir_new_sim)+

lemma a_append_dir_Ok:
  assumes "a_append_dir K P rhs a s = (Ok u, a', s')" and "ad_root a \<noteq> ad_root rhs"
  obtains v s1 r b where "for_paths (move_chunk (ad_root a)) (a_chunk_paths P (ad_array rhs)) s = (Ok v, s1)"
    "s' = snd (fs_remove_dir (ad_root rhs) s1)" "aa_merge K (ad_array a) (ad_array rhs) = (r, b)"
    "(expect r :: (unit, io_error) result) = Ok u" "a' = a\<lparr>ad_array := b\<rparr>"
proof -
  obtain q s1 where F: "for_paths (move_chunk (ad_root a)) (a_chunk_paths P (ad_array rhs)) s = (q, s1)" by fastforce
  obtain r b where M: "aa_merge K (ad_array a) (ad_array rhs) = (r, b)" by fastforce
  show thesis using assms F M by (cases q) (auto simp: a_append_dir_def Let_def intro: that)
qed


text \<open>Two directories, the other one saved.\<close>

abbreviation demo_target :: "(nat list, byte, plainfile, bincode_coder) async_dir" where
  "demo_target \<equiv> \<lparr>ad_array = \<lparr>aa_starts = [], aa_ends = [], aa_entries = []\<rparr>, ad_root = [''r'']\<rparr>"

abbreviation demo_source :: "(nat list, byte, plainfile, bincode_coder) async_dir" where
  "demo_source \<equiv> \<lparr>ad_array = \<lparr>aa_starts = [0], aa_ends = [1],
     aa_entries = [a_entry_new (Plainfile [''t'', ''w'']) BincodeCoder]\<rparr>, ad_root = [''t'']\<rparr>"

abbreviation demo_saved :: fs where
  "demo_saved \<equiv> set_file [''t'', ''meta.dat''] (Some [9]) (set_file [''t'', ''w''] (Some [1, 13])
     (empty_fs\<lparr>dirs := (\<lambda>p. p = [] \<or> p = [''r''] \<or> p = [''t''])\<rparr>))"


end
