(* ===== verification/Mmap_Writer.thy ===== *)
theory Mmap_Writer
  imports Disks
begin

text \<open>
  \<open>MmapWriter\<close> (\<open>src/entry/disks/mmap.rs\<close>): a writer into a shared memory mapping of a file, which
  extends the file in advance and cuts it back to what was written on \<open>flush\<close> and on drop. A mapping
  is its length: it is shared, so its bytes are the file's. The Linux paths of the code are modelled.
  Whether the kernel grants a length, a mapping or a protection, and whether a file has a hole, are
  parameters. A store beyond the file or into a full device kills the program and is a \<open>Panic\<close> here;
  files are not renamed or cut by others while they are mapped.
\<close>

section \<open>Files that are mapped\<close>

record mmap_os =
  os_len_ok :: "path \<Rightarrow> nat \<Rightarrow> bool"
  os_map_ok :: "path \<Rightarrow> nat \<Rightarrow> bool"
  os_protect_ok :: "path \<Rightarrow> bool"
  os_sync_ok :: "path \<Rightarrow> bool"
  os_hole :: "path \<Rightarrow> bool option"

text \<open>\<open>File::options().read(true).write(true).create(true).truncate(false).open(path)\<close>.\<close>

definition open_mmap_file :: "path \<Rightarrow> fs \<Rightarrow> (unit, io_error) result \<times> fs" where
  "open_mmap_file p s =
     (if faulty s p then (Err PermissionDenied, s)
      else if dirs s p then (Err IsADirectory, s)
      else if files s p = None then
        (if dirs s (parent p) then (Ok (), set_file p (Some []) s) else (Err NotFound, s))
      else (Ok (), s))"

definition file_len :: "path \<Rightarrow> fs \<Rightarrow> nat" where
  "file_len p s = (case files s p of None \<Rightarrow> 0 | Some c \<Rightarrow> length c)"

text \<open>\<open>set_len\<close> and \<open>ftruncate\<close>: cut, or extend with zeros.\<close>

definition resize :: "nat \<Rightarrow> bytes \<Rightarrow> bytes" where
  "resize n c = take n c @ replicate (n - length c) 0"

definition set_len :: "mmap_os \<Rightarrow> path \<Rightarrow> nat \<Rightarrow> fs \<Rightarrow> (unit, io_error) result \<times> fs" where
  "set_len Os p n s =
     (if os_len_ok Os p n then (Ok (), set_file p (map_option (resize n) (files s p)) s) else (Err OtherError, s))"

definition map_file :: "mmap_os \<Rightarrow> path \<Rightarrow> fs \<Rightarrow> (nat, io_error) result" where
  "map_file Os p s = (if os_map_ok Os p (file_len p s) then Ok (file_len p s) else Err OutOfMemory)"

section \<open>The writer\<close>

record mmap_writer =
  mw_path :: path
  mw_map :: nat
  written_len :: nat
  reserved_len :: nat
  sparse_file :: bool

definition from_args :: "path \<Rightarrow> nat \<Rightarrow> mmap_writer" where
  "from_args p n = \<lparr>mw_path = p, mw_map = n, written_len = 0, reserved_len = n, sparse_file = True\<rparr>"

text \<open>An empty file gets one byte, so that it can be mapped.\<close>

definition no_advise :: "mmap_os \<Rightarrow> path \<Rightarrow> fs \<Rightarrow> (mmap_writer, io_error) result \<times> fs" where
  "no_advise Os p s =
     (case open_mmap_file p s of
        (Ok _, s1) \<Rightarrow>
          (case (if file_len p s1 = 0 then set_len Os p 1 s1 else (Ok (), s1)) of
             (Ok _, s2) \<Rightarrow> (map_ok (from_args p) (map_file Os p s2), s2)
           | (Err e, s2) \<Rightarrow> (Err e, s2)
           | (Panic, s2) \<Rightarrow> (Panic, s2))
      | (Err e, s1) \<Rightarrow> (Err e, s1)
      | (Panic, s1) \<Rightarrow> (Panic, s1))"

definition mw_file :: "mmap_writer \<Rightarrow> fs \<Rightarrow> (unit, io_error) result \<times> fs" where
  "mw_file m s = open_mmap_file (mw_path m) s"

definition remap :: "mmap_os \<Rightarrow> mmap_writer \<Rightarrow> (unit, io_error) result \<times> mmap_writer" where
  "remap Os m =
     (if os_map_ok Os (mw_path m) (reserved_len m) then (Ok (), m\<lparr>mw_map := reserved_len m\<rparr>) else (Err OutOfMemory, m))"

definition i64_max :: nat where
  "i64_max = 2 ^ 63 - 1"

definition reserve_ftruncate ::
  "mmap_os \<Rightarrow> nat \<Rightarrow> mmap_writer \<Rightarrow> fs \<Rightarrow> (unit, io_error) result \<times> mmap_writer \<times> fs" where
  "reserve_ftruncate Os new_reserved_len m s =
     (if i64_max < new_reserved_len then (Err OutOfMemory, m, s)
      else (case set_len Os (mw_path m) new_reserved_len s of
          (Ok _, s1) \<Rightarrow> (Ok (), m\<lparr>reserved_len := new_reserved_len\<rparr>, s1)
        | (Err e, s1) \<Rightarrow> (Err e, m, s1)
        | (Panic, s1) \<Rightarrow> (Panic, m, s1)))"

definition eight_gib :: nat where
  "eight_gib = 8 * 1024 * 1024 * 1024"

definition reserve_sparse :: "mmap_os \<Rightarrow> mmap_writer \<Rightarrow> fs \<Rightarrow> (unit, io_error) result \<times> mmap_writer \<times> fs" where
  "reserve_sparse Os m s =
     (case os_hole Os (mw_path m) of
        Some True \<Rightarrow>
          (let add_gib = reserved_len m + eight_gib in
           if i64_max < add_gib then (Err OutOfMemory, m, s)
           else (case set_len Os (mw_path m) add_gib s of
               (Ok _, s1) \<Rightarrow> (Ok (), m\<lparr>reserved_len := add_gib\<rparr>, s1)
             | (Err e, s1) \<Rightarrow> (Err e, m, s1)
             | (Panic, s1) \<Rightarrow> (Panic, m, s1)))
      | Some False \<Rightarrow> (Ok (), m\<lparr>sparse_file := False\<rparr>, s)
      | None \<Rightarrow> (Ok (), m, s))"

text \<open>The attempt at one big sparse allocation; the answer says whether it was made.\<close>

definition sparse_alloc :: "mmap_os \<Rightarrow> nat \<Rightarrow> mmap_writer \<Rightarrow> fs \<Rightarrow> bool \<times> mmap_writer \<times> fs" where
  "sparse_alloc Os n m s =
     (if sparse_file m then
        (case reserve_ftruncate Os n m s of
           (Ok _, m1, s1) \<Rightarrow> (case reserve_sparse Os m1 s1 of (r, m2, s2) \<Rightarrow> (is_ok r, m2, s2))
         | (_, m1, s1) \<Rightarrow> (False, m1, s1))
      else (False, m, s))"

definition min_reserve_len :: nat where
  "min_reserve_len = 8 * 1024"

definition extend_file :: "mmap_os \<Rightarrow> nat \<Rightarrow> mmap_writer \<Rightarrow> fs \<Rightarrow> (unit, io_error) result \<times> mmap_writer \<times> fs" where
  "extend_file Os new_reservation m s =
     (case sparse_alloc Os new_reservation m s of
        (True, m1, s1) \<Rightarrow> (Ok (), m1, s1)
      | (False, m1, s1) \<Rightarrow>
          (case set_len Os (mw_path m1) new_reservation s1 of
             (Ok _, s2) \<Rightarrow> (Ok (), m1\<lparr>reserved_len := new_reservation\<rparr>, s2)
           | (r, s2) \<Rightarrow> (r, m1, s2)))"

definition reserve_for :: "mmap_os \<Rightarrow> nat \<Rightarrow> mmap_writer \<Rightarrow> fs \<Rightarrow> (unit, io_error) result \<times> mmap_writer \<times> fs" where
  "reserve_for Os buf_len m s =
     (if reserved_len m < written_len m then (Panic, m, s)
      else let remaining_len = reserved_len m - written_len m in
      if buf_len \<le> remaining_len then (Ok (), m, s)
      else let extend_len = buf_len - remaining_len;
             new_reservation = reserved_len m + max extend_len min_reserve_len in
      case mw_file m s of
        (Err e, s1) \<Rightarrow> (Err e, m, s1)
      | (Panic, s1) \<Rightarrow> (Panic, m, s1)
      | (Ok _, s1) \<Rightarrow>
          (case extend_file Os new_reservation m s1 of
             (Ok _, m2, s2) \<Rightarrow> (case remap Os m2 of (r, m3) \<Rightarrow> (r, m3, s2))
           | (r, m2, s2) \<Rightarrow> (r, m2, s2)))"

text \<open>Copying into the slice \<open>mmap[written_len..new_len]\<close>.\<close>

definition write_data :: "bytes \<Rightarrow> mmap_writer \<Rightarrow> fs \<Rightarrow> (unit, io_error) result \<times> mmap_writer \<times> fs" where
  "write_data buf m s =
     (let new_len = written_len m + length buf in
      if mw_map m < new_len then (Panic, m, s)
      else case files s (mw_path m) of
        None \<Rightarrow> (Ok (), m\<lparr>written_len := new_len\<rparr>, s)
      | Some c \<Rightarrow>
          if length c < new_len \<or> full s (mw_path m) \<and> buf \<noteq> [] then (Panic, m, s)
          else (Ok (), m\<lparr>written_len := new_len\<rparr>, set_file (mw_path m) (Some (overwrite c (written_len m) buf)) s))"

definition mw_write :: "mmap_os \<Rightarrow> bytes \<Rightarrow> mmap_writer \<Rightarrow> fs \<Rightarrow> (nat, io_error) result \<times> mmap_writer \<times> fs" where
  "mw_write Os buf m s =
     (case reserve_for Os (length buf) m s of
        (Ok _, m1, s1) \<Rightarrow> (case write_data buf m1 s1 of (r, m2, s2) \<Rightarrow> (map_ok (\<lambda>_. length buf) r, m2, s2))
      | (Err e, m1, s1) \<Rightarrow> (Err e, m1, s1)
      | (Panic, m1, s1) \<Rightarrow> (Panic, m1, s1))"

fun write_bufs :: "bytes list \<Rightarrow> mmap_writer \<Rightarrow> fs \<Rightarrow> (unit, io_error) result \<times> mmap_writer \<times> fs" where
  "write_bufs [] m s = (Ok (), m, s)"
| "write_bufs (buf # bufs) m s =
     (case write_data buf m s of
        (Ok _, m1, s1) \<Rightarrow> write_bufs bufs m1 s1
      | (r, m1, s1) \<Rightarrow> (r, m1, s1))"

definition mw_write_vectored :: "mmap_os \<Rightarrow> bytes list \<Rightarrow> mmap_writer \<Rightarrow> fs \<Rightarrow> (nat, io_error) result \<times> mmap_writer \<times> fs" where
  "mw_write_vectored Os bufs m s =
     (let bufs_len = sum_list (map length bufs) in
      case reserve_for Os bufs_len m s of
        (Ok _, m1, s1) \<Rightarrow> (case write_bufs bufs m1 s1 of (r, m2, s2) \<Rightarrow> (map_ok (\<lambda>_. bufs_len) r, m2, s2))
      | (Err e, m1, s1) \<Rightarrow> (Err e, m1, s1)
      | (Panic, m1, s1) \<Rightarrow> (Panic, m1, s1))"

text \<open>Cutting the file to what was written; the result of \<open>set_len\<close> is unwrapped.\<close>

definition mw_truncate :: "mmap_os \<Rightarrow> mmap_writer \<Rightarrow> fs \<Rightarrow> (unit, io_error) result \<times> mmap_writer \<times> fs" where
  "mw_truncate Os m s =
     (if written_len m < reserved_len m then
        (case mw_file m s of
           (Err e, s1) \<Rightarrow> (Err e, m, s1)
         | (Panic, s1) \<Rightarrow> (Panic, m, s1)
         | (Ok _, s1) \<Rightarrow>
             (case set_len Os (mw_path m) (written_len m) s1 of
                (Ok _, s2) \<Rightarrow> (case remap Os (m\<lparr>reserved_len := written_len m\<rparr>) of (r, m1) \<Rightarrow> (r, m1, s2))
              | (_, s2) \<Rightarrow> (Panic, m, s2)))
      else (Ok (), m, s))"

definition mw_flush :: "mmap_os \<Rightarrow> mmap_writer \<Rightarrow> fs \<Rightarrow> (unit, io_error) result \<times> mmap_writer \<times> fs" where
  "mw_flush Os m s =
     (case mw_truncate Os m s of
        (Ok _, m1, s1) \<Rightarrow> ((if os_sync_ok Os (mw_path m1) then Ok () else Err OtherError), m1, s1)
      | (r, m1, s1) \<Rightarrow> (r, m1, s1))"

definition mw_drop :: "mmap_os \<Rightarrow> mmap_writer \<Rightarrow> fs \<Rightarrow> (unit, io_error) result \<times> fs" where
  "mw_drop Os m s = (case mw_truncate Os m s of (Ok _, _, s1) \<Rightarrow> (Ok (), s1) | (_, _, s1) \<Rightarrow> (Panic, s1))"

text \<open>What \<open>AsRef\<close> shows of the writer: the mapping up to \<open>written_len\<close>.\<close>

definition mw_bytes :: "mmap_writer \<Rightarrow> fs \<Rightarrow> bytes" where
  "mw_bytes m s = take (written_len m) (case files s (mw_path m) of None \<Rightarrow> [] | Some c \<Rightarrow> c)"

text \<open>
  \<open>get_map\<close> flushes, maps the file again as a stub for the writer to own, and gives the mapping away;
  the writer is dropped with the stub. An error gives the writer back.
\<close>

definition get_map :: "mmap_os \<Rightarrow> mmap_writer \<Rightarrow> fs \<Rightarrow> (nat, io_error) result \<times> mmap_writer \<times> fs" where
  "get_map Os m s =
     (case mw_flush Os m s of
        (Ok _, m1, s1) \<Rightarrow>
          (case mw_file m1 s1 of
             (Ok _, s2) \<Rightarrow>
               (case map_file Os (mw_path m1) s2 of
                  Ok n \<Rightarrow>
                    (case mw_drop Os (m1\<lparr>mw_map := n\<rparr>) s2 of
                       (Ok _, s3) \<Rightarrow> (Ok (mw_map m1), m1, s3)
                     | (_, s3) \<Rightarrow> (Panic, m1, s3))
                | Err e \<Rightarrow> (Err e, m1, s2)
                | Panic \<Rightarrow> (Panic, m1, s2))
           | (Err e, s2) \<Rightarrow> (Err e, m1, s2)
           | (Panic, s2) \<Rightarrow> (Panic, m1, s2))
      | (Err e, m1, s1) \<Rightarrow> (Err e, m1, s1)
      | (Panic, m1, s1) \<Rightarrow> (Panic, m1, s1))"

section \<open>The invariant of the writer\<close>

text \<open>
  \<open>mapped m s\<close>: the file is as long as the reservation, the mapping covers it, and what was written
  fits into it.
\<close>

definition mapped :: "mmap_writer \<Rightarrow> fs \<Rightarrow> bool" where
  "mapped m s \<longleftrightarrow> written_len m \<le> reserved_len m \<and> mw_map m = reserved_len m \<and>
     (\<exists>c. files s (mw_path m) = Some c \<and> length c = reserved_len m)"

text \<open>\<open>grown m s m' s'\<close>: the reservation may have changed and the rest of the store has not, nor the bytes written.\<close>

definition grown :: "mmap_writer \<Rightarrow> fs \<Rightarrow> mmap_writer \<Rightarrow> fs \<Rightarrow> bool" where
  "grown m s m' s' \<longleftrightarrow> mw_path m' = mw_path m \<and> written_len m' = written_len m \<and> touches (mw_path m) s s' \<and>
     mw_bytes m' s' = mw_bytes m s"

lemma length_resize [simp]: "length (resize n c) = n"
  by (simp add: resize_def)

lemma take_resize: "k \<le> n \<Longrightarrow> k \<le> length c \<Longrightarrow> take k (resize n c) = take k c"
  by (simp add: resize_def min_def)

lemma open_mmap_existing: "files s p = Some c \<Longrightarrow> open_mmap_file p s = (r, s') \<Longrightarrow> s' = s \<and> r \<noteq> Panic"
  by (auto simp: open_mmap_file_def split: if_splits)

lemma grown_refl [simp]: "grown m s m s"
  by (simp add: grown_def)

lemma grown_trans: "grown m s m1 s1 \<Longrightarrow> grown m1 s1 m2 s2 \<Longrightarrow> grown m s m2 s2"
  by (auto simp: grown_def intro: touches_trans)

lemma grown_map [simp]: "grown m s (m'\<lparr>mw_map := n\<rparr>) s' = grown m s m' s'" "grown m s (m'\<lparr>reserved_len := n\<rparr>) s' = grown m s m' s'"
  "grown m s (m'\<lparr>sparse_file := b\<rparr>) s' = grown m s m' s'"
  by (simp_all add: grown_def mw_bytes_def)

text \<open>Resizing the file to at least what was written.\<close>

definition sized :: "mmap_writer \<Rightarrow> fs \<Rightarrow> bool" where
  "sized m s \<longleftrightarrow> written_len m \<le> reserved_len m \<and> (\<exists>c. files s (mw_path m) = Some c \<and> length c = reserved_len m)"

lemma set_len_sized:
  assumes "sized m s" and "set_len Os (mw_path m) n s = (Ok u, s')" and "written_len m \<le> n"
  shows "sized (m\<lparr>reserved_len := n\<rparr>) s' \<and> grown m s m s'"
  using assms
  by (auto simp: sized_def set_len_def grown_def mw_bytes_def take_resize split: if_splits)

lemma set_len_Err: "set_len Os p n s = (Err e, s') \<Longrightarrow> s' = s"
  by (auto simp: set_len_def split: if_splits)

lemma set_len_returns [simp]: "set_len Os p n s \<noteq> (Panic, s')"
  by (simp add: set_len_def)

lemma reserve_ftruncate_sized:
  assumes "sized m s" "reserve_ftruncate Os n m s = (r, m', s')" "reserved_len m \<le> n"
  shows "sized m' s' \<and> grown m s m' s' \<and> r \<noteq> Panic \<and> reserved_len m \<le> reserved_len m' \<and> (is_ok r \<longrightarrow> reserved_len m' = n)"
proof -
  have "written_len m \<le> n" using assms by (simp add: sized_def)
  with assms set_len_sized [OF assms(1) _ this] show ?thesis
    by (auto simp: reserve_ftruncate_def split: if_splits prod.splits result.splits dest: set_len_Err)
qed

lemma reserve_sparse_sized:
  assumes "sized m s" "reserve_sparse Os m s = (r, m', s')"
  shows "sized m' s' \<and> grown m s m' s' \<and> reserved_len m \<le> reserved_len m'"
proof -
  have "written_len m \<le> reserved_len m + eight_gib" using assms by (simp add: sized_def)
  with assms set_len_sized [OF assms(1) _ this] show ?thesis
    by (auto simp: reserve_sparse_def Let_def sized_def split: if_splits prod.splits result.splits option.splits bool.splits
        dest: set_len_Err)
qed

lemma sparse_alloc_sized:
  assumes "sized m s" "sparse_alloc Os n m s = (b, m', s')" "reserved_len m \<le> n"
  shows "sized m' s' \<and> grown m s m' s' \<and> reserved_len m \<le> reserved_len m' \<and> (b \<longrightarrow> n \<le> reserved_len m')"
proof (cases "sparse_file m")
  case True
  obtain r m1 s1 where F: "reserve_ftruncate Os n m s = (r, m1, s1)" by (metis prod_cases3)
  obtain q m2 s2 where S: "reserve_sparse Os m1 s1 = (q, m2, s2)" by (metis prod_cases3)
  from reserve_ftruncate_sized [OF assms(1) F assms(3)] reserve_sparse_sized [OF _ S] assms(2) True F S
  show ?thesis by (cases r) (auto simp: sparse_alloc_def intro: grown_trans)
qed (use assms in \<open>auto simp: sparse_alloc_def\<close>)

lemma mapped_sized: "mapped m s \<longleftrightarrow> sized m s \<and> mw_map m = reserved_len m"
  by (auto simp: mapped_def sized_def)

lemma sized_cong: "sized m s \<Longrightarrow> mw_path m' = mw_path m \<Longrightarrow> written_len m' = written_len m \<Longrightarrow>
    reserved_len m' = reserved_len m \<Longrightarrow> sized m' s"
  by (simp add: sized_def)

lemma remap_sized:
  "sized m s \<Longrightarrow> remap Os m = (r, m') \<Longrightarrow> sized m' s \<and> grown m s m' s \<and> r \<noteq> Panic \<and> (is_ok r \<longrightarrow> mapped m' s) \<and>
     reserved_len m' = reserved_len m"
  by (auto simp: remap_def mapped_sized sized_def split: if_splits)

lemma extend_file_sized:
  assumes "sized m s" "extend_file Os n m s = (r, m', s')" "reserved_len m \<le> n"
  shows "sized m' s' \<and> grown m s m' s' \<and> r \<noteq> Panic \<and> (r = Ok () \<longrightarrow> n \<le> reserved_len m')"
proof -
  obtain b m2 s2 where A: "sparse_alloc Os n m s = (b, m2, s2)" by (metis prod_cases3)
  note SA = sparse_alloc_sized [OF assms(1) A assms(3)]
  obtain x s3 where L: "set_len Os (mw_path m2) n s2 = (x, s3)" by fastforce
  have "written_len m2 \<le> n" using SA assms(1,3) by (simp add: grown_def sized_def)
  with set_len_sized [OF conjunct1 [OF SA], of Os n] SA L assms(2) A show ?thesis
    by (cases b; cases x) (auto simp: extend_file_def dest: set_len_Err intro: grown_trans)
qed

text \<open>\<open>reserve_for\<close> makes room for the buffer and keeps what was written.\<close>

lemma reserve_for_mapped:
  assumes "mapped m s" and "reserve_for Os n m s = (r, m', s')"
  shows "grown m s m' s' \<and> sized m' s' \<and> r \<noteq> Panic \<and>
    (r = Ok () \<longrightarrow> mapped m' s' \<and> written_len m' + n \<le> reserved_len m' \<and>
      (m' = m \<or> reserved_len m + min_reserve_len \<le> reserved_len m'))"
proof (cases "n \<le> reserved_len m - written_len m")
  case True
  with assms show ?thesis by (auto simp: reserve_for_def Let_def mapped_sized sized_def split: if_splits)
next
  case False
  have sz: "sized m s" using assms(1) by (simp add: mapped_sized)
  define k where "k = reserved_len m + max (n - (reserved_len m - written_len m)) min_reserve_len"
  have k: "reserved_len m \<le> k" "written_len m + n \<le> k" "reserved_len m + min_reserve_len \<le> k"
    using sz False by (auto simp: k_def sized_def)
  obtain q s1 where F: "mw_file m s = (q, s1)" by fastforce
  have s1: "s1 = s" "q \<noteq> Panic" using F sz by (auto simp: mw_file_def sized_def dest: open_mmap_existing)
  obtain x m2 s2 where X: "extend_file Os k m s = (x, m2, s2)" by (metis prod_cases3)
  note XS = extend_file_sized [OF sz X k(1)]
  obtain y m3 where R: "remap Os m2 = (y, m3)" by fastforce
  have E: "reserve_for Os n m s = (case q of Ok _ \<Rightarrow> (case extend_file Os k m s of
      (Ok _, m2, s2) \<Rightarrow> (case remap Os m2 of (r, m3) \<Rightarrow> (r, m3, s2)) | (r, m2, s2) \<Rightarrow> (r, m2, s2))
    | Err e \<Rightarrow> (Err e, m, s) | Panic \<Rightarrow> (Panic, m, s))"
    using False sz F s1 unfolding reserve_for_def k_def by (cases q) (simp_all add: Let_def sized_def)
  from assms(2) [unfolded E] XS remap_sized [OF _ R, of s2] sz s1 X R k show ?thesis
    by (cases q; cases x) (auto simp: is_ok_iff grown_def intro: grown_trans touches_trans)
qed

lemma take_overwrite: "k \<le> length c \<Longrightarrow> k + length d \<le> length c \<Longrightarrow> take (k + length d) (overwrite c k d) = take k c @ d"
  by (simp add: overwrite_def)

lemma write_data_mapped:
  assumes "mapped m s" and "written_len m + length d \<le> reserved_len m" and "write_data d m s = (r, m', s')"
  shows "(r = Ok () \<and> mapped m' s' \<and> mw_path m' = mw_path m \<and> reserved_len m' = reserved_len m \<and>
      written_len m' = written_len m + length d \<and> mw_bytes m' s' = mw_bytes m s @ d \<and> touches (mw_path m) s s') \<or>
    (r = Panic \<and> full s (mw_path m) \<and> d \<noteq> [] \<and> m' = m \<and> s' = s)"
proof -
  from assms(1) obtain c where c: "files s (mw_path m) = Some c" "length c = reserved_len m" "mw_map m = reserved_len m"
    "written_len m \<le> reserved_len m" by (auto simp: mapped_def)
  show ?thesis using assms(2,3) c take_overwrite [of "written_len m" c d]
    by (auto simp: write_data_def Let_def mapped_def mw_bytes_def length_overwrite split: if_splits)
qed

text \<open>
  C19: \<open>write\<close> through a mapping appends. On a writer whose file, reservation and mapping agree, a write
  that returns \<open>Ok\<close> returns the length of the buffer, has added exactly the buffer to what was
  written before, touches no other file and keeps the agreement; when it had to extend the file it
  did so by at least 8 KiB. It panics only when the device is full: the kernel cannot report that
  through a mapping.
\<close>

theorem mmap_write_appends:
  assumes "mapped m s" and "mw_write Os d m s = (r, m', s')"
  shows "case r of
      Ok n \<Rightarrow> n = length d \<and> mapped m' s' \<and> mw_bytes m' s' = mw_bytes m s @ d \<and> touches (mw_path m) s s' \<and>
        written_len m' = written_len m + length d \<and>
        (reserved_len m' = reserved_len m \<or> reserved_len m + min_reserve_len \<le> reserved_len m')
    | Err e \<Rightarrow> mw_bytes m' s' = mw_bytes m s \<and> written_len m' = written_len m \<and> touches (mw_path m) s s'
    | Panic \<Rightarrow> full s (mw_path m) \<and> d \<noteq> []"
proof -
  obtain q m1 s1 where R: "reserve_for Os (length d) m s = (q, m1, s1)" by (metis prod_cases3)
  obtain x m2 s2 where W: "write_data d m1 s1 = (x, m2, s2)" by (metis prod_cases3)
  note RF = reserve_for_mapped [OF assms(1) R]
  show ?thesis
  proof (cases q)
    case (Ok u)
    with RF have ok: "mapped m1 s1" "written_len m1 + length d \<le> reserved_len m1" "grown m s m1 s1"
      "m1 = m \<or> reserved_len m + min_reserve_len \<le> reserved_len m1" by auto
    have "full s1 = full s" using ok(3) by (simp add: grown_def touches_def)
    with write_data_mapped [OF ok(1,2) W] assms(2) R W Ok ok(3,4) show ?thesis
      by (auto simp: mw_write_def grown_def intro: touches_trans)
  qed (use assms(2) R RF in \<open>auto simp: mw_write_def grown_def\<close>)
qed

theorem mmap_write_appends_witness:
  "\<exists>m' s'. mw_write \<lparr>os_len_ok = \<lambda>_ _. True, os_map_ok = \<lambda>_ _. True, os_protect_ok = \<lambda>_. True, os_sync_ok = \<lambda>_. True,
       os_hole = \<lambda>_. Some True\<rparr> [7, 8] (from_args [''f''] 1) (set_file [''f''] (Some [3]) empty_fs) = (Ok 2, m', s') \<and>
     mw_bytes m' s' = [7, 8] \<and> reserved_len m' = 1 + 8192 + eight_gib"
proof -
  let ?O = "\<lparr>os_len_ok = \<lambda>_ _. True, os_map_ok = \<lambda>_ _. True, os_protect_ok = \<lambda>_. True, os_sync_ok = \<lambda>_. True,
       os_hole = \<lambda>_. Some True\<rparr>"
  let ?s = "set_file [''f''] (Some [3]) empty_fs"
  have m: "mapped (from_args [''f''] 1) ?s" by (simp add: mapped_def from_args_def)
  obtain r m' s' where W: "mw_write ?O [7, 8] (from_args [''f''] 1) ?s = (r, m', s')" by (metis prod_cases3)
  have "reserved_len m' = 1 + 8192 + eight_gib \<and> r \<noteq> Panic \<and> (\<forall>e. r \<noteq> Err e)"
    using W
    by (auto simp: mw_write_def reserve_for_def from_args_def mw_file_def open_mmap_file_def empty_fs_def extend_file_def sparse_alloc_def
        reserve_ftruncate_def reserve_sparse_def set_len_def min_reserve_len_def i64_max_def eight_gib_def remap_def
        write_data_def Let_def)
  with mmap_write_appends [OF m W] W show ?thesis
    by (cases r) (auto simp: mw_bytes_def from_args_def)
qed

text \<open>\<open>truncate\<close> and \<open>flush\<close>: when they succeed, the file is what was written, no more.\<close>

lemma truncate_mapped:
  assumes "mapped m s" and "mw_truncate Os m s = (r, m', s')"
  shows "grown m s m' s' \<and> sized m' s' \<and> (r = Ok () \<longrightarrow> mapped m' s' \<and> reserved_len m' = written_len m')"
proof (cases "written_len m < reserved_len m")
  case True
  have sz: "sized m s" using assms(1) by (simp add: mapped_sized)
  obtain q s1 where F: "mw_file m s = (q, s1)" by fastforce
  have s1: "s1 = s" "q \<noteq> Panic" using F sz by (auto simp: mw_file_def sized_def dest: open_mmap_existing)
  obtain x s2 where L: "set_len Os (mw_path m) (written_len m) s = (x, s2)" by fastforce
  obtain y m1 where R: "remap Os (m\<lparr>reserved_len := written_len m\<rparr>) = (y, m1)" by fastforce
  show ?thesis
  proof (cases x)
    case (Ok u)
    note SL = set_len_sized [OF sz L [unfolded Ok]]
    with remap_sized [OF _ R, of s2] assms(2) True F s1 L Ok R sz show ?thesis
      by (cases q) (auto simp: mw_truncate_def is_ok_iff grown_def mw_bytes_def intro: touches_trans)
  qed (use assms(2) True F s1 L sz in \<open>cases q; auto simp: mw_truncate_def dest: set_len_Err\<close>)+
qed (use assms in \<open>auto simp: mw_truncate_def mapped_sized sized_def\<close>)

lemma flush_mapped:
  assumes "mapped m s" and "mw_flush Os m s = (Ok u, m', s')"
  shows "mapped m' s' \<and> files s' (mw_path m) = Some (mw_bytes m s) \<and> grown m s m' s' \<and> reserved_len m' = written_len m'"
proof -
  from assms(2) have "mw_truncate Os m s = (Ok (), m', s')"
    by (auto simp: mw_flush_def split: prod.splits result.splits if_splits)
  from truncate_mapped [OF assms(1) this] show ?thesis
    by (auto simp: mapped_def grown_def mw_bytes_def)
qed

text \<open>Writing several pieces and flushing, as a coder does.\<close>

fun mw_write_all :: "mmap_os \<Rightarrow> bytes list \<Rightarrow> mmap_writer \<Rightarrow> fs \<Rightarrow> (unit, io_error) result \<times> mmap_writer \<times> fs" where
  "mw_write_all Os [] m s = (Ok (), m, s)"
| "mw_write_all Os (d # ds) m s =
     (case mw_write Os d m s of
        (Ok _, m1, s1) \<Rightarrow> mw_write_all Os ds m1 s1
      | (Err e, m1, s1) \<Rightarrow> (Err e, m1, s1)
      | (Panic, m1, s1) \<Rightarrow> (Panic, m1, s1))"

lemma write_mapped:
  "mapped m s \<Longrightarrow> mw_write Os d m s = (Ok n, m', s') \<Longrightarrow>
     mapped m' s' \<and> mw_bytes m' s' = mw_bytes m s @ d \<and> mw_path m' = mw_path m \<and> touches (mw_path m) s s' \<and>
     written_len m' = written_len m + length d"
proof -
  assume m: "mapped m s" and W: "mw_write Os d m s = (Ok n, m', s')"
  then obtain m1 s1 x m2 where R: "reserve_for Os (length d) m s = (Ok (), m1, s1)"
    and D: "write_data d m1 s1 = (Ok (), m', s')"
    by (auto simp: mw_write_def split: prod.splits result.splits)
  from reserve_for_mapped [OF m R] write_data_mapped [OF _ _ D] show ?thesis
    by (auto simp: grown_def intro: touches_trans)
qed

lemma write_all_mapped:
  "mapped m s \<Longrightarrow> mw_write_all Os ds m s = (Ok u, m', s') \<Longrightarrow>
     mapped m' s' \<and> mw_bytes m' s' = mw_bytes m s @ concat ds \<and> mw_path m' = mw_path m \<and> touches (mw_path m) s s' \<and>
     written_len m' = written_len m + length (concat ds)"
proof (induction ds arbitrary: m s)
  case (Cons d ds)
  obtain r m1 s1 where W: "mw_write Os d m s = (r, m1, s1)" by (metis prod_cases3)
  with Cons.prems(2) obtain n where r: "r = Ok n" by (cases r) auto
  note WM = write_mapped [OF Cons.prems(1) W [unfolded r]]
  with Cons.IH [of m1 s1] Cons.prems(2) W r show ?case by (auto intro: touches_trans)
qed simp

lemma extend_file_map:
  assumes "extend_file Os n m s = (r, m', s')"
  shows "mw_map m' = mw_map m"
proof -
  have F: "reserve_ftruncate Os n m s = (q, m1, s1) \<Longrightarrow> mw_map m1 = mw_map m" for q m1 s1
    by (auto simp: reserve_ftruncate_def split: if_splits prod.splits result.splits)
  have S: "reserve_sparse Os m s = (q, m1, s1) \<Longrightarrow> mw_map m1 = mw_map m" for q m m1 s s1
    by (auto simp: reserve_sparse_def Let_def split: if_splits prod.splits result.splits option.splits bool.splits)
  have "sparse_alloc Os n m s = (b, m1, s1) \<Longrightarrow> mw_map m1 = mw_map m" for b m1 s1
    by (auto simp: sparse_alloc_def split: if_splits prod.splits result.splits) (metis F S)+
  with assms show ?thesis
    by (auto simp: extend_file_def split: prod.splits bool.splits result.splits)
qed

lemma reserve_failed_map:
  assumes "reserve_for Os n m s = (Err e, m', s')"
  shows "mw_map m' = mw_map m"
proof -
  have "extend_file Os k m s1 = (Ok u, m1, s2) \<Longrightarrow> remap Os m1 = (Err e, m2) \<Longrightarrow> mw_map m2 = mw_map m" for k s1 u m1 s2 m2
    by (drule extend_file_map) (simp add: remap_def split: if_splits)
  with assms show ?thesis
    by (auto simp: reserve_for_def Let_def split: if_splits prod.splits result.splits dest: extend_file_map)
qed

text \<open>
  a mapping that fails leaves the writer broken. \<open>reserve_for\<close> notes the new length before it
  asks for the larger mapping; when that fails the write reports the error, but the next write that
  fits the length it has noted and goes beyond the old mapping panics instead of failing.
\<close>

theorem mmap_failed_remap_panics:
  assumes "mapped m s" and "mw_write Os d m s = (Err e, m', s')" and "reserved_len m' \<noteq> reserved_len m"
    and "reserved_len m < written_len m + length d'" and "written_len m + length d' \<le> reserved_len m'"
  shows "mw_write Os' d' m' s' = (Panic, m', s')"
proof -
  obtain q m1 s1 where R: "reserve_for Os (length d) m s = (q, m1, s1)" by (metis prod_cases3)
  note RF = reserve_for_mapped [OF assms(1) R]
  have q: "q = Err e" "m1 = m'"
  proof -
    obtain x m2 s2 where W: "write_data d m1 s1 = (x, m2, s2)" by (metis prod_cases3)
    have "q \<noteq> Ok u" for u
    proof
      assume "q = Ok u"
      with RF write_data_mapped [OF _ _ W] assms(2) R W show False by (auto simp: mw_write_def)
    qed
    with assms(2) R RF show "q = Err e" "m1 = m'" by (cases q; simp add: mw_write_def)+
  qed
  have map: "mw_map m1 = mw_map m" using R [unfolded q(1)] by (rule reserve_failed_map)
  have "mw_map m' = reserved_len m" "written_len m' = written_len m"
    using map q RF assms(1) by (auto simp: mapped_def grown_def)
  moreover from this assms(5) have "length d' \<le> reserved_len m' - written_len m'" by simp
  ultimately show ?thesis using assms(4,5) by (simp add: mw_write_def reserve_for_def write_data_def Let_def)
qed

theorem mmap_failed_remap_panics_witness:
  "\<exists>m' s'. mw_write \<lparr>os_len_ok = \<lambda>_ _. True, os_map_ok = \<lambda>_ n. n \<le> 4096, os_protect_ok = \<lambda>_. True, os_sync_ok = \<lambda>_. True,
       os_hole = \<lambda>_. Some False\<rparr> [7, 8] (from_args [''f''] 1) (set_file [''f''] (Some [3]) empty_fs) = (Err OutOfMemory, m', s') \<and>
     mw_write \<lparr>os_len_ok = \<lambda>_ _. True, os_map_ok = \<lambda>_ n. n \<le> 4096, os_protect_ok = \<lambda>_. True, os_sync_ok = \<lambda>_. True,
       os_hole = \<lambda>_. Some False\<rparr> [7, 8] m' s' = (Panic, m', s')"
proof -
  let ?O = "\<lparr>os_len_ok = \<lambda>_ _. True, os_map_ok = \<lambda>_ n. n \<le> 4096, os_protect_ok = \<lambda>_. True, os_sync_ok = \<lambda>_. True,
       os_hole = \<lambda>_. Some False\<rparr>"
  let ?s = "set_file [''f''] (Some [3]) empty_fs"
  have m: "mapped (from_args [''f''] 1) ?s" by (simp add: mapped_def from_args_def)
  obtain r m' s' where W: "mw_write ?O [7, 8] (from_args [''f''] 1) ?s = (r, m', s')" by (metis prod_cases3)
  then have "r = Err OutOfMemory" "reserved_len m' = 8193"
    by (auto simp: mw_write_def reserve_for_def from_args_def mw_file_def open_mmap_file_def empty_fs_def extend_file_def
        sparse_alloc_def reserve_ftruncate_def reserve_sparse_def set_len_def min_reserve_len_def i64_max_def
        remap_def Let_def is_ok_iff)
  moreover from this have "mw_write ?O [7, 8] m' s' = (Panic, m', s')"
    using mmap_failed_remap_panics [OF m W [unfolded calculation(1)], of "[7, 8]" ?O] by (simp add: from_args_def)
  ultimately show ?thesis using W by blast
qed

end
