(* ===== verification/Mmap_Disk.thy ===== *)
theory Mmap_Disk
  imports Mmap_Writer Backed_Entry
begin

text \<open>
  \<open>SwitchingMmap\<close> and \<open>Mmap\<close> (\<open>src/entry/disks/mmap.rs\<close>): a mapping that is kept between uses and
  switched between reading and writing, with guards counted by \<open>Arc\<close>. The mappings of a program live
  in the store, next to the files, so that \<open>Mmap\<close> is a disk in the sense of \<open>Disks\<close>. The lemmas
  show which guards can exist together, what a first write session leaves, and what a second one
  without a read between does.
\<close>

section \<open>The mapping of one disk\<close>

text \<open>
  \<open>ReadMap m g\<close>: a read-only mapping of \<open>n\<close> bytes (\<open>m = Some n\<close>; \<open>None\<close> is \<open>ReadMmap::Empty\<close>) with \<open>g\<close>
  guards handed out; \<open>WriteMap\<close> likewise has the writer the guards share.
\<close>

datatype switching = Invalid | ReadMap "nat option" nat | WriteMap mmap_writer nat

definition new_arc :: "mmap_os \<Rightarrow> path \<Rightarrow> fs \<Rightarrow> (nat option, io_error) result \<times> fs" where
  "new_arc Os p s =
     (case open_mmap_file p s of
        (Ok _, s1) \<Rightarrow> ((if file_len p s1 = 0 then Ok None else map_ok Some (map_file Os p s1)), s1)
      | (Err e, s1) \<Rightarrow> (Err e, s1)
      | (Panic, s1) \<Rightarrow> (Panic, s1))"

definition read_ret :: "nat option \<Rightarrow> nat \<Rightarrow> (nat option, io_error) result \<times> switching" where
  "read_ret m g = (Ok m, ReadMap m (g + 1))"

definition read_handle :: "mmap_os \<Rightarrow> path \<Rightarrow> switching \<Rightarrow> fs \<Rightarrow> (nat option, io_error) result \<times> switching \<times> fs" where
  "read_handle Os p sw s =
     (case sw of
        WriteMap w g \<Rightarrow>
          (if 0 < g then (Err OtherError, WriteMap w g, s)
           else if 0 < written_len w then
             (case get_map Os w s of
                (Ok n, w1, s1) \<Rightarrow>
                  if os_protect_ok Os p then (case read_ret (Some n) 0 of (r, sw1) \<Rightarrow> (r, sw1, s1))
                  else (Err OtherError, Invalid, s1)
              | (Err e, w1, s1) \<Rightarrow> (Err e, WriteMap w1 0, s1)
              | (Panic, w1, s1) \<Rightarrow> (Panic, Invalid, s1))
           else
             (case mw_drop Os w s of
                (Ok _, s1) \<Rightarrow> (case read_ret None 0 of (r, sw1) \<Rightarrow> (r, sw1, s1))
              | (_, s1) \<Rightarrow> (Panic, Invalid, s1)))
      | ReadMap m g \<Rightarrow> (case read_ret m g of (r, sw1) \<Rightarrow> (r, sw1, s))
      | Invalid \<Rightarrow>
          (case new_arc Os p s of
             (Ok m, s1) \<Rightarrow> (case read_ret m 0 of (r, sw1) \<Rightarrow> (r, sw1, s1))
           | (Err e, s1) \<Rightarrow> (Err e, Invalid, s1)
           | (Panic, s1) \<Rightarrow> (Panic, Invalid, s1)))"

definition write_handle :: "mmap_os \<Rightarrow> path \<Rightarrow> switching \<Rightarrow> fs \<Rightarrow> (unit, io_error) result \<times> switching \<times> fs" where
  "write_handle Os p sw s =
     (case sw of
        WriteMap w g \<Rightarrow> (if 0 < g then (Err OtherError, WriteMap w g, s) else (Ok (), WriteMap w 1, s))
      | ReadMap m g \<Rightarrow>
          (if 0 < g then (Err OtherError, ReadMap m g, s)
           else (case m of
               Some n \<Rightarrow>
                 if os_protect_ok Os p then (Ok (), WriteMap (from_args p n) 1, s) else (Err OtherError, Invalid, s)
             | None \<Rightarrow>
                 (case no_advise Os p s of
                    (Ok w, s1) \<Rightarrow> (Ok (), WriteMap w 1, s1)
                  | (Err e, s1) \<Rightarrow> (Err e, Invalid, s1)
                  | (Panic, s1) \<Rightarrow> (Panic, Invalid, s1))))
      | Invalid \<Rightarrow>
          (case no_advise Os p s of
             (Ok w, s1) \<Rightarrow> (Ok (), WriteMap w 1, s1)
           | (Err e, s1) \<Rightarrow> (Err e, Invalid, s1)
           | (Panic, s1) \<Rightarrow> (Panic, Invalid, s1)))"

text \<open>Dropping a guard.\<close>

definition drop_guard :: "switching \<Rightarrow> switching" where
  "drop_guard sw = (case sw of Invalid \<Rightarrow> Invalid | ReadMap m g \<Rightarrow> ReadMap m (g - 1) | WriteMap w g \<Rightarrow> WriteMap w (g - 1))"

section \<open>The disk\<close>

text \<open>
  \<open>Mmap\<close> has its path and a mutex, here the number of its cell in the store. A panic while the
  mutex is held poisons it. \<open>mw_cells\<close> are the cells of all disks of the program.
\<close>

record mmap_cell =
  cell_map :: switching
  cell_poisoned :: bool

record mmap =
  mm_path :: path
  mm_cell :: nat

record mmap_world =
  mw_fs :: fs
  mw_cells :: "nat \<Rightarrow> mmap_cell"

definition set_cell :: "nat \<Rightarrow> mmap_cell \<Rightarrow> mmap_world \<Rightarrow> mmap_world" where
  "set_cell i c w = w\<lparr>mw_cells := (mw_cells w)(i := c)\<rparr>"

definition mmap_new :: "mmap_os \<Rightarrow> path \<Rightarrow> nat \<Rightarrow> mmap_world \<Rightarrow> (mmap, io_error) result \<times> mmap_world" where
  "mmap_new Os p i w =
     (case new_arc Os p (mw_fs w) of
        (Ok m, s1) \<Rightarrow>
          (Ok \<lparr>mm_path = p, mm_cell = i\<rparr>, set_cell i \<lparr>cell_map = ReadMap m 0, cell_poisoned = False\<rparr> (w\<lparr>mw_fs := s1\<rparr>))
      | (Err e, s1) \<Rightarrow> (Err e, w\<lparr>mw_fs := s1\<rparr>)
      | (Panic, s1) \<Rightarrow> (Panic, w\<lparr>mw_fs := s1\<rparr>))"

text \<open>\<open>lock().unwrap()\<close>, the handle function, and putting back what it returns.\<close>

definition with_map ::
  "mmap \<Rightarrow> (switching \<Rightarrow> fs \<Rightarrow> ('a, io_error) result \<times> switching \<times> fs) \<Rightarrow> mmap_world \<Rightarrow> ('a, io_error) result \<times> mmap_world" where
  "with_map d f w =
     (let c = mw_cells w (mm_cell d) in
      if cell_poisoned c then (Panic, w)
      else (case f (cell_map c) (mw_fs w) of
          (r, sw, s1) \<Rightarrow>
            (r, set_cell (mm_cell d) \<lparr>cell_map = sw, cell_poisoned = (r = Panic)\<rparr> (w\<lparr>mw_fs := s1\<rparr>))))"

definition read_disk :: "mmap_os \<Rightarrow> mmap \<Rightarrow> mmap_world \<Rightarrow> (nat option, io_error) result \<times> mmap_world" where
  "read_disk Os d w = with_map d (read_handle Os (mm_path d)) w"

definition write_disk :: "mmap_os \<Rightarrow> mmap \<Rightarrow> mmap_world \<Rightarrow> (unit, io_error) result \<times> mmap_world" where
  "write_disk Os d w = with_map d (write_handle Os (mm_path d)) w"

text \<open>The bytes a read guard shows; a mapping longer than its file cannot be read.\<close>

definition guard_bytes :: "mmap \<Rightarrow> nat option \<Rightarrow> mmap_world \<Rightarrow> (bytes, io_error) result" where
  "guard_bytes d m w =
     (case m of
        None \<Rightarrow> Ok []
      | Some n \<Rightarrow> (case files (mw_fs w) (mm_path d) of
            None \<Rightarrow> Panic
          | Some c \<Rightarrow> if length c < n then Panic else Ok (take n c)))"

definition release :: "mmap \<Rightarrow> mmap_world \<Rightarrow> mmap_world" where
  "release d w =
     (let c = mw_cells w (mm_cell d) in set_cell (mm_cell d) (c\<lparr>cell_map := drop_guard (cell_map c)\<rparr>) w)"

text \<open>A write guard acts on the writer in the cell it shares, without the lock.\<close>

definition with_writer ::
  "mmap \<Rightarrow> (mmap_writer \<Rightarrow> fs \<Rightarrow> ('a, io_error) result \<times> mmap_writer \<times> fs) \<Rightarrow> mmap_world \<Rightarrow> ('a, io_error) result \<times> mmap_world" where
  "with_writer d f w =
     (let c = mw_cells w (mm_cell d) in
      case cell_map c of
        WriteMap m g \<Rightarrow>
          (case f m (mw_fs w) of
             (r, m1, s1) \<Rightarrow> (r, set_cell (mm_cell d) (c\<lparr>cell_map := WriteMap m1 g\<rparr>) (w\<lparr>mw_fs := s1\<rparr>)))
      | _ \<Rightarrow> (Panic, w))"

text \<open>\<open>write_all\<close> makes no call for an empty buffer; \<open>write\<close> takes all of any other.\<close>

definition guard_write_all :: "mmap_os \<Rightarrow> bytes \<Rightarrow> mmap \<Rightarrow> mmap_world \<Rightarrow> (unit, io_error) result \<times> mmap_world" where
  "guard_write_all Os b d w =
     (if b = [] then (Ok (), w) else (case with_writer d (mw_write Os b) w of (r, w1) \<Rightarrow> (map_ok (\<lambda>_. ()) r, w1)))"

definition guard_flush :: "mmap_os \<Rightarrow> mmap \<Rightarrow> mmap_world \<Rightarrow> (unit, io_error) result \<times> mmap_world" where
  "guard_flush Os d w = with_writer d (mw_flush Os) w"

definition mmap_disk :: "mmap_os \<Rightarrow> (mmap, mmap, mmap_world) disk_ops" where
  "mmap_disk Os =
     \<lparr>d_read = (\<lambda>d w. case read_disk Os d w of
          (Ok m, w1) \<Rightarrow> (guard_bytes d m w1, release d w1)
        | (Err e, w1) \<Rightarrow> (Err e, w1)
        | (Panic, w1) \<Rightarrow> (Panic, w1)),
      d_write = (\<lambda>d w. case write_disk Os d w of (r, w1) \<Rightarrow> (map_ok (\<lambda>_. d) r, w1)),
      wr_write = (\<lambda>d b w. case guard_write_all Os b d w of (r, w1) \<Rightarrow> (r, d, w1)),
      wr_flush = (\<lambda>d w. case guard_flush Os d w of (r, w1) \<Rightarrow> (r, d, w1)),
      wr_drop = release\<rparr>"

text \<open>Dropping the disk drops the writer it may hold, and moving it to another kind of disk keeps the path.\<close>

definition mmap_drop :: "mmap_os \<Rightarrow> mmap \<Rightarrow> mmap_world \<Rightarrow> (unit, io_error) result \<times> mmap_world" where
  "mmap_drop Os d w =
     (case cell_map (mw_cells w (mm_cell d)) of
        WriteMap m 0 \<Rightarrow> (case mw_drop Os m (mw_fs w) of (r, s1) \<Rightarrow> (r, w\<lparr>mw_fs := s1\<rparr>))
      | _ \<Rightarrow> (Ok (), w))"

definition mmap_into_plainfile :: "mmap \<Rightarrow> plainfile" where
  "mmap_into_plainfile d = plainfile_new (mm_path d)"

definition mmap_into_unbuffered :: "mmap \<Rightarrow> unbuffered" where
  "mmap_into_unbuffered d = Unbuffered (mm_path d)"

definition mmap_into_write_unbuffered :: "mmap \<Rightarrow> write_unbuffered" where
  "mmap_into_write_unbuffered d = WriteUnbuffered (mm_path d)"

text \<open>Serde stores the path; reading it back maps the file anew.\<close>

definition mmap_serialize :: "mmap \<Rightarrow> path" where
  "mmap_serialize d = mm_path d"

definition mmap_deserialize :: "mmap_os \<Rightarrow> path \<Rightarrow> nat \<Rightarrow> mmap_world \<Rightarrow> (mmap, io_error) result \<times> mmap_world" where
  "mmap_deserialize Os p i w = mmap_new Os p i w"

section \<open>Which guards can exist together\<close>

text \<open>The numbers of read and of write guards a mapping counts.\<close>

fun guards :: "switching \<Rightarrow> nat \<times> nat" where
  "guards Invalid = (0, 0)"
| "guards (ReadMap m g) = (g, 0)"
| "guards (WriteMap w g) = (0, g)"

lemma read_handle_guards:
  assumes "read_handle Os p sw s = (r, sw', s')"
  shows "(\<exists>m. r = Ok m \<and> snd (guards sw) = 0 \<and> guards sw' = (fst (guards sw) + 1, 0)) \<or> (\<not> is_ok r \<and> guards sw' = guards sw)"
  using assms
  by (cases sw) (auto simp: read_handle_def read_ret_def split: if_splits prod.splits result.splits)

lemma write_handle_guards:
  assumes "write_handle Os p sw s = (r, sw', s')"
  shows "(r = Ok () \<and> guards sw = (0, 0) \<and> guards sw' = (0, 1)) \<or> (\<not> is_ok r \<and> guards sw' = guards sw)"
  using assms
  by (cases sw) (auto simp: write_handle_def split: if_splits option.splits prod.splits result.splits)

lemma guards_drop: "guards (drop_guard sw) = (fst (guards sw) - 1, snd (guards sw) - 1)"
  by (cases sw) (simp_all add: drop_guard_def)

text \<open>
  A program that holds guards of one disk: it opens them, drops those it has, and writes and flushes
  through a write guard. The run counts the guards it holds.
\<close>

datatype guard_action = OpenRead | OpenWrite | DropRead | DropWrite | WriteThrough bytes | FlushThrough

fun guard_step :: "mmap_os \<Rightarrow> mmap \<Rightarrow> guard_action \<Rightarrow> mmap_world \<times> nat \<times> nat \<Rightarrow> (mmap_world \<times> nat \<times> nat) option" where
  "guard_step Os d OpenRead (w, r, x) =
     (case read_disk Os d w of (q, w1) \<Rightarrow> Some (w1, if is_ok q then r + 1 else r, x))"
| "guard_step Os d OpenWrite (w, r, x) =
     (case write_disk Os d w of (q, w1) \<Rightarrow> Some (w1, r, if is_ok q then x + 1 else x))"
| "guard_step Os d DropRead (w, r, x) = (if 0 < r then Some (release d w, r - 1, x) else None)"
| "guard_step Os d DropWrite (w, r, x) = (if 0 < x then Some (release d w, r, x - 1) else None)"
| "guard_step Os d (WriteThrough b) (w, r, x) =
     (if 0 < x then Some (snd (guard_write_all Os b d w), r, x) else None)"
| "guard_step Os d FlushThrough (w, r, x) = (if 0 < x then Some (snd (guard_flush Os d w), r, x) else None)"

inductive guard_run :: "mmap_os \<Rightarrow> mmap \<Rightarrow> mmap_world \<times> nat \<times> nat \<Rightarrow> mmap_world \<times> nat \<times> nat \<Rightarrow> bool"
  for Os d st where
  start: "guard_run Os d st st"
| step: "guard_run Os d st t \<Longrightarrow> guard_step Os d a t = Some u \<Longrightarrow> guard_run Os d st u"

abbreviation cell_of :: "mmap \<Rightarrow> mmap_world \<Rightarrow> mmap_cell" where
  "cell_of d w \<equiv> mw_cells w (mm_cell d)"

lemma set_cell_simps [simp]:
  "mw_cells (set_cell i c w) j = (if j = i then c else mw_cells w j)" "mw_fs (set_cell i c w) = mw_fs w"
  by (simp_all add: set_cell_def)

lemma with_map_cases:
  assumes "with_map d f w = (r, w')"
  obtains (poisoned) "cell_poisoned (cell_of d w)" "r = Panic" "w' = w"
  | (run) sw s1 where "\<not> cell_poisoned (cell_of d w)" "f (cell_map (cell_of d w)) (mw_fs w) = (r, sw, s1)"
    "w' = set_cell (mm_cell d) \<lparr>cell_map = sw, cell_poisoned = (r = Panic)\<rparr> (w\<lparr>mw_fs := s1\<rparr>)"
  using assms by (auto simp: with_map_def Let_def split: if_splits prod.splits)

definition guards_counted :: "mmap \<Rightarrow> mmap_world \<times> nat \<times> nat \<Rightarrow> bool" where
  "guards_counted d st \<longleftrightarrow> (case st of (w, r, x) \<Rightarrow> guards (cell_map (cell_of d w)) = (r, x) \<and> x \<le> 1 \<and> (r = 0 \<or> x = 0))"

lemma with_writer_guards:
  "with_writer d f w = (r, w') \<Longrightarrow> guards (cell_map (cell_of d w')) = guards (cell_map (cell_of d w))"
  by (auto simp: with_writer_def Let_def split: switching.splits prod.splits)

lemma guards_counted_read:
  assumes "guards_counted d (w, r, x)" and "read_disk Os d w = (q, w1)"
  shows "guards_counted d (w1, if is_ok q then r + 1 else r, x)"
  using assms(2) [unfolded read_disk_def]
proof (cases rule: with_map_cases)
  case (run sw s1)
  from read_handle_guards [OF run(2)] run(3) assms(1) show ?thesis by (auto simp: guards_counted_def is_ok_iff)
qed (use assms(1) in simp)

lemma guards_counted_write:
  assumes "guards_counted d (w, r, x)" and "write_disk Os d w = (q, w1)"
  shows "guards_counted d (w1, r, if is_ok q then x + 1 else x)"
  using assms(2) [unfolded write_disk_def]
proof (cases rule: with_map_cases)
  case (run sw s1)
  from write_handle_guards [OF run(2)] run(3) assms(1) show ?thesis by (auto simp: guards_counted_def is_ok_iff)
qed (use assms(1) in simp)

lemma guards_counted_step: "guards_counted d t \<Longrightarrow> guard_step Os d a t = Some u \<Longrightarrow> guards_counted d u"
proof (cases t)
  case (fields w r x)
  assume c: "guards_counted d t" and st: "guard_step Os d a t = Some u"
  have release: "guards (cell_map (cell_of d (release d w))) = (r - 1, x - 1)"
    using c fields by (simp add: release_def Let_def guards_drop guards_counted_def)
  show ?thesis
  proof (cases a)
    case OpenRead
    with st fields c guards_counted_read show ?thesis by (auto split: prod.splits)
  next
    case OpenWrite
    with st fields c guards_counted_write show ?thesis by (auto split: prod.splits)
  next
    case (WriteThrough b)
    obtain q w1 where W: "with_writer d (mw_write Os b) w = (q, w1)" by fastforce
    from WriteThrough st fields c with_writer_guards [OF W] W show ?thesis
      by (auto simp: guard_write_all_def guards_counted_def split: if_splits)
  next
    case FlushThrough
    obtain q w1 where W: "with_writer d (mw_flush Os) w = (q, w1)" by fastforce
    from FlushThrough st fields c with_writer_guards [OF W] W show ?thesis
      by (auto simp: guard_flush_def guards_counted_def split: if_splits)
  qed (use st fields c release in \<open>auto simp: guards_counted_def split: if_splits\<close>)
qed

lemma guard_run_counted: "guard_run Os d s t \<Longrightarrow> guards_counted d s \<Longrightarrow> guards_counted d t"
  by (induction rule: guard_run.induct) (auto intro: guards_counted_step)

text \<open>
  C18: the guards of a mapping exclude each other as references do. However a program opens, drops and
  uses guards of a disk it has made, it never holds two write guards, nor a write guard together with
  a read guard; opening one that would conflict returns an error and changes nothing.
\<close>

theorem mmap_guards_exclusive:
  assumes "guard_run Os d (w0, 0, 0) (w, r, x)" and "cell_map (cell_of d w0) = ReadMap m 0"
  shows "x \<le> 1 \<and> (x = 1 \<longrightarrow> r = 0) \<and>
    (0 < x \<and> \<not> cell_poisoned (cell_of d w) \<longrightarrow> read_disk Os d w = (Err OtherError, w) \<and> write_disk Os d w = (Err OtherError, w)) \<and>
    (0 < r \<and> \<not> cell_poisoned (cell_of d w) \<longrightarrow> write_disk Os d w = (Err OtherError, w))"
proof -
  have "guards_counted d (w, r, x)"
    using guard_run_counted [OF assms(1)] assms(2) by (simp add: guards_counted_def)
  then have c: "guards (cell_map (cell_of d w)) = (r, x)" "x \<le> 1" "r = 0 \<or> x = 0" by (auto simp: guards_counted_def)
  have same: "set_cell (mm_cell d) \<lparr>cell_map = cell_map (cell_of d w), cell_poisoned = False\<rparr> w = w"
    if "\<not> cell_poisoned (cell_of d w)"
    using that by (simp add: set_cell_def fun_upd_idem_iff)
  show ?thesis
    using c same
    by (cases "cell_map (cell_of d w)")
      (auto simp: read_disk_def write_disk_def with_map_def read_handle_def write_handle_def)
qed

section \<open>What a write session leaves\<close>

text \<open>
  \<open>tidy d w\<close>: the mapping of the disk agrees with its file, and its lock is sound. \<open>pending d w\<close> are the bytes of the writer
  that is still there from an earlier session, which the next one continues.
\<close>

definition tidy :: "mmap \<Rightarrow> mmap_world \<Rightarrow> bool" where
  "tidy d w \<longleftrightarrow> \<not> cell_poisoned (cell_of d w) \<and> (case cell_map (cell_of d w) of
      Invalid \<Rightarrow> True
    | ReadMap m g \<Rightarrow> g = 0 \<and> (\<exists>c. files (mw_fs w) (mm_path d) = Some c \<and> (case m of None \<Rightarrow> c = [] | Some n \<Rightarrow> n = length c))
    | WriteMap m g \<Rightarrow> g = 0 \<and> mapped m (mw_fs w) \<and> mw_path m = mm_path d)"

definition pending :: "mmap \<Rightarrow> mmap_world \<Rightarrow> bytes" where
  "pending d w = (case cell_map (cell_of d w) of WriteMap m g \<Rightarrow> mw_bytes m (mw_fs w) | _ \<Rightarrow> [])"

text \<open>\<open>writing d c w\<close>: a write session is open and has \<open>c\<close>.\<close>

definition writing :: "mmap \<Rightarrow> bytes \<Rightarrow> mmap_world \<Rightarrow> bool" where
  "writing d c w \<longleftrightarrow> \<not> cell_poisoned (cell_of d w) \<and> (\<exists>m. cell_map (cell_of d w) = WriteMap m 1 \<and> mapped m (mw_fs w) \<and> mw_path m = mm_path d \<and>
     mw_bytes m (mw_fs w) = c)"

lemma open_mmap_touches: "open_mmap_file p s = (r, s') \<Longrightarrow> touches p s s'"
  by (auto simp: open_mmap_file_def split: if_splits)

lemma open_mmap_file_there: "open_mmap_file p s = (Ok u, s') \<Longrightarrow> \<exists>c. files s' p = Some c"
  by (auto simp: open_mmap_file_def split: if_splits)

lemma set_len_touches: "set_len Os p n s = (r, s') \<Longrightarrow> touches p s s'"
  by (auto simp: set_len_def split: if_splits)

lemma no_advise_Ok:
  assumes "no_advise Os p s = (Ok m, s')"
  shows "mapped m s' \<and> written_len m = 0 \<and> mw_path m = p \<and> touches p s s'"
proof -
  from assms obtain u s1 v where A: "open_mmap_file p s = (Ok u, s1)"
    and B: "(if file_len p s1 = 0 then set_len Os p 1 s1 else (Ok (), s1)) = (Ok v, s')"
    and C: "map_ok (from_args p) (map_file Os p s') = Ok m"
    by (auto simp: no_advise_def split: prod.splits result.splits)
  from open_mmap_file_there [OF A] B obtain c where c: "files s' p = Some c"
    by (auto simp: set_len_def split: if_splits)
  have "touches p s s'" using open_mmap_touches [OF A] B
    by (auto split: if_splits dest: set_len_touches intro: touches_trans)
  with C c show ?thesis
    by (auto simp: map_file_def file_len_def mapped_def from_args_def split: if_splits)
qed

lemma write_disk_Ok:
  assumes "tidy d w" and "write_disk Os d w = (Ok u, w')"
  shows "writing d (pending d w) w' \<and> touches (mm_path d) (mw_fs w) (mw_fs w') \<and>
    (\<forall>i. i \<noteq> mm_cell d \<longrightarrow> mw_cells w' i = mw_cells w i)"
  using assms(2) [unfolded write_disk_def]
proof (cases rule: with_map_cases)
  case (run sw s1)
  have z: "written_len m = 0 \<Longrightarrow> mw_bytes m s = []" for m s by (simp add: mw_bytes_def)
  show ?thesis
  proof (cases "cell_map (cell_of d w)")
    case Invalid
    with run(2) obtain m where "no_advise Os (mm_path d) (mw_fs w) = (Ok m, s1)" "sw = WriteMap m 1"
      by (auto simp: write_handle_def split: prod.splits result.splits)
    with no_advise_Ok [OF this(1)] run(3) Invalid z show ?thesis by (simp add: writing_def pending_def)
  next
    case (ReadMap mo g)
    show ?thesis
    proof (cases mo)
      case None
      with run(2) ReadMap obtain m where "no_advise Os (mm_path d) (mw_fs w) = (Ok m, s1)" "sw = WriteMap m 1"
        by (auto simp: write_handle_def split: prod.splits result.splits if_splits)
      with no_advise_Ok [OF this(1)] run(3) ReadMap z show ?thesis by (simp add: writing_def pending_def)
    next
      case (Some n)
      with run(2) ReadMap have "sw = WriteMap (from_args (mm_path d) n) 1" "s1 = mw_fs w"
        by (auto simp: write_handle_def split: if_splits)
      with run(3) assms(1) ReadMap Some show ?thesis
        by (auto simp: writing_def pending_def tidy_def mapped_def from_args_def mw_bytes_def)
    qed
  next
    case (WriteMap m g)
    with run(2) have "sw = WriteMap m 1" "s1 = mw_fs w" by (auto simp: write_handle_def split: if_splits)
    with run(3) assms(1) WriteMap show ?thesis by (auto simp: writing_def pending_def tidy_def)
  qed
qed simp

lemma guard_write_all_Ok:
  assumes "writing d c w" and "guard_write_all Os b d w = (Ok u, w')"
  shows "writing d (c @ b) w' \<and> touches (mm_path d) (mw_fs w) (mw_fs w') \<and>
    (\<forall>i. i \<noteq> mm_cell d \<longrightarrow> mw_cells w' i = mw_cells w i)"
proof (cases "b = []")
  case False
  from assms(1) obtain m where m: "cell_map (cell_of d w) = WriteMap m 1" "mapped m (mw_fs w)" "mw_path m = mm_path d"
    "mw_bytes m (mw_fs w) = c" "\<not> cell_poisoned (cell_of d w)" by (auto simp: writing_def)
  from assms(2) False m(1) obtain n m1 s1 where W: "mw_write Os b m (mw_fs w) = (Ok n, m1, s1)"
    and w': "w' = set_cell (mm_cell d) ((cell_of d w)\<lparr>cell_map := WriteMap m1 1\<rparr>) (w\<lparr>mw_fs := s1\<rparr>)"
    by (auto simp: guard_write_all_def with_writer_def Let_def split: prod.splits)
  from write_mapped [OF m(2) W] m w' show ?thesis by (simp add: writing_def)
qed (use assms in \<open>simp add: guard_write_all_def\<close>)

lemma write_pieces_Ok:
  assumes "writing d c w" and "write_pieces (mmap_disk Os) d ps w = (Ok u, d', w')"
  shows "d' = d \<and> writing d (c @ concat ps) w' \<and> touches (mm_path d) (mw_fs w) (mw_fs w') \<and>
    (\<forall>i. i \<noteq> mm_cell d \<longrightarrow> mw_cells w' i = mw_cells w i)"
  using assms
proof (induction ps arbitrary: w c)
  case (Cons p ps)
  obtain r w1 where W: "guard_write_all Os p d w = (r, w1)" by fastforce
  with Cons.prems(2) have r: "r = Ok ()" by (cases r) (auto simp: mmap_disk_def)
  note G = guard_write_all_Ok [OF Cons.prems(1) W [unfolded r]]
  from Cons.prems(2) W r have "write_pieces (mmap_disk Os) d ps w1 = (Ok u, d', w')" by (simp add: mmap_disk_def)
  from Cons.IH [OF conjunct1 [OF G] this] G show ?case by (auto intro: touches_trans)
qed simp

lemma flush_release_Ok:
  assumes "writing d c w" and "guard_flush Os d w = (Ok u, w1)"
  defines "w' \<equiv> release d w1"
  shows "tidy d w' \<and> pending d w' = c \<and> files (mw_fs w') (mm_path d) = Some c \<and> touches (mm_path d) (mw_fs w) (mw_fs w') \<and>
    (\<forall>i. i \<noteq> mm_cell d \<longrightarrow> mw_cells w' i = mw_cells w i) \<and>
    (\<exists>m. cell_map (cell_of d w') = WriteMap m 0 \<and> reserved_len m = written_len m)"
proof -
  from assms(1) obtain m where m: "cell_map (cell_of d w) = WriteMap m 1" "mapped m (mw_fs w)" "mw_path m = mm_path d"
    "mw_bytes m (mw_fs w) = c" "\<not> cell_poisoned (cell_of d w)" by (auto simp: writing_def)
  from assms(2) m(1) obtain m1 s1 where F: "mw_flush Os m (mw_fs w) = (Ok u, m1, s1)"
    and w1: "w1 = set_cell (mm_cell d) ((cell_of d w)\<lparr>cell_map := WriteMap m1 1\<rparr>) (w\<lparr>mw_fs := s1\<rparr>)"
    by (auto simp: guard_flush_def with_writer_def Let_def split: prod.splits)
  from flush_mapped [OF m(2) F] m show ?thesis
    by (simp add: w'_def w1 release_def Let_def drop_guard_def tidy_def pending_def grown_def)
qed

lemma mmap_put_Ok:
  assumes "tidy d w" and "put (mmap_disk Os) d ps ok w = (Ok u, w')"
  shows "ok \<and> tidy d w' \<and> pending d w' = pending d w @ concat ps \<and>
    files (mw_fs w') (mm_path d) = Some (pending d w @ concat ps) \<and> touches (mm_path d) (mw_fs w) (mw_fs w') \<and>
    (\<forall>i. i \<noteq> mm_cell d \<longrightarrow> mw_cells w' i = mw_cells w i) \<and>
    (\<exists>m. cell_map (cell_of d w') = WriteMap m 0 \<and> reserved_len m = written_len m)"
proof -
  obtain r1 w1 where D: "write_disk Os d w = (r1, w1)" by fastforce
  obtain r2 d2 w2 where P: "write_pieces (mmap_disk Os) d ps w1 = (r2, d2, w2)" by (metis prod_cases3)
  from assms(2) D have r1: "r1 = Ok ()" by (cases r1) (auto simp: put_def mmap_disk_def)
  note WD = write_disk_Ok [OF assms(1) D [unfolded r1]]
  from assms(2) D r1 have S: "serialize_flush (mmap_disk Os) d ps ok w1 = (Ok u, w')" by (simp add: put_def mmap_disk_def)
  with P have r2: "r2 = Ok ()" by (cases r2) (auto simp: serialize_flush_def)
  note WP = write_pieces_Ok [OF conjunct1 [OF WD] P [unfolded r2]]
  obtain r3 w3 where F: "guard_flush Os d w2 = (r3, w3)" by fastforce
  from S P r2 F WP have "ok" "r3 = Ok ()" "w' = release d w3"
    by (cases ok; cases r3; auto simp: serialize_flush_def mmap_disk_def)+
  with flush_release_Ok [OF conjunct1 [OF conjunct2 [OF WP]], of Os "()" w3] F WD WP show ?thesis
    by (auto intro: touches_trans)
qed

text \<open>Reading the disk: what the file holds, and the writer of the last session is gone.\<close>

definition settled :: "mmap \<Rightarrow> mmap_world \<Rightarrow> bool" where
  "settled d w \<longleftrightarrow> tidy d w \<and>
     (\<forall>m g. cell_map (cell_of d w) = WriteMap m g \<longrightarrow> reserved_len m = written_len m)"

lemma put_settled: "tidy d w \<Longrightarrow> put (mmap_disk Os) d ps ok w = (Ok u, w') \<Longrightarrow> settled d w'"
  using mmap_put_Ok [of d w Os ps ok u w'] by (auto simp: settled_def)

lemma flush_settled:
  "mapped m s \<Longrightarrow> reserved_len m = written_len m \<Longrightarrow>
   mw_flush Os m s = ((if os_sync_ok Os (mw_path m) then Ok () else Err OtherError), m, s) \<and> mw_drop Os m s = (Ok (), s)"
  by (simp add: mw_flush_def mw_truncate_def mw_drop_def)

lemma get_map_settled:
  assumes "mapped m s" "reserved_len m = written_len m" "get_map Os m s = (Ok n, m', s')"
  shows "n = written_len m \<and> s' = s"
proof -
  from assms(1) obtain c where c: "files s (mw_path m) = Some c" "length c = written_len m" "mw_map m = written_len m"
    using assms(2) by (auto simp: mapped_def)
  obtain q s1 where F: "mw_file m s = (q, s1)" by fastforce
  then have "s1 = s" using c(1) by (auto simp: mw_file_def dest: open_mmap_existing)
  with assms(3) F flush_settled [OF assms(1,2)] assms(2) c show ?thesis
    by (auto simp: get_map_def mw_drop_def mw_truncate_def split: if_splits prod.splits result.splits)
qed

lemma mmap_read_Ok:
  assumes "settled d w" and "d_read (mmap_disk Os) d w = (Ok b, w')"
  shows "settled d w' \<and> pending d w' = [] \<and> files (mw_fs w') (mm_path d) = Some b \<and>
    (\<forall>c. files (mw_fs w) (mm_path d) = Some c \<longrightarrow> b = c \<and> mw_fs w' = mw_fs w)"
proof -
  from assms(2) obtain m w1 where D: "read_disk Os d w = (Ok m, w1)" and b: "guard_bytes d m w1 = Ok b" "w' = release d w1"
    by (auto simp: mmap_disk_def split: prod.splits result.splits)
  from D [unfolded read_disk_def] obtain sw s1 where H: "read_handle Os (mm_path d) (cell_map (cell_of d w)) (mw_fs w) = (Ok m, sw, s1)"
    and w1: "w1 = set_cell (mm_cell d) \<lparr>cell_map = sw, cell_poisoned = False\<rparr> (w\<lparr>mw_fs := s1\<rparr>)"
    by (cases rule: with_map_cases) auto
  have key: "sw = ReadMap m 1 \<and> (\<exists>c. files s1 (mm_path d) = Some c \<and> (case m of None \<Rightarrow> c = [] | Some n \<Rightarrow> n = length c)) \<and>
    (\<forall>c. files (mw_fs w) (mm_path d) = Some c \<longrightarrow> s1 = mw_fs w)"
  proof (cases "cell_map (cell_of d w)")
    case Invalid
    with H obtain u where N: "open_mmap_file (mm_path d) (mw_fs w) = (Ok u, s1)" "sw = ReadMap m 1"
      "(if file_len (mm_path d) s1 = 0 then Ok None else map_ok Some (map_file Os (mm_path d) s1)) = Ok m"
      by (auto simp: read_handle_def new_arc_def read_ret_def split: prod.splits result.splits)
    from open_mmap_file_there [OF N(1)] N(2,3) show ?thesis
      by (auto simp: file_len_def map_file_def split: if_splits dest: open_mmap_existing [OF _ N(1)])
  next
    case (ReadMap mo g)
    with H assms(1) show ?thesis by (auto simp: read_handle_def read_ret_def settled_def tidy_def)
  next
    case (WriteMap wr g)
    with assms(1) have wr: "mapped wr (mw_fs w)" "reserved_len wr = written_len wr" "mw_path wr = mm_path d" "g = 0"
      by (auto simp: settled_def tidy_def)
    from wr(1,2,3) obtain c where c: "files (mw_fs w) (mm_path d) = Some c" "length c = written_len wr"
      by (auto simp: mapped_def)
    show ?thesis
    proof (cases "0 < written_len wr")
      case True
      with H WriteMap wr(4) obtain n w2 where "get_map Os wr (mw_fs w) = (Ok n, w2, s1)" "m = Some n" "sw = ReadMap m 1"
        by (auto simp: read_handle_def read_ret_def split: if_splits prod.splits result.splits)
      with get_map_settled [OF wr(1,2) this(1)] c show ?thesis by auto
    next
      case False
      with H WriteMap wr(4) flush_settled [OF wr(1,2)] have "m = None" "sw = ReadMap m 1" "s1 = mw_fs w"
        by (auto simp: read_handle_def read_ret_def)
      with c False show ?thesis by auto
    qed
  qed
  with b w1 show ?thesis
    by (auto simp: settled_def tidy_def pending_def release_def Let_def drop_guard_def guard_bytes_def
        split: option.splits if_splits)
qed

text \<open>A kernel that grants everything, and a file that can be used.\<close>

definition willing :: "mmap_os \<Rightarrow> path \<Rightarrow> bool" where
  "willing Os p \<longleftrightarrow> (\<forall>n. os_len_ok Os p n) \<and> (\<forall>n. os_map_ok Os p n) \<and> os_protect_ok Os p \<and> os_sync_ok Os p"

lemma open_mmap_works: "file_writable p s \<Longrightarrow> \<exists>s'. open_mmap_file p s = (Ok (), s')"
  by (auto simp: open_mmap_file_def file_writable_def)

lemma reserve_for_works:
  assumes "mapped m s" "willing Os (mw_path m)" "file_writable (mw_path m) s"
  shows "\<exists>m' s'. reserve_for Os n m s = (Ok (), m', s')"
proof -
  have F: "mw_file m s = (Ok (), s)"
    using assms(1,3) open_mmap_works [of "mw_path m" s] open_mmap_existing [of s "mw_path m"]
    by (auto simp: mw_file_def mapped_def)
  have "fst (extend_file Os k m s) = Ok ()" if "reserved_len m \<le> k" for k
  proof -
    obtain b m1 s1 where A: "sparse_alloc Os k m s = (b, m1, s1)" by (metis prod_cases3)
    have "mw_path m1 = mw_path m"
      using sparse_alloc_sized [OF _ A that] assms(1) by (simp add: mapped_sized grown_def)
    with assms(2) A show ?thesis by (cases b) (auto simp: extend_file_def set_len_def willing_def)
  qed
  then have E: "\<exists>m1 s1. extend_file Os k m s = (Ok (), m1, s1)" if "reserved_len m \<le> k" for k
    using that by (metis prod.collapse)
  define k where "k = reserved_len m + max (n - (reserved_len m - written_len m)) min_reserve_len"
  have "sized m s" "reserved_len m \<le> k" using assms(1) by (simp_all add: mapped_sized k_def)
  moreover from this obtain m1 s1 where X: "extend_file Os k m s = (Ok (), m1, s1)" using E by blast
  ultimately have "mw_path m1 = mw_path m" using extend_file_sized [of m s Os k] by (auto simp: grown_def)
  then have "remap Os m1 = (Ok (), m1\<lparr>mw_map := reserved_len m1\<rparr>)" using assms(2) by (simp add: remap_def willing_def)
  with F X [unfolded k_def] assms(1) show ?thesis
    by (cases "n \<le> reserved_len m - written_len m") (simp_all add: reserve_for_def Let_def mapped_def)
qed

lemma guard_write_all_works:
  assumes "writing d c w" "willing Os (mm_path d)" "file_writable (mm_path d) (mw_fs w)"
  shows "\<exists>w'. guard_write_all Os b d w = (Ok (), w')"
proof -
  from assms(1) obtain m where m: "cell_map (cell_of d w) = WriteMap m 1" "mapped m (mw_fs w)" "mw_path m = mm_path d"
    by (auto simp: writing_def)
  with assms(2,3) obtain m1 s1 where R: "reserve_for Os (length b) m (mw_fs w) = (Ok (), m1, s1)"
    using reserve_for_works [of m "mw_fs w" Os "length b"] by auto
  obtain x m2 s2 where W: "write_data b m1 s1 = (x, m2, s2)" by (metis prod_cases3)
  note RF = reserve_for_mapped [OF m(2) R]
  have "\<not> full s1 (mw_path m1)" using RF m(3) assms(3) by (simp add: grown_def touches_def file_writable_def)
  with RF write_data_mapped [OF _ _ W] have "x = Ok ()" by auto
  with R W m(1) show ?thesis by (auto simp: guard_write_all_def with_writer_def mw_write_def)
qed

lemma write_pieces_works:
  assumes "writing d c w" "willing Os (mm_path d)" "file_writable (mm_path d) (mw_fs w)"
  shows "\<exists>w'. write_pieces (mmap_disk Os) d ps w = (Ok (), d, w')"
  using assms(1,3)
proof (induction ps arbitrary: c w)
  case (Cons p ps)
  obtain w1 where W: "guard_write_all Os p d w = (Ok (), w1)"
    using guard_write_all_works [OF Cons.prems(1) assms(2) Cons.prems(2)] by blast
  note G = guard_write_all_Ok [OF Cons.prems(1) W]
  from Cons.IH [OF conjunct1 [OF G]] G W Cons.prems(2) touches_writable show ?case by (auto simp: mmap_disk_def)
qed simp

lemma mmap_put_works:
  assumes "tidy d w" "willing Os (mm_path d)" "file_writable (mm_path d) (mw_fs w)"
  shows "\<exists>w'. put (mmap_disk Os) d ps True w = (Ok (), w')"
proof -
  have N: "\<exists>m s1. no_advise Os (mm_path d) (mw_fs w) = (Ok m, s1)"
    using open_mmap_works [OF assms(3)] assms(2)
    by (auto simp: no_advise_def set_len_def map_file_def willing_def)
  have "fst (write_handle Os (mm_path d) (cell_map (cell_of d w)) (mw_fs w)) = Ok ()"
    using N assms(1,2) by (auto simp: write_handle_def tidy_def willing_def split: switching.split option.split)
  then obtain w1 where D: "write_disk Os d w = (Ok (), w1)"
    using assms(1)
    by (cases "write_handle Os (mm_path d) (cell_map (cell_of d w)) (mw_fs w)") (auto simp: write_disk_def with_map_def Let_def tidy_def)
  note WD = write_disk_Ok [OF assms(1) D]
  then have fw: "file_writable (mm_path d) (mw_fs w1)" using assms(3) touches_writable by blast
  obtain w2 where P: "write_pieces (mmap_disk Os) d ps w1 = (Ok (), d, w2)"
    using write_pieces_works [OF conjunct1 [OF WD] assms(2) fw] by blast
  note WP = write_pieces_Ok [OF conjunct1 [OF WD] P]
  then obtain m where m: "cell_map (cell_of d w2) = WriteMap m 1" "mapped m (mw_fs w2)" "mw_path m = mm_path d"
    by (auto simp: writing_def)
  have "mw_file m (mw_fs w2) = (Ok (), mw_fs w2)"
    using m fw WP open_mmap_works [of "mm_path d" "mw_fs w2"] open_mmap_existing [of "mw_fs w2" "mm_path d"] touches_writable
    by (auto simp: mw_file_def mapped_def)
  then have "\<exists>m1 s1. mw_flush Os m (mw_fs w2) = (Ok (), m1, s1)"
    using m(3) assms(2) by (auto simp: mw_flush_def mw_truncate_def set_len_def remap_def willing_def)
  then obtain w3 where "guard_flush Os d w2 = (Ok (), w3)"
    using m(1) by (auto simp: guard_flush_def with_writer_def Let_def)
  with D P show ?thesis by (auto simp: put_def serialize_flush_def mmap_disk_def)
qed

lemma mmap_read_works:
  assumes "settled d w" "willing Os (mm_path d)" "file_writable (mm_path d) (mw_fs w)"
  shows "\<exists>b w'. d_read (mmap_disk Os) d w = (Ok b, w')"
proof -
  have N: "\<exists>m s1. new_arc Os (mm_path d) (mw_fs w) = (Ok m, s1)"
    using open_mmap_works [OF assms(3)] assms(2) by (auto simp: new_arc_def map_file_def willing_def)
  have "fst (read_handle Os (mm_path d) (cell_map (cell_of d w)) (mw_fs w)) \<in> range Ok"
  proof (cases "cell_map (cell_of d w)")
    case (WriteMap m g)
    with assms(1) have m: "mapped m (mw_fs w)" "reserved_len m = written_len m" "mw_path m = mm_path d" "g = 0"
      by (auto simp: settled_def tidy_def)
    have "mw_file m (mw_fs w) = (Ok (), mw_fs w)"
      using m assms(3) open_mmap_works [of "mm_path d" "mw_fs w"] open_mmap_existing [of "mw_fs w" "mm_path d"]
      by (auto simp: mw_file_def mapped_def)
    then have "\<exists>n. get_map Os m (mw_fs w) = (Ok n, m, mw_fs w)"
      using flush_settled [OF m(1,2), of Os] m assms(2)
      by (auto simp: get_map_def map_file_def willing_def mw_drop_def mw_truncate_def)
    with WriteMap m flush_settled [OF m(1,2), of Os] assms(2) show ?thesis
      by (auto simp: read_handle_def read_ret_def willing_def)
  qed (use N assms(1) in \<open>auto simp: read_handle_def read_ret_def settled_def tidy_def\<close>)
  then obtain m sw s1 where H: "read_handle Os (mm_path d) (cell_map (cell_of d w)) (mw_fs w) = (Ok m, sw, s1)"
    by (metis imageE prod.collapse)
  obtain w1 where D: "read_disk Os d w = (Ok m, w1)" and w1: "mw_fs w1 = s1"
    using H assms(1) by (auto simp: read_disk_def with_map_def Let_def settled_def tidy_def)
  have "\<exists>b. guard_bytes d m w1 = Ok b"
  proof -
    have "case m of None \<Rightarrow> True | Some n \<Rightarrow> (\<exists>c. files s1 (mm_path d) = Some c \<and> n \<le> length c)"
    proof (cases "cell_map (cell_of d w)")
      case Invalid
      with H show ?thesis
        by (auto simp: read_handle_def new_arc_def read_ret_def map_file_def file_len_def
            split: prod.splits result.splits if_splits option.splits dest: open_mmap_file_there)
    next
      case (ReadMap mo g)
      with H assms(1) show ?thesis
        by (auto simp: read_handle_def read_ret_def settled_def tidy_def split: option.splits)
    next
      case (WriteMap wr g)
      with assms(1) have wr: "mapped wr (mw_fs w)" "reserved_len wr = written_len wr" "mw_path wr = mm_path d" "g = 0"
        by (auto simp: settled_def tidy_def)
      then obtain c where "files (mw_fs w) (mm_path d) = Some c" "length c = written_len wr" by (auto simp: mapped_def)
      with H WriteMap wr(4) get_map_settled [OF wr(1,2), of Os] show ?thesis
        by (auto simp: read_handle_def read_ret_def split: if_splits prod.splits result.splits option.splits)
    qed
    then show ?thesis by (auto simp: guard_bytes_def w1 split: option.splits)
  qed
  with D show ?thesis by (auto simp: mmap_disk_def)
qed

text \<open>
  C17: a write session on a mapped disk and the read after it. From a disk whose last use was a read
  (or that is new), on a file that can be used and a kernel that grants what it is asked for, a
  session that writes some pieces and flushes succeeds, and the file is then exactly the pieces, with
  no reserved space behind them; the next read returns exactly these bytes and leaves the disk ready
  for another session. No other file and no other disk changes.
\<close>

theorem mmap_write_then_read:
  assumes "settled d w" "willing Os (mm_path d)" "file_writable (mm_path d) (mw_fs w)"
    and "pending d w = []"
  shows "\<exists>w1 w2. put (mmap_disk Os) d ps True w = (Ok (), w1) \<and> files (mw_fs w1) (mm_path d) = Some (concat ps) \<and>
    d_read (mmap_disk Os) d w1 = (Ok (concat ps), w2) \<and> settled d w2 \<and> pending d w2 = [] \<and>
    mw_fs w2 = mw_fs w1 \<and> touches (mm_path d) (mw_fs w) (mw_fs w1) \<and> (\<forall>i. i \<noteq> mm_cell d \<longrightarrow> mw_cells w1 i = mw_cells w i)"
proof -
  have t: "tidy d w" using assms(1) by (simp add: settled_def)
  obtain w1 where P: "put (mmap_disk Os) d ps True w = (Ok (), w1)" using mmap_put_works [OF t assms(2,3)] by blast
  note PO = mmap_put_Ok [OF t P]
  have "file_writable (mm_path d) (mw_fs w1)" using PO assms(3) touches_writable by blast
  then obtain b w2 where R: "d_read (mmap_disk Os) d w1 = (Ok b, w2)"
    using mmap_read_works [OF put_settled [OF t P] assms(2)] by blast
  with mmap_read_Ok [OF put_settled [OF t P] R] P PO assms(4) show ?thesis by auto
qed

abbreviation demo_os :: mmap_os where
  "demo_os \<equiv> \<lparr>os_len_ok = \<lambda>_ _. True, os_map_ok = \<lambda>_ _. True, os_protect_ok = \<lambda>_. True, os_sync_ok = \<lambda>_. True,
     os_hole = \<lambda>_. None\<rparr>"

abbreviation demo_mmap :: mmap where
  "demo_mmap \<equiv> \<lparr>mm_path = [''f''], mm_cell = 0\<rparr>"

abbreviation demo_world :: mmap_world where
  "demo_world \<equiv> \<lparr>mw_fs = set_file [''f''] (Some [1, 2]) empty_fs,
     mw_cells = \<lambda>_. \<lparr>cell_map = ReadMap (Some 2) 0, cell_poisoned = False\<rparr>\<rparr>"

lemma demo_mmap_ready:
  "settled demo_mmap demo_world" "willing demo_os (mm_path demo_mmap)"
  "file_writable (mm_path demo_mmap) (mw_fs demo_world)" "pending demo_mmap demo_world = []"
  by (simp_all add: settled_def tidy_def willing_def file_writable_def empty_fs_def parent_def pending_def)

theorem mmap_write_then_read_witness:
  "\<exists>w1 w2. put (mmap_disk demo_os) demo_mmap [[7], [8, 9]] True demo_world = (Ok (), w1) \<and>
     d_read (mmap_disk demo_os) demo_mmap w1 = (Ok [7, 8, 9], w2)"
  using mmap_write_then_read [OF demo_mmap_ready, of "[[7], [8, 9]]"] by auto

theorem mmap_guards_exclusive_witness:
  "\<exists>w. guard_run demo_os demo_mmap (demo_world, 0, 0) (w, 0, 1) \<and> read_disk demo_os demo_mmap w = (Err OtherError, w)"
proof -
  obtain w where w: "guard_step demo_os demo_mmap OpenWrite (demo_world, 0, 0) = Some (w, 0, 1)"
    and p: "\<not> cell_poisoned (cell_of demo_mmap w)"
    by (simp add: write_disk_def with_map_def write_handle_def)
  have R: "guard_run demo_os demo_mmap (demo_world, 0, 0) (w, 0, 1)"
    using guard_run.step [OF guard_run.start w] .
  from mmap_guards_exclusive [OF R] p have "read_disk demo_os demo_mmap w = (Err OtherError, w)" by simp
  with R show ?thesis by blast
qed

text \<open>
  writing an entry twice on a mapped disk loses the second value. A writer that no read has ended is
  used again as it is and goes on behind what it wrote, so after two writes of an entry without a
  read between them the file holds both encodings, and with a coder that allows trailing bytes, as
  \<open>BincodeCoder\<close> does, the entry loads the first value once the second is out of memory.
\<close>

theorem mmap_second_write_lost:
  assumes "coder_roundtrip C" and "settled d w" "willing Os (mm_path d)" "file_writable (mm_path d) (mw_fs w)" "pending d w = []"
    and "entry_disk e = d" and "\<And>v rest. accepts C (entry_coder e) v \<Longrightarrow> c_parse C (entry_coder e) (encoding C (entry_coder e) v @ rest) = Ok v"
    and "accepts C (entry_coder e) v1" "accepts C (entry_coder e) v2"
  shows "\<exists>e1 w1 e2 w2 e3 w3. entry_write C (mmap_disk Os) v1 e w = (Ok (), e1, w1) \<and>
    entry_write C (mmap_disk Os) v2 e1 w1 = (Ok (), e2, w2) \<and> entry_value e2 = Some v2 \<and>
    files (mw_fs w2) (mm_path d) = Some (encoding C (entry_coder e) v1 @ encoding C (entry_coder e) v2) \<and>
    entry_load C (mmap_disk Os) (unload e2) w2 = (Ok v1, e3, w3)"
proof -
  let ?D = "mmap_disk Os" and ?c = "entry_coder e"
  have t: "tidy d w" using assms(2) by (simp add: settled_def)
  obtain w1 where P1: "put ?D d (fst (c_pieces C ?c v1)) True w = (Ok (), w1)"
    using mmap_put_works [OF t assms(3,4)] by blast
  note O1 = mmap_put_Ok [OF t P1]
  have t1: "tidy d w1" and fw1: "file_writable (mm_path d) (mw_fs w1)" using O1 assms(4) touches_writable by blast+
  obtain w2 where P2: "put ?D d (fst (c_pieces C ?c v2)) True w1 = (Ok (), w2)"
    using mmap_put_works [OF t1 assms(3) fw1] by blast
  note O2 = mmap_put_Ok [OF t1 P2]
  have fw2: "file_writable (mm_path d) (mw_fs w2)" using O2 fw1 touches_writable by blast
  obtain b w3 where R: "d_read ?D d w2 = (Ok b, w3)"
    using mmap_read_works [OF put_settled [OF t1 P2] assms(3) fw2] by blast
  have F: "files (mw_fs w2) (mm_path d) = Some (encoding C ?c v1 @ encoding C ?c v2)"
    using O1 O2 assms(5) by (simp add: encoding_def)
  then have b: "b = encoding C ?c v1 @ encoding C ?c v2" using mmap_read_Ok [OF put_settled [OF t1 P2] R] by auto
  let ?e1 = "e\<lparr>entry_value := Some v1\<rparr>" and ?e2 = "e\<lparr>entry_value := Some v2\<rparr>"
  have W1: "entry_write C ?D v1 e w = (Ok (), ?e1, w1)"
    using P1 assms(6,8) by (simp add: entry_write_def write_value_put accepts_def oc_set_def oc_new_def)
  have W2: "entry_write C ?D v2 ?e1 w1 = (Ok (), ?e2, w2)"
    using P2 assms(6,9) by (simp add: entry_write_def write_value_put accepts_def oc_set_def oc_new_def)
  have L: "\<exists>e3. entry_load C ?D (unload ?e2) w2 = (Ok v1, e3, w3)"
    using R b assms(6) assms(7) [OF assms(8)]
    by (simp add: entry_load_def unload_def oc_defs read_value_def decode_def)
  from W1 W2 F L show ?thesis by fastforce
qed

lemma prefix_trailing: "accepts prefix_ops c v \<Longrightarrow> c_parse prefix_ops c (encoding prefix_ops c v @ rest) = Ok v"
  by (auto simp: accepts_def prefix_ops_def bincode_ops_def prefix_lib_def encoding_def unat_of_nat take_bit_eq_mod split: if_splits)

theorem mmap_second_write_lost_witness:
  "\<exists>e1 w1 e2 w2 e3 w3.
     entry_write prefix_ops (mmap_disk demo_os) [5] (entry_new demo_mmap BincodeCoder) demo_world = (Ok (), e1, w1) \<and>
     entry_write prefix_ops (mmap_disk demo_os) [6] e1 w1 = (Ok (), e2, w2) \<and>
     entry_load prefix_ops (mmap_disk demo_os) (unload e2) w2 = (Ok [5], e3, w3)"
proof -
  have "entry_disk (entry_new demo_mmap BincodeCoder :: (bytes, mmap, bincode_coder) backed_entry) = demo_mmap" by simp
  from mmap_second_write_lost [OF prefix_roundtrip demo_mmap_ready this prefix_trailing, of "[5]" "[6]"]
  show ?thesis by auto
qed

end
