(* ===== verification/Encrypted.thy ===== *)
theory Encrypted
  imports Formats Container
begin

text \<open>
  The encrypting disk of \<open>src/entry/disks/encrypted.rs\<close>: the growing buffer in protected memory that
  the cipher works on, the disk \<open>Encrypted\<close> over another disk with the writer it hands out, and the
  visitor that deserializes a \<open>SecretVecWrapper\<close>. AES-GCM itself is a parameter.
\<close>

section \<open>The buffer\<close>

text \<open>
  \<open>SecretVecBuffer\<close>: the protected vector, and whether a shared or a mutable borrow of it is kept
  in the two handles. A \<open>usize\<close> addition that is checked in the source is bounded here.
\<close>

definition usize_max :: nat where
  "usize_max = 2 ^ 64 - 1"

record secret_buffer =
  sb_inner :: bytes
  sb_ref :: bool
  sb_mut :: bool

definition buffer_from :: "bytes \<Rightarrow> secret_buffer" where
  "buffer_from v = \<lparr>sb_inner = v, sb_ref = False, sb_mut = False\<rparr>"

definition buffer_default :: secret_buffer where
  "buffer_default = buffer_from []"

definition buffer_into :: "secret_buffer \<Rightarrow> bytes" where
  "buffer_into b = sb_inner (b\<lparr>sb_ref := False, sb_mut := False\<rparr>)"

definition buffer_as_ref :: "secret_buffer \<Rightarrow> bytes \<times> secret_buffer" where
  "buffer_as_ref b = (sb_inner b, b\<lparr>sb_ref := True\<rparr>)"

text \<open>The slice \<open>as_mut\<close> returns is overwritten in place: \<open>f\<close> keeps the length.\<close>

definition buffer_as_mut :: "(bytes \<Rightarrow> bytes) \<Rightarrow> secret_buffer \<Rightarrow> secret_buffer" where
  "buffer_as_mut f b = b\<lparr>sb_inner := f (sb_inner b), sb_mut := True\<rparr>"

definition buffer_len :: "secret_buffer \<Rightarrow> nat" where
  "buffer_len b = length (sb_inner b)"

definition buffer_is_empty :: "secret_buffer \<Rightarrow> bool" where
  "buffer_is_empty b \<longleftrightarrow> sb_inner b = []"

text \<open>
  \<open>extend_from_slice\<close> moves to a longer vector, filled as \<open>SecretVec::new\<close> fills it;
  \<open>truncate\<close> drops the handles and leaves the vector as it is.
\<close>

definition buffer_extend :: "bytes \<Rightarrow> secret_buffer \<Rightarrow> (secret_buffer, unit) result" where
  "buffer_extend other b =
     (let b1 = b\<lparr>sb_ref := False, sb_mut := False\<rparr>;
          prev_len = length (sb_inner b1); new_len = length (sb_inner b1) + length other in
      if usize_max < new_len then Err ()
      else map_ok (\<lambda>v. b1\<lparr>sb_inner := v\<rparr>)
        (secret_vec_new 0 new_len (\<lambda>s.
           res_bind (copy_range 0 prev_len (sb_inner b1) s) (\<lambda>s1. copy_range prev_len new_len other s1))))"

definition buffer_truncate :: "nat \<Rightarrow> secret_buffer \<Rightarrow> secret_buffer" where
  "buffer_truncate len b = b\<lparr>sb_ref := False, sb_mut := False\<rparr>"

lemma buffer_simps [simp]:
  "sb_inner (buffer_from v) = v" "buffer_into b = sb_inner b" "buffer_default = buffer_from []"
  "sb_inner (buffer_truncate n b) = sb_inner b" "sb_inner (buffer_as_mut f b) = f (sb_inner b)"
  "fst (buffer_as_ref b) = sb_inner b"
  by (simp_all add: buffer_from_def buffer_into_def buffer_default_def buffer_truncate_def
      buffer_as_mut_def buffer_as_ref_def)

lemma buffer_extend_eq:
  "buffer_extend other b =
     (if usize_max < length (sb_inner b) + length other then Err ()
      else Ok \<lparr>sb_inner = sb_inner b @ other, sb_ref = False, sb_mut = False\<rparr>)"
  by (cases b) (simp add: buffer_extend_def secret_vec_new_def copy_range_def Let_def)

section \<open>The cipher\<close>

text \<open>
  \<open>AeadInPlace\<close> with a key, a nonce and no associated data. Sealing overwrites the message in place
  and appends what it returns as second component; opening overwrites the buffer in place and then
  asks for it to be truncated to a length.
\<close>

record aead =
  aead_seal :: "bytes \<Rightarrow> bytes \<Rightarrow> bytes \<Rightarrow> (bytes \<times> bytes) option"
  aead_unseal :: "bytes \<Rightarrow> bytes \<Rightarrow> bytes \<Rightarrow> (bytes \<times> nat) option"

text \<open>
  Its documented behaviour: what was sealed opens to the message, whose length the buffer is then
  cut to; the in-place part keeps its length; and a buffer shorter than a tag cannot be opened.
\<close>

locale aead_lib =
  fixes A :: aead
  assumes seal_length: "aead_seal A k n p = Some (c, t) \<Longrightarrow> length c = length p"
    and unseal_seal: "aead_seal A k n p = Some (c, t) \<Longrightarrow>
      \<exists>rest. length rest = length t \<and> aead_unseal A k n (c @ t) = Some (p @ rest, length p)"
    and unseal_empty: "aead_unseal A k n [] = None"

definition encrypt_in_place :: "aead \<Rightarrow> bytes \<Rightarrow> bytes \<Rightarrow> secret_buffer \<Rightarrow> (secret_buffer, unit) result" where
  "encrypt_in_place A k n b =
     (case aead_seal A k n (sb_inner b) of
        None \<Rightarrow> Err ()
      | Some (c, t) \<Rightarrow> buffer_extend t (buffer_as_mut (\<lambda>_. c) b))"

definition decrypt_in_place :: "aead \<Rightarrow> bytes \<Rightarrow> bytes \<Rightarrow> secret_buffer \<Rightarrow> (secret_buffer, unit) result" where
  "decrypt_in_place A k n b =
     (case aead_unseal A k n (sb_inner b) of
        None \<Rightarrow> Err ()
      | Some (c, len) \<Rightarrow> Ok (buffer_truncate len (buffer_as_mut (\<lambda>_. c) b)))"

section \<open>The disk\<close>

text \<open>
  \<open>Encrypted\<close> and its secrets. The random values \<open>OsRng\<close> and \<open>SecretBox::random\<close> supply are
  arguments. Only \<open>inner\<close> is serialized: a deserialized disk has the secrets of \<open>random_key_nonce\<close>.
\<close>

record key_nonce =
  kn_key :: bytes
  kn_nonce :: bytes

record 'd encrypted =
  en_inner :: 'd
  en_secrets :: key_nonce

definition encrypted_new :: "bytes \<Rightarrow> bytes \<Rightarrow> 'd \<Rightarrow> bytes option \<Rightarrow> bytes option \<Rightarrow> 'd encrypted" where
  "encrypted_new rand_key rand_nonce inner key nonce =
     \<lparr>en_inner = inner,
      en_secrets = \<lparr>kn_key = (case key of Some k \<Rightarrow> k | None \<Rightarrow> rand_key),
                    kn_nonce = (case nonce of Some n \<Rightarrow> n | None \<Rightarrow> rand_nonce)\<rparr>\<rparr>"

definition encrypted_new_random :: "bytes \<Rightarrow> bytes \<Rightarrow> 'd \<Rightarrow> 'd encrypted" where
  "encrypted_new_random rand_key rand_nonce inner = encrypted_new rand_key rand_nonce inner None None"

definition set_key :: "bytes \<Rightarrow> 'd encrypted \<Rightarrow> 'd encrypted" where
  "set_key key d = d\<lparr>en_secrets := (en_secrets d)\<lparr>kn_key := key\<rparr>\<rparr>"

definition set_nonce :: "bytes \<Rightarrow> 'd encrypted \<Rightarrow> 'd encrypted" where
  "set_nonce nonce d = d\<lparr>en_secrets := (en_secrets d)\<lparr>kn_nonce := nonce\<rparr>\<rparr>"

definition get_key :: "'d encrypted \<Rightarrow> bytes" where
  "get_key d = kn_key (en_secrets d)"

definition get_nonce :: "'d encrypted \<Rightarrow> bytes" where
  "get_nonce d = kn_nonce (en_secrets d)"

definition encrypted_from_plainfile :: "bytes \<Rightarrow> bytes \<Rightarrow> plainfile \<Rightarrow> plainfile encrypted" where
  "encrypted_from_plainfile rand_key rand_nonce p = encrypted_new rand_key rand_nonce p None None"

definition encrypted_from_path :: "bytes \<Rightarrow> bytes \<Rightarrow> path \<Rightarrow> plainfile encrypted" where
  "encrypted_from_path rand_key rand_nonce p = encrypted_from_plainfile rand_key rand_nonce (plainfile_new p)"

definition encrypted_into_path :: "('d \<Rightarrow> path) \<Rightarrow> 'd encrypted \<Rightarrow> path" where
  "encrypted_into_path inner_path d = inner_path (en_inner d)"

definition encrypted_serialized :: "'d encrypted \<Rightarrow> 'd" where
  "encrypted_serialized d = en_inner d"

definition encrypted_deserialized :: "key_nonce \<Rightarrow> 'd \<Rightarrow> 'd encrypted" where
  "encrypted_deserialized rand inner = \<lparr>en_inner = inner, en_secrets = rand\<rparr>"

text \<open>\<open>read_disk\<close>: everything is read and opened; the reader yields the vector of the buffer.\<close>

definition encrypted_read_disk ::
  "aead \<Rightarrow> ('d, 'wr, 'w) disk_ops \<Rightarrow> 'd encrypted \<Rightarrow> 'w \<Rightarrow> (bytes, io_error) result \<times> 'w" where
  "encrypted_read_disk A D d w =
     (case d_read D (en_inner d) w of
        (Ok loaded, w1) \<Rightarrow>
          (map_ok buffer_into (map_err (\<lambda>_. OtherError)
             (decrypt_in_place A (kn_key (en_secrets d)) (kn_nonce (en_secrets d)) (buffer_from loaded))), w1)
      | (Err e, w1) \<Rightarrow> (Err e, w1)
      | (Panic, w1) \<Rightarrow> (Panic, w1))"

text \<open>
  The writer collects everything; \<open>flush\<close> seals a copy of the buffer and hands it to the inner
  writer with \<open>write_all\<close>. Dropping the writer drops the inner one.
\<close>

record 'wr encrypted_writer =
  ew_inner :: 'wr
  ew_secrets :: key_nonce
  ew_buffer :: secret_buffer

definition encrypted_writer_new :: "'wr \<Rightarrow> key_nonce \<Rightarrow> 'wr encrypted_writer" where
  "encrypted_writer_new inner secrets = \<lparr>ew_inner = inner, ew_secrets = secrets, ew_buffer = buffer_default\<rparr>"

definition encrypted_write_disk ::
  "('d, 'wr, 'w) disk_ops \<Rightarrow> 'd encrypted \<Rightarrow> 'w \<Rightarrow> ('wr encrypted_writer, io_error) result \<times> 'w" where
  "encrypted_write_disk D d w =
     (case d_write D (en_inner d) w of
        (r, w1) \<Rightarrow> (map_ok (\<lambda>wr. encrypted_writer_new wr (en_secrets d)) r, w1))"

definition ew_write ::
  "bytes \<Rightarrow> 'wr encrypted_writer \<Rightarrow> (nat, io_error) result \<times> 'wr encrypted_writer" where
  "ew_write buf e =
     (case buffer_extend buf (ew_buffer e) of
        Ok b \<Rightarrow> (Ok (length buf), e\<lparr>ew_buffer := b\<rparr>)
      | Err _ \<Rightarrow> (Err OutOfMemory, e\<lparr>ew_buffer := (ew_buffer e)\<lparr>sb_ref := False, sb_mut := False\<rparr>\<rparr>)
      | Panic \<Rightarrow> (Panic, e))"

text \<open>\<open>write_all\<close>, the provided method: \<open>write\<close> takes everything at once.\<close>

definition ew_write_all ::
  "'wr encrypted_writer \<Rightarrow> bytes \<Rightarrow> 'w \<Rightarrow> (unit, io_error) result \<times> 'wr encrypted_writer \<times> 'w" where
  "ew_write_all e buf w =
     (if buf = [] then (Ok (), e, w)
      else case ew_write buf e of (r, e') \<Rightarrow> (map_ok (\<lambda>_. ()) r, e', w))"

definition ew_flush ::
  "aead \<Rightarrow> ('d, 'wr, 'w) disk_ops \<Rightarrow> 'wr encrypted_writer \<Rightarrow> 'w \<Rightarrow>
     (unit, io_error) result \<times> 'wr encrypted_writer \<times> 'w" where
  "ew_flush A D e w =
     (case encrypt_in_place A (kn_key (ew_secrets e)) (kn_nonce (ew_secrets e)) (buffer_from (sb_inner (ew_buffer e))) of
        Ok b \<Rightarrow> (case wr_write D (ew_inner e) (buffer_into b) w of (r, wr, w1) \<Rightarrow> (r, e\<lparr>ew_inner := wr\<rparr>, w1))
      | Err _ \<Rightarrow> (Err OtherError, e, w)
      | Panic \<Rightarrow> (Panic, e, w))"

definition encrypted_disk ::
  "aead \<Rightarrow> ('d, 'wr, 'w) disk_ops \<Rightarrow> ('d encrypted, 'wr encrypted_writer, 'w) disk_ops" where
  "encrypted_disk A D = \<lparr>d_read = encrypted_read_disk A D, d_write = encrypted_write_disk D,
     wr_write = ew_write_all, wr_flush = ew_flush A D, wr_drop = (\<lambda>e. wr_drop D (ew_inner e))\<rparr>"

section \<open>A session on an encrypted disk\<close>

text \<open>
  The inner writer is written to but never flushed: \<open>no_flush D\<close> is the inner disk with a
  \<open>flush\<close> that does nothing. A session that flushes once writes the sealed message in one piece.
\<close>

definition no_flush :: "('d, 'wr, 'w) disk_ops \<Rightarrow> ('d, 'wr, 'w) disk_ops" where
  "no_flush D = D\<lparr>wr_flush := \<lambda>wr w. (Ok (), wr, w)\<rparr>"

definition as_flush :: "put_error \<Rightarrow> put_error" where
  "as_flush x = (case x of WriteIo e \<Rightarrow> FlushIo e | _ \<Rightarrow> x)"

definition seals :: "aead \<Rightarrow> 'd encrypted \<Rightarrow> bytes \<Rightarrow> bytes \<times> bytes \<Rightarrow> bool" where
  "seals A d p s \<longleftrightarrow> aead_seal A (kn_key (en_secrets d)) (kn_nonce (en_secrets d)) p = Some s \<and>
     length p + length (fst s) + length (snd s) \<le> usize_max"

lemma encrypted_ops [simp]:
  "d_read (encrypted_disk A D) = encrypted_read_disk A D" "d_write (encrypted_disk A D) = encrypted_write_disk D"
  "wr_write (encrypted_disk A D) = ew_write_all" "wr_flush (encrypted_disk A D) = ew_flush A D"
  "wr_drop (encrypted_disk A D) = (\<lambda>e. wr_drop D (ew_inner e))"
  by (simp_all add: encrypted_disk_def)

lemma ew_write_all_eq:
  "length (sb_inner (ew_buffer e)) + length buf \<le> usize_max \<Longrightarrow>
   \<exists>b. ew_write_all e buf w = (Ok (), e\<lparr>ew_buffer := b\<rparr>, w) \<and> sb_inner b = sb_inner (ew_buffer e) @ buf"
  by (cases "buf = []") (auto simp: ew_write_all_def ew_write_def buffer_extend_eq intro: exI [of _ "ew_buffer e"])

lemma ew_pieces:
  "length (sb_inner (ew_buffer e)) + length (concat ps) \<le> usize_max \<Longrightarrow>
   \<exists>b. write_pieces (encrypted_disk A D) e ps w = (Ok (), e\<lparr>ew_buffer := b\<rparr>, w) \<and>
     sb_inner b = sb_inner (ew_buffer e) @ concat ps"
proof (induction ps arbitrary: e)
  case Nil
  show ?case by (auto intro: exI [of _ "ew_buffer e"])
next
  case (Cons p ps)
  then obtain b where b: "ew_write_all e p w = (Ok (), e\<lparr>ew_buffer := b\<rparr>, w)"
      "sb_inner b = sb_inner (ew_buffer e) @ p"
    using ew_write_all_eq [of e p w] by auto
  with Cons.prems Cons.IH [of "e\<lparr>ew_buffer := b\<rparr>"] show ?case by auto
qed

lemma ew_flush_eq:
  assumes "aead_seal A (kn_key (ew_secrets e)) (kn_nonce (ew_secrets e)) (sb_inner (ew_buffer e)) = Some (c, t)"
    and "length c + length t \<le> usize_max"
  shows "ew_flush A D e w = (case wr_write D (ew_inner e) (c @ t) w of (r, wr, w1) \<Rightarrow> (r, e\<lparr>ew_inner := wr\<rparr>, w1))"
  using assms by (simp add: ew_flush_def encrypt_in_place_def buffer_extend_eq)

lemma encrypted_put:
  assumes "seals A d (concat ps) (c, t)"
  shows "put (encrypted_disk A D) d ps True w =
    (case put (no_flush D) (en_inner d) [c @ t] True w of (r, w') \<Rightarrow> (map_err as_flush r, w'))"
proof (cases "d_write D (en_inner d) w")
  case (Pair r w1)
  show ?thesis
  proof (cases r)
    case (Ok wr)
    define e where "e = encrypted_writer_new wr (en_secrets d)"
    have e: "sb_inner (ew_buffer e) = []" "ew_inner e = wr" "ew_secrets e = en_secrets d"
      by (simp_all add: e_def encrypted_writer_new_def)
    with assms obtain b where b: "write_pieces (encrypted_disk A D) e ps w1 = (Ok (), e\<lparr>ew_buffer := b\<rparr>, w1)"
        "sb_inner b = concat ps"
      using ew_pieces [of e ps A D w1] by (auto simp: seals_def)
    obtain r2 wr2 w2 where W: "wr_write D wr (c @ t) w1 = (r2, wr2, w2)" by (metis prod_cases3)
    with assms b e have F: "ew_flush A D (e\<lparr>ew_buffer := b\<rparr>) w1 = (r2, e\<lparr>ew_buffer := b, ew_inner := wr2\<rparr>, w2)"
      by (subst ew_flush_eq [of A _ c t]) (simp_all add: seals_def)
    from Ok Pair b(1) F W show ?thesis
      by (cases r2) (simp_all add: put_def encrypted_write_disk_def serialize_flush_def no_flush_def
          e_def [symmetric] as_flush_def)
  qed (use Pair in \<open>simp_all add: put_def encrypted_write_disk_def no_flush_def as_flush_def\<close>)
qed

lemma no_flush_unbuffered: "no_flush unbuffered_disk = unbuffered_disk"
  by (auto simp: no_flush_def unbuffered_disk_def file_flush_def fun_eq_iff)

context aead_lib begin

lemma opens:
  assumes "seals A d p (c, t)" and "d_read D (en_inner d) w = (Ok (c @ t), w1)"
  shows "\<exists>rest. length rest = length t \<and> encrypted_read_disk A D d w = (Ok (p @ rest), w1)"
proof -
  from assms(1) have "aead_seal A (kn_key (en_secrets d)) (kn_nonce (en_secrets d)) p = Some (c, t)"
    by (simp add: seals_def)
  from unseal_seal [OF this] obtain rest where "length rest = length t"
      "aead_unseal A (kn_key (en_secrets d)) (kn_nonce (en_secrets d)) (c @ t) = Some (p @ rest, length p)"
    by blast
  with assms(2) show ?thesis by (auto simp: encrypted_read_disk_def decrypt_in_place_def)
qed

end

section \<open>Values on an encrypted disk\<close>

text \<open>What a session over \<open>Unbuffered\<close> leaves: the sealed bytes, which open to the message and a rest.\<close>

lemma encrypted_write_value:
  assumes lib: "aead_lib A" and ok: "accepts C c v" and writable: "file_writable (ub_path (en_inner d)) s"
    and seal: "seals A d (encoding C c v) (x, t)"
  shows "\<exists>s' rest. write_value C (encrypted_disk A unbuffered_disk) c d v s = (Ok (), s') \<and>
    file_stored (ub_path (en_inner d)) s' = Some (x @ t) \<and> length rest = length t \<and>
    d_read (encrypted_disk A unbuffered_disk) d s' = (Ok (encoding C c v @ rest), s')"
proof -
  from unbuf.put_writable [OF writable] obtain s'
    where P: "put unbuffered_disk (en_inner d) [x @ t] True s = (Ok (), s')" by blast
  have W: "write_value C (encrypted_disk A unbuffered_disk) c d v s = (Ok (), s')"
    using seal ok P by (simp add: write_value_put encrypted_put encoding_def no_flush_unbuffered)
  have S: "file_stored (ub_path (en_inner d)) s' = Some (x @ t)"
    using unbuf.put_stored [OF P] by simp
  from aead_lib.opens [OF lib seal unbuf.read_of_stored [OF S]] W S show ?thesis by auto
qed

text \<open>
  C33: a value written to an \<open>Encrypted\<close> disk over \<open>Unbuffered\<close> is stored sealed. What the disk returns
  when it is read is the message with as many bytes behind it as the tag has, so the value comes back
  with a coder that ignores bytes after the value, as \<open>BincodeCoder\<close> is configured to, and only with
  such a coder (see \<open>encrypted_read_keeps_tag\<close>).
\<close>

theorem encrypted_roundtrip:
  assumes "aead_lib A" and "accepts C c v" and "file_writable (ub_path (en_inner d)) s"
    and "seals A d (encoding C c v) (x, t)"
    and "\<And>rest. c_parse C c (encoding C c v @ rest) = Ok v"
  shows "\<exists>s' rest. write_value C (encrypted_disk A unbuffered_disk) c d v s = (Ok (), s') \<and>
    files s' (ub_path (en_inner d)) = Some (x @ t) \<and>
    encrypted_read_disk A unbuffered_disk d s' = (Ok (encoding C c v @ rest), s') \<and> length rest = length t \<and>
    read_value C (encrypted_disk A unbuffered_disk) c d s' = (Ok v, s')"
proof -
  from encrypted_write_value [OF assms(1-4)] obtain s' rest where
    W: "write_value C (encrypted_disk A unbuffered_disk) c d v s = (Ok (), s')" "length rest = length t"
    and S: "file_stored (ub_path (en_inner d)) s' = Some (x @ t)"
    and R: "d_read (encrypted_disk A unbuffered_disk) d s' = (Ok (encoding C c v @ rest), s')" by blast
  from R have "read_value C (encrypted_disk A unbuffered_disk) c d s' = (Ok v, s')"
    by (simp add: read_value_def decode_def assms(5))
  moreover have "encrypted_read_disk A unbuffered_disk d s' = (Ok (encoding C c v @ rest), s')"
    using R by simp
  moreover have "files s' (ub_path (en_inner d)) = Some (x @ t)" using S by (auto simp: file_stored_def split: if_splits)
  ultimately show ?thesis using W by blast
qed

text \<open>
  \<open>truncate\<close> of the protected buffer does nothing, so a read returns the message with as many
  bytes behind it as the tag has, and a coder that rejects bytes after the value, as JSON does,
  cannot load what it has just written.
\<close>

theorem encrypted_read_keeps_tag:
  assumes "aead_lib A" and "accepts C c v" and "file_writable (ub_path (en_inner d)) s"
    and "seals A d (encoding C c v) (x, t)"
    and "\<And>rest. rest \<noteq> [] \<Longrightarrow> c_parse C c (encoding C c v @ rest) = Err (err rest)" and "t \<noteq> []"
  shows "\<exists>s' rest. write_value C (encrypted_disk A unbuffered_disk) c d v s = (Ok (), s') \<and>
    length rest = length t \<and> encrypted_read_disk A unbuffered_disk d s' = (Ok (encoding C c v @ rest), s') \<and>
    read_value C (encrypted_disk A unbuffered_disk) c d s' = (Err (err rest), s')"
proof -
  from encrypted_write_value [OF assms(1-4)] obtain s' rest where
    W: "write_value C (encrypted_disk A unbuffered_disk) c d v s = (Ok (), s')" "length rest = length t"
    and R: "d_read (encrypted_disk A unbuffered_disk) d s' = (Ok (encoding C c v @ rest), s')" by blast
  from W(2) assms(6) have "rest \<noteq> []" by auto
  from R assms(5) [OF this] have "read_value C (encrypted_disk A unbuffered_disk) c d s' = (Err (err rest), s')"
    by (simp add: read_value_def decode_def)
  with W R show ?thesis by auto
qed

text \<open>
  over a buffered \<open>Plainfile\<close> on a full device a write session reports success although nothing
  is stored, and the value cannot be read back; without encryption the same session reports the error.
\<close>

theorem encrypted_plainfile_loses_data:
  assumes "aead_lib A" and "accepts C c v" and "full s (pf_path (en_inner d))" and "\<not> faulty s (pf_path (en_inner d))"
    and "\<not> dirs s (pf_path (en_inner d))" and "dirs s (parent (pf_path (en_inner d)))"
    and "seals A d (encoding C c v) (x, t)" and "x @ t \<noteq> []" and "length (x @ t) < buf_capacity"
  shows "\<exists>s'. write_value C (encrypted_disk A plainfile_disk) c d v s = (Ok (), s') \<and>
    files s' (pf_path (en_inner d)) = Some [] \<and>
    read_value C (encrypted_disk A plainfile_disk) c d s' = (Err (c_from_io C OtherError), s') \<and>
    fst (put plainfile_disk (en_inner d) [x @ t] True s) = Err (FlushIo OtherError)"
proof -
  let ?p = "pf_path (en_inner d)" and ?s = "set_file (pf_path (en_inner d)) (Some []) s"
  let ?b = "\<lparr>bw_inner = \<lparr>fh_path = ?p, fh_pos = 0\<rparr>, bw_buf = []\<rparr>"
  have W: "buf_write_all ?b (x @ t) ?s = (Ok (), ?b\<lparr>bw_buf := x @ t\<rparr>, ?s)"
    using assms(9) by (simp add: buf_write_all_def)
  have F: "buf_flush (?b\<lparr>bw_buf := x @ t\<rparr>) ?s = (Err OtherError, ?b\<lparr>bw_buf := x @ t\<rparr>, ?s)"
    using assms(3,8) by (simp add: buf_flush_def file_write_all_def)
  have D: "buf_drop (?b\<lparr>bw_buf := x @ t\<rparr>) ?s = ?s" using F by (simp add: buf_drop_def)
  have "plainfile_write_disk (en_inner d) s = (Ok ?b, ?s)"
    using assms(4,5,6) by (simp add: plainfile_write_disk_def fs_open_truncate_def)
  then have P: "put (no_flush plainfile_disk) (en_inner d) [x @ t] True s = (Ok (), ?s)"
    "put plainfile_disk (en_inner d) [x @ t] True s = (Err (FlushIo OtherError), ?s)"
    using W F D by (simp_all add: put_def serialize_flush_def no_flush_def plainfile_disk_def)
  then have "write_value C (encrypted_disk A plainfile_disk) c d v s = (Ok (), ?s)"
    using assms(2,7) by (simp add: write_value_put encrypted_put encoding_def)
  moreover have "read_value C (encrypted_disk A plainfile_disk) c d ?s = (Err (c_from_io C OtherError), ?s)"
    using assms(4) aead_lib.unseal_empty [OF assms(1)]
    by (simp add: read_value_def encrypted_read_disk_def plainfile_disk_def plainfile_read_disk_def fs_read_def
        decrypt_in_place_def)
  ultimately show ?thesis using P(2) by (auto intro!: exI [of _ ?s])
qed

section \<open>Flushing twice\<close>

text \<open>The file handle of an \<open>Unbuffered\<close> writer at the end of the file, after a write of \<open>b\<close>.\<close>

lemma handle_appends:
  assumes "files s (fh_path h) = Some c" and "fh_pos h = length c" and "\<not> full s (fh_path h)"
  shows "file_write_all h b s =
    (Ok (), h\<lparr>fh_pos := length c + length b\<rparr>, if b = [] then s else set_file (fh_path h) (Some (c @ b)) s)"
  using assms by (cases h) (auto simp: file_write_all_def)

text \<open>
  \<open>flush\<close> seals everything written so far each time it is called: a second flush appends a
  second sealed message, of all the bytes, under the same key and nonce.
\<close>

theorem encrypted_flush_twice:
  assumes "file_writable (ub_path (en_inner d)) s"
    and "seals A d p (x, t)" and "seals A d (p @ q) (y, u)" and "length (p @ q) \<le> usize_max"
  shows "\<exists>e0 s0 e1 e2 s2 e3 e4 s4.
    encrypted_write_disk unbuffered_disk d s = (Ok e0, s0) \<and>
    ew_write_all e0 p s0 = (Ok (), e1, s0) \<and> ew_flush A unbuffered_disk e1 s0 = (Ok (), e2, s2) \<and>
    ew_write_all e2 q s2 = (Ok (), e3, s2) \<and> ew_flush A unbuffered_disk e3 s2 = (Ok (), e4, s4) \<and>
    files s4 (ub_path (en_inner d)) = Some ((x @ t) @ (y @ u))"
proof -
  let ?p = "ub_path (en_inner d)"
  define s0 where "s0 = set_file ?p (Some []) s"
  define e0 where "e0 = encrypted_writer_new \<lparr>fh_path = ?p, fh_pos = 0\<rparr> (en_secrets d)"
  have e0: "sb_inner (ew_buffer e0) = []" "ew_secrets e0 = en_secrets d" "ew_inner e0 = \<lparr>fh_path = ?p, fh_pos = 0\<rparr>"
    by (simp_all add: e0_def encrypted_writer_new_def)
  have O: "encrypted_write_disk unbuffered_disk d s = (Ok e0, s0)"
    using assms(1) by (simp add: encrypted_write_disk_def unbuffered_disk_def unbuffered_write_disk_def
        open_truncate_writable e0_def s0_def)
  obtain b where W1: "ew_write_all e0 p s0 = (Ok (), e0\<lparr>ew_buffer := b\<rparr>, s0)" "sb_inner b = p"
    using ew_write_all_eq [of e0 p s0] e0 assms(4) by auto
  define s2 where "s2 = (if x @ t = [] then s0 else set_file ?p (Some (x @ t)) s0)"
  define e2 where "e2 = e0\<lparr>ew_buffer := b, ew_inner := \<lparr>fh_path = ?p, fh_pos = length (x @ t)\<rparr>\<rparr>"
  have full: "\<not> full s ?p" using assms(1) by (simp add: file_writable_def)
  have F1: "ew_flush A unbuffered_disk (e0\<lparr>ew_buffer := b\<rparr>) s0 = (Ok (), e2, s2)"
    using assms(2) W1(2) e0 full
    by (subst ew_flush_eq [of A _ x t])
       (simp_all add: seals_def unbuffered_disk_def handle_appends [of _ _ "[]"] s0_def s2_def e2_def)
  obtain b' where W2: "ew_write_all e2 q s2 = (Ok (), e2\<lparr>ew_buffer := b'\<rparr>, s2)" "sb_inner b' = p @ q"
    using ew_write_all_eq [of e2 q s2] e0 W1(2) assms(4) by (auto simp: e2_def)
  define s4 where "s4 = (if y @ u = [] then s2 else set_file ?p (Some ((x @ t) @ (y @ u))) s2)"
  have there: "files s2 ?p = Some (x @ t)" "\<not> full s2 ?p" using full by (simp_all add: s2_def s0_def)
  have F2: "ew_flush A unbuffered_disk (e2\<lparr>ew_buffer := b'\<rparr>) s2 =
      (Ok (), e2\<lparr>ew_buffer := b', ew_inner := \<lparr>fh_path = ?p, fh_pos = length (x @ t) + length (y @ u)\<rparr>\<rparr>, s4)"
    using assms(3) W2(2) e0 there
    by (subst ew_flush_eq [of A _ y u])
       (simp_all add: seals_def unbuffered_disk_def handle_appends [of _ _ "x @ t"] s4_def e2_def)
  have "files s4 ?p = Some ((x @ t) @ (y @ u))" using there by (simp add: s4_def)
  with O W1(1) F1 W2(1) F2 show ?thesis by blast
qed

section \<open>Deserializing a protected vector\<close>

text \<open>
  \<open>SecretVecVisitor::visit_seq\<close>. A sequence is the results of its \<open>next_element\<close> calls; \<open>rand n\<close> is
  \<open>SecretVec::random(n)\<close>, \<open>z\<close> the fill of \<open>SecretVec::new\<close> and \<open>custom\<close> the error made of the message
  that the sequence is too long. A full vector is doubled; one that is too long at the end is cut.
\<close>

definition size_guess :: nat where
  "size_guess = 16"

definition visit_grow :: "'t \<Rightarrow> 'e \<Rightarrow> 't list \<Rightarrow> ('t list, 'e) result" where
  "visit_grow z custom vec =
     (if length vec = usize_max then Err custom
      else case secret_vec_new z (min usize_max (length vec * 2)) (\<lambda>s. copy_range 0 (length vec) vec s) of
        Ok v \<Rightarrow> Ok v | _ \<Rightarrow> Panic)"

fun visit_loop :: "'t \<Rightarrow> 'e \<Rightarrow> ('t, 'e) result list \<Rightarrow> nat \<Rightarrow> 't list \<Rightarrow> ('t list \<times> nat, 'e) result" where
  "visit_loop z custom [] filled_len vec = Ok (vec, filled_len)"
| "visit_loop z custom (r # seq) filled_len vec =
     res_bind r (\<lambda>next.
     res_bind (if length vec \<le> filled_len then visit_grow z custom vec else Ok vec) (\<lambda>vec1.
     if filled_len < length vec1 then visit_loop z custom seq (filled_len + 1) (vec1[filled_len := next])
     else Panic))"

definition visit_seq ::
  "'t \<Rightarrow> (nat \<Rightarrow> 't list) \<Rightarrow> 'e \<Rightarrow> nat option \<Rightarrow> ('t, 'e) result list \<Rightarrow> ('t list, 'e) result" where
  "visit_seq z rand custom size_hint seq =
     res_bind (visit_loop z custom seq 0 (rand (case size_hint of Some n \<Rightarrow> n | None \<Rightarrow> size_guess)))
       (\<lambda>(vec, filled_len).
          if filled_len < length vec then
            (case secret_vec_new z filled_len (\<lambda>s. copy_range 0 (length s) (take filled_len vec) s) of
               Ok v \<Rightarrow> Ok v | _ \<Rightarrow> Panic)
          else Ok vec)"

text \<open>\<open>From<U: AsRef<[T]>>\<close>.\<close>

definition secret_wrapper_from :: "'t \<Rightarrow> 't list \<Rightarrow> ('t list, unit) result" where
  "secret_wrapper_from z value = secret_vec_new z (length value) (\<lambda>s. copy_range 0 (length s) value s)"

lemma visit_grow_eq:
  assumes "vec \<noteq> []" and "length vec < usize_max"
  obtains pad where "visit_grow z custom vec = Ok (vec @ pad)" and "pad \<noteq> []" and "length (vec @ pad) \<le> usize_max"
proof
  let ?n = "min usize_max (length vec * 2)"
  have "0 < length vec" using assms(1) by simp
  then have n: "length vec < ?n" using assms(2) unfolding min_less_iff_conj by linarith
  show "visit_grow z custom vec = Ok (vec @ replicate (?n - length vec) z)"
    using assms n by (simp add: visit_grow_def secret_vec_new_def copy_range_def)
  show "replicate (?n - length vec) z \<noteq> []" using n unfolding replicate_empty by linarith
  show "length (vec @ replicate (?n - length vec) z) \<le> usize_max" using assms(2) by simp
qed

lemma visit_loop_steps:
  assumes "vec \<noteq> []" and "length vec \<le> usize_max" and "f \<le> length vec" and "f + length ys \<le> usize_max"
  shows "\<exists>vec'. visit_loop z custom (map Ok ys @ seq) f vec = visit_loop z custom seq (f + length ys) vec' \<and>
    f + length ys \<le> length vec' \<and> take (f + length ys) vec' = take f vec @ ys"
  using assms
proof (induction ys arbitrary: f vec)
  case Nil
  then show ?case by auto
next
  case (Cons y ys)
  obtain vec1 where v: "(if length vec \<le> f then visit_grow z custom vec else Ok vec) = Ok vec1"
      "f < length vec1" "length vec1 \<le> usize_max" "take f vec1 = take f vec"
  proof (cases "length vec \<le> f")
    case True
    with Cons.prems have "length vec < usize_max" by simp
    from visit_grow_eq [OF Cons.prems(1) this, of z custom] obtain pad where
      "visit_grow z custom vec = Ok (vec @ pad)" "pad \<noteq> []" "length (vec @ pad) \<le> usize_max" by blast
    with True Cons.prems(3) show thesis by (intro that [of "vec @ pad"]) auto
  next
    case False
    with Cons.prems(2) show thesis by (intro that [of vec]) auto
  qed
  have u: "vec1[f := y] \<noteq> []" "length (vec1[f := y]) \<le> usize_max" "f + 1 \<le> length (vec1[f := y])"
    "f + 1 + length ys \<le> usize_max"
    using v(2,3) Cons.prems(4) by auto
  from Cons.IH [OF u] obtain vec' where
    "visit_loop z custom (map Ok ys @ seq) (f + 1) (vec1[f := y]) = visit_loop z custom seq (f + 1 + length ys) vec'"
    "f + 1 + length ys \<le> length vec'" "take (f + 1 + length ys) vec' = take (f + 1) (vec1[f := y]) @ ys" by blast
  with v show ?case by (auto simp: take_Suc_conv_app_nth)
qed

text \<open>
  C39: deserializing a protected vector collects exactly the elements of the sequence, whatever length but
  zero was announced, or none, and however often the vector had to grow; an error of the sequence is
  passed on. An announced length of zero before an element is a panic.
\<close>

theorem visit_seq_collects:
  assumes "\<And>n. length (rand n) = n" and "size_hint \<noteq> Some 0" and "\<And>n. size_hint = Some n \<Longrightarrow> n \<le> usize_max"
    and "length xs \<le> usize_max"
  shows "visit_seq z rand custom size_hint (map Ok xs) = Ok xs \<and>
    visit_seq z rand custom size_hint (map Ok xs @ Err e # seq) = Err e \<and>
    visit_seq z rand custom (Some 0) (Ok x # seq) = Panic"
proof (intro conjI)
  define vec where "vec = rand (case size_hint of Some n \<Rightarrow> n | None \<Rightarrow> size_guess)"
  have "vec \<noteq> []" "length vec \<le> usize_max"
    using assms(1-3) by (auto simp: vec_def size_guess_def usize_max_def simp flip: length_0_conv split: option.splits)
  note run = visit_loop_steps [OF this, of 0 xs z custom, simplified, OF assms(4)]
  from run [of "[]"] obtain vec' where
    "visit_loop z custom (map Ok xs) 0 vec = Ok (vec', length xs)" "length xs \<le> length vec'" "take (length xs) vec' = xs"
    by auto
  then show "visit_seq z rand custom size_hint (map Ok xs) = Ok xs"
    by (auto simp: visit_seq_def vec_def [symmetric] secret_vec_new_def copy_range_def)
  from run [of "Err e # seq"] show "visit_seq z rand custom size_hint (map Ok xs @ Err e # seq) = Err e"
    by (auto simp: visit_seq_def vec_def [symmetric])
  show "visit_seq z rand custom (Some 0) (Ok x # seq) = Panic"
    using assms(1) [of 0] by (simp add: visit_seq_def visit_grow_def secret_vec_new_def copy_range_def usize_max_def)
qed

section \<open>Examples\<close>

text \<open>
  A cipher that can be run: the message reversed, with a tag of sixteen zero bytes; opening checks the
  tag. It shows that the laws of the parameter can be met.
\<close>

definition demo_aead :: aead where
  "demo_aead = \<lparr>aead_seal = (\<lambda>k n p. Some (rev p, replicate 16 0)),
     aead_unseal = (\<lambda>k n b. if length b < 16 \<or> drop (length b - 16) b \<noteq> replicate 16 0 then None
       else Some (rev (take (length b - 16) b) @ replicate 16 0, length b - 16))\<rparr>"

lemma demo_aead_lib: "aead_lib demo_aead"
proof
  fix k n p c t
  assume "aead_seal demo_aead k n p = Some (c, t)"
  then have "c = rev p" "t = replicate 16 0" by (auto simp: demo_aead_def)
  then show "\<exists>rest. length rest = length t \<and> aead_unseal demo_aead k n (c @ t) = Some (p @ rest, length p)"
    by (auto simp: demo_aead_def intro!: exI [of _ "replicate 16 0"])
qed (auto simp: demo_aead_def)

definition demo_secret :: "'d \<Rightarrow> 'd encrypted" where
  "demo_secret d = encrypted_new [1] [2] d None None"

lemma demo_seals: "length p < 1000 \<Longrightarrow> seals demo_aead (demo_secret d) p (rev p, replicate 16 0)"
  by (simp add: seals_def demo_aead_def usize_max_def)

lemma demo_secret_inner [simp]: "en_inner (demo_secret d) = d"
  by (simp add: demo_secret_def encrypted_new_def)

theorem encrypted_roundtrip_witness:
  "\<exists>s'. write_value prefix_ops (encrypted_disk demo_aead unbuffered_disk) BincodeCoder
        (demo_secret (Unbuffered [''f''])) [5, 7] empty_fs = (Ok (), s') \<and>
    files s' [''f''] = Some ([7, 5, 2] @ replicate 16 0) \<and>
    read_value prefix_ops (encrypted_disk demo_aead unbuffered_disk) BincodeCoder
        (demo_secret (Unbuffered [''f''])) s' = (Ok [5, 7], s')"
proof -
  have ok: "accepts prefix_ops BincodeCoder [5, 7]" "encoding prefix_ops BincodeCoder [5, 7] = [2, 5, 7]"
    by (simp_all add: accepts_def encoding_def)
  from encrypted_roundtrip [OF demo_aead_lib ok(1), of "demo_secret (Unbuffered [''f''])" empty_fs "[7, 5, 2]"
      "replicate 16 0"]
  show ?thesis using demo_seals [of "[2, 5, 7]" "Unbuffered [''f'']"] by (simp add: ok(2)) blast
qed

text \<open>A coder that rejects bytes after the value.\<close>

definition strict_ops :: "(bincode_coder, bytes, prefix_err) coder_ops" where
  "strict_ops = prefix_ops\<lparr>c_parse := (\<lambda>_ b. case b of [] \<Rightarrow> Err Eof
     | n # rest \<Rightarrow> if unat n = length rest then Ok rest else if unat n < length rest then Err TooLong else Err Eof)\<rparr>"

theorem encrypted_read_keeps_tag_witness:
  "\<exists>s' rest. write_value strict_ops (encrypted_disk demo_aead unbuffered_disk) BincodeCoder
        (demo_secret (Unbuffered [''f''])) [5] empty_fs = (Ok (), s') \<and> length rest = 16 \<and>
    encrypted_read_disk demo_aead unbuffered_disk (demo_secret (Unbuffered [''f''])) s' = (Ok ([1, 5] @ rest), s') \<and>
    read_value strict_ops (encrypted_disk demo_aead unbuffered_disk) BincodeCoder
        (demo_secret (Unbuffered [''f''])) s' = (Err TooLong, s')"
proof -
  have ok: "accepts strict_ops BincodeCoder [5]" "encoding strict_ops BincodeCoder [5] = [1, 5]"
    by (simp_all add: accepts_def encoding_def strict_ops_def prefix_ops_def bincode_ops_def prefix_lib_def)
  have strict: "c_parse strict_ops BincodeCoder ([1, 5] @ rest) = Err TooLong" if "rest \<noteq> []" for rest
    using that by (simp add: strict_ops_def)
  from encrypted_read_keeps_tag [OF demo_aead_lib ok(1), of "demo_secret (Unbuffered [''f''])" empty_fs "[5, 1]"
      "replicate 16 0" "\<lambda>_. TooLong"]
  show ?thesis using demo_seals [of "[1, 5]" "Unbuffered [''f'']"] strict by (simp add: ok(2))
qed

theorem encrypted_plainfile_loses_data_witness:
  "\<exists>s'. write_value prefix_ops (encrypted_disk demo_aead plainfile_disk) BincodeCoder
        (demo_secret (Plainfile [''f''])) [5, 7] (empty_fs\<lparr>full := \<lambda>_. True\<rparr>) = (Ok (), s') \<and>
    files s' [''f''] = Some [] \<and>
    read_value prefix_ops (encrypted_disk demo_aead plainfile_disk) BincodeCoder
        (demo_secret (Plainfile [''f''])) s' = (Err (PrefixIo OtherError), s')"
proof -
  have ok: "accepts prefix_ops BincodeCoder [5, 7]" "encoding prefix_ops BincodeCoder [5, 7] = [2, 5, 7]"
    by (simp_all add: accepts_def encoding_def)
  from encrypted_plainfile_loses_data [OF demo_aead_lib ok(1), of "empty_fs\<lparr>full := \<lambda>_. True\<rparr>"
      "demo_secret (Plainfile [''f''])" "[7, 5, 2]" "replicate 16 0"]
  show ?thesis using demo_seals [of "[2, 5, 7]" "Plainfile [''f'']"] by (auto simp: ok(2) empty_fs_def parent_def buf_capacity_def)
qed

theorem encrypted_flush_twice_witness:
  "\<exists>e0 s0 e1 e2 s2 e3 e4 s4.
    encrypted_write_disk unbuffered_disk (demo_secret (Unbuffered [''f''])) empty_fs = (Ok e0, s0) \<and>
    ew_write_all e0 [1, 2] s0 = (Ok (), e1, s0) \<and> ew_flush demo_aead unbuffered_disk e1 s0 = (Ok (), e2, s2) \<and>
    ew_write_all e2 [] s2 = (Ok (), e3, s2) \<and> ew_flush demo_aead unbuffered_disk e3 s2 = (Ok (), e4, s4) \<and>
    files s4 [''f''] = Some (([2, 1] @ replicate 16 0) @ ([2, 1] @ replicate 16 0))"
  using encrypted_flush_twice [of "demo_secret (Unbuffered [''f''])" empty_fs demo_aead "[1, 2]" "[2, 1]"
      "replicate 16 0" "[]" "[2, 1]" "replicate 16 0"] demo_seals [of "[1, 2]" "Unbuffered [''f'']"]
  by (simp add: usize_max_def)

theorem visit_seq_collects_witness:
  "visit_seq 0 (\<lambda>n. replicate n 9) ''long'' (Some 1) (map Ok [3, 4, 5 :: nat]) = Ok [3, 4, 5]"
  using visit_seq_collects [of "\<lambda>n. replicate n 9" "Some 1" "[3, 4, 5 :: nat]" 0 "''long''"] by (simp add: usize_max_def)

end
