(* ===== verification/Async_Read.thy ===== *)
theory Async_Read
  imports File_System
begin

text \<open>
  Polled readers. The contract of \<open>AsyncRead\<close>, as a locale over what a reader still has to yield, with
  \<open>read_to_end\<close> and its correctness proved once inside it; and the cursor of
  \<open>src/utils/async_compat_cursor.rs\<close>, the first reader that keeps it.
\<close>

datatype 'a poll = Ready 'a | Pending

type_synonym ('a, 's) polling = "'s \<Rightarrow> ('a, io_error) result poll \<times> 's"

section \<open>The contract of a reader\<close>

text \<open>
  \<open>rd n s\<close> is \<open>poll_read\<close> with a buffer of \<open>n\<close> bytes, returning the bytes it filled in. The state holds
  everything the reader depends on; \<open>rest s\<close> are the bytes still to come and \<open>usable s\<close> an invariant.
  No byte is lost, invented or reordered, and an empty answer to a buffer with room is the end.
\<close>

locale async_reader =
  fixes rd :: "nat \<Rightarrow> 's \<Rightarrow> (bytes, io_error) result poll \<times> 's"
    and rest :: "'s \<Rightarrow> bytes"
    and usable :: "'s \<Rightarrow> bool"
  assumes rd_bytes: "usable s \<Longrightarrow> rd n s = (Ready (Ok b), s') \<Longrightarrow> rest s = b @ rest s' \<and> length b \<le> n"
    and rd_end: "usable s \<Longrightarrow> rd n s = (Ready (Ok []), s') \<Longrightarrow> 0 < n \<Longrightarrow> rest s = []"
    and rd_pending: "usable s \<Longrightarrow> rd n s = (Pending, s') \<Longrightarrow> rest s' = rest s"
    and rd_usable: "usable s \<Longrightarrow> rd n s = (Ready (Ok b), s') \<or> rd n s = (Pending, s') \<Longrightarrow> usable s'"

text \<open>
  \<open>read_to_end\<close>: poll with buffers of any positive sizes until an empty answer. What happens between
  two polls (another thread runs, the reader is woken) is the function \<open>between\<close>. The fuel is a number
  of polls.
\<close>

fun read_to_end ::
  "(nat \<Rightarrow> 's \<Rightarrow> (bytes, io_error) result poll \<times> 's) \<Rightarrow> (nat \<Rightarrow> 's \<Rightarrow> 's) \<Rightarrow> (nat \<Rightarrow> nat) \<Rightarrow>
     nat \<Rightarrow> bytes \<Rightarrow> 's \<Rightarrow> (bytes, io_error) result option \<times> 's" where
  "read_to_end rd between room 0 acc s = (None, s)"
| "read_to_end rd between room (Suc k) acc s =
     (case rd (room k) s of
        (Ready (Ok b), s') \<Rightarrow> if b = [] then (Some (Ok acc), s') else read_to_end rd between room k (acc @ b) s'
      | (Ready (Err e), s') \<Rightarrow> (Some (Err e), s')
      | (Ready Panic, s') \<Rightarrow> (Some Panic, s')
      | (Pending, s') \<Rightarrow> read_to_end rd between room k acc (between k s'))"

context async_reader
begin

lemma read_to_end_complete:
  assumes "read_to_end rd between room k acc s = (Some (Ok bs), s')" and "usable s"
    and "\<And>i. 0 < room i" and "\<And>i u. usable u \<Longrightarrow> usable (between i u) \<and> rest (between i u) = rest u"
  shows "bs = acc @ rest s"
  using assms(1,2)
proof (induction k arbitrary: acc s)
  case (Suc k)
  obtain p s1 where R: "rd (room k) s = (p, s1)" by fastforce
  show ?case
  proof (cases p)
    case (Ready r)
    with R Suc.prems obtain b where b: "r = Ok b" by (cases r) auto
    show ?thesis
    proof (cases "b = []")
      case True
      with R Ready b have "rd (room k) s = (Ready (Ok []), s1)" by simp
      from rd_end [OF Suc.prems(2) this assms(3)] Suc.prems(1) R Ready b True show ?thesis by simp
    next
      case False
      from R Ready b have q: "rd (room k) s = (Ready (Ok b), s1)" by simp
      with False Suc.prems(1) have "read_to_end rd between room k (acc @ b) s1 = (Some (Ok bs), s')" by simp
      from Suc.IH [OF this rd_usable [OF Suc.prems(2) disjI1 [OF q]]] rd_bytes [OF Suc.prems(2) q] show ?thesis by simp
    qed
  next
    case Pending
    with R Suc.prems rd_pending rd_usable assms(4) have "usable (between k s1)" "rest (between k s1) = rest s"
      by metis+
    with R Pending Suc show ?thesis by auto
  qed
qed simp

text \<open>
  Reading ends: when every poll in the states \<open>calm\<close> is free of errors and either answers the end or
  makes a measure smaller, and what happens after a pending answer (in the states \<open>paused\<close>) leads back
  to a calm state, one poll more than the measure is enough.
\<close>

lemma read_to_end_within:
  assumes "usable s" and "calm s" and "m s < (k :: nat)" and "\<And>i. 0 < room i"
    and step: "\<And>u n p u'. usable u \<Longrightarrow> calm u \<Longrightarrow> 0 < n \<Longrightarrow> rd n u = (p, u') \<Longrightarrow>
      p = Pending \<and> paused u' \<and> m u' < m u \<or> (\<exists>b. p = Ready (Ok b) \<and> (b \<noteq> [] \<longrightarrow> calm u' \<and> m u' < m u))"
    and pause: "\<And>i u. usable u \<Longrightarrow> paused u \<Longrightarrow>
      usable (between i u) \<and> calm (between i u) \<and> rest (between i u) = rest u \<and> m (between i u) \<le> m u"
  shows "fst (read_to_end rd between room k acc s) = Some (Ok (acc @ rest s))"
  using assms(1-3)
proof (induction k arbitrary: acc s)
  case (Suc k)
  obtain p s1 where R: "rd (room k) s = (p, s1)" by fastforce
  from step [OF Suc.prems(1,2) assms(4) R] consider
    (wait) "p = Pending" "paused s1" "m s1 < m s" | (ready) b where "p = Ready (Ok b)" "b \<noteq> [] \<longrightarrow> calm s1 \<and> m s1 < m s"
    by blast
  then show ?case
  proof cases
    case wait
    have q: "rd (room k) s = (Pending, s1)" using R wait(1) by simp
    note s1 = rd_usable [OF Suc.prems(1) disjI2 [OF q]] rd_pending [OF Suc.prems(1) q]
    note b = pause [OF s1(1) wait(2), of k]
    with wait(3) Suc.prems(3) have "m (between k s1) < k" by (metis less_Suc_eq_le order.strict_trans1 order.strict_trans2)
    with Suc.IH [of "between k s1" acc] b q s1(2) show ?thesis by simp
  next
    case ready
    have q: "rd (room k) s = (Ready (Ok b), s1)" using R ready(1) by simp
    show ?thesis
    proof (cases "b = []")
      case True
      with q rd_end [OF Suc.prems(1) _ assms(4)] show ?thesis by simp
    next
      case False
      with ready(2) Suc.prems(3) have "calm s1" "m s1 < k" by auto
      with Suc.IH [OF rd_usable [OF Suc.prems(1) disjI1 [OF q]], of "acc @ b"] q False
        rd_bytes [OF Suc.prems(1) q]
      show ?thesis by simp
    qed
  qed
qed simp

end

section \<open>The cursor\<close>

text \<open>
  \<open>AsyncCompatCursor\<close> over the standard cursor: a position in the bytes. The position may lie beyond
  the end: nothing is read there, and a write to a growable cursor pads with zeros.
\<close>

record cursor =
  cu_inner :: bytes
  cu_pos :: nat

definition cursor_from :: "bytes \<Rightarrow> cursor" where
  "cursor_from b = \<lparr>cu_inner = b, cu_pos = 0\<rparr>"

datatype seek_from = Seek_Start nat | Seek_End int | Seek_Current int

definition cursor_seek :: "seek_from \<Rightarrow> cursor \<Rightarrow> (nat, io_error) result \<times> cursor" where
  "cursor_seek target c =
     (let go = (\<lambda>base off. if base + off < (0 :: int) then (Err OtherError, c)
          else (Ok (nat (base + off)), c\<lparr>cu_pos := nat (base + off)\<rparr>)) in
      case target of
        Seek_Start n \<Rightarrow> (Ok n, c\<lparr>cu_pos := n\<rparr>)
      | Seek_End off \<Rightarrow> go (int (length (cu_inner c))) off
      | Seek_Current off \<Rightarrow> go (int (cu_pos c)) off)"

definition cursor_fill_buf :: "cursor \<Rightarrow> bytes" where
  "cursor_fill_buf c = drop (min (cu_pos c) (length (cu_inner c))) (cu_inner c)"

definition cursor_consume :: "nat \<Rightarrow> cursor \<Rightarrow> cursor" where
  "cursor_consume n c = c\<lparr>cu_pos := cu_pos c + n\<rparr>"

definition cursor_read :: "nat \<Rightarrow> cursor \<Rightarrow> (bytes, io_error) result \<times> cursor" where
  "cursor_read n c = (Ok (take n (cursor_fill_buf c)), cursor_consume (length (take n (cursor_fill_buf c))) c)"

fun cursor_read_vectored :: "nat list \<Rightarrow> cursor \<Rightarrow> (bytes, io_error) result \<times> cursor" where
  "cursor_read_vectored [] c = (Ok [], c)"
| "cursor_read_vectored (n # ns) c =
     (case cursor_read n c of
        (Ok b, c1) \<Rightarrow> if length b < n then (Ok b, c1)
          else (case cursor_read_vectored ns c1 of (r, c2) \<Rightarrow> (map_ok (\<lambda>bs. b @ bs) r, c2))
      | (Err e, c1) \<Rightarrow> (Err e, c1)
      | (Panic, c1) \<Rightarrow> (Panic, c1))"

text \<open>
  Writing: a fixed slice (\<open>&mut [u8]\<close>, an array, a boxed slice) takes what fits, a vector grows.
\<close>

definition cursor_write_slice :: "bytes \<Rightarrow> cursor \<Rightarrow> (nat, io_error) result \<times> cursor" where
  "cursor_write_slice buf c =
     (let pos = min (cu_pos c) (length (cu_inner c)); amt = min (length buf) (length (cu_inner c) - pos) in
      (Ok amt, \<lparr>cu_inner = overwrite (cu_inner c) pos (take amt buf), cu_pos = cu_pos c + amt\<rparr>))"

definition cursor_write_vec :: "bytes \<Rightarrow> cursor \<Rightarrow> (nat, io_error) result \<times> cursor" where
  "cursor_write_vec buf c =
     (Ok (length buf), \<lparr>cu_inner = overwrite (cu_inner c) (cu_pos c) buf, cu_pos = cu_pos c + length buf\<rparr>)"

text \<open>
  Several buffers at once: a slice takes them one after the other until one does not fit, a vector makes
  room for all of them first.
\<close>

fun cursor_write_vectored_slice :: "bytes list \<Rightarrow> cursor \<Rightarrow> (nat, io_error) result \<times> cursor" where
  "cursor_write_vectored_slice [] c = (Ok 0, c)"
| "cursor_write_vectored_slice (b # bs) c =
     (case cursor_write_slice b c of
        (Ok n, c1) \<Rightarrow>
          if n < length b then (Ok n, c1)
          else (case cursor_write_vectored_slice bs c1 of (r, c2) \<Rightarrow> (map_ok (\<lambda>m. n + m) r, c2))
      | (r, c1) \<Rightarrow> (r, c1))"

definition cursor_write_vectored_vec :: "bytes list \<Rightarrow> cursor \<Rightarrow> (nat, io_error) result \<times> cursor" where
  "cursor_write_vectored_vec bufs c = cursor_write_vec (concat bufs) c"

definition cursor_flush :: "cursor \<Rightarrow> (unit, io_error) result \<times> cursor" where
  "cursor_flush c = (Ok (), c)"

text \<open>The polled methods call the synchronous ones and are always ready.\<close>

definition cursor_poll_seek :: "seek_from \<Rightarrow> cursor \<Rightarrow> (nat, io_error) result poll \<times> cursor" where
  "cursor_poll_seek target c = (case cursor_seek target c of (r, c1) \<Rightarrow> (Ready r, c1))"

definition cursor_poll_read :: "nat \<Rightarrow> cursor \<Rightarrow> (bytes, io_error) result poll \<times> cursor" where
  "cursor_poll_read n c = (case cursor_read n c of (r, c1) \<Rightarrow> (Ready r, c1))"

definition cursor_poll_read_vectored :: "nat list \<Rightarrow> cursor \<Rightarrow> (bytes, io_error) result poll \<times> cursor" where
  "cursor_poll_read_vectored ns c = (case cursor_read_vectored ns c of (r, c1) \<Rightarrow> (Ready r, c1))"

definition cursor_poll_fill_buf :: "cursor \<Rightarrow> (bytes, io_error) result poll \<times> cursor" where
  "cursor_poll_fill_buf c = (Ready (Ok (cursor_fill_buf c)), c)"

definition cursor_poll_write ::
  "(bytes \<Rightarrow> cursor \<Rightarrow> (nat, io_error) result \<times> cursor) \<Rightarrow> bytes \<Rightarrow> cursor \<Rightarrow>
     (nat, io_error) result poll \<times> cursor" where
  "cursor_poll_write write buf c = (case write buf c of (r, c1) \<Rightarrow> (Ready r, c1))"

definition cursor_poll_write_vectored ::
  "(bytes list \<Rightarrow> cursor \<Rightarrow> (nat, io_error) result \<times> cursor) \<Rightarrow> bytes list \<Rightarrow> cursor \<Rightarrow>
     (nat, io_error) result poll \<times> cursor" where
  "cursor_poll_write_vectored write bufs c = (case write bufs c of (r, c1) \<Rightarrow> (Ready r, c1))"

definition cursor_poll_flush :: "cursor \<Rightarrow> (unit, io_error) result poll \<times> cursor" where
  "cursor_poll_flush c = (case cursor_flush c of (r, c1) \<Rightarrow> (Ready r, c1))"

definition cursor_poll_close :: "cursor \<Rightarrow> (unit, io_error) result poll \<times> cursor" where
  "cursor_poll_close c = cursor_poll_flush c"

text \<open>Writing several buffers to a slice is writing their concatenation.\<close>

lemma overwrite_overwrite:
  assumes "pos + length a \<le> length c"
  shows "overwrite (overwrite c pos a) (pos + length a) b = overwrite c pos (a @ b)"
  using assms by (cases "a = []") (auto simp: overwrite_def min_def ac_simps simp flip: length_greater_0_conv)

lemma overwrite_nothing: "pos \<le> length c \<Longrightarrow> overwrite c pos [] = c"
  by (simp add: overwrite_def)

lemma cursor_write_slice_inside:
  assumes "cu_pos c \<le> length (cu_inner c)" and "amt = min (length b) (length (cu_inner c) - cu_pos c)"
  shows "cursor_write_slice b c = (Ok amt, \<lparr>cu_inner = overwrite (cu_inner c) (cu_pos c) (take amt b), cu_pos = cu_pos c + amt\<rparr>)"
  unfolding cursor_write_slice_def Let_def assms(2) min_absorb1 [OF assms(1)] by (rule refl)

lemma cursor_write_vectored_slice_concat:
  "cu_pos c \<le> length (cu_inner c) \<Longrightarrow> cursor_write_vectored_slice bufs c = cursor_write_slice (concat bufs) c"
proof (induction bufs arbitrary: c)
  case Nil
  then show ?case by (cases c) (simp add: cursor_write_slice_inside overwrite_nothing)
next
  case (Cons b bs)
  let ?room = "length (cu_inner c) - cu_pos c"
  show ?case
  proof (cases "length b \<le> ?room")
    case True
    let ?c1 = "\<lparr>cu_inner = overwrite (cu_inner c) (cu_pos c) b, cu_pos = cu_pos c + length b\<rparr>"
    define m where "m = min (length (concat bs)) (length (cu_inner c) - (cu_pos c + length b))"
    from True Cons.prems have le: "cu_pos c + length b \<le> length (cu_inner c)" by simp
    then have l: "length (cu_inner ?c1) = length (cu_inner c)" by (simp add: length_overwrite)
    have W: "cursor_write_slice b c = (Ok (length b), ?c1)"
      using cursor_write_slice_inside [OF Cons.prems, of "length b" b] True by simp
    have V: "cursor_write_vectored_slice bs ?c1 =
        (Ok m, \<lparr>cu_inner = overwrite (cu_inner ?c1) (cu_pos ?c1) (take m (concat bs)), cu_pos = cu_pos ?c1 + m\<rparr>)"
      using Cons.IH [of ?c1] cursor_write_slice_inside [of ?c1 m "concat bs"] le l by (simp add: m_def)
    have "length b + m = min (length (b @ concat bs)) ?room" using le by (simp add: m_def)
    from cursor_write_slice_inside [OF Cons.prems this] W V le show ?thesis
      by (simp add: overwrite_overwrite add.assoc)
  next
    case False
    then have "?room = min (length b) ?room" and r: "?room = min (length (b @ concat bs)) ?room" by simp_all
    from cursor_write_slice_inside [OF Cons.prems this(1)] cursor_write_slice_inside [OF Cons.prems r] False
    show ?thesis by simp
  qed
qed

lemma cursor_read_fill: "cursor_read n c = (Ok b, c') \<Longrightarrow>
  cursor_fill_buf c = b @ cursor_fill_buf c' \<and> length b \<le> n \<and> (b = [] \<longrightarrow> n = 0 \<or> cursor_fill_buf c = [])"
proof -
  assume "cursor_read n c = (Ok b, c')"
  then have b: "b = take n (cursor_fill_buf c)" and c': "c' = cursor_consume (length b) c"
    by (auto simp: cursor_read_def)
  have "cursor_fill_buf c' = drop (length b) (cursor_fill_buf c)"
    by (cases "cu_pos c \<le> length (cu_inner c)")
       (simp_all add: c' b cursor_fill_buf_def cursor_consume_def min_def add.commute [of "cu_pos c"])
  moreover have "take (length b) (cursor_fill_buf c) = b" by (simp add: b min_def)
  ultimately have "cursor_fill_buf c = b @ cursor_fill_buf c'" by (metis append_take_drop_id)
  moreover have "length b \<le> n" "b = [] \<longrightarrow> n = 0 \<or> cursor_fill_buf c = []" by (simp_all add: b)
  ultimately show ?thesis by blast
qed

interpretation cursor: async_reader cursor_poll_read cursor_fill_buf "\<lambda>_. True"
proof
  fix n c b c'
  assume "cursor_poll_read n c = (Ready (Ok b), c')"
  then have "cursor_read n c = (Ok b, c')" by (simp add: cursor_poll_read_def split: prod.splits)
  from cursor_read_fill [OF this]
  show "cursor_fill_buf c = b @ cursor_fill_buf c' \<and> length b \<le> n" by blast
next
  fix n c c'
  assume "cursor_poll_read n c = (Ready (Ok []), c')" and n: "0 < n"
  then have "cursor_read n c = (Ok [], c')" by (simp add: cursor_poll_read_def split: prod.splits)
  from cursor_read_fill [OF this] n show "cursor_fill_buf c = []" by blast
qed (auto simp: cursor_poll_read_def cursor_read_def)

section \<open>Writing, rewinding and reading a cursor\<close>

fun cursor_write_vecs :: "bytes list \<Rightarrow> cursor \<Rightarrow> cursor" where
  "cursor_write_vecs [] c = c"
| "cursor_write_vecs (p # ps) c = cursor_write_vecs ps (snd (cursor_write_vec p c))"

lemma cursor_write_vecs_end:
  "cu_pos c = length (cu_inner c) \<Longrightarrow>
   cursor_write_vecs ps c = \<lparr>cu_inner = cu_inner c @ concat ps, cu_pos = length (cu_inner c @ concat ps)\<rparr>"
  by (induction ps arbitrary: c) (simp_all add: cursor_write_vec_def add.assoc)

text \<open>
  what is written to a growable cursor in any pieces is, after a seek to the start, read back by
  polls with buffers of any positive sizes; the reading ends after at most one poll more than bytes.
\<close>

theorem cursor_roundtrip:
  assumes "\<And>i. 0 < room i" and "length (concat ps) < k"
    and "\<And>i c. between i c = c" and "cursor_poll_seek (Seek_Start 0) (cursor_write_vecs ps (cursor_from [])) = (Ready r, c)"
  shows "r = Ok 0 \<and> fst (read_to_end cursor_poll_read between room k [] c) = Some (Ok (concat ps))"
proof -
  have c: "c = \<lparr>cu_inner = concat ps, cu_pos = 0\<rparr>" "r = Ok 0"
    using assms(4) by (auto simp: cursor_poll_seek_def cursor_seek_def cursor_write_vecs_end cursor_from_def Let_def)
  have "fst (read_to_end cursor_poll_read between room k [] c) = Some (Ok ([] @ cursor_fill_buf c))"
  proof (rule cursor.read_to_end_within [where m = "\<lambda>c. length (cursor_fill_buf c)" and calm = "\<lambda>_. True"
      and paused = "\<lambda>_. True"])
    show "length (cursor_fill_buf c) < k" using assms(2) by (simp add: c cursor_fill_buf_def)
    fix u n p u'
    assume R: "cursor_poll_read n u = (p, u')"
    then obtain b where "p = Ready (Ok b)" by (auto simp: cursor_poll_read_def cursor_read_def)
    with R cursor.rd_bytes [of n u b u']
    show "p = Pending \<and> True \<and> length (cursor_fill_buf u') < length (cursor_fill_buf u) \<or>
        (\<exists>b. p = Ready (Ok b) \<and> (b \<noteq> [] \<longrightarrow> True \<and> length (cursor_fill_buf u') < length (cursor_fill_buf u)))" by auto
  qed (use assms(1,3) in auto)
  then show ?thesis by (simp add: c cursor_fill_buf_def)
qed

theorem cursor_roundtrip_witness:
  "fst (read_to_end cursor_poll_read (\<lambda>_ c. c) (\<lambda>_. 2) 9 []
     (snd (cursor_poll_seek (Seek_Start 0) (cursor_write_vecs [[1, 2, 3], [], [4, 5]] (cursor_from []))))) =
   Some (Ok [1, 2, 3, 4, 5])"
  using cursor_roundtrip [of "\<lambda>_. 2" "[[1, 2, 3], [], [4, 5]]" 9 "\<lambda>_ c. c" "Ok 0"]
  by (simp add: cursor_poll_seek_def cursor_seek_def)

end
