(* ===== verification/Async_Encrypted.thy ===== *)
theory Async_Encrypted
  imports Encrypted Async_Read
begin

text \<open>
  The asynchronous half of \<open>src/entry/disks/encrypted.rs\<close>: the jobs that are handed to other threads,
  the disk \<open>AsyncEncrypted\<close> and the polled writer \<open>AsyncEncryptedWriter\<close>, whose flush cannot succeed.
\<close>

section \<open>The jobs\<close>

text \<open>\<open>DecryptBlocking::call\<close> and \<open>EncryptBlocking::call\<close>; the latter reads the shared buffer when it runs.\<close>

definition decrypt_call :: "aead \<Rightarrow> key_nonce \<Rightarrow> bytes \<Rightarrow> (secret_buffer, io_error) result" where
  "decrypt_call A secrets loaded =
     map_err (\<lambda>_. OtherError) (decrypt_in_place A (kn_key secrets) (kn_nonce secrets) (buffer_from loaded))"

definition encrypt_call :: "aead \<Rightarrow> key_nonce \<Rightarrow> secret_buffer \<Rightarrow> (bytes, io_error) result" where
  "encrypt_call A secrets shared =
     map_ok buffer_into (map_err (\<lambda>_. OtherError)
       (encrypt_in_place A (kn_key secrets) (kn_nonce secrets) (buffer_from (sb_inner shared))))"

text \<open>
  \<open>AsyncEncrypted\<close> holds the synchronous disk; its synchronous methods are those of the disk, and
  reading awaits the decrypting job.
\<close>

datatype 'd async_encrypted = AsyncEncrypted (ae_sync: "'d encrypted")

definition async_encrypted_new :: "bytes \<Rightarrow> bytes \<Rightarrow> 'd \<Rightarrow> bytes option \<Rightarrow> bytes option \<Rightarrow> 'd async_encrypted" where
  "async_encrypted_new rand_key rand_nonce inner key nonce =
     AsyncEncrypted (encrypted_new rand_key rand_nonce inner key nonce)"

definition async_encrypted_sync_read_disk ::
  "aead \<Rightarrow> ('d, 'wr, 'w) disk_ops \<Rightarrow> 'd async_encrypted \<Rightarrow> 'w \<Rightarrow> (bytes, io_error) result \<times> 'w" where
  "async_encrypted_sync_read_disk A D d w = encrypted_read_disk A D (ae_sync d) w"

definition async_encrypted_sync_write_disk ::
  "('d, 'wr, 'w) disk_ops \<Rightarrow> 'd async_encrypted \<Rightarrow> 'w \<Rightarrow> ('wr encrypted_writer, io_error) result \<times> 'w" where
  "async_encrypted_sync_write_disk D d w = encrypted_write_disk D (ae_sync d) w"

definition async_encrypted_read_disk ::
  "aead \<Rightarrow> ('d, 'wr, 'w) disk_ops \<Rightarrow> 'd async_encrypted \<Rightarrow> 'w \<Rightarrow> (bytes, io_error) result \<times> 'w" where
  "async_encrypted_read_disk A D d w =
     (case d_read D (en_inner (ae_sync d)) w of
        (Ok loaded, w1) \<Rightarrow> (map_ok buffer_into (decrypt_call A (en_secrets (ae_sync d)) loaded), w1)
      | (Err e, w1) \<Rightarrow> (Err e, w1)
      | (Panic, w1) \<Rightarrow> (Panic, w1))"

section \<open>Polling writers and futures\<close>

text \<open>
  An \<open>AsyncWrite\<close> by its three polls, and the handle that starts the encrypting job: \<open>job_start\<close> is the
  call \<open>(handle)(job)\<close> and \<open>job_poll\<close> a poll of the future it returns; both can run the job, so both see
  the shared buffer. \<open>Ready None\<close> is a panic of the poll.
\<close>

record ('aw, 'w) poll_writer =
  pw_write :: "'aw \<Rightarrow> bytes \<Rightarrow> 'w \<Rightarrow> (nat, io_error) result poll \<times> 'aw \<times> 'w"
  pw_flush :: "'aw \<Rightarrow> 'w \<Rightarrow> (unit, io_error) result poll \<times> 'aw \<times> 'w"
  pw_close :: "'aw \<Rightarrow> 'w \<Rightarrow> (unit, io_error) result poll \<times> 'aw \<times> 'w"

record 'f job_ops =
  job_start :: "(secret_buffer \<Rightarrow> (bytes, io_error) result) \<Rightarrow> secret_buffer \<Rightarrow> 'f"
  job_poll :: "(secret_buffer \<Rightarrow> (bytes, io_error) result) \<Rightarrow> secret_buffer \<Rightarrow> 'f \<Rightarrow> (bytes, io_error) result poll \<times> 'f"

text \<open>The writer; the bytes of the flush after \<open>slice_start\<close> are still to be written.\<close>

record ('aw, 'f) async_encrypted_writer =
  aw_inner :: 'aw
  aw_buffer :: secret_buffer
  aw_secrets :: key_nonce
  aw_flush_fut :: 'f
  aw_slice_start :: nat

definition aew_new :: "aead \<Rightarrow> 'f job_ops \<Rightarrow> 'aw \<Rightarrow> key_nonce \<Rightarrow> ('aw, 'f) async_encrypted_writer" where
  "aew_new A H inner secrets =
     \<lparr>aw_inner = inner, aw_buffer = buffer_default, aw_secrets = secrets,
      aw_flush_fut = job_start H (encrypt_call A secrets) buffer_default, aw_slice_start = 0\<rparr>"

definition async_encrypted_write_disk ::
  "aead \<Rightarrow> 'f job_ops \<Rightarrow> ('d \<Rightarrow> 'w \<Rightarrow> ('aw, io_error) result \<times> 'w) \<Rightarrow> 'd async_encrypted \<Rightarrow> 'w \<Rightarrow>
     (('aw, 'f) async_encrypted_writer, io_error) result \<times> 'w" where
  "async_encrypted_write_disk A H inner_write d w =
     (case inner_write (en_inner (ae_sync d)) w of
        (r, w1) \<Rightarrow> (map_ok (\<lambda>wr. aew_new A H wr (en_secrets (ae_sync d))) r, w1))"

definition aew_poll_write ::
  "bytes \<Rightarrow> ('aw, 'f) async_encrypted_writer \<Rightarrow> (nat, io_error) result poll \<times> ('aw, 'f) async_encrypted_writer" where
  "aew_poll_write buf e =
     (case buffer_extend buf (aw_buffer e) of
        Ok b \<Rightarrow> (Ready (Ok (length buf)), e\<lparr>aw_buffer := b\<rparr>)
      | Err _ \<Rightarrow> (Ready (Err OutOfMemory), e\<lparr>aw_buffer := (aw_buffer e)\<lparr>sb_ref := False, sb_mut := False\<rparr>\<rparr>)
      | Panic \<Rightarrow> (Ready Panic, e))"

definition aew_reset :: "aead \<Rightarrow> 'f job_ops \<Rightarrow> ('aw, 'f) async_encrypted_writer \<Rightarrow> ('aw, 'f) async_encrypted_writer" where
  "aew_reset A H e = e\<lparr>aw_flush_fut := job_start H (encrypt_call A (aw_secrets e)) (aw_buffer e), aw_slice_start := 0\<rparr>"

text \<open>
  \<open>poll_flush\<close>; the last component says whether it wakes its own task. A slice that starts beyond the
  bytes panics.
\<close>

definition aew_poll_flush ::
  "aead \<Rightarrow> 'f job_ops \<Rightarrow> ('aw, 'w) poll_writer \<Rightarrow> ('aw, 'f) async_encrypted_writer \<Rightarrow> 'w \<Rightarrow>
     (unit, io_error) result poll \<times> ('aw, 'f) async_encrypted_writer \<times> 'w \<times> bool" where
  "aew_poll_flush A H P e w =
     (case job_poll H (encrypt_call A (aw_secrets e)) (aw_buffer e) (aw_flush_fut e) of
        (Pending, f) \<Rightarrow> (Pending, e\<lparr>aw_flush_fut := f\<rparr>, w, False)
      | (Ready (Err x), f) \<Rightarrow> (Ready (Err x), e\<lparr>aw_flush_fut := f\<rparr>, w, False)
      | (Ready Panic, f) \<Rightarrow> (Ready Panic, e\<lparr>aw_flush_fut := f\<rparr>, w, False)
      | (Ready (Ok buf), f) \<Rightarrow>
          (let e1 = e\<lparr>aw_flush_fut := f\<rparr> in
           if length buf < aw_slice_start e1 then (Ready Panic, e1, w, False)
           else case pw_write P (aw_inner e1) (drop (aw_slice_start e1) buf) w of
             (Ready (Ok x), wr, w1) \<Rightarrow>
               (if x = 0 then
                  (case pw_flush P wr w1 of
                     (Pending, wr2, w2) \<Rightarrow> (Pending, e1\<lparr>aw_inner := wr2\<rparr>, w2, False)
                   | (Ready r, wr2, w2) \<Rightarrow> (Ready r, aew_reset A H (e1\<lparr>aw_inner := wr2\<rparr>), w2, False))
                else (Pending, e1\<lparr>aw_inner := wr, aw_slice_start := aw_slice_start e1 + x\<rparr>, w1, False))
           | (Ready (Err x), wr, w1) \<Rightarrow>
               (if x = Interrupted then (Pending, e1\<lparr>aw_inner := wr\<rparr>, w1, True)
                else (Ready (Err x), aew_reset A H (e1\<lparr>aw_inner := wr\<rparr>), w1, False))
           | (Ready Panic, wr, w1) \<Rightarrow> (Ready Panic, e1\<lparr>aw_inner := wr\<rparr>, w1, False)
           | (Pending, wr, w1) \<Rightarrow> (Pending, e1\<lparr>aw_inner := wr\<rparr>, w1, False)))"

definition aew_poll_close ::
  "aead \<Rightarrow> 'f job_ops \<Rightarrow> ('aw, 'w) poll_writer \<Rightarrow> ('aw, 'f) async_encrypted_writer \<Rightarrow> 'w \<Rightarrow>
     (unit, io_error) result poll \<times> ('aw, 'f) async_encrypted_writer \<times> 'w" where
  "aew_poll_close A H P e w =
     (case aew_poll_flush A H P e w of
        (Ready (Ok _), e1, w1, _) \<Rightarrow>
          (case pw_close P (aw_inner e1) w1 of (r, wr, w2) \<Rightarrow> (r, e1\<lparr>aw_inner := wr\<rparr>, w2))
      | (r, e1, w1, _) \<Rightarrow> (r, e1, w1))"

section \<open>The two kinds of handle\<close>

text \<open>
  \<open>cur_thread\<close> runs the job at once and returns a \<open>Ready\<close>; an \<open>async\<close> block runs it at its first poll. A
  poll after completion panics for both.
\<close>

datatype job_state = Job_Waiting | Job_Done "(bytes, io_error) result" | Job_Over

definition cur_thread_job :: "job_state job_ops" where
  "cur_thread_job = \<lparr>job_start = (\<lambda>job b. Job_Done (job b)),
     job_poll = (\<lambda>job b f. case f of Job_Done r \<Rightarrow> (Ready r, Job_Over) | _ \<Rightarrow> (Ready Panic, Job_Over))\<rparr>"

definition lazy_job :: "job_state job_ops" where
  "lazy_job = \<lparr>job_start = (\<lambda>job b. Job_Waiting),
     job_poll = (\<lambda>job b f. case f of Job_Waiting \<Rightarrow> (Ready (job b), Job_Over) | _ \<Rightarrow> (Ready Panic, Job_Over))\<rparr>"

text \<open>Awaiting \<open>flush\<close>: polls until one is ready, with whatever happens between them.\<close>

fun await_flush ::
  "aead \<Rightarrow> 'f job_ops \<Rightarrow> ('aw, 'w) poll_writer \<Rightarrow> (nat \<Rightarrow> 'w \<Rightarrow> 'w) \<Rightarrow> nat \<Rightarrow> ('aw, 'f) async_encrypted_writer \<Rightarrow> 'w \<Rightarrow>
     (unit, io_error) result option" where
  "await_flush A H P between 0 e w = None"
| "await_flush A H P between (Suc k) e w =
     (case aew_poll_flush A H P e w of
        (Ready r, e1, w1, _) \<Rightarrow> Some r
      | (Pending, e1, w1, _) \<Rightarrow> await_flush A H P between k e1 (between k w1))"

lemma async_encrypted_reads_same:
  "async_encrypted_read_disk A D d w = async_encrypted_sync_read_disk A D d w"
  by (simp add: async_encrypted_read_disk_def async_encrypted_sync_read_disk_def encrypted_read_disk_def decrypt_call_def split: prod.splits result.splits)

section \<open>The flush never succeeds\<close>

text \<open>
  A job handle under which a future gives at most one answer, of one run of the job: \<open>fresh\<close> futures
  have not been polled.
\<close>

locale one_shot =
  fixes H :: "'f job_ops" and fresh :: "(secret_buffer \<Rightarrow> (bytes, io_error) result) \<Rightarrow> 'f \<Rightarrow> bool" and over :: "'f \<Rightarrow> bool"
  assumes start_fresh: "fresh job (job_start H job b)"
    and fresh_poll: "fresh job f \<Longrightarrow> \<exists>b' f'. job_poll H job b f = (Ready (job b'), f') \<and> over f'"
    and over_poll: "over f \<Longrightarrow> fst (job_poll H job b f) = Ready Panic"

interpretation cur_thread_job: one_shot cur_thread_job "\<lambda>job f. \<exists>b. f = Job_Done (job b)" "\<lambda>f. f = Job_Over"
  by unfold_locales (auto simp: cur_thread_job_def)

interpretation lazy_job: one_shot lazy_job "\<lambda>job f. f = Job_Waiting" "\<lambda>f. f = Job_Over"
  by unfold_locales (auto simp: lazy_job_def)

lemma encrypt_call_nonempty:
  assumes "\<And>p c t. aead_seal A (kn_key k) (kn_nonce k) p = Some (c, t) \<Longrightarrow> t \<noteq> []" and "encrypt_call A k b = Ok x"
  shows "x \<noteq> []"
  using assms by (auto simp: encrypt_call_def encrypt_in_place_def buffer_extend_eq split: option.splits if_splits)

lemma aew_poll_write_frame:
  "aw_flush_fut (snd (aew_poll_write b e)) = aw_flush_fut e \<and> aw_slice_start (snd (aew_poll_write b e)) = aw_slice_start e \<and>
   aw_secrets (snd (aew_poll_write b e)) = aw_secrets e \<and> aw_inner (snd (aew_poll_write b e)) = aw_inner e"
  by (auto simp: aew_poll_write_def split: result.splits)

lemma aew_writes_frame:
  "aw_flush_fut (fold (\<lambda>b e. snd (aew_poll_write b e)) bufs e) = aw_flush_fut e \<and>
   aw_slice_start (fold (\<lambda>b e. snd (aew_poll_write b e)) bufs e) = aw_slice_start e \<and>
   aw_secrets (fold (\<lambda>b e. snd (aew_poll_write b e)) bufs e) = aw_secrets e \<and>
   aw_inner (fold (\<lambda>b e. snd (aew_poll_write b e)) bufs e) = aw_inner e"
  by (induction bufs arbitrary: e) (simp_all add: aew_poll_write_frame)

context one_shot
begin

lemma flush_of_over:
  assumes "over (aw_flush_fut e)"
  shows "await_flush A H P between k e w \<noteq> Some (Ok ())"
proof (cases k)
  case (Suc n)
  obtain p f where "job_poll H (encrypt_call A (aw_secrets e)) (aw_buffer e) (aw_flush_fut e) = (p, f)" by fastforce
  with over_poll [OF assms, of "encrypt_call A (aw_secrets e)" "aw_buffer e"] Suc show ?thesis
    by (simp add: aew_poll_flush_def)
qed simp

lemma flush_of_fresh:
  assumes "fresh (encrypt_call A (aw_secrets e)) (aw_flush_fut e)" and "aw_slice_start e = 0"
    and seal: "\<And>p c t. aead_seal A (kn_key (aw_secrets e)) (kn_nonce (aw_secrets e)) p = Some (c, t) \<Longrightarrow> t \<noteq> []"
    and accepts: "\<And>wr d w wr' w'. pw_write P wr d w = (Ready (Ok 0), wr', w') \<Longrightarrow> d = []"
  shows "await_flush A H P between k e w \<noteq> Some (Ok ())"
proof (cases k)
  case (Suc n)
  from fresh_poll [OF assms(1), of "aw_buffer e"] obtain b f where
    J: "job_poll H (encrypt_call A (aw_secrets e)) (aw_buffer e) (aw_flush_fut e) = (Ready (encrypt_call A (aw_secrets e) b), f)"
      "over f" by blast
  show ?thesis
  proof (cases "encrypt_call A (aw_secrets e) b")
    case (Ok buf)
    have ne: "buf \<noteq> []" by (rule encrypt_call_nonempty [OF seal Ok])
    obtain p wr w1 where W: "pw_write P (aw_inner e) buf w = (p, wr, w1)" by (metis prod_cases3)
    show ?thesis
    proof (cases p)
      case (Ready r)
      show ?thesis
      proof (cases r)
        case r: (Ok x)
        have "x \<noteq> 0"
        proof
          assume "x = 0"
          with W Ready r have "pw_write P (aw_inner e) buf w = (Ready (Ok 0), wr, w1)" by simp
          from accepts [OF this] ne show False by simp
        qed
        with J Ok W Ready r Suc assms(2) show ?thesis by (simp add: aew_poll_flush_def Let_def flush_of_over)
      next
        case (Err x)
        with J Ok W Ready Suc assms(2) show ?thesis by (simp add: aew_poll_flush_def Let_def flush_of_over)
      next
        case Panic
        with J Ok W Ready Suc assms(2) show ?thesis by (simp add: aew_poll_flush_def)
      qed
    next
      case Pending
      with J Ok W Suc assms(2) show ?thesis by (simp add: aew_poll_flush_def Let_def flush_of_over)
    qed
  qed (use J Suc in \<open>simp_all add: aew_poll_flush_def\<close>)
qed simp

end

text \<open>
  awaiting the flush of an \<open>AsyncEncryptedWriter\<close> never succeeds, whatever was written to it, with
  a handle that runs the job on this thread or one that runs it later, over any inner writer that does
  not claim to have written nothing: the completed future is polled again instead of being kept. With
  the handle of this thread the bytes sent are those of the empty message, sealed when the writer was made.
\<close>

theorem async_encrypted_flush_fails:
  assumes "\<And>p c t. aead_seal A (kn_key secrets) (kn_nonce secrets) p = Some (c, t) \<Longrightarrow> t \<noteq> []"
    and "\<And>wr d w wr' w'. pw_write P wr d w = (Ready (Ok 0), wr', w') \<Longrightarrow> d = []"
    and "H = cur_thread_job \<or> H = lazy_job"
    and "aead_seal A (kn_key secrets) (kn_nonce secrets) [] = Some (c, t)" and "length c + length t \<le> usize_max"
  shows "await_flush A H P between k (fold (\<lambda>b e. snd (aew_poll_write b e)) bufs (aew_new A H inner secrets)) w \<noteq> Some (Ok ()) \<and>
    fst (aew_poll_flush A cur_thread_job P (fold (\<lambda>b e. snd (aew_poll_write b e)) bufs (aew_new A cur_thread_job inner secrets)) w) =
      (case pw_write P inner (c @ t) w of
         (Ready (Ok x), _, _) \<Rightarrow> Pending
       | (Ready (Err x), _, _) \<Rightarrow> if x = Interrupted then Pending else Ready (Err x)
       | (Ready Panic, _, _) \<Rightarrow> Ready Panic
       | (Pending, _, _) \<Rightarrow> Pending)"
proof
  let ?e = "\<lambda>H. fold (\<lambda>b e. snd (aew_poll_write b e)) bufs (aew_new A H inner secrets)"
  have e: "aw_flush_fut (?e H) = job_start H (encrypt_call A secrets) buffer_default" "aw_slice_start (?e H) = 0"
    "aw_secrets (?e H) = secrets" "aw_inner (?e H) = inner" for H :: "job_state job_ops"
    by (simp_all add: aew_writes_frame aew_new_def)
  from assms(3) show "await_flush A H P between k (?e H) w \<noteq> Some (Ok ())"
  proof
    assume H: "H = cur_thread_job"
    show ?thesis unfolding H
      by (rule cur_thread_job.flush_of_fresh [OF _ _ _ assms(2)])
         (use assms(1) cur_thread_job.start_fresh in \<open>simp_all add: e\<close>)
  next
    assume H: "H = lazy_job"
    show ?thesis unfolding H
      by (rule lazy_job.flush_of_fresh [OF _ _ _ assms(2)])
         (use assms(1) lazy_job.start_fresh in \<open>simp_all add: e\<close>)
  qed
  have job: "encrypt_call A secrets buffer_default = Ok (c @ t)"
    using assms(4,5) by (simp add: encrypt_call_def encrypt_in_place_def buffer_extend_eq)
  have ne: "c @ t \<noteq> []" using assms(1,4) by blast
  obtain p wr w1 where W: "pw_write P inner (c @ t) w = (p, wr, w1)" by (metis prod_cases3)
  have "p \<noteq> Ready (Ok 0)" using assms(2) [of inner "c @ t" w wr w1] W ne by blast
  with W job show "fst (aew_poll_flush A cur_thread_job P (?e cur_thread_job) w) =
      (case pw_write P inner (c @ t) w of
         (Ready (Ok x), _, _) \<Rightarrow> Pending
       | (Ready (Err x), _, _) \<Rightarrow> if x = Interrupted then Pending else Ready (Err x)
       | (Ready Panic, _, _) \<Rightarrow> Ready Panic
       | (Pending, _, _) \<Rightarrow> Pending)"
    by (cases p; cases "case p of Ready r \<Rightarrow> r | Pending \<Rightarrow> Panic")
       (auto simp: aew_poll_flush_def e cur_thread_job_def)
qed

text \<open>An inner writer that takes everything.\<close>

definition demo_poll_writer :: "(unit, bytes) poll_writer" where
  "demo_poll_writer = \<lparr>pw_write = (\<lambda>_ d w. (Ready (Ok (length d)), (), w @ d)),
     pw_flush = (\<lambda>_ w. (Ready (Ok ()), (), w)), pw_close = (\<lambda>_ w. (Ready (Ok ()), (), w))\<rparr>"

theorem async_encrypted_flush_fails_witness:
  "await_flush demo_aead lazy_job demo_poll_writer (\<lambda>_ w. w) 100
     (fold (\<lambda>b e. snd (aew_poll_write b e)) [[1, 2], [3]] (aew_new demo_aead lazy_job () \<lparr>kn_key = [], kn_nonce = []\<rparr>)) []
     \<noteq> Some (Ok ())"
  by (rule async_encrypted_flush_fails [where c = "[]" and t = "replicate 16 0", THEN conjunct1])
     (auto simp: demo_aead_def demo_poll_writer_def usize_max_def)

end
