(* ===== verification/Network.thy ===== *)
theory Network
  imports Async_Read
begin

text \<open>
  The network disk of \<open>src/entry/disks/network.rs\<close>: the serializable request, the disk with its
  client, and \<open>ReqwestRead\<close>, which turns the chunks of a response into an \<open>AsyncRead\<close>. The client
  and the network behind it are parameters.
\<close>

section \<open>Requests\<close>

text \<open>\<open>reqwest::Request\<close>, and the part of it that \<open>SerialRequest\<close> keeps.\<close>

record request =
  rq_method :: string
  rq_url :: string
  rq_headers :: "(string \<times> string) list"
  rq_timeout :: "nat option"
  rq_version :: string
  rq_body :: "bytes option"

record serial_request =
  sr_method :: string
  sr_url :: string
  sr_headers :: "(string \<times> string) list"
  sr_timeout :: "nat option"
  sr_version :: string

definition serial_from :: "request \<Rightarrow> serial_request" where
  "serial_from r = \<lparr>sr_method = rq_method r, sr_url = rq_url r, sr_headers = rq_headers r,
     sr_timeout = rq_timeout r, sr_version = rq_version r\<rparr>"

text \<open>\<open>Request::new\<close> takes method and address; the rest is the library's default until it is set.\<close>

definition request_new :: "string \<Rightarrow> string \<Rightarrow> request" where
  "request_new meth url = \<lparr>rq_method = meth, rq_url = url, rq_headers = [], rq_timeout = None,
     rq_version = ''HTTP/1.1'', rq_body = None\<rparr>"

definition serial_get :: "serial_request \<Rightarrow> request" where
  "serial_get r = (let req = request_new (sr_method r) (sr_url r) in
     req\<lparr>rq_headers := sr_headers r, rq_timeout := sr_timeout r, rq_version := sr_version r\<rparr>)"

section \<open>The disk\<close>

text \<open>
  What a response does when its chunks are polled: a chunk arrives, nothing has arrived yet, or the
  connection fails. The end of the list is the end of the body.
\<close>

datatype 'e net_event = Chunk bytes | Delay | Broken 'e

text \<open>The static client, and \<open>Network\<close> with the client in its mutex.\<close>

record 'c net_statics =
  ns_client :: "'c option"

record 'c network =
  nw_request :: serial_request
  nw_client :: "'c option"

definition default_client :: "'c \<Rightarrow> 'c net_statics \<Rightarrow> 'c \<times> 'c net_statics" where
  "default_client fresh g =
     (case ns_client g of
        Some c \<Rightarrow> (c, g)
      | None \<Rightarrow> (fresh, g\<lparr>ns_client := Some fresh\<rparr>))"

definition network_new :: "request \<Rightarrow> 'c option \<Rightarrow> 'c network" where
  "network_new r client = \<lparr>nw_request = serial_from r, nw_client = client\<rparr>"

text \<open>
  \<open>ReqwestRead\<close>: what is left of the response, whether the \<open>chunk()\<close> future held has completed, and
  the part of a chunk that did not fit into the last buffer.
\<close>

record 'e reqwest_read =
  rr_response :: "'e net_event list"
  rr_completed :: bool
  rr_leftover :: "bytes option"

definition reqwest_err_to_io :: "'e \<Rightarrow> io_error" where
  "reqwest_err_to_io e = OtherError"

definition network_async_read_disk ::
  "('c \<Rightarrow> request \<Rightarrow> 'w \<Rightarrow> ('e net_event list, 'e) result \<times> 'w) \<Rightarrow> 'c \<Rightarrow> 'c network \<Rightarrow> 'c net_statics \<Rightarrow> 'w \<Rightarrow>
     ('e reqwest_read, io_error) result \<times> 'c network \<times> 'c net_statics \<times> 'w" where
  "network_async_read_disk execute fresh n g w =
     (case default_client fresh g of (dflt, g1) \<Rightarrow>
      (let client = (case nw_client n of Some c \<Rightarrow> c | None \<Rightarrow> dflt) in
       case execute client (serial_get (nw_request n)) w of (r, w1) \<Rightarrow>
         (map_err reqwest_err_to_io (map_ok (\<lambda>response.
            \<lparr>rr_response = response, rr_completed = False, rr_leftover = None\<rparr>) r),
          n\<lparr>nw_client := Some client\<rparr>, g1, w1)))"

section \<open>Reading the response\<close>

text \<open>
  Polling the \<open>chunk()\<close> future. It is an \<open>async fn\<close>: polling it after it has completed is a panic.
\<close>

definition chunk_poll :: "'e reqwest_read \<Rightarrow> (bytes option, 'e) result poll \<times> 'e reqwest_read" where
  "chunk_poll r =
     (if rr_completed r then (Ready Panic, r)
      else case rr_response r of
        [] \<Rightarrow> (Ready (Ok None), r\<lparr>rr_completed := True\<rparr>)
      | Delay # es \<Rightarrow> (Pending, r\<lparr>rr_response := es\<rparr>)
      | Chunk b # es \<Rightarrow> (Ready (Ok (Some b)), r\<lparr>rr_response := es, rr_completed := True\<rparr>)
      | Broken e # es \<Rightarrow> (Ready (Err e), r\<lparr>rr_response := es, rr_completed := True\<rparr>))"

text \<open>\<open>buf.copy_from_slice\<close> of what fits, and what is kept for the next call.\<close>

definition fill_from :: "nat \<Rightarrow> bytes \<Rightarrow> bytes \<times> bytes option" where
  "fill_from n x = (if n < length x then (take n x, Some (drop n x)) else (x, None))"

definition network_poll_read :: "nat \<Rightarrow> 'e reqwest_read \<Rightarrow> (bytes, io_error) result poll \<times> 'e reqwest_read" where
  "network_poll_read n r =
     (case rr_leftover r of
        Some l \<Rightarrow> (case fill_from n l of (b, left) \<Rightarrow> (Ready (Ok b), r\<lparr>rr_leftover := left\<rparr>))
      | None \<Rightarrow>
          (case chunk_poll r of
             (Pending, r1) \<Rightarrow> (Pending, r1)
           | (Ready (Err e), r1) \<Rightarrow> (Ready (Err (reqwest_err_to_io e)), r1)
           | (Ready Panic, r1) \<Rightarrow> (Ready Panic, r1)
           | (Ready (Ok None), r1) \<Rightarrow> (Ready (Ok []), r1)
           | (Ready (Ok (Some x)), r1) \<Rightarrow>
               (case fill_from n x of (b, left) \<Rightarrow>
                  (Ready (Ok b), r1\<lparr>rr_completed := False,
                     rr_leftover := (if left = None then rr_leftover r1 else left)\<rparr>))))"

section \<open>The reader keeps the contract\<close>

text \<open>The body of a response, and what a reader still has to yield of it.\<close>

fun body :: "'e net_event list \<Rightarrow> bytes" where
  "body [] = []"
| "body (Chunk b # es) = b @ body es"
| "body (Delay # es) = body es"
| "body (Broken e # es) = body es"

definition net_rest :: "'e reqwest_read \<Rightarrow> bytes" where
  "net_rest r = (case rr_leftover r of None \<Rightarrow> [] | Some l \<Rightarrow> l) @ body (rr_response r)"

text \<open>No chunk is empty; the \<open>calm\<close> ones do not fail and have not been read past their end.\<close>

definition net_usable :: "'e reqwest_read \<Rightarrow> bool" where
  "net_usable r \<longleftrightarrow> Chunk [] \<notin> set (rr_response r) \<and> rr_leftover r \<noteq> Some []"

definition net_calm :: "'e reqwest_read \<Rightarrow> bool" where
  "net_calm r \<longleftrightarrow> (\<forall>e \<in> set (rr_response r). case e of Broken _ \<Rightarrow> False | _ \<Rightarrow> True)"

definition net_left :: "'e reqwest_read \<Rightarrow> nat" where
  "net_left r = length (rr_response r) + length (net_rest r)"

lemma fill_from_cases:
  "fill_from n x = (b, left) \<Longrightarrow>
   x = b @ (case left of None \<Rightarrow> [] | Some l \<Rightarrow> l) \<and> length b \<le> n \<and> left \<noteq> Some [] \<and> (b = [] \<longrightarrow> x = [] \<or> n = 0)"
  by (auto simp: fill_from_def split: if_splits)

text \<open>The outcomes of a poll, over the next event of the response.\<close>

lemma network_poll_cases:
  assumes "network_poll_read n r = (p, r')" and "net_usable r"
  obtains
    (held) l b left where "rr_leftover r = Some l" "fill_from n l = (b, left)" "p = Ready (Ok b)"
      "r' = r\<lparr>rr_leftover := left\<rparr>"
  | (over) "rr_leftover r = None" "rr_completed r" "p = Ready Panic" "r' = r"
  | (eof) "rr_leftover r = None" "rr_response r = []" "p = Ready (Ok [])" "r' = r\<lparr>rr_completed := True\<rparr>"
  | (wait) es where "rr_leftover r = None" "rr_response r = Delay # es" "p = Pending" "r' = r\<lparr>rr_response := es\<rparr>"
  | (fail) e es where "rr_leftover r = None" "rr_response r = Broken e # es" "p = Ready (Err OtherError)"
  | (got) x es b left where "rr_leftover r = None" "rr_response r = Chunk x # es" "x \<noteq> []"
      "fill_from n x = (b, left)" "p = Ready (Ok b)" "r' = r\<lparr>rr_response := es, rr_completed := False, rr_leftover := left\<rparr>"
proof (cases "rr_leftover r")
  case (Some l)
  then show thesis
    using assms(1) by (cases "fill_from n l") (auto simp: network_poll_read_def intro: held)
next
  case None
  show thesis
  proof (cases "rr_completed r")
    case True
    with None assms(1) show thesis by (auto simp: network_poll_read_def chunk_poll_def intro: over)
  next
    case False
    show thesis
    proof (cases "rr_response r")
      case Nil
      with None False assms(1) show thesis by (auto simp: network_poll_read_def chunk_poll_def intro: eof)
    next
      case (Cons e es)
      show thesis
      proof (cases e)
        case (Chunk x)
        obtain b left where f: "fill_from n x = (b, left)" by fastforce
        from Chunk Cons assms(2) have "x \<noteq> []" by (auto simp: net_usable_def)
        from got [OF None _ this f] Chunk Cons None False assms(1) f show thesis
          by (cases r) (auto simp: network_poll_read_def chunk_poll_def split: if_splits)
      qed (use Cons None False assms(1) in
          \<open>auto simp: network_poll_read_def chunk_poll_def reqwest_err_to_io_def intro: wait fail\<close>)
    qed
  qed
qed

interpretation network: async_reader network_poll_read net_rest net_usable
proof
  fix n and r :: "'e reqwest_read" and b r'
  assume u: "net_usable r" and R: "network_poll_read n r = (Ready (Ok b), r')"
  from R u show "net_rest r = b @ net_rest r' \<and> length b \<le> n"
    by (cases rule: network_poll_cases) (auto simp: net_rest_def dest: fill_from_cases)
next
  fix n and r :: "'e reqwest_read" and r'
  assume u: "net_usable r" and R: "network_poll_read n r = (Ready (Ok []), r')" and n: "0 < n"
  from R u show "net_rest r = []"
    by (cases rule: network_poll_cases)
       (use n u in \<open>auto simp: net_rest_def net_usable_def dest!: fill_from_cases\<close>)
next
  fix n and r :: "'e reqwest_read" and r'
  assume u: "net_usable r" and R: "network_poll_read n r = (Pending, r')"
  from R u show "net_rest r' = net_rest r"
    by (cases rule: network_poll_cases) (auto simp: net_rest_def)
next
  fix n and r :: "'e reqwest_read" and b r'
  assume u: "net_usable r" and "network_poll_read n r = (Ready (Ok b), r') \<or> network_poll_read n r = (Pending, r')"
  then obtain p where R: "network_poll_read n r = (p, r')" and p: "p = Ready (Ok b) \<or> p = Pending" by auto
  from R u show "net_usable r'"
    by (cases rule: network_poll_cases) (use p u in \<open>auto simp: net_usable_def dest: fill_from_cases\<close>)
qed

section \<open>Properties\<close>

text \<open>
  Readers that have not met the end or an error, of a response without failures: they answer every poll,
  and every answer but the last makes what is left smaller.
\<close>

definition net_fresh :: "'e reqwest_read \<Rightarrow> bool" where
  "net_fresh r \<longleftrightarrow> net_calm r \<and> \<not> rr_completed r"

lemma network_step:
  assumes u: "net_usable u" and fresh: "net_fresh u" and R: "network_poll_read n u = (p, u')"
  shows "p = Pending \<and> net_fresh u' \<and> net_left u' < net_left u \<or>
    (\<exists>b. p = Ready (Ok b) \<and> (b \<noteq> [] \<longrightarrow> net_fresh u' \<and> net_left u' < net_left u))"
  using R u
proof (cases rule: network_poll_cases)
  case (held l b left)
  from fill_from_cases [OF held(2)] held fresh show ?thesis
    by (auto simp: net_left_def net_rest_def net_fresh_def net_calm_def)
next
  case (got x es b left)
  from fill_from_cases [OF got(4)] got fresh show ?thesis
    by (auto simp: net_left_def net_rest_def net_fresh_def net_calm_def)
qed (use fresh in \<open>auto simp: net_left_def net_rest_def net_fresh_def net_calm_def\<close>)

text \<open>
  An empty chunk ends the reading as the end of the response does: what comes after it does not count.
\<close>

abbreviation before_empty :: "'e net_event list \<Rightarrow> 'e net_event list" where
  "before_empty es \<equiv> takeWhile (\<lambda>e. e \<noteq> Chunk []) es"

lemma read_before_empty:
  "fst (read_to_end network_poll_read (\<lambda>_ s. s) room k acc \<lparr>rr_response = es, rr_completed = False, rr_leftover = l\<rparr>) =
   fst (read_to_end network_poll_read (\<lambda>_ s. s) room k acc \<lparr>rr_response = before_empty es, rr_completed = False, rr_leftover = l\<rparr>)"
proof (induction k arbitrary: acc es l)
  case (Suc k)
  show ?case
  proof (cases l)
    case (Some x)
    obtain b left where F: "fill_from (room k) x = (b, left)" by fastforce
    with Some Suc show ?thesis by (simp add: network_poll_read_def)
  next
    case None
    show ?thesis
    proof (cases es)
      case Nil
      with None show ?thesis by (simp add: network_poll_read_def chunk_poll_def)
    next
      case (Cons e fs)
      show ?thesis
      proof (cases e)
        case (Chunk x)
        obtain b left where F: "fill_from (room k) x = (b, left)" by fastforce
        have "x = [] \<Longrightarrow> b = []" using F by (simp add: fill_from_def)
        with None Cons Chunk F Suc show ?thesis
          by (cases "x = []"; cases left) (simp_all add: network_poll_read_def chunk_poll_def)
      qed (use None Cons Suc in \<open>simp_all add: network_poll_read_def chunk_poll_def\<close>)
    qed
  qed
qed simp

text \<open>
  C38: the reader of a response that arrives without an error yields exactly the body up to the first
  empty chunk, which is the whole body when no chunk is empty, for buffers of any positive sizes and
  however often nothing has arrived yet; one poll more than there are events and bytes is enough. The
  request sent is the one given, without its body.
\<close>

theorem network_reads_response:
  assumes "execute (case client of Some c \<Rightarrow> c | None \<Rightarrow> fst (default_client fresh g)) (req\<lparr>rq_body := None\<rparr>) w
      = (Ok response, w1)"
    and "\<And>e. Broken e \<notin> set (before_empty response)"
    and "\<And>i. 0 < room i" and "length (before_empty response) + length (body (before_empty response)) < k"
  shows "\<exists>rd n' g'. network_async_read_disk execute fresh (network_new req client) g w = (Ok rd, n', g', w1) \<and>
    fst (read_to_end network_poll_read (\<lambda>_ s. s) room k [] rd) = Some (Ok (body (before_empty response))) \<and>
    (Chunk [] \<notin> set response \<longrightarrow> body (before_empty response) = body response)"
proof -
  define rd where "rd = \<lparr>rr_response = response, rr_completed = False, rr_leftover = None\<rparr>"
  have "serial_get (serial_from req) = req\<lparr>rq_body := None\<rparr>"
    by (simp add: serial_get_def serial_from_def request_new_def)
  with assms(1) have "\<exists>n' g'. network_async_read_disk execute fresh (network_new req client) g w = (Ok rd, n', g', w1)"
    by (cases client) (auto simp: network_async_read_disk_def network_new_def rd_def Let_def split: prod.splits)
  moreover define cut where "cut = rd\<lparr>rr_response := before_empty response\<rparr>"
  have "fst (read_to_end network_poll_read (\<lambda>_ s. s) room k [] cut) = Some (Ok ([] @ net_rest cut))"
  proof (rule network.read_to_end_within [where calm = net_fresh and paused = net_fresh and m = net_left])
    show "net_usable cut" "net_fresh cut" "net_left cut < k"
      using assms(2,4) by (auto simp: cut_def rd_def net_usable_def net_fresh_def net_calm_def net_left_def net_rest_def
          dest: set_takeWhileD split: net_event.splits)
    show "\<And>u n p u'. net_usable u \<Longrightarrow> net_fresh u \<Longrightarrow> 0 < n \<Longrightarrow> network_poll_read n u = (p, u') \<Longrightarrow>
      p = Pending \<and> net_fresh u' \<and> net_left u' < net_left u \<or>
      (\<exists>b. p = Ready (Ok b) \<and> (b \<noteq> [] \<longrightarrow> net_fresh u' \<and> net_left u' < net_left u))"
      by (rule network_step)
  qed (use assms(3) in auto)
  then have "fst (read_to_end network_poll_read (\<lambda>_ s. s) room k [] rd) = Some (Ok (body (before_empty response)))"
    using read_before_empty [of room k "[]" response None] by (simp add: cut_def rd_def net_rest_def)
  moreover have "Chunk [] \<notin> set response \<longrightarrow> before_empty response = response" unfolding takeWhile_eq_all_conv by auto
  ultimately show ?thesis by metis
qed

text \<open>
  an empty chunk in the middle of a response is taken for its end, and polling again after the end,
  or after an error, is a panic: the completed future is still in its place.
\<close>

theorem network_reader_ends:
  "network_poll_read n \<lparr>rr_response = Chunk [] # es, rr_completed = False, rr_leftover = None\<rparr> =
     (Ready (Ok []), \<lparr>rr_response = es, rr_completed = False, rr_leftover = None\<rparr>) \<and>
   (\<exists>r. network_poll_read n \<lparr>rr_response = [], rr_completed = False, rr_leftover = None\<rparr> = (Ready (Ok []), r) \<and>
      network_poll_read m r = (Ready Panic, r)) \<and>
   (\<exists>r. network_poll_read n \<lparr>rr_response = Broken e # es, rr_completed = False, rr_leftover = None\<rparr> =
        (Ready (Err OtherError), r) \<and> network_poll_read m r = (Ready Panic, r))"
  by (simp add: network_poll_read_def chunk_poll_def fill_from_def reqwest_err_to_io_def)

theorem network_reads_response_witness:
  "\<exists>rd n' g'. network_async_read_disk (\<lambda>c r w. (Ok [Delay, Chunk [1, 2, 3], Delay, Chunk [4], Chunk [], Chunk [5]], w))
      () (network_new (request_new ''GET'' ''u'') None) \<lparr>ns_client = None\<rparr> (0 :: nat) = (Ok rd, n', g', 0) \<and>
    fst (read_to_end network_poll_read (\<lambda>_ s. s) (\<lambda>_. 2) 9 [] (rd :: unit reqwest_read)) = Some (Ok [1, 2, 3, 4])"
  using network_reads_response [of "\<lambda>c r w. (Ok [Delay, Chunk [1, 2, 3], Delay, Chunk [4], Chunk [], Chunk [5]], w)" "()"
      "\<lparr>ns_client = None\<rparr>" None "request_new ''GET'' ''u''" "0 :: nat"
      "[Delay, Chunk [1, 2, 3], Delay, Chunk [4], Chunk [], Chunk [5]] :: unit net_event list" 0 "\<lambda>_. 2" 9]
  by simp

end
