(* ===== verification/Adapter_Read.thy ===== *)
theory Adapter_Read
  imports Async_Read
begin

text \<open>
  The reading half of \<open>SyncAsAsync\<close> in \<open>src/entry/adapters.rs\<close>: a polled reader that has a thread in
  the background call the blocking reader. The two share a slot for the answer and a waker, and the
  commands go through a channel without a buffer.
\<close>

section \<open>A blocking reader\<close>

text \<open>
  The contract of \<open>Read\<close>: \<open>src n r\<close> fills a buffer of \<open>n\<close> bytes. An empty answer to a buffer with
  room is the end, and an error means that nothing was read.
\<close>

locale sync_reader =
  fixes src :: "nat \<Rightarrow> 'r \<Rightarrow> (bytes, io_error) result \<times> 'r"
    and src_rest :: "'r \<Rightarrow> bytes"
  assumes src_bytes: "src n r = (Ok b, r') \<Longrightarrow> src_rest r = b @ src_rest r' \<and> length b \<le> n"
    and src_end: "src n r = (Ok [], r') \<Longrightarrow> 0 < n \<Longrightarrow> src_rest r = []"
    and src_error: "src n r = (Err e, r') \<Longrightarrow> src_rest r' = src_rest r"

interpretation cursor_src: sync_reader cursor_read cursor_fill_buf
proof
  fix n c b c'
  assume "cursor_read n c = (Ok b, c')"
  from cursor_read_fill [OF this] show "cursor_fill_buf c = b @ cursor_fill_buf c' \<and> length b \<le> n" by blast
next
  fix n c c'
  assume "cursor_read n c = (Ok [], c')" and "0 < (n :: nat)"
  with cursor_read_fill [OF this(1)] show "cursor_fill_buf c = []" by blast
qed (simp add: cursor_read_def)

section \<open>The two threads\<close>

text \<open>
  \<open>SyncAsAsync\<close> with its buffer sizes; the handles run their argument on another thread.
\<close>

record 'd sync_as_async =
  sa_inner :: 'd
  sa_read_buffer_size :: nat
  sa_write_buffer_min_size :: nat

definition default_read_buffer_size :: nat where
  "default_read_buffer_size = 8 * 1024"

definition default_write_buffer_size :: nat where
  "default_write_buffer_size = 8 * 1024"

definition sync_as_async_new :: "'d \<Rightarrow> nat option \<Rightarrow> nat option \<Rightarrow> 'd sync_as_async" where
  "sync_as_async_new inner read_size write_size =
     \<lparr>sa_inner = inner,
      sa_read_buffer_size = (case read_size of Some n \<Rightarrow> n | None \<Rightarrow> default_read_buffer_size),
      sa_write_buffer_min_size = (case write_size of Some n \<Rightarrow> n | None \<Rightarrow> default_write_buffer_size)\<rparr>"

text \<open>
  \<open>SyncAsAsyncRead\<close> and \<open>SyncAsAsyncReadBg\<close> together. \<open>sr_waker\<close> says that a waker is registered,
  \<open>sr_woken\<close> that the task has been woken since its last poll. \<open>bg_busy\<close>: the thread has received a
  command it has not answered; \<open>bg_alive\<close>: it has not panicked.
\<close>

record 'r read_adapter =
  sr_pending :: bool
  sr_buffered :: bytes
  sr_slot :: "(bytes, io_error) result option"
  sr_waker :: bool
  sr_woken :: bool
  bg_alive :: bool
  bg_busy :: bool
  bg_reader :: 'r
  bg_buffer_size :: nat

definition read_adapter_new :: "'r \<Rightarrow> nat \<Rightarrow> 'r read_adapter" where
  "read_adapter_new reader buffer_size = \<lparr>sr_pending = False, sr_buffered = [], sr_slot = None, sr_waker = False,
     sr_woken = False, bg_alive = True, bg_busy = False, bg_reader = reader, bg_buffer_size = buffer_size\<rparr>"

text \<open>
  \<open>SyncAsAsyncReadBg::call\<close>, one round after \<open>recv\<close>: the blocking read, and then, under the lock of
  the slot, the answer and the wake-up.
\<close>

definition bg_answer :: "(nat \<Rightarrow> 'r \<Rightarrow> (bytes, io_error) result \<times> 'r) \<Rightarrow> 'r read_adapter \<Rightarrow> 'r read_adapter" where
  "bg_answer src s =
     (if bg_alive s \<and> bg_busy s then
        (case src (bg_buffer_size s) (bg_reader s) of
           (Panic, r) \<Rightarrow> s\<lparr>bg_alive := False, bg_busy := False, bg_reader := r\<rparr>
         | (res, r) \<Rightarrow> s\<lparr>sr_slot := Some res, sr_waker := False, sr_woken := sr_woken s \<or> sr_waker s,
             bg_busy := False, bg_reader := r\<rparr>)
      else s)"

text \<open>
  Sending on the channel waits for the thread to come back to \<open>recv\<close>; there is no thread to receive
  after a panic, and \<open>unwrap\<close> of the error panics here too.
\<close>

definition send_read :: "(nat \<Rightarrow> 'r \<Rightarrow> (bytes, io_error) result \<times> 'r) \<Rightarrow> 'r read_adapter \<Rightarrow> (unit, io_error) result \<times> 'r read_adapter" where
  "send_read src s =
     (let s1 = bg_answer src s in if bg_alive s1 then (Ok (), s1\<lparr>bg_busy := True\<rparr>) else (Panic, s1))"

definition read_poll_fill_buf ::
  "(nat \<Rightarrow> 'r \<Rightarrow> (bytes, io_error) result \<times> 'r) \<Rightarrow> 'r read_adapter \<Rightarrow>
     (bytes, io_error) result poll \<times> 'r read_adapter" where
  "read_poll_fill_buf src s =
     (if sr_pending s then
        (case sr_slot s of
           Some (Ok x) \<Rightarrow> (Ready (Ok x), s\<lparr>sr_slot := None, sr_buffered := x, sr_pending := False\<rparr>)
         | Some (Err e) \<Rightarrow> (Ready (Err e), s\<lparr>sr_slot := None\<rparr>)
         | Some Panic \<Rightarrow> (Ready Panic, s)
         | None \<Rightarrow> (Pending, s\<lparr>sr_waker := True\<rparr>))
      else if sr_buffered s = [] then
        (case send_read src (s\<lparr>sr_pending := True, sr_waker := True\<rparr>) of
           (Ok _, s1) \<Rightarrow> (Pending, s1)
         | (_, s1) \<Rightarrow> (Ready Panic, s1))
      else (Ready (Ok (sr_buffered s)), s))"

definition read_consume :: "nat \<Rightarrow> 'r read_adapter \<Rightarrow> (unit, io_error) result \<times> 'r read_adapter" where
  "read_consume amt s =
     (if amt \<le> length (sr_buffered s) then (Ok (), s\<lparr>sr_buffered := drop amt (sr_buffered s)\<rparr>) else (Panic, s))"

text \<open>A poll of the task, which until then may have been woken.\<close>

definition read_poll_read ::
  "(nat \<Rightarrow> 'r \<Rightarrow> (bytes, io_error) result \<times> 'r) \<Rightarrow> nat \<Rightarrow> 'r read_adapter \<Rightarrow>
     (bytes, io_error) result poll \<times> 'r read_adapter" where
  "read_poll_read src n s =
     (case read_poll_fill_buf src (s\<lparr>sr_woken := False\<rparr>) of
        (Pending, s1) \<Rightarrow> (Pending, s1)
      | (Ready (Err e), s1) \<Rightarrow> (Ready (Err e), s1)
      | (Ready Panic, s1) \<Rightarrow> (Ready Panic, s1)
      | (Ready (Ok x), s1) \<Rightarrow>
          (let read_len = min n (length x) in
           case read_consume read_len s1 of (r, s2) \<Rightarrow> (Ready (map_ok (\<lambda>_. take read_len x) r), s2)))"

section \<open>The invariant\<close>

text \<open>
  A command is out exactly when the front waits and the slot is empty; an empty answer comes only at
  the end of the reader.
\<close>

definition adapter_rest :: "('r \<Rightarrow> bytes) \<Rightarrow> 'r read_adapter \<Rightarrow> bytes" where
  "adapter_rest src_rest s =
     (case sr_slot s of Some (Ok x) \<Rightarrow> x | _ \<Rightarrow> sr_buffered s) @ src_rest (bg_reader s)"

definition adapter_usable :: "('r \<Rightarrow> bytes) \<Rightarrow> 'r read_adapter \<Rightarrow> bool" where
  "adapter_usable src_rest s \<longleftrightarrow>
     0 < bg_buffer_size s \<and>
     (if sr_pending s then sr_buffered s = [] \<and> (bg_busy s \<longleftrightarrow> bg_alive s \<and> sr_slot s = None) \<and>
        (sr_slot s = Some (Ok []) \<longrightarrow> src_rest (bg_reader s) = [])
      else \<not> bg_busy s \<and> sr_slot s = None)"

context sync_reader
begin

lemma answer_usable:
  assumes "adapter_usable src_rest s"
  shows "adapter_usable src_rest (bg_answer src s) \<and>
    adapter_rest src_rest (bg_answer src s) = adapter_rest src_rest s \<or> \<not> bg_alive (bg_answer src s)"
proof (cases "bg_alive s \<and> bg_busy s")
  case True
  obtain q r where R: "src (bg_buffer_size s) (bg_reader s) = (q, r)" by fastforce
  from True assms have p: "sr_pending s" "sr_slot s = None" "sr_buffered s = []" "0 < bg_buffer_size s"
    by (auto simp: adapter_usable_def split: if_splits)
  show ?thesis
  proof (cases q)
    case (Ok b)
    with R True p src_bytes [of "bg_buffer_size s" "bg_reader s" b r] src_end [of "bg_buffer_size s" "bg_reader s" r]
    show ?thesis by (auto simp: bg_answer_def adapter_usable_def adapter_rest_def)
  next
    case (Err e)
    with R True p src_error [of "bg_buffer_size s" "bg_reader s" e r]
    show ?thesis by (auto simp: bg_answer_def adapter_usable_def adapter_rest_def)
  qed (use R True in \<open>simp add: bg_answer_def\<close>)
qed (use assms in \<open>auto simp: bg_answer_def\<close>)

text \<open>The outcomes of a poll.\<close>

lemma poll_cases:
  assumes "read_poll_read src n s = (p, s')" and "adapter_usable src_rest s"
  obtains
    (answer) x where "sr_slot s = Some (Ok x)" "sr_pending s" "p = Ready (Ok (take n x))"
      "s' = s\<lparr>sr_woken := False, sr_slot := None, sr_pending := False, sr_buffered := drop n x\<rparr>"
  | (error) e where "sr_slot s = Some (Err e)" "sr_pending s" "p = Ready (Err e)" "s' = s\<lparr>sr_woken := False, sr_slot := None\<rparr>"
  | (waits) "sr_slot s = None" "sr_pending s" "p = Pending" "s' = s\<lparr>sr_woken := False, sr_waker := True\<rparr>"
  | (sends) "\<not> sr_pending s" "sr_slot s = None" "sr_buffered s = []" "bg_alive s" "p = Pending"
      "s' = s\<lparr>sr_woken := False, sr_pending := True, sr_waker := True, bg_busy := True\<rparr>"
  | (buffered) "\<not> sr_pending s" "sr_slot s = None" "sr_buffered s \<noteq> []" "p = Ready (Ok (take n (sr_buffered s)))"
      "s' = s\<lparr>sr_woken := False, sr_buffered := drop n (sr_buffered s)\<rparr>"
  | (panic) "p = Ready Panic" "\<not> bg_alive s \<or> sr_slot s = Some Panic"
proof (cases "sr_pending s")
  case True
  show thesis
  proof (cases "sr_slot s")
    case None
    with True assms(1) show thesis by (auto simp: read_poll_read_def read_poll_fill_buf_def intro: waits)
  next
    case (Some q)
    with True assms(1) show thesis
      by (cases q) (auto simp: read_poll_read_def read_poll_fill_buf_def read_consume_def Let_def min_def
          intro: answer error panic split: if_splits)
  qed
next
  case False
  with assms(2) have b: "\<not> bg_busy s" "sr_slot s = None" by (auto simp: adapter_usable_def)
  show thesis
  proof (cases "sr_buffered s = []")
    case True
    with False b assms(1) show thesis
      by (auto simp: read_poll_read_def read_poll_fill_buf_def send_read_def bg_answer_def Let_def
          intro: sends panic split: if_splits)
  next
    case nonempty: False
    with False b assms(1) show thesis
      by (auto simp: read_poll_read_def read_poll_fill_buf_def read_consume_def Let_def min_def
          intro: buffered split: if_splits)
  qed
qed

lemma adapted: "async_reader (read_poll_read src) (adapter_rest src_rest) (adapter_usable src_rest)"
proof
  fix n s b s'
  assume u: "adapter_usable src_rest s" and R: "read_poll_read src n s = (Ready (Ok b), s')"
  from R u show "adapter_rest src_rest s = b @ adapter_rest src_rest s' \<and> length b \<le> n"
    by (cases rule: poll_cases) (auto simp: adapter_rest_def)
next
  fix n s s'
  assume u: "adapter_usable src_rest s" and R: "read_poll_read src n s = (Ready (Ok []), s')" and n: "0 < n"
  from R u show "adapter_rest src_rest s = []"
    by (cases rule: poll_cases) (use u n in \<open>auto simp: adapter_rest_def adapter_usable_def\<close>)
next
  fix n s s'
  assume u: "adapter_usable src_rest s" and R: "read_poll_read src n s = (Pending, s')"
  from R u show "adapter_rest src_rest s' = adapter_rest src_rest s"
    by (cases rule: poll_cases) (auto simp: adapter_rest_def)
next
  fix n s b s'
  assume u: "adapter_usable src_rest s" and "read_poll_read src n s = (Ready (Ok b), s') \<or> read_poll_read src n s = (Pending, s')"
  then obtain p where R: "read_poll_read src n s = (p, s')" and p: "p = Ready (Ok b) \<or> p = Pending" by auto
  from R u show "adapter_usable src_rest s'"
    by (cases rule: poll_cases) (use p u in \<open>auto simp: adapter_usable_def split: if_splits\<close>)
qed

text \<open>A reader that neither fails nor panics keeps the thread alive and the answers free of errors.\<close>

definition reads_well :: "'r read_adapter \<Rightarrow> bool" where
  "reads_well s \<longleftrightarrow> bg_alive s \<and> (\<forall>x. sr_slot s = Some x \<longrightarrow> is_ok x)"

definition adapter_left :: "'r read_adapter \<Rightarrow> nat" where
  "adapter_left s = 2 * length (adapter_rest src_rest s) + (if sr_pending s then 0 else 1)"

lemma answer_well:
  assumes "\<And>n r. \<exists>b r'. src n r = (Ok b, r')" and "adapter_usable src_rest s"
  shows "adapter_usable src_rest (bg_answer src s)" and "adapter_rest src_rest (bg_answer src s) = adapter_rest src_rest s"
    and "reads_well s \<Longrightarrow> reads_well (bg_answer src s)" and "sr_pending (bg_answer src s) = sr_pending s"
    and "sr_pending s \<Longrightarrow> bg_alive s \<Longrightarrow> sr_slot (bg_answer src s) \<noteq> None"
proof -
  obtain b r where R: "src (bg_buffer_size s) (bg_reader s) = (Ok b, r)" using assms(1) by blast
  have "adapter_usable src_rest (bg_answer src s) \<and> adapter_rest src_rest (bg_answer src s) = adapter_rest src_rest s"
  proof (cases "bg_alive s \<and> bg_busy s")
    case True
    with answer_usable [OF assms(2)] R show ?thesis by (auto simp: bg_answer_def)
  qed (use assms(2) in \<open>auto simp: bg_answer_def\<close>)
  then show "adapter_usable src_rest (bg_answer src s)" "adapter_rest src_rest (bg_answer src s) = adapter_rest src_rest s"
    by simp_all
  show "reads_well s \<Longrightarrow> reads_well (bg_answer src s)" "sr_pending (bg_answer src s) = sr_pending s"
    using R by (auto simp: bg_answer_def reads_well_def)
  show "sr_pending s \<Longrightarrow> bg_alive s \<Longrightarrow> sr_slot (bg_answer src s) \<noteq> None"
    using R assms(2) by (auto simp: bg_answer_def adapter_usable_def)
qed

lemma reads_to_the_end:
  assumes "\<And>n r. \<exists>b r'. src n r = (Ok b, r')" and "0 < buffer_size" and "\<And>i. 0 < room i"
    and "2 * length (src_rest r) + 1 < k"
  shows "fst (read_to_end (read_poll_read src) (\<lambda>_. bg_answer src) room k [] (read_adapter_new r buffer_size)) =
    Some (Ok (src_rest r))"
proof -
  have "fst (read_to_end (read_poll_read src) (\<lambda>_. bg_answer src) room k [] (read_adapter_new r buffer_size)) =
    Some (Ok ([] @ adapter_rest src_rest (read_adapter_new r buffer_size)))"
  proof (rule async_reader.read_to_end_within [OF adapted, where m = adapter_left
        and calm = "\<lambda>s. reads_well s \<and> (sr_pending s \<longrightarrow> sr_slot s \<noteq> None)" and paused = reads_well])
    fix n u p u'
    assume u: "adapter_usable src_rest u" and c: "reads_well u \<and> (sr_pending u \<longrightarrow> sr_slot u \<noteq> None)"
      and R: "read_poll_read src n u = (p, u')"
    from R u show "p = Pending \<and> reads_well u' \<and> adapter_left u' < adapter_left u \<or>
      (\<exists>b. p = Ready (Ok b) \<and> (b \<noteq> [] \<longrightarrow>
         (reads_well u' \<and> (sr_pending u' \<longrightarrow> sr_slot u' \<noteq> None)) \<and> adapter_left u' < adapter_left u))"
    proof (cases rule: poll_cases)
      case (answer x)
      with c show ?thesis
        by (auto simp: reads_well_def adapter_left_def adapter_rest_def simp flip: length_greater_0_conv)
    next
      case buffered
      with c show ?thesis
        by (auto simp: reads_well_def adapter_left_def adapter_rest_def simp flip: length_greater_0_conv)
    qed (use c in \<open>auto simp: reads_well_def adapter_left_def adapter_rest_def\<close>)
  next
    fix i and u :: "'r read_adapter"
    assume u: "adapter_usable src_rest u" and w: "reads_well u"
    note a = answer_well [OF assms(1) u]
    show "adapter_usable src_rest (bg_answer src u) \<and>
      (reads_well (bg_answer src u) \<and> (sr_pending (bg_answer src u) \<longrightarrow> sr_slot (bg_answer src u) \<noteq> None)) \<and>
      adapter_rest src_rest (bg_answer src u) = adapter_rest src_rest u \<and> adapter_left (bg_answer src u) \<le> adapter_left u"
    proof (intro conjI impI)
      show "adapter_left (bg_answer src u) \<le> adapter_left u" by (simp add: adapter_left_def a(2,4))
      assume "sr_pending (bg_answer src u)"
      then show "sr_slot (bg_answer src u) \<noteq> None" using a(4,5) w by (simp add: reads_well_def)
    qed (rule a(1) a(3) [OF w] a(2))+
  qed (use assms(2-4) in \<open>auto simp: read_adapter_new_def adapter_usable_def reads_well_def adapter_left_def adapter_rest_def\<close>)
  then show ?thesis by (simp add: read_adapter_new_def adapter_rest_def)
qed

lemma reads_nothing_else:
  assumes "\<And>n r. \<exists>b r'. src n r = (Ok b, r')" and "0 < buffer_size" and "\<And>i. 0 < room i"
    and "read_to_end (read_poll_read src) (\<lambda>i s. if sched i then bg_answer src s else s) room k [] (read_adapter_new r buffer_size)
      = (Some (Ok bs), s)"
  shows "bs = src_rest r"
proof -
  have "bs = [] @ adapter_rest src_rest (read_adapter_new r buffer_size)"
    by (rule async_reader.read_to_end_complete [OF adapted assms(4)])
       (use answer_well [OF assms(1)] assms(2,3) in \<open>auto simp: read_adapter_new_def adapter_usable_def\<close>)
  then show ?thesis by (simp add: read_adapter_new_def adapter_rest_def)
qed

end
interpretation cursor_adapter: async_reader "read_poll_read cursor_read" "adapter_rest cursor_fill_buf"
  "adapter_usable cursor_fill_buf"
  by (rule cursor_src.adapted)

section \<open>Properties\<close>

text \<open>
  C29: reading a blocking reader through the adapter yields exactly its bytes: whenever the background
  thread runs, what \<open>read_to_end\<close> returns is the content; and when it answers between two polls,
  \<open>read_to_end\<close> returns, within two polls per byte and two more.
\<close>

theorem adapter_reads_everything:
  assumes "sync_reader src src_rest" and "\<And>n r. \<exists>b r'. src n r = (Ok b, r')" and "0 < buffer_size"
    and "\<And>i. 0 < room i" and "2 * length (src_rest r) + 1 < k"
  shows "fst (read_to_end (read_poll_read src) (\<lambda>_. bg_answer src) room k [] (read_adapter_new r buffer_size)) =
      Some (Ok (src_rest r)) \<and>
    (\<forall>sched j bs s. read_to_end (read_poll_read src) (\<lambda>i s. if sched i then bg_answer src s else s) room j []
       (read_adapter_new r buffer_size) = (Some (Ok bs), s) \<longrightarrow> bs = src_rest r)"
proof (intro conjI allI impI)
  show "fst (read_to_end (read_poll_read src) (\<lambda>_. bg_answer src) room k [] (read_adapter_new r buffer_size)) =
      Some (Ok (src_rest r))"
    by (rule sync_reader.reads_to_the_end [OF assms])
  fix sched j bs s
  assume "read_to_end (read_poll_read src) (\<lambda>i s. if sched i then bg_answer src s else s) room j []
    (read_adapter_new r buffer_size) = (Some (Ok bs), s)"
  from sync_reader.reads_nothing_else [OF assms(1,2,3) _ this] assms(4) show "bs = src_rest r" by blast
qed

text \<open>
  no wake-up is lost: after a pending answer a waker is registered and the thread is at work; when
  it answers, the task has been woken and its next poll is ready.
\<close>

theorem adapter_read_wakes:
  assumes "sync_reader src src_rest" and "adapter_usable src_rest s" and "bg_alive s"
    and "read_poll_read src n s = (Pending, s1)" and "fst (src (bg_buffer_size s1) (bg_reader s1)) \<noteq> Panic"
  shows "sr_waker s1 \<and> bg_busy s1 \<and> sr_woken (bg_answer src s1) \<and>
    fst (read_poll_read src m (bg_answer src s1)) \<noteq> Pending"
proof -
  from assms(4,2) have "sr_waker s1 \<and> bg_busy s1 \<and> bg_alive s1 \<and> sr_pending s1"
    by (cases rule: sync_reader.poll_cases [OF assms(1)])
       (use assms(2,3) in \<open>auto simp: adapter_usable_def read_poll_read_def read_poll_fill_buf_def send_read_def
          bg_answer_def Let_def split: if_splits\<close>)
  with assms(5) show ?thesis
    by (auto simp: bg_answer_def read_poll_read_def read_poll_fill_buf_def Let_def
        split: prod.splits result.splits poll.splits)
qed

text \<open>
  an error of the blocking reader is reported once; the adapter stays in its waiting state without
  having sent a command, so every later read waits for ever, whenever the thread runs.
\<close>

theorem adapter_read_hangs_after_error:
  assumes "sr_pending s" and "sr_slot s = Some (Err e)" and "\<not> bg_busy s"
  shows "\<exists>s1. read_poll_read src n s = (Ready (Err e), s1) \<and>
    (\<forall>sched room k acc. fst (read_to_end (read_poll_read src) (\<lambda>i s. if sched i then bg_answer src s else s) room k acc s1) = None)"
proof -
  let ?stuck = "\<lambda>s. sr_pending s \<and> sr_slot s = None \<and> \<not> bg_busy s"
  have stuck: "fst (read_to_end (read_poll_read src) (\<lambda>i s. if sched i then bg_answer src s else s) room k acc u) = None"
    if "?stuck u" for sched room k acc u
    using that
  proof (induction k arbitrary: acc u)
    case (Suc k)
    then have "read_poll_read src (room k) u = (Pending, u\<lparr>sr_woken := False, sr_waker := True\<rparr>)"
      by (simp add: read_poll_read_def read_poll_fill_buf_def)
    with Suc show ?case by (simp add: bg_answer_def)
  qed simp
  have "read_poll_read src n s = (Ready (Err e), s\<lparr>sr_woken := False, sr_slot := None\<rparr>)"
    using assms by (simp add: read_poll_read_def read_poll_fill_buf_def)
  with stuck [of "s\<lparr>sr_woken := False, sr_slot := None\<rparr>"] assms show ?thesis by auto
qed

section \<open>Examples\<close>

theorem adapter_reads_everything_witness:
  "fst (read_to_end (read_poll_read cursor_read) (\<lambda>_. bg_answer cursor_read) (\<lambda>_. 2) 9 []
     (read_adapter_new (cursor_from [1, 2, 3]) 8)) = Some (Ok [1, 2, 3])"
  using adapter_reads_everything [OF cursor_src.sync_reader_axioms, of 8 "\<lambda>_. 2" "cursor_from [1, 2, 3]" 9]
  by (simp add: cursor_read_def cursor_fill_buf_def cursor_from_def)

theorem adapter_read_wakes_witness:
  "\<exists>s1. read_poll_read cursor_read 4 (read_adapter_new (cursor_from [1, 2, 3]) 8) = (Pending, s1) \<and>
     sr_woken (bg_answer cursor_read s1) \<and> fst (read_poll_read cursor_read 4 (bg_answer cursor_read s1)) \<noteq> Pending"
proof -
  let ?s = "read_adapter_new (cursor_from [1, 2, 3]) 8"
  obtain s1 where P: "read_poll_read cursor_read 4 ?s = (Pending, s1)"
    by (simp add: read_adapter_new_def read_poll_read_def read_poll_fill_buf_def send_read_def bg_answer_def Let_def)
  from adapter_read_wakes [OF cursor_src.sync_reader_axioms _ _ P, of 4] P show ?thesis
    by (simp add: read_adapter_new_def adapter_usable_def cursor_read_def)
qed

theorem adapter_read_hangs_after_error_witness:
  "\<exists>s1. read_poll_read cursor_read 4 ((read_adapter_new (cursor_from [1]) 8)\<lparr>sr_pending := True, sr_slot := Some (Err OtherError)\<rparr>)
       = (Ready (Err OtherError), s1) \<and>
     fst (read_to_end (read_poll_read cursor_read) (\<lambda>i s. if even i then bg_answer cursor_read s else s) (\<lambda>_. 4) 100 [] s1) = None"
  using adapter_read_hangs_after_error [of "(read_adapter_new (cursor_from [1]) 8)\<lparr>sr_pending := True, sr_slot := Some (Err OtherError)\<rparr>"
      OtherError cursor_read 4]
  by (auto simp: read_adapter_new_def)

end
