(* ===== verification/Adapter_Write.thy ===== *)
theory Adapter_Write
  imports Adapter_Read
begin

text \<open>
  The writing half of \<open>SyncAsAsync\<close> in \<open>src/entry/adapters.rs\<close>: writes are collected in a buffer and
  sent as commands to a thread that owns the blocking writer; results come back through a second
  channel, and a failed write waits there until the front asks for a retry. The two threads are a state
  machine with one step per segment that runs without touching shared state in between.
\<close>

section \<open>A blocking writer\<close>

text \<open>
  The contract of \<open>Write\<close>: \<open>wr d r\<close> takes a prefix of \<open>d\<close> and returns its length, and an error
  means that nothing was taken; \<open>fl\<close> is \<open>flush\<close>. \<open>taken r\<close> is what the writer has taken so far.
\<close>

record 'r sink =
  sk_write :: "bytes \<Rightarrow> 'r \<Rightarrow> (nat, io_error) result \<times> 'r"
  sk_flush :: "'r \<Rightarrow> (unit, io_error) result \<times> 'r"

locale byte_sink =
  fixes S :: "'r sink"
    and taken :: "'r \<Rightarrow> bytes"
    and good :: "'r \<Rightarrow> bool"
  assumes write_taken: "good r \<Longrightarrow> sk_write S d r = (Ok n, r') \<Longrightarrow> n \<le> length d \<and> taken r' = taken r @ take n d"
    and write_error: "good r \<Longrightarrow> sk_write S d r = (Err e, r') \<Longrightarrow> taken r' = taken r"
    and flush_taken: "good r \<Longrightarrow> sk_flush S r = (q, r') \<Longrightarrow> taken r' = taken r"
    and write_good: "good r \<Longrightarrow> sk_write S d r = (p, r') \<Longrightarrow> good r'"
    and flush_good: "good r \<Longrightarrow> sk_flush S r = (q, r') \<Longrightarrow> good r'"

definition cursor_sink :: "cursor sink" where
  "cursor_sink = \<lparr>sk_write = cursor_write_vec, sk_flush = cursor_flush\<rparr>"

interpretation cursor_sink: byte_sink cursor_sink cu_inner "\<lambda>c. cu_pos c = length (cu_inner c)"
  by unfold_locales (auto simp: cursor_sink_def cursor_write_vec_def cursor_flush_def)

section \<open>The two threads\<close>

text \<open>
  The commands, the error reports (with the request to signal a retry, or without), and where the
  thread is: at \<open>recv\<close>, in the write loop with the bytes it still has to write, waiting for the retry
  of a write that failed, with a flush to do, between the report of a flush and the call of the waker,
  or ended. The caller is between two polls, in the status loop of a write or a flush, before the
  \<open>send\<close> of a write, or before it registers its waker.
\<close>

datatype write_cmd = Cmd_Write bytes | Cmd_Flush

record write_report =
  we_error :: io_error
  we_retry :: bool

datatype bg_phase = Idle | Writing bytes | Retrying bytes | Flushing | Waking | Ended

datatype wa_front = Resting | Write_Status bytes | Write_Send bytes | Flush_Status | Flush_Park

record 'r write_adapter =
  wa_buffer :: bytes
  wa_min_size :: nat
  wa_pending :: nat
  wa_retry :: bool
  wa_cmds :: "write_cmd list"
  wa_status :: "(unit, write_report) result list"
  wa_enabled :: bool
  wa_alive :: bool
  wa_flush_waker :: bool
  wa_woken :: bool
  wa_front :: wa_front
  bg_phase :: bg_phase
  bg_writer :: 'r

definition write_adapter_new :: "'r \<Rightarrow> nat \<Rightarrow> 'r write_adapter" where
  "write_adapter_new writer min_size = \<lparr>wa_buffer = [], wa_min_size = min_size, wa_pending = 0, wa_retry = False,
     wa_cmds = [], wa_status = [], wa_enabled = False, wa_alive = True, wa_flush_waker = False, wa_woken = False,
     wa_front = Resting, bg_phase = Idle, bg_writer = writer\<rparr>"

text \<open>
  One step of \<open>SyncAsAsyncWriteBg::call\<close>: receive a command, one round of the write loop, the report
  of a finished write, one round of the wait for a retry, the flush with its report, the call of the
  waker. Each makes at most one access to what the threads share, apart from ending. Nothing happens
  while the thread waits at \<open>recv\<close> or has ended.
\<close>

definition bg_step :: "'r sink \<Rightarrow> 'r write_adapter \<Rightarrow> 'r write_adapter" where
  "bg_step S s =
     (case bg_phase s of
        Idle \<Rightarrow>
          (case wa_cmds s of
             [] \<Rightarrow> s
           | Cmd_Write data # cs \<Rightarrow> s\<lparr>wa_cmds := cs, bg_phase := Writing data\<rparr>
           | Cmd_Flush # cs \<Rightarrow> s\<lparr>wa_cmds := cs, bg_phase := Flushing\<rparr>)
      | Flushing \<Rightarrow>
          (case sk_flush S (bg_writer s) of
             (Panic, r) \<Rightarrow> s\<lparr>bg_writer := r, bg_phase := Ended\<rparr>
           | (q, r) \<Rightarrow> s\<lparr>bg_writer := r, bg_phase := Waking,
               wa_status := wa_status s @ [map_err (\<lambda>e. \<lparr>we_error = e, we_retry = False\<rparr>) q]\<rparr>)
      | Waking \<Rightarrow> s\<lparr>wa_woken := wa_woken s \<or> wa_flush_waker s, bg_phase := Idle\<rparr>
      | Writing data \<Rightarrow>
          if data = [] then s\<lparr>wa_status := wa_status s @ [Ok ()], bg_phase := Idle\<rparr>
          else (case sk_write S data (bg_writer s) of
             (Ok advance, r) \<Rightarrow> s\<lparr>bg_writer := r, bg_phase := Writing (drop advance data)\<rparr>
           | (Err e, r) \<Rightarrow>
               if e \<in> {WouldBlock, Interrupted} then s\<lparr>bg_writer := r\<rparr>
               else s\<lparr>bg_writer := r, bg_phase := Retrying data,
                 wa_status := wa_status s @ [Err \<lparr>we_error = e, we_retry = True\<rparr>]\<rparr>
           | (Panic, r) \<Rightarrow> s\<lparr>bg_writer := r, bg_phase := Ended\<rparr>)
      | Retrying data \<Rightarrow>
          if \<not> wa_alive s then s\<lparr>bg_phase := Ended\<rparr>
          else if wa_enabled s then s\<lparr>wa_enabled := False, bg_phase := Writing data\<rparr>
          else s
      | Ended \<Rightarrow> s)"

text \<open>
  The polls. \<open>poll_write\<close> begins with the request for a retry that an earlier error asked for;
  \<open>poll_flush\<close> with the look at its waker, which only it registers, and the command, whose \<open>unwrap\<close>
  panics once the thread has ended.
\<close>

datatype wa_result = Wrote "(nat, io_error) result" | Flushed "(unit, io_error) result poll"

definition wa_send :: "write_cmd \<Rightarrow> 'r write_adapter \<Rightarrow> (unit, io_error) result \<times> 'r write_adapter" where
  "wa_send c s =
     (if bg_phase s = Ended then (Panic, s)
      else (Ok (), s\<lparr>wa_cmds := wa_cmds s @ [c], wa_pending := wa_pending s + 1\<rparr>))"

definition write_begin :: "bytes \<Rightarrow> 'r write_adapter \<Rightarrow> 'r write_adapter" where
  "write_begin buf s = s\<lparr>wa_enabled := wa_enabled s \<or> wa_retry s, wa_retry := False, wa_front := Write_Status buf\<rparr>"

definition flush_begin :: "'r write_adapter \<Rightarrow> wa_result option \<times> 'r write_adapter" where
  "flush_begin s =
     (if wa_flush_waker s then (None, s\<lparr>wa_front := Flush_Status\<rparr>)
      else (case wa_send Cmd_Flush s of
          (Ok _, s1) \<Rightarrow> (None, s1\<lparr>wa_front := Flush_Status\<rparr>)
        | (_, s1) \<Rightarrow> (Some (Flushed (Ready Panic)), s1)))"

text \<open>
  One \<open>try_recv\<close>: a finished command is counted off, an error returned with the reports behind it left
  where they are, an empty channel ends the loop.
\<close>

definition status_recv ::
  "((unit, io_error) result \<Rightarrow> wa_result) \<Rightarrow> ('r write_adapter \<Rightarrow> wa_result option \<times> 'r write_adapter) \<Rightarrow>
     'r write_adapter \<Rightarrow> wa_result option \<times> 'r write_adapter" where
  "status_recv ret after s =
     (case wa_status s of
        [] \<Rightarrow> after s
      | Err e # ss \<Rightarrow> (Some (ret (Err (we_error e))), s\<lparr>wa_status := ss, wa_retry := we_retry e, wa_front := Resting\<rparr>)
      | Ok _ # ss \<Rightarrow>
          if wa_pending s = 0 then (Some (ret Panic), s\<lparr>wa_status := ss, wa_front := Resting\<rparr>)
          else (None, s\<lparr>wa_status := ss, wa_pending := wa_pending s - 1\<rparr>)
      | Panic # ss \<Rightarrow> (Some (ret Panic), s\<lparr>wa_status := ss, wa_front := Resting\<rparr>))"

text \<open>What follows the loop: the buffer grows and may have to be sent, or the test for pending commands.\<close>

definition write_rest :: "bytes \<Rightarrow> 'r write_adapter \<Rightarrow> wa_result option \<times> 'r write_adapter" where
  "write_rest buf s =
     (let s1 = s\<lparr>wa_buffer := wa_buffer s @ buf\<rparr> in
      if wa_min_size s1 \<le> length (wa_buffer s1) then (None, s1\<lparr>wa_front := Write_Send buf\<rparr>)
      else (Some (Wrote (Ok (length buf))), s1\<lparr>wa_front := Resting\<rparr>))"

definition flush_rest :: "'r write_adapter \<Rightarrow> wa_result option \<times> 'r write_adapter" where
  "flush_rest s =
     (if 0 < wa_pending s then (None, s\<lparr>wa_front := Flush_Park\<rparr>) else (Some (Flushed (Ready (Ok ()))), s\<lparr>wa_front := Resting\<rparr>))"

text \<open>One step of the poll that is under way; it returns \<open>Some\<close> result, or has not ended.\<close>

definition front_step :: "'r write_adapter \<Rightarrow> wa_result option \<times> 'r write_adapter" where
  "front_step s =
     (case wa_front s of
        Resting \<Rightarrow> (None, s)
      | Write_Status buf \<Rightarrow> status_recv (\<lambda>r. Wrote (map_ok (\<lambda>_. length buf) r)) (write_rest buf) s
      | Write_Send buf \<Rightarrow>
          (case wa_send (Cmd_Write (wa_buffer s)) (s\<lparr>wa_buffer := [], wa_front := Resting\<rparr>) of
             (r, s1) \<Rightarrow> (Some (Wrote (map_ok (\<lambda>_. length buf) r)), s1))
      | Flush_Status \<Rightarrow> status_recv (\<lambda>r. Flushed (Ready r)) flush_rest s
      | Flush_Park \<Rightarrow> (Some (Flushed Pending), s\<lparr>wa_flush_waker := True, wa_front := Resting\<rparr>))"

text \<open>A poll that the thread does not interrupt; the loop ends with the reports.\<close>

primrec front_alone :: "nat \<Rightarrow> 'r write_adapter \<Rightarrow> wa_result option \<times> 'r write_adapter" where
  "front_alone 0 s = (None, s)"
| "front_alone (Suc n) s = (case front_step s of (Some r, s1) \<Rightarrow> (Some r, s1) | (None, s1) \<Rightarrow> front_alone n s1)"

definition wa_poll_write :: "bytes \<Rightarrow> 'r write_adapter \<Rightarrow> wa_result option \<times> 'r write_adapter" where
  "wa_poll_write buf s = front_alone (length (wa_status s) + 2) (write_begin buf s)"

definition wa_poll_flush :: "'r write_adapter \<Rightarrow> wa_result option \<times> 'r write_adapter" where
  "wa_poll_flush s =
     (case flush_begin s of (Some r, s1) \<Rightarrow> (Some r, s1) | (None, s1) \<Rightarrow> front_alone (length (wa_status s) + 2) s1)"

definition wa_poll_close :: "'r write_adapter \<Rightarrow> wa_result option \<times> 'r write_adapter" where
  "wa_poll_close s = wa_poll_flush s"

definition wa_drop :: "'r write_adapter \<Rightarrow> 'r write_adapter" where
  "wa_drop s = s\<lparr>wa_alive := False, wa_retry := False\<rparr>"

text \<open>
  All interleavings: a step of the thread, the begin of a poll, or a step of it. The state of a run is
  the adapter, the bytes whose \<open>poll_write\<close> has returned \<open>Ok\<close>, and what the last step returned. A task
  that is polled has not been woken since.
\<close>

datatype wa_event = Thread | Poll_Write bytes | Poll_Flush | Front

definition offered :: "wa_front \<Rightarrow> bytes" where
  "offered f = (case f of Write_Status buf \<Rightarrow> buf | Write_Send buf \<Rightarrow> buf | _ \<Rightarrow> [])"

definition accepted :: "wa_result option \<Rightarrow> bytes \<Rightarrow> bytes" where
  "accepted out buf = (case out of Some (Wrote (Ok _)) \<Rightarrow> buf | _ \<Rightarrow> [])"

fun wa_step :: "'r sink \<Rightarrow> wa_event \<Rightarrow> 'r write_adapter \<times> bytes \<times> wa_result option \<Rightarrow> 'r write_adapter \<times> bytes \<times> wa_result option" where
  "wa_step S Thread (s, acc, out) = (bg_step S s, acc, None)"
| "wa_step S (Poll_Write buf) (s, acc, out) =
     (if wa_front s = Resting then (write_begin buf (s\<lparr>wa_woken := False\<rparr>), acc, None) else (s, acc, None))"
| "wa_step S Poll_Flush (s, acc, out) =
     (if wa_front s = Resting then (case flush_begin (s\<lparr>wa_woken := False\<rparr>) of (r, s1) \<Rightarrow> (s1, acc, r)) else (s, acc, None))"
| "wa_step S Front (s, acc, out) =
     (case front_step s of (r, s1) \<Rightarrow> (s1, acc @ accepted r (offered (wa_front s)), r))"

definition wa_run :: "'r sink \<Rightarrow> wa_event list \<Rightarrow> 'r write_adapter \<times> bytes \<times> wa_result option \<Rightarrow> 'r write_adapter \<times> bytes \<times> wa_result option" where
  "wa_run S es t = fold (wa_step S) es t"

definition wa_start :: "'r \<Rightarrow> nat \<Rightarrow> 'r write_adapter \<times> bytes \<times> wa_result option" where
  "wa_start r min_size = (write_adapter_new r min_size, [], None)"

lemma wa_run_simps [simp]: "wa_run S [] t = t" "wa_run S (e # es) t = wa_run S es (wa_step S e t)"
  "wa_run S (es @ fs) t = wa_run S fs (wa_run S es t)"
  by (simp_all add: wa_run_def)

lemma wa_run_invariant:
  assumes "I t" and "\<And>e u. I u \<Longrightarrow> I (wa_step S e u)"
  shows "I (wa_run S es t)"
  using assms(1) by (induction es arbitrary: t) (simp_all add: assms(2))

section \<open>No byte is lost or reordered\<close>

fun cmd_bytes :: "write_cmd \<Rightarrow> bytes" where
  "cmd_bytes (Cmd_Write d) = d"
| "cmd_bytes Cmd_Flush = []"

fun phase_bytes :: "bg_phase \<Rightarrow> bytes" where
  "phase_bytes (Writing d) = d"
| "phase_bytes (Retrying d) = d"
| "phase_bytes _ = []"

fun phase_count :: "bg_phase \<Rightarrow> nat" where
  "phase_count (Writing d) = 1"
| "phase_count (Retrying d) = 1"
| "phase_count Flushing = 1"
| "phase_count _ = 0"

text \<open>The bytes that the poll under way has put into the buffer and not yet reported as accepted.\<close>

fun sending :: "wa_front \<Rightarrow> bytes" where
  "sending (Write_Send buf) = buf"
| "sending _ = []"

text \<open>
  The accepted bytes are with the writer, on their way, or in the buffer, which is short; a flush that
  has just succeeded has left nothing on its way.
\<close>

definition quiet :: "'r write_adapter \<Rightarrow> bool" where
  "quiet s \<longleftrightarrow> wa_cmds s = [] \<and> bg_phase s \<in> {Idle, Waking} \<and> wa_status s = [] \<and> wa_front s = Resting"

definition wa_sound :: "('r \<Rightarrow> bytes) \<Rightarrow> ('r \<Rightarrow> bool) \<Rightarrow> 'r write_adapter \<times> bytes \<times> wa_result option \<Rightarrow> bool" where
  "wa_sound taken good st \<longleftrightarrow> (case st of (s, acc, out) \<Rightarrow> bg_phase s \<noteq> Ended \<longrightarrow>
     good (bg_writer s) \<and>
     taken (bg_writer s) @ phase_bytes (bg_phase s) @ concat (map cmd_bytes (wa_cmds s)) @ wa_buffer s = acc @ sending (wa_front s) \<and>
     length (wa_cmds s) + phase_count (bg_phase s) + length (filter is_ok (wa_status s)) \<le> wa_pending s \<and>
     Panic \<notin> set (wa_status s) \<and>
     (wa_buffer s = [] \<or> length (wa_buffer s) < wa_min_size s \<or> (\<exists>buf. wa_front s = Write_Send buf)) \<and>
     (out = Some (Flushed (Ready (Ok ()))) \<longrightarrow> quiet s))"

lemma front_step_frame:
  "front_step s = (r, s') \<Longrightarrow> bg_phase s' = bg_phase s \<and> bg_writer s' = bg_writer s \<and> wa_min_size s' = wa_min_size s \<and>
     wa_alive s' = wa_alive s \<and> wa_woken s' = wa_woken s \<and> (wa_flush_waker s \<longrightarrow> wa_flush_waker s') \<and>
     (Cmd_Flush \<in> set (wa_cmds s')) = (Cmd_Flush \<in> set (wa_cmds s))"
  by (auto simp: front_step_def status_recv_def write_rest_def flush_rest_def wa_send_def Let_def
      split: wa_front.splits list.splits result.splits if_splits prod.splits)

lemma phase_count_0: "phase_count p = 0 \<longleftrightarrow> p \<in> {Idle, Waking, Ended}"
  by (cases p) simp_all

text \<open>A report taken from the channel keeps the count; an error leaves the loop.\<close>

lemma status_recv_sound:
  assumes "wa_sound taken good (s, acc, out)" and "bg_phase s \<noteq> Ended" and "sending (wa_front s) = []" and "wa_status s = x # ss"
    and "status_recv ret after s = (r, s')" and "\<And>e. accepted (Some (ret (Err e))) buf = []" and "\<And>e. ret (Err e) \<noteq> Flushed (Ready (Ok ()))"
    and "\<And>f. (\<exists>buf. wa_front s = Write_Send buf) \<Longrightarrow> False"
  shows "wa_sound taken good (s', acc @ accepted r buf, r) \<and> (r = None \<longrightarrow> wa_front s' = wa_front s)"
proof (cases x)
  case (Ok u)
  then have "wa_pending s \<noteq> 0" using assms(1,2,4) by (auto simp: wa_sound_def)
  with Ok assms(1-5,8) show ?thesis by (auto simp: wa_sound_def status_recv_def accepted_def)
next
  case (Err e)
  with assms(1-5,8) assms(6) [of "we_error e"] assms(7) [of "we_error e"] show ?thesis by (auto simp: wa_sound_def status_recv_def)
next
  case Panic
  with assms(1,2,4) show ?thesis by (simp add: wa_sound_def)
qed

lemma front_step_sound:
  assumes "wa_sound taken good (s, acc, out)" and "front_step s = (r, s')"
  shows "wa_sound taken good (s', acc @ accepted r (offered (wa_front s)), r)"
proof (cases "bg_phase s = Ended")
  case False
  show ?thesis
  proof (cases "wa_front s")
    case Resting
    with assms show ?thesis by (auto simp: front_step_def wa_sound_def accepted_def)
  next
    case (Write_Status buf)
    show ?thesis
    proof (cases "wa_status s")
      case Nil
      with Write_Status assms False show ?thesis
        by (auto simp: front_step_def status_recv_def write_rest_def Let_def wa_sound_def offered_def accepted_def split: if_splits)
    next
      case (Cons x ss)
      from status_recv_sound [OF assms(1) False _ Cons, of "\<lambda>r. Wrote (map_ok (\<lambda>_. length buf) r)" "write_rest buf" r s' "offered (wa_front s)"]
        assms(2) Write_Status show ?thesis by (simp add: front_step_def accepted_def)
    qed
  next
    case (Write_Send buf)
    with assms False show ?thesis
      by (auto simp: front_step_def wa_send_def wa_sound_def offered_def accepted_def)
  next
    case Flush_Status
    show ?thesis
    proof (cases "wa_status s")
      case Nil
      with Flush_Status assms False phase_count_0 [of "bg_phase s"] show ?thesis
        by (auto simp: front_step_def status_recv_def flush_rest_def wa_sound_def accepted_def quiet_def split: if_splits)
    next
      case (Cons x ss)
      from status_recv_sound [OF assms(1) False _ Cons, of "\<lambda>r. Flushed (Ready r)" flush_rest r s' "offered (wa_front s)"]
        assms(2) Flush_Status show ?thesis by (simp add: front_step_def accepted_def)
    qed
  next
    case Flush_Park
    with assms show ?thesis by (auto simp: front_step_def wa_sound_def accepted_def)
  qed
qed (use front_step_frame [OF assms(2)] in \<open>simp add: wa_sound_def\<close>)

lemma begin_sound:
  assumes "wa_sound taken good (s, acc, out)" and "wa_front s = Resting"
  shows "wa_sound taken good (write_begin buf s, acc, None)"
    and "flush_begin s = (r, s') \<Longrightarrow> wa_sound taken good (s', acc, r)"
  using assms by (auto simp: wa_sound_def write_begin_def flush_begin_def wa_send_def split: if_splits)

context byte_sink
begin

lemma bg_step_sound:
  assumes "wa_sound taken good (s, acc, out)"
  shows "wa_sound taken good (bg_step S s, acc, None)"
proof (cases "bg_phase s")
  case Idle
  with assms show ?thesis by (auto simp: bg_step_def wa_sound_def split: list.split write_cmd.split)
next
  case Flushing
  obtain q r where F: "sk_flush S (bg_writer s) = (q, r)" by fastforce
  from assms Flushing have g: "good (bg_writer s)" by (simp add: wa_sound_def)
  from Flushing F assms flush_taken [OF g F] flush_good [OF g F] show ?thesis
    by (cases q) (auto simp: bg_step_def wa_sound_def)
next
  case (Writing d)
  show ?thesis
  proof (cases "d = []")
    case True
    with Writing assms show ?thesis by (auto simp: bg_step_def wa_sound_def)
  next
    case False
    obtain q r where W: "sk_write S d (bg_writer s) = (q, r)" by fastforce
    from assms Writing have g: "good (bg_writer s)" by (simp add: wa_sound_def)
    note w = write_good [OF g W]
    show ?thesis
    proof (cases q)
      case (Ok n)
      from write_taken [OF g W [unfolded Ok]] have "taken r = taken (bg_writer s) @ take n d" by simp
      moreover have all: "take n d @ drop n d @ x = d @ x" for x by (metis append_assoc append_take_drop_id)
      ultimately show ?thesis using Writing False W Ok assms w by (auto simp: bg_step_def wa_sound_def all)
    next
      case (Err e)
      with Writing False W assms w write_error [OF g W [unfolded Err]] show ?thesis
        by (auto simp: bg_step_def wa_sound_def)
    qed (use Writing False W in \<open>simp add: bg_step_def wa_sound_def\<close>)
  qed
qed (use assms in \<open>auto simp: bg_step_def wa_sound_def\<close>)

lemma step_sound: "wa_sound taken good t \<Longrightarrow> wa_sound taken good (wa_step S e t)"
proof (cases t)
  case (fields s acc out)
  assume t: "wa_sound taken good t"
  have asleep: "wa_sound taken good (s\<lparr>wa_woken := False\<rparr>, acc, out)" "wa_sound taken good (s, acc, None)"
    using t fields by (simp_all add: wa_sound_def quiet_def)
  show ?thesis
  proof (cases e)
    case Thread
    with t fields bg_step_sound show ?thesis by simp
  next
    case (Poll_Write buf)
    with fields asleep begin_sound(1) [OF asleep(1)] show ?thesis by simp
  next
    case Poll_Flush
    with fields asleep begin_sound(2) [OF asleep(1)] show ?thesis by (simp split: prod.split)
  next
    case Front
    obtain r s1 where F: "front_step s = (r, s1)" by fastforce
    with Front fields front_step_sound [OF t [unfolded fields] F] show ?thesis by simp
  qed
qed

lemma run_sound: "wa_sound taken good t \<Longrightarrow> wa_sound taken good (wa_run S es t)"
  by (rule wa_run_invariant [where I = "wa_sound taken good"]) (simp_all add: step_sound)

end

lemma start_sound: "good r \<Longrightarrow> taken r = [] \<Longrightarrow> wa_sound taken good (wa_start r min_size)"
  by (simp add: wa_start_def wa_sound_def write_adapter_new_def)

text \<open>What a step leaves alone.\<close>

lemma bg_step_frame:
  "wa_min_size (bg_step S s) = wa_min_size s" "wa_flush_waker (bg_step S s) = wa_flush_waker s" "wa_alive (bg_step S s) = wa_alive s"
  "wa_front (bg_step S s) = wa_front s" "wa_buffer (bg_step S s) = wa_buffer s"
  by (auto simp: bg_step_def split: bg_phase.split list.split write_cmd.split prod.split result.split)

lemma begin_frame:
  "wa_min_size (write_begin buf s) = wa_min_size s" "wa_alive (write_begin buf s) = wa_alive s" "bg_phase (write_begin buf s) = bg_phase s"
  "bg_writer (write_begin buf s) = bg_writer s"
  "flush_begin s = (r, s') \<Longrightarrow> wa_min_size s' = wa_min_size s \<and> wa_alive s' = wa_alive s \<and> bg_phase s' = bg_phase s \<and> bg_writer s' = bg_writer s"
  by (auto simp: write_begin_def flush_begin_def wa_send_def split: if_splits)

lemma run_min:
  fixes r :: 'r
  shows "wa_min_size (fst (wa_run S es (wa_start r min_size))) = min_size"
proof (rule wa_run_invariant [where I = "\<lambda>t. wa_min_size (fst t) = min_size"])
  fix e and u :: "'r write_adapter \<times> bytes \<times> wa_result option"
  assume "wa_min_size (fst u) = min_size"
  then show "wa_min_size (fst (wa_step S e u)) = min_size"
    by (cases u; cases e) (auto simp: bg_step_frame begin_frame split: prod.split dest: front_step_frame begin_frame(5))
qed (simp add: wa_start_def write_adapter_new_def)

section \<open>Properties\<close>

text \<open>
  C28: however the caller and the thread interleave, access by access to what they share, the bytes
  accepted by \<open>poll_write\<close> are, in order, those the writer has taken, those on their way to it and those
  still collected (with, in the last moment of a poll, those it is about to accept), and between two
  polls fewer than the minimal size are collected; and when a flush or close has reported success nothing
  is on its way. The thread must not have ended, which before the drop only a panic
  of the writer brings about.
\<close>

theorem adapter_write_in_order:
  assumes "byte_sink S taken good" and "good r" and "taken r = []"
    and "wa_run S es (wa_start r min_size) = (s, acc, out)" and "bg_phase s \<noteq> Ended"
  shows "(\<exists>under_way. taken (bg_writer s) @ under_way @ wa_buffer s = acc @ sending (wa_front s)) \<and>
    (wa_front s = Resting \<longrightarrow> wa_buffer s = [] \<or> length (wa_buffer s) < min_size) \<and>
    (out = Some (Flushed (Ready (Ok ()))) \<longrightarrow> taken (bg_writer s) @ wa_buffer s = acc)"
proof -
  have "wa_sound taken good (wa_start r min_size)" using assms(2,3) by (rule start_sound)
  from byte_sink.run_sound [OF assms(1) this, of es] assms(4) have sound: "wa_sound taken good (s, acc, out)" by simp
  then have "taken (bg_writer s) @ (phase_bytes (bg_phase s) @ concat (map cmd_bytes (wa_cmds s))) @ wa_buffer s = acc @ sending (wa_front s)"
    using assms(5) by (simp add: wa_sound_def)
  moreover have "wa_min_size s = min_size" using run_min [of S es r min_size] assms(4) by simp
  ultimately show ?thesis using sound assms(5) by (intro conjI exI) (auto simp: wa_sound_def quiet_def)
qed

text \<open>
  data shorter than the minimal size never reaches the writer: whatever is polled, flushed and
  closed, as long as less than the minimal size has been accepted, the writer has taken nothing; and
  a flush reports success all the same.
\<close>

definition small_sound :: "('r \<Rightarrow> bytes) \<Rightarrow> ('r \<Rightarrow> bool) \<Rightarrow> nat \<Rightarrow> 'r write_adapter \<times> bytes \<times> wa_result option \<Rightarrow> bool" where
  "small_sound taken good n t \<longleftrightarrow> (case t of (s, acc, out) \<Rightarrow> wa_min_size s = n \<and> (length acc < n \<longrightarrow>
    good (bg_writer s) \<and> taken (bg_writer s) = [] \<and> set (wa_cmds s) \<subseteq> {Cmd_Flush} \<and> bg_phase s \<in> {Idle, Flushing, Waking, Ended} \<and>
    (bg_phase s \<noteq> Ended \<longrightarrow> wa_buffer s = acc @ sending (wa_front s) \<and>
      (\<forall>buf. wa_front s = Write_Send buf \<longrightarrow> n \<le> length (wa_buffer s)))))"

lemma small_front:
  assumes "small_sound taken good n (s, acc, out)" and "front_step s = (r, s')"
  shows "small_sound taken good n (s', acc @ accepted r (offered (wa_front s)), r)"
proof (cases "length acc < n")
  case True
  with assms(1) have F: "wa_min_size s = n" "good (bg_writer s)" "taken (bg_writer s) = []" "set (wa_cmds s) \<subseteq> {Cmd_Flush}"
    "bg_phase s \<in> {Idle, Flushing, Waking, Ended}"
    "bg_phase s \<noteq> Ended \<longrightarrow> wa_buffer s = acc @ sending (wa_front s) \<and> (\<forall>buf. wa_front s = Write_Send buf \<longrightarrow> n \<le> length (wa_buffer s))"
    by (auto simp: small_sound_def)
  have recv: "small_sound taken good n (s', acc @ accepted r buf, r)"
    if "wa_status s = x # ss" "status_recv ret after s = (r, s')" "\<And>q. \<not> is_ok q \<Longrightarrow> accepted (Some (ret q)) buf = []" "sending (wa_front s) = []"
      "\<And>b. wa_front s \<noteq> Write_Send b" for x ss ret after buf
    using that(1,2,4,5) that(3) [of "Err (we_error (case x of Err e \<Rightarrow> e))"] that(3) [of Panic] F
    by (cases x) (auto simp: small_sound_def status_recv_def accepted_def split: if_splits)
  show ?thesis
  proof (cases "wa_front s")
    case (Write_Status buf)
    show ?thesis
    proof (cases "wa_status s")
      case Nil
      with Write_Status assms(2) F show ?thesis
        by (auto simp: small_sound_def front_step_def status_recv_def write_rest_def Let_def accepted_def offered_def split: if_splits)
    next
      case (Cons x ss)
      have "accepted (Some (Wrote (map_ok (\<lambda>_. length buf) q))) (offered (wa_front s)) = []" if "\<not> is_ok q" for q :: "(unit, io_error) result"
        using that by (cases q) (simp_all add: accepted_def)
      from recv [OF Cons _ this, where after = "write_rest buf"] assms(2) Write_Status show ?thesis by (simp add: front_step_def)
    qed
  next
    case (Write_Send buf)
    with assms(2) F show ?thesis
      by (auto simp: small_sound_def front_step_def wa_send_def accepted_def offered_def split: if_splits)
  next
    case Flush_Status
    show ?thesis
    proof (cases "wa_status s")
      case Nil
      with Flush_Status assms(2) F show ?thesis
        by (auto simp: small_sound_def front_step_def status_recv_def flush_rest_def accepted_def split: if_splits)
    next
      case (Cons x ss)
      from recv [OF this, of "\<lambda>r. Flushed (Ready r)" flush_rest "offered (wa_front s)"] assms(2) Flush_Status show ?thesis
        by (auto simp: front_step_def accepted_def)
    qed
  qed (use assms(2) F in \<open>auto simp: small_sound_def front_step_def accepted_def\<close>)
qed (use assms front_step_frame [OF assms(2)] in \<open>simp add: small_sound_def\<close>)

lemma small_begin:
  assumes "small_sound taken good n (s, acc, out)" and "wa_front s = Resting"
  shows "small_sound taken good n (write_begin buf s, acc, None)"
    and "flush_begin s = (r, s') \<Longrightarrow> small_sound taken good n (s', acc, r)"
  using assms by (auto simp: small_sound_def write_begin_def flush_begin_def wa_send_def split: if_splits)

context byte_sink
begin

lemma small_thread:
  assumes "small_sound taken good n (s, acc, out)"
  shows "small_sound taken good n (bg_step S s, acc, None)"
proof (cases "length acc < n \<and> bg_phase s = Flushing")
  case True
  obtain q r where F: "sk_flush S (bg_writer s) = (q, r)" by fastforce
  from assms True have g: "good (bg_writer s)" by (simp add: small_sound_def)
  from True F assms flush_taken [OF g F] flush_good [OF g F] show ?thesis
    by (cases q) (auto simp: bg_step_def small_sound_def)
next
  case False
  show ?thesis
  proof (cases "length acc < n")
    case True
    with False assms consider "bg_phase s = Idle" | "bg_phase s = Waking" | "bg_phase s = Ended" by (auto simp: small_sound_def)
    then show ?thesis using assms
      by cases (auto simp: bg_step_def small_sound_def split: list.split write_cmd.split)
  qed (use assms in \<open>simp add: small_sound_def bg_step_frame\<close>)
qed

end

lemma small_run:
  assumes "byte_sink S taken good" and "small_sound taken good n t"
  shows "small_sound taken good n (wa_run S es t)"
proof (rule wa_run_invariant [where I = "small_sound taken good n"])
  fix e u assume u: "small_sound taken good n u"
  obtain s acc out where s: "u = (s, acc, out)" by (cases u)
  have asleep: "small_sound taken good n (s\<lparr>wa_woken := False\<rparr>, acc, out)" "small_sound taken good n (s, acc, None)"
    using u s by (auto simp: small_sound_def)
  show "small_sound taken good n (wa_step S e u)"
  proof (cases e)
    case Thread
    with byte_sink.small_thread [OF assms(1) u [unfolded s]] s show ?thesis by simp
  next
    case (Poll_Write buf)
    with s asleep small_begin(1) [OF asleep(1)] show ?thesis by simp
  next
    case Poll_Flush
    with s asleep small_begin(2) [OF asleep(1)] show ?thesis by (simp split: prod.split)
  next
    case Front
    obtain r s1 where F: "front_step s = (r, s1)" by fastforce
    with Front s small_front [OF u [unfolded s] F] show ?thesis by simp
  qed
qed (rule assms(2))

theorem adapter_flush_leaves_buffer:
  assumes "byte_sink S taken good" and "good r" and "taken r = []" and "length p < min_size"
    and "\<And>r'. sk_flush S r' = (Ok (), r')"
  shows "(wa_run S es (wa_start r min_size) = (s, p, out) \<longrightarrow> taken (bg_writer s) = []) \<and>
    (\<exists>s1 s2 s3. wa_poll_write p (write_adapter_new r min_size) = (Some (Wrote (Ok (length p))), s1) \<and>
       wa_poll_flush s1 = (Some (Flushed Pending), s2) \<and>
       wa_poll_close ((bg_step S ^^ 3) s2) = (Some (Flushed (Ready (Ok ()))), s3) \<and>
       wa_buffer s3 = p \<and> bg_writer s3 = r)"
proof -
  have "small_sound taken good min_size (wa_start r min_size)"
    using assms(2,3) by (simp add: small_sound_def wa_start_def write_adapter_new_def)
  from small_run [OF assms(1) this, of es] assms(4)
  have "wa_run S es (wa_start r min_size) = (s, p, out) \<longrightarrow> taken (bg_writer s) = []" by (auto simp: small_sound_def)
  with assms(4,5) show ?thesis
    by (simp add: write_adapter_new_def wa_poll_write_def write_begin_def front_step_def status_recv_def write_rest_def Let_def
        numeral_2_eq_2 numeral_3_eq_3 wa_poll_flush_def wa_poll_close_def flush_begin_def wa_send_def flush_rest_def bg_step_def)
qed

text \<open>
  With a writer that always makes progress every command gets exactly one report, and the work the
  thread has left is bounded.
\<close>

definition progresses :: "'r sink \<Rightarrow> bool" where
  "progresses S \<longleftrightarrow> (\<forall>d r. d \<noteq> [] \<longrightarrow> (\<exists>n r'. sk_write S d r = (Ok n, r') \<and> 0 < n)) \<and>
     (\<forall>r. \<exists>r'. sk_flush S r = (Ok (), r'))"

definition wa_exact :: "'r write_adapter \<Rightarrow> bool" where
  "wa_exact s \<longleftrightarrow> wa_pending s = length (wa_cmds s) + phase_count (bg_phase s) + length (wa_status s) \<and>
     set (wa_status s) \<subseteq> {Ok ()} \<and> (case bg_phase s of Retrying _ \<Rightarrow> False | Ended \<Rightarrow> False | _ \<Rightarrow> True)"

fun cmd_work :: "write_cmd \<Rightarrow> nat" where
  "cmd_work (Cmd_Write d) = length d + 2"
| "cmd_work Cmd_Flush = 3"

fun phase_work :: "bg_phase \<Rightarrow> nat" where
  "phase_work (Writing d) = length d + 1"
| "phase_work Flushing = 2"
| "phase_work Waking = 1"
| "phase_work _ = 0"

definition wa_work :: "'r write_adapter \<Rightarrow> nat" where
  "wa_work s = sum_list (map cmd_work (wa_cmds s)) + phase_work (bg_phase s)"

text \<open>The thread has a flush before it, or has yet to call the waker for the one it has done.\<close>

definition signal_due :: "'r write_adapter \<Rightarrow> bool" where
  "signal_due s \<longleftrightarrow> Cmd_Flush \<in> set (wa_cmds s) \<or> bg_phase s \<in> {Flushing, Waking}"

lemma front_step_exact: "wa_exact s \<Longrightarrow> front_step s = (r, s') \<Longrightarrow> wa_exact s'"
  by (cases "wa_front s"; cases "wa_status s")
    (auto simp: front_step_def status_recv_def write_rest_def flush_rest_def wa_send_def Let_def wa_exact_def split: if_splits)

lemma begin_exact:
  "wa_exact s \<Longrightarrow> wa_exact (write_begin buf s)" "wa_exact s \<Longrightarrow> flush_begin s = (r, s') \<Longrightarrow> wa_exact s'"
  by (auto simp: wa_exact_def write_begin_def flush_begin_def wa_send_def split: if_splits)

lemma bg_step_exact:
  assumes "progresses S" and "wa_exact s"
  shows "wa_exact (bg_step S s) \<and> (0 < wa_work s \<longrightarrow> wa_work (bg_step S s) < wa_work s) \<and>
    (wa_work s = 0 \<longrightarrow> bg_step S s = s \<and> wa_cmds s = [] \<and> bg_phase s = Idle) \<and>
    (wa_flush_waker s \<and> (signal_due s \<or> wa_woken s) \<longrightarrow> signal_due (bg_step S s) \<or> wa_woken (bg_step S s))"
proof (cases "bg_phase s")
  case Idle
  then show ?thesis using assms(2)
    by (auto simp: bg_step_def wa_exact_def wa_work_def signal_due_def split: list.split write_cmd.split)
next
  case Flushing
  obtain r' where "sk_flush S (bg_writer s) = (Ok (), r')" using assms(1) unfolding progresses_def by blast
  with Flushing assms(2) show ?thesis by (auto simp: bg_step_def wa_exact_def wa_work_def signal_due_def)
next
  case (Writing d)
  show ?thesis
  proof (cases "d = []")
    case True
    with Writing assms(2) show ?thesis by (auto simp: bg_step_def wa_exact_def wa_work_def signal_due_def)
  next
    case False
    with assms(1) obtain n r' where W: "sk_write S d (bg_writer s) = (Ok n, r')" "0 < n" unfolding progresses_def by blast
    from False W(2) have "length (drop n d) < length d" by simp
    with W(1) False Writing assms(2) show ?thesis
      by (auto simp: bg_step_def wa_exact_def wa_work_def signal_due_def)
  qed
qed (use assms(2) in \<open>auto simp: bg_step_def wa_exact_def wa_work_def signal_due_def\<close>)

lemma run_exact:
  assumes "progresses S"
  shows "wa_exact (fst (wa_run S es (wa_start r min_size)))"
proof (rule wa_run_invariant [where I = "\<lambda>t. wa_exact (fst t)"])
  fix e and u :: "'a write_adapter \<times> bytes \<times> wa_result option"
  assume "wa_exact (fst u)"
  moreover from this have "wa_exact ((fst u)\<lparr>wa_woken := False\<rparr>)" by (simp add: wa_exact_def)
  ultimately show "wa_exact (fst (wa_step S e u))"
    by (cases u; cases e)
      (auto simp: bg_step_exact [OF assms] begin_exact(1) split: prod.split dest: front_step_exact begin_exact(2))
qed (simp add: wa_start_def wa_exact_def write_adapter_new_def)

lemma bg_steps_finish:
  assumes "progresses S" and "wa_exact s" and "wa_flush_waker s" and "signal_due s \<or> wa_woken s" and "wa_work s \<le> k"
  defines "t \<equiv> (bg_step S ^^ k) s"
  shows "wa_exact t \<and> wa_flush_waker t \<and> wa_woken t \<and> wa_cmds t = [] \<and> bg_phase t = Idle \<and> wa_front t = wa_front s"
  using assms(2-5) unfolding t_def
proof (induction k arbitrary: s)
  case 0
  with bg_step_exact [OF assms(1) 0(1)] show ?case by (auto simp: signal_due_def)
next
  case (Suc k)
  note b = bg_step_exact [OF assms(1) Suc.prems(1)]
  have "wa_work (bg_step S s) \<le> k" using b Suc.prems(4) by (cases "wa_work s = 0") auto
  with Suc.IH [of "bg_step S s"] b Suc.prems show ?case by (simp add: funpow_swap1 bg_step_frame)
qed

text \<open>The reports of finished commands are counted off one by one.\<close>

lemma flush_alone:
  "wa_front s = Flush_Status \<Longrightarrow> set (wa_status s) \<subseteq> {Ok ()} \<Longrightarrow> wa_pending s = length (wa_status s) \<Longrightarrow>
    fst (front_alone (length (wa_status s) + 2) s) = Some (Flushed (Ready (Ok ())))"
proof (induction "wa_status s" arbitrary: s)
  case (Cons x ss)
  let ?s = "s\<lparr>wa_status := ss, wa_pending := wa_pending s - 1\<rparr>"
  have x: "wa_status s = Ok () # ss" using Cons.hyps(2) [symmetric] Cons.prems(2) by auto
  then have "front_step s = (None, ?s)" using Cons.prems(1,3) by (simp add: front_step_def status_recv_def)
  moreover have "fst (front_alone (length (wa_status ?s) + 2) ?s) = Some (Flushed (Ready (Ok ())))"
    by (rule Cons.hyps(1)) (use Cons.prems x in simp_all)
  ultimately show ?case using x by simp
qed (simp add: front_step_def status_recv_def flush_rest_def)

lemma parked_run: "snd (snd (wa_run S es (wa_start r n))) = Some (Flushed Pending) \<Longrightarrow> wa_flush_waker (fst (wa_run S es (wa_start r n)))"
proof -
  let ?I = "\<lambda>t. snd (snd t) = Some (Flushed Pending) \<longrightarrow> wa_flush_waker (fst t)"
  have "?I (wa_run S es (wa_start r n))"
  proof (rule wa_run_invariant [where I = ?I])
    fix e and u :: "'a write_adapter \<times> bytes \<times> wa_result option"
    have F: "wa_flush_waker s'" if "front_step s = (Some (Flushed Pending), s')" for s s' :: "'a write_adapter"
      using that by (auto simp: front_step_def status_recv_def write_rest_def flush_rest_def Let_def
          split: wa_front.splits list.splits result.splits if_splits prod.splits)
    show "?I (wa_step S e u)"
      by (cases u; cases e) (auto simp: flush_begin_def wa_send_def split: prod.split intro: F)
  qed (simp add: wa_start_def)
  then show "snd (snd (wa_run S es (wa_start r n))) = Some (Flushed Pending) \<Longrightarrow> wa_flush_waker (fst (wa_run S es (wa_start r n)))" by blast
qed

text \<open>
  C31: a flush that waits completes, if the writer makes progress and the waker was registered before
  the thread came to signal the flush: after a number of steps of the thread bounded by the bytes queued
  the task has been woken, and its next poll returns. Both conditions are needed, see
  \<open>adapter_flush_can_hang\<close>.
\<close>

theorem adapter_flush_completes:
  assumes "progresses S" and "wa_run S es (wa_start r min_size) = (s, acc, Some (Flushed Pending))"
    and "signal_due s" and "wa_work s \<le> k"
  shows "wa_woken ((bg_step S ^^ k) s) \<and> fst (wa_poll_flush ((bg_step S ^^ k) s)) = Some (Flushed (Ready (Ok ())))"
proof -
  have "wa_exact s" using run_exact [OF assms(1), of es r min_size] assms(2) by simp
  moreover have "wa_flush_waker s" using parked_run [of S es r min_size] assms(2) by simp
  ultimately have f: "wa_exact ((bg_step S ^^ k) s)" "wa_flush_waker ((bg_step S ^^ k) s)" "wa_woken ((bg_step S ^^ k) s)"
    "wa_cmds ((bg_step S ^^ k) s) = []" "bg_phase ((bg_step S ^^ k) s) = Idle"
    using bg_steps_finish [OF assms(1) _ _ _ assms(4)] assms(3) by blast+
  let ?t = "((bg_step S ^^ k) s)\<lparr>wa_front := Flush_Status\<rparr>"
  have "wa_poll_flush ((bg_step S ^^ k) s) = front_alone (length (wa_status ?t) + 2) ?t"
    using f(2) by (simp add: wa_poll_flush_def flush_begin_def)
  moreover have "fst (front_alone (length (wa_status ?t) + 2) ?t) = Some (Flushed (Ready (Ok ())))"
    by (rule flush_alone) (use f(1,4,5) in \<open>simp_all add: wa_exact_def\<close>)
  ultimately show ?thesis using f(3) by simp
qed

text \<open>
  a flush can wait for ever. When the thread finishes it between the test for pending commands and
  the registration of the waker, nobody is left to wake the task; and when a write fails while a flush
  waits, the thread waits for a retry that only a new write would request, and wakes nobody.
\<close>

theorem adapter_flush_can_hang:
  assumes "sk_flush S r = (Ok (), r')" and "sk_write S d q = (Err e, q')" and "e \<notin> {WouldBlock, Interrupted}" and "d \<noteq> []"
    and "bg_phase t = Writing d" and "bg_writer t = q" and "wa_alive t" and "\<not> wa_enabled t" and "\<not> wa_woken t"
  shows "(\<exists>s1. wa_run S [Poll_Flush, Front, Thread, Thread, Thread, Front] (wa_start r min_size) = (s1, [], Some (Flushed Pending)) \<and>
      (\<forall>k. \<not> wa_woken ((bg_step S ^^ k) s1))) \<and>
    (\<forall>k. \<not> wa_woken ((bg_step S ^^ Suc k) t) \<and> bg_phase ((bg_step S ^^ Suc k) t) = Retrying d)"
proof -
  define s1 where "s1 = (write_adapter_new r' min_size)\<lparr>wa_status := [Ok ()], wa_pending := 1, wa_flush_waker := True\<rparr>"
  have F: "wa_run S [Poll_Flush, Front, Thread, Thread, Thread, Front] (wa_start r min_size) = (s1, [], Some (Flushed Pending))"
    using assms(1)
    by (simp add: wa_start_def write_adapter_new_def flush_begin_def wa_send_def front_step_def status_recv_def flush_rest_def bg_step_def
        accepted_def s1_def)
  have "bg_step S s1 = s1" "\<not> wa_woken s1" by (simp_all add: bg_step_def s1_def write_adapter_new_def)
  then have one: "\<not> wa_woken ((bg_step S ^^ k) s1)" for k by (induction k) (simp_all add: funpow_swap1)
  define t1 where "t1 = bg_step S t"
  have t1: "bg_step S t1 = t1" "\<not> wa_woken t1" "bg_phase t1 = Retrying d"
    using assms(2-9) by (simp_all add: bg_step_def t1_def)
  then have "(bg_step S ^^ k) t1 = t1" for k by (induction k) simp_all
  then have "(bg_step S ^^ Suc k) t = t1" for k by (simp add: funpow_swap1 t1_def)
  with t1 F one show ?thesis by auto
qed

section \<open>Examples\<close>

lemma cursor_sink_progresses: "progresses cursor_sink"
  by (auto simp: progresses_def cursor_sink_def cursor_write_vec_def cursor_flush_def)

text \<open>Three bytes accepted, one more collected, and the first command received.\<close>

definition demo_events :: "wa_event list" where
  "demo_events = [Poll_Write [1, 2, 3], Front, Front, Poll_Write [4], Front, Thread]"

lemma demo_run:
  "wa_run cursor_sink demo_events (wa_start (cursor_from []) 2) =
     ((write_adapter_new (cursor_from []) 2)\<lparr>bg_phase := Writing [1, 2, 3], wa_buffer := [4], wa_pending := 1\<rparr>, [1, 2, 3, 4], None)"
  by (simp add: demo_events_def wa_start_def write_adapter_new_def write_begin_def front_step_def status_recv_def write_rest_def
      wa_send_def bg_step_def accepted_def offered_def Let_def)

theorem adapter_write_in_order_witness:
  "\<exists>s. wa_run cursor_sink demo_events (wa_start (cursor_from []) 2) = (s, [1, 2, 3, 4], None) \<and> wa_buffer s = [4] \<and>
     (\<exists>under_way. cu_inner (bg_writer s) @ under_way @ wa_buffer s = [1, 2, 3, 4])"
proof -
  have "cu_inner (cursor_from []) = []" "cu_pos (cursor_from []) = 0" by (simp_all add: cursor_from_def)
  with adapter_write_in_order [OF cursor_sink.byte_sink_axioms _ _ demo_run] show ?thesis
    by (simp add: demo_run write_adapter_new_def)
qed

theorem adapter_flush_leaves_buffer_witness:
  "\<exists>s1 s2 s3. wa_poll_write [7] (write_adapter_new (cursor_from []) 2) = (Some (Wrote (Ok 1)), s1) \<and>
     wa_poll_flush s1 = (Some (Flushed Pending), s2) \<and>
     wa_poll_close ((bg_step cursor_sink ^^ 3) s2) = (Some (Flushed (Ready (Ok ()))), s3) \<and> wa_buffer s3 = [7] \<and> bg_writer s3 = cursor_from []"
  using adapter_flush_leaves_buffer [OF cursor_sink.byte_sink_axioms, of "cursor_from []" "[7]" 2]
  by (simp add: cursor_from_def cursor_sink_def cursor_flush_def)

theorem adapter_flush_completes_witness:
  "\<exists>s. wa_run cursor_sink (demo_events @ [Poll_Flush, Front, Front]) (wa_start (cursor_from []) 2) = (s, [1, 2, 3, 4], Some (Flushed Pending)) \<and>
     wa_work s = 7 \<and> wa_woken ((bg_step cursor_sink ^^ 7) s) \<and>
     fst (wa_poll_flush ((bg_step cursor_sink ^^ 7) s)) = Some (Flushed (Ready (Ok ())))"
proof -
  obtain s where s: "wa_run cursor_sink (demo_events @ [Poll_Flush, Front, Front]) (wa_start (cursor_from []) 2) = (s, [1, 2, 3, 4], Some (Flushed Pending))"
    and w: "signal_due s" "wa_work s = 7"
    by (simp add: demo_run write_adapter_new_def flush_begin_def wa_send_def front_step_def status_recv_def flush_rest_def accepted_def
        signal_due_def wa_work_def)
  from adapter_flush_completes [OF cursor_sink_progresses s w(1), of 7] s w(2) show ?thesis by simp
qed

text \<open>A sink on a full device.\<close>

definition full_sink :: "cursor sink" where
  "full_sink = \<lparr>sk_write = (\<lambda>d c. (Err OtherError, c)), sk_flush = cursor_flush\<rparr>"

theorem adapter_flush_can_hang_witness:
  "(\<exists>s1. wa_run full_sink [Poll_Flush, Front, Thread, Thread, Thread, Front] (wa_start (cursor_from []) 2) = (s1, [], Some (Flushed Pending)) \<and>
      (\<forall>k. \<not> wa_woken ((bg_step full_sink ^^ k) s1))) \<and>
   (\<forall>k. \<not> wa_woken ((bg_step full_sink ^^ Suc k) ((write_adapter_new (cursor_from []) 2)\<lparr>bg_phase := Writing [1]\<rparr>)))"
  using adapter_flush_can_hang [of full_sink "cursor_from []" "cursor_from []" "[1]" "cursor_from []" OtherError "cursor_from []"
      "(write_adapter_new (cursor_from []) 2)\<lparr>bg_phase := Writing [1]\<rparr>" 2]
  by (simp add: full_sink_def cursor_flush_def write_adapter_new_def)

end
