(* ===== verification/Adapter_Disk.thy ===== *)
theory Adapter_Disk
  imports Adapter_Write Disks
begin

text \<open>
  \<open>SyncAsAsync\<close> as a disk (\<open>src/entry/adapters.rs\<close>): the blocking traits go to the disk inside, the
  asynchronous ones open it and hand its reader or writer to a thread. A whole session over a plain file
  puts the two adapters, the file and the buffered writer together.
\<close>

section \<open>Opening\<close>

definition sa_read_disk :: "('d, 'wr, 'w) disk_ops \<Rightarrow> 'd sync_as_async \<Rightarrow> 'w \<Rightarrow> (bytes, io_error) result \<times> 'w" where
  "sa_read_disk D d w = d_read D (sa_inner d) w"

definition sa_write_disk :: "('d, 'wr, 'w) disk_ops \<Rightarrow> 'd sync_as_async \<Rightarrow> 'w \<Rightarrow> ('wr, io_error) result \<times> 'w" where
  "sa_write_disk D d w = d_write D (sa_inner d) w"

text \<open>\<open>SyncAsAsync\<close> as a blocking disk.\<close>

definition sa_disk :: "('d, 'wr, 'w) disk_ops \<Rightarrow> ('d sync_as_async, 'wr, 'w) disk_ops" where
  "sa_disk D = \<lparr>d_read = sa_read_disk D, d_write = sa_write_disk D, wr_write = wr_write D, wr_flush = wr_flush D,
     wr_drop = wr_drop D\<rparr>"

definition sa_async_read_disk ::
  "('d, 'wr, 'w) disk_ops \<Rightarrow> 'd sync_as_async \<Rightarrow> 'w \<Rightarrow> (cursor read_adapter, io_error) result \<times> 'w" where
  "sa_async_read_disk D d w =
     (case d_read D (sa_inner d) w of
        (r, w1) \<Rightarrow> (map_ok (\<lambda>b. read_adapter_new (cursor_from b) (sa_read_buffer_size d)) r, w1))"

text \<open>The thread owns the writer, and the part of the world the writer acts on.\<close>

definition sa_async_write_disk ::
  "('d, 'wr, 'w) disk_ops \<Rightarrow> 'd sync_as_async \<Rightarrow> 'w \<Rightarrow> (('wr \<times> 'w) write_adapter, io_error) result \<times> 'w" where
  "sa_async_write_disk D d w =
     (case d_write D (sa_inner d) w of
        (r, w1) \<Rightarrow> (map_ok (\<lambda>wr. write_adapter_new (wr, w1) (sa_write_buffer_min_size d)) r, w1))"

text \<open>The writer of a disk as the thread sees it; what it accepts, it accepts whole.\<close>

definition disk_sink :: "('d, 'wr, 'w) disk_ops \<Rightarrow> ('wr \<times> 'w) sink" where
  "disk_sink D = \<lparr>
     sk_write = (\<lambda>d (wr, w). case wr_write D wr d w of (r, wr1, w1) \<Rightarrow> (map_ok (\<lambda>_. length d) r, (wr1, w1))),
     sk_flush = (\<lambda>(wr, w). case wr_flush D wr w of (r, wr1, w1) \<Rightarrow> (r, (wr1, w1)))\<rparr>"

text \<open>
  The end of the thread: \<open>recv\<close> fails once the adapter is dropped and its commands are done, or the
  thread has returned before; its writer is dropped with it.
\<close>

definition bg_exit :: "('d, 'wr, 'w) disk_ops \<Rightarrow> ('wr \<times> 'w) write_adapter \<Rightarrow> 'w option" where
  "bg_exit D s =
     (if bg_phase s = Ended \<or> bg_phase s = Idle \<and> wa_cmds s = [] \<and> \<not> wa_alive s
      then Some (case bg_writer s of (wr, w) \<Rightarrow> wr_drop D wr w) else None)"

section \<open>The blocking side\<close>

lemma sa_fields [simp]:
  "d_read (sa_disk D) d w = d_read D (sa_inner d) w" "d_write (sa_disk D) d w = d_write D (sa_inner d) w"
  "wr_write (sa_disk D) = wr_write D" "wr_flush (sa_disk D) = wr_flush D" "wr_drop (sa_disk D) = wr_drop D"
  by (simp_all add: sa_disk_def sa_read_disk_def sa_write_disk_def)

lemma sa_put: "put (sa_disk D) d ps ok w = put D (sa_inner d) ps ok w"
proof -
  have P: "write_pieces (sa_disk D) wr ps w = write_pieces D wr ps w" for wr w
    by (induction ps arbitrary: wr w) (auto split: prod.splits result.splits)
  have S: "serialize_flush (sa_disk D) wr ps ok w = serialize_flush D wr ps ok w" for wr w
    unfolding serialize_flush_def P sa_fields by (rule refl)
  show ?thesis unfolding put_def S sa_fields by (rule refl)
qed

lemma sa_keeps_contract:
  assumes "byte_disk D site stored writable"
  shows "byte_disk (sa_disk D) (\<lambda>d. site (sa_inner d)) (\<lambda>d. stored (sa_inner d)) (\<lambda>d. writable (sa_inner d))"
  by (unfold_locales; unfold sa_fields sa_put)
    (rule byte_disk.read_pure [OF assms] byte_disk.read_stored [OF assms] byte_disk.read_returns [OF assms]
      byte_disk.put_stored [OF assms] byte_disk.put_frame [OF assms] byte_disk.put_returns [OF assms]
      byte_disk.put_writable [OF assms] byte_disk.put_keeps_writable [OF assms]; assumption)+

interpretation adapted_plain: byte_disk "sa_disk plainfile_disk" "\<lambda>d. pf_path (sa_inner d)"
  "\<lambda>d. file_stored (pf_path (sa_inner d))" "\<lambda>d. file_writable (pf_path (sa_inner d))"
  by (rule sa_keeps_contract [OF plain.byte_disk_axioms])

section \<open>A buffered file as a blocking writer\<close>

definition file_taken :: "buf_writer \<times> fs \<Rightarrow> bytes" where
  "file_taken x = (case x of (b, s) \<Rightarrow> the (files s (fh_path (bw_inner b))) @ bw_buf b)"

definition file_good :: "path \<Rightarrow> buf_writer \<times> fs \<Rightarrow> bool" where
  "file_good p x \<longleftrightarrow> (case x of (b, s) \<Rightarrow> fh_path (bw_inner b) = p \<and> \<not> full s p \<and> \<not> faulty s p \<and> (\<exists>c. buf_holds b c s))"

lemma file_taken_holds: "buf_holds b c s \<Longrightarrow> file_taken (b, s) = c"
  by (auto simp: file_taken_def buf_holds_def file_holds_def)

lemma file_good_step:
  assumes "touches p s s'" and "fh_path (bw_inner b') = p" and "file_good p (b, s)" and "buf_holds b' c s'"
  shows "file_good p (b', s')"
  using assms by (auto simp: file_good_def touches_def)

lemma file_write_sink:
  assumes g: "file_good p (b, s)" and W: "sk_write (disk_sink plainfile_disk) d (b, s) = (q, x)"
  shows "q = Ok (length d) \<and> file_taken x = file_taken (b, s) @ d \<and> file_good p x"
proof -
  from g obtain c where c: "buf_holds b c s" "fh_path (bw_inner b) = p" "\<not> full s p" by (auto simp: file_good_def)
  with buf_write_all_holds [OF c(1), of d] obtain b' s' where
    B: "buf_write_all b d s = (Ok (), b', s')" "buf_holds b' (c @ d) s'" by auto
  have "touches p s s'" "fh_path (bw_inner b') = p" using buf_write_all_touches [OF B(1)] c(2) by simp_all
  from file_good_step [OF this g B(2)] W B c(1) show ?thesis
    by (auto simp: disk_sink_def plainfile_disk_def file_taken_holds)
qed

lemma file_flush_sink:
  assumes g: "file_good p (b, s)" and F: "sk_flush (disk_sink plainfile_disk) (b, s) = (q, x)"
  shows "q = Ok () \<and> file_taken x = file_taken (b, s) \<and> file_good p x"
proof -
  from g obtain c where c: "buf_holds b c s" "fh_path (bw_inner b) = p" "\<not> full s p" by (auto simp: file_good_def)
  obtain b' s' where B: "buf_flush b s = (Ok (), b', s')" "buf_holds b' c s'"
    using buf_flush_holds [OF c(1)] c(2,3) buf_flushed_holds [OF c(1)] by (auto simp: buf_holds_def)
  have "touches p s s'" "fh_path (bw_inner b') = p" using buf_flush_touches [OF B(1)] c(2) by simp_all
  from file_good_step [OF this g B(2)] F B c(1) show ?thesis
    by (auto simp: disk_sink_def plainfile_disk_def file_taken_holds)
qed

interpretation file_sink: byte_sink "disk_sink plainfile_disk" file_taken "file_good p"
proof
  fix r r' :: "buf_writer \<times> fs" and d q n e
  assume g: "file_good p r"
  obtain b s where r: "r = (b, s)" by fastforce
  note w = file_write_sink [OF g [unfolded r], folded r] and f = file_flush_sink [OF g [unfolded r], folded r]
  show "sk_write (disk_sink plainfile_disk) d r = (Ok n, r') \<Longrightarrow> n \<le> length d \<and> file_taken r' = file_taken r @ take n d"
    using w by fastforce
  show "sk_write (disk_sink plainfile_disk) d r = (Err e, r') \<Longrightarrow> file_taken r' = file_taken r" using w by fastforce
  show "sk_flush (disk_sink plainfile_disk) r = (q, r') \<Longrightarrow> file_taken r' = file_taken r" using f by fastforce
  show "sk_flush (disk_sink plainfile_disk) r = (q, r') \<Longrightarrow> file_good p r'" using f by fastforce
next
  fix r r' :: "buf_writer \<times> fs" and d q
  assume "file_good p r" and "sk_write (disk_sink plainfile_disk) d r = (q, r')"
  then show "file_good p r'" using file_write_sink [of p "fst r" "snd r"] by simp
qed

lemma file_dropped:
  assumes "file_good p (b, s)"
  shows "file_stored p (buf_drop b s) = Some (file_taken (b, s))"
proof -
  from assms obtain c where c: "buf_holds b c s" "fh_path (bw_inner b) = p" "\<not> full s p" "\<not> faulty s p"
    by (auto simp: file_good_def)
  with buf_flush_holds [OF c(1)] show ?thesis
    by (auto simp: buf_drop_def file_stored_def file_taken_holds set_file_def)
qed

section \<open>The thread stays alive\<close>

context byte_sink
begin

lemma run_never_ends:
  assumes "\<And>r d. good r \<Longrightarrow> fst (sk_write S d r) \<noteq> Panic" and "\<And>r. good r \<Longrightarrow> fst (sk_flush S r) \<noteq> Panic"
    and "wa_sound taken good t" and "wa_alive (fst t)" and "bg_phase (fst t) \<noteq> Ended"
  shows "wa_sound taken good (wa_run S es t) \<and> wa_alive (fst (wa_run S es t)) \<and> bg_phase (fst (wa_run S es t)) \<noteq> Ended"
proof (rule wa_run_invariant [where I = "\<lambda>t. wa_sound taken good t \<and> wa_alive (fst t) \<and> bg_phase (fst t) \<noteq> Ended"])
  fix e u assume u: "wa_sound taken good u \<and> wa_alive (fst u) \<and> bg_phase (fst u) \<noteq> Ended"
  obtain s acc out where s: "u = (s, acc, out)" by (cases u)
  have g: "good (bg_writer s)" using u s by (simp add: wa_sound_def)
  have T: "bg_phase (bg_step S s) \<noteq> Ended"
    using u s assms(1) [OF g] assms(2) [OF g]
    by (auto simp: bg_step_def split: bg_phase.split list.split write_cmd.split prod.split result.split)
      (metis fst_conv)+
  have "wa_alive (fst (wa_step S e u)) \<and> bg_phase (fst (wa_step S e u)) \<noteq> Ended"
    using u s T by (cases e) (auto simp: bg_step_frame begin_frame split: prod.split dest: front_step_frame begin_frame(5))
  with u step_sound show "wa_sound taken good (wa_step S e u) \<and> wa_alive (fst (wa_step S e u)) \<and> bg_phase (fst (wa_step S e u)) \<noteq> Ended"
    by blast
qed (use assms in blast)

end

section \<open>Properties\<close>

lemma cursor_from_all: "cursor_fill_buf (cursor_from b) = b"
  by (simp add: cursor_fill_buf_def cursor_from_def)

lemma plain_opens_writable:
  assumes "file_writable (pf_path d) s"
  shows "\<exists>b s1. d_write plainfile_disk d s = (Ok b, s1) \<and> file_good (pf_path d) (b, s1) \<and> file_taken (b, s1) = []"
  using assms by (auto simp: plainfile_disk_def plainfile_write_disk_def fs_open_truncate_def file_writable_def
      file_good_def file_taken_def buf_holds_def file_holds_def appending_def set_file_def)

text \<open>
  C30: a plain file behind \<open>SyncAsAsync\<close>. The file opens; however the caller and the thread interleave,
  when a flush has just succeeded and the adapter is dropped, the thread ends (one step later if it has
  yet to look for a waker), and what a blocking or an asynchronous read of the same disk then returns is
  what was accepted, in order, apart from a rest below the minimal size that had not been sent.
\<close>

theorem adapter_disk_roundtrip:
  assumes "file_writable (pf_path (sa_inner d)) s" and "0 < sa_read_buffer_size d" and "\<And>i. 0 < room i"
  shows "\<exists>t0 s1. sa_async_write_disk plainfile_disk d s = (Ok t0, s1) \<and>
    (\<forall>es t acc. wa_run (disk_sink plainfile_disk) es (t0, [], None) = (t, acc, Some (Flushed (Ready (Ok ())))) \<longrightarrow>
      (\<exists>k s2 content ra. k \<le> 1 \<and> bg_exit plainfile_disk ((bg_step (disk_sink plainfile_disk) ^^ k) (wa_drop t)) = Some s2 \<and>
        acc = content @ wa_buffer t \<and> (wa_buffer t = [] \<or> length (wa_buffer t) < sa_write_buffer_min_size d) \<and>
        sa_read_disk plainfile_disk d s2 = (Ok content, s2) \<and>
        sa_async_read_disk plainfile_disk d s2 = (Ok ra, s2) \<and>
        fst (read_to_end (read_poll_read cursor_read) (\<lambda>_. bg_answer cursor_read) room (2 * length content + 2) [] ra) =
          Some (Ok content)))"
proof -
  let ?p = "pf_path (sa_inner d)"
  let ?S = "disk_sink plainfile_disk"
  from plain_opens_writable [OF assms(1)] obtain b s1 where
    O: "d_write plainfile_disk (sa_inner d) s = (Ok b, s1)" "file_good ?p (b, s1)" "file_taken (b, s1) = []" by blast
  define t0 where "t0 = write_adapter_new (b, s1) (sa_write_buffer_min_size d)"
  have "wa_sound file_taken (file_good ?p) (wa_start (b, s1) (sa_write_buffer_min_size d))" using O(2,3) by (rule start_sound)
  then have start: "wa_sound file_taken (file_good ?p) (t0, [], None)" "wa_start (b, s1) (sa_write_buffer_min_size d) = (t0, [], None)"
    by (simp_all add: t0_def wa_start_def)
  have calm: "fst (sk_write ?S c x) \<noteq> Panic" "fst (sk_flush ?S x) \<noteq> Panic" if "file_good ?p x" for x c
    using that file_write_sink [of ?p "fst x" "snd x" c] file_flush_sink [of ?p "fst x" "snd x"]
    by (metis prod.collapse result.distinct(3))+
  have session: "\<exists>k s2 content ra. k \<le> 1 \<and> bg_exit plainfile_disk ((bg_step ?S ^^ k) (wa_drop t)) = Some s2 \<and>
        acc = content @ wa_buffer t \<and> (wa_buffer t = [] \<or> length (wa_buffer t) < sa_write_buffer_min_size d) \<and>
        sa_read_disk plainfile_disk d s2 = (Ok content, s2) \<and>
        sa_async_read_disk plainfile_disk d s2 = (Ok ra, s2) \<and>
        fst (read_to_end (read_poll_read cursor_read) (\<lambda>_. bg_answer cursor_read) room (2 * length content + 2) [] ra) =
          Some (Ok content)"
    if R: "wa_run ?S es (t0, [], None) = (t, acc, Some (Flushed (Ready (Ok ()))))" for es t acc
  proof -
    from file_sink.run_never_ends [OF calm start(1), of es] R
    have sound: "wa_sound file_taken (file_good ?p) (t, acc, Some (Flushed (Ready (Ok ()))))" "bg_phase t \<noteq> Ended"
      by (simp_all add: t0_def write_adapter_new_def)
    then have q: "wa_cmds t = []" "bg_phase t = Idle \<or> bg_phase t = Waking" "wa_front t = Resting"
      by (auto simp: wa_sound_def quiet_def)
    have min: "wa_min_size t = sa_write_buffer_min_size d"
      using run_min [of ?S es "(b, s1)" "sa_write_buffer_min_size d"] R by (simp add: start(2))
    obtain b' s' where W: "bg_writer t = (b', s')" by fastforce
    from sound q W min have content: "acc = file_taken (b', s') @ wa_buffer t" "file_good ?p (b', s')"
      "wa_buffer t = [] \<or> length (wa_buffer t) < sa_write_buffer_min_size d" by (auto simp: wa_sound_def)
    let ?s2 = "buf_drop b' s'" and ?k = "if bg_phase t = Idle then 0 else 1"
    have X: "bg_exit plainfile_disk ((bg_step ?S ^^ ?k) (wa_drop t)) = Some ?s2"
      using q W by (auto simp: bg_exit_def wa_drop_def plainfile_disk_def bg_step_def)
    have D: "d_read plainfile_disk (sa_inner d) ?s2 = (Ok (file_taken (b', s')), ?s2)"
      by (rule plain.read_of_stored) (rule file_dropped [OF content(2)])
    have E: "fst (read_to_end (read_poll_read cursor_read) (\<lambda>_. bg_answer cursor_read) room
        (2 * length (file_taken (b', s')) + 2) []
        (read_adapter_new (cursor_from (file_taken (b', s'))) (sa_read_buffer_size d))) = Some (Ok (file_taken (b', s')))"
      using cursor_src.reads_to_the_end [OF _ assms(2), where room = room and r = "cursor_from (file_taken (b', s'))"
          and k = "2 * length (file_taken (b', s')) + 2"] assms(3) cursor_from_all
      by (simp add: cursor_read_def del: read_to_end.simps)
    show ?thesis
      by (rule exI [of _ ?k], rule exI [of _ ?s2]) (use X D E content in \<open>simp add: sa_read_disk_def sa_async_read_disk_def\<close>)
  qed
  have "sa_async_write_disk plainfile_disk d s = (Ok t0, s1)" using O(1) by (simp add: sa_async_write_disk_def t0_def)
  with session show ?thesis by blast
qed

text \<open>
  C40: a flush that has had to wait is the last one. Its waker stays registered, which the adapter takes
  for a flush under way: once it has succeeded, however caller and thread go on, no flush command is sent
  to the thread and none is under way, so a later flush reports success without the writer having been
  flushed; and once the thread has called the waker for the last time (it may do so after the flush has
  returned), nobody wakes the task of a later flush that finds writes under way.
\<close>

definition no_more_flushes :: "'r write_adapter \<Rightarrow> bool" where
  "no_more_flushes s \<longleftrightarrow> Cmd_Flush \<notin> set (wa_cmds s) \<and> bg_phase s \<noteq> Flushing"

definition last_flush :: "'r write_adapter \<Rightarrow> bool" where
  "last_flush s \<longleftrightarrow> wa_flush_waker s \<and> no_more_flushes s"

lemma last_flush_step:
  assumes "last_flush (fst t)"
  shows "last_flush (fst (wa_step S e t)) \<and>
    (bg_phase (fst t) \<noteq> Waking \<and> \<not> wa_woken (fst t) \<longrightarrow> bg_phase (fst (wa_step S e t)) \<noteq> Waking \<and> \<not> wa_woken (fst (wa_step S e t)))"
proof (cases t)
  case (fields s acc out)
  show ?thesis
  proof (cases e)
    case Thread
    with assms fields show ?thesis
      by (auto simp: last_flush_def no_more_flushes_def bg_step_def split: bg_phase.split list.split write_cmd.split prod.split result.split)
  next
    case Front
    obtain r s1 where "front_step s = (r, s1)" by fastforce
    with front_step_frame [OF this] Front assms fields show ?thesis by (auto simp: last_flush_def no_more_flushes_def)
  qed (use assms fields in \<open>auto simp: last_flush_def no_more_flushes_def write_begin_def flush_begin_def\<close>)
qed

lemma last_flush_run:
  assumes "last_flush (fst t)"
  shows "last_flush (fst (wa_run S es t))"
    and "bg_phase (fst t) \<noteq> Waking \<Longrightarrow> \<not> wa_woken (fst t) \<Longrightarrow> \<not> wa_woken (fst (wa_run S es t))"
proof -
  show "last_flush (fst (wa_run S es t))"
    by (rule wa_run_invariant [where I = "\<lambda>t. last_flush (fst t)"]) (use assms last_flush_step in blast)+
  assume "bg_phase (fst t) \<noteq> Waking" "\<not> wa_woken (fst t)"
  with assms have "last_flush (fst (wa_run S es t)) \<and> bg_phase (fst (wa_run S es t)) \<noteq> Waking \<and> \<not> wa_woken (fst (wa_run S es t))"
    by (intro wa_run_invariant [where I = "\<lambda>t. last_flush (fst t) \<and> bg_phase (fst t) \<noteq> Waking \<and> \<not> wa_woken (fst t)"])
      (use last_flush_step in blast)+
  then show "\<not> wa_woken (fst (wa_run S es t))" by blast
qed

theorem adapter_flushes_once:
  assumes "byte_sink S taken good" and "good r" and "taken r = []"
    and "wa_run S es (wa_start r min_size) = (s, acc, Some (Flushed (Ready (Ok ()))))" and "bg_phase s \<noteq> Ended" and "wa_flush_waker s"
    and "wa_run S fs (s, acc, Some (Flushed (Ready (Ok ())))) = (u, acc', out)"
  shows "no_more_flushes u \<and>
    (bg_phase u \<noteq> Waking \<and> \<not> wa_woken u \<longrightarrow> (\<forall>gs. \<not> wa_woken (fst (wa_run S gs (u, acc', out)))))"
proof -
  have "wa_sound taken good (wa_start r min_size)" using assms(2,3) by (rule start_sound)
  from byte_sink.run_sound [OF assms(1) this, of es] assms(4-6) have "last_flush s"
    by (auto simp: wa_sound_def quiet_def last_flush_def no_more_flushes_def)
  with last_flush_run(1) [of "(s, acc, Some (Flushed (Ready (Ok ()))))" S fs] assms(7) have "last_flush u" by simp
  with last_flush_run(2) [of "(u, acc', out)" S] show ?thesis by (auto simp: last_flush_def)
qed

section \<open>Examples\<close>

text \<open>A file behind the adapter with a minimal size of 4: the last bytes stay behind when there are too few of them.\<close>

abbreviation demo_adapted :: "plainfile sync_as_async" where
  "demo_adapted \<equiv> sync_as_async_new (Plainfile [''a'']) None (Some 4)"

theorem adapter_disk_roundtrip_witness:
  "\<exists>t0 s1 es t k s2 content. sa_async_write_disk plainfile_disk demo_adapted empty_fs = (Ok t0, s1) \<and>
     wa_run (disk_sink plainfile_disk) es (t0, [], None) = (t, [1, 2], Some (Flushed (Ready (Ok ())))) \<and>
     bg_exit plainfile_disk ((bg_step (disk_sink plainfile_disk) ^^ k) (wa_drop t)) = Some s2 \<and> [1, 2] = content @ wa_buffer t \<and>
     sa_read_disk plainfile_disk demo_adapted s2 = (Ok content, s2)"
proof -
  let ?S = "disk_sink plainfile_disk"
  let ?es = "[Poll_Write [1, 2], Front, Poll_Flush, Thread, Thread, Front, Front]"
  have w: "file_writable (pf_path (sa_inner demo_adapted)) empty_fs"
    by (simp add: sync_as_async_new_def file_writable_def empty_fs_def parent_def)
  have "0 < sa_read_buffer_size demo_adapted"
    by (simp add: sync_as_async_new_def default_read_buffer_size_def)
  with w obtain t0 s1 where O: "sa_async_write_disk plainfile_disk demo_adapted empty_fs = (Ok t0, s1)"
    and P: "\<And>es t acc. wa_run ?S es (t0, [], None) = (t, acc, Some (Flushed (Ready (Ok ())))) \<Longrightarrow>
      \<exists>k s2 content. bg_exit plainfile_disk ((bg_step ?S ^^ k) (wa_drop t)) = Some s2 \<and> acc = content @ wa_buffer t \<and>
        sa_read_disk plainfile_disk demo_adapted s2 = (Ok content, s2)"
    using adapter_disk_roundtrip [of demo_adapted empty_fs "\<lambda>_. 1"] by (metis zero_less_one)
  from plain_opens_writable [OF w] O obtain x where x: "t0 = write_adapter_new x 4" "file_good (pf_path (sa_inner demo_adapted)) x"
    by (auto simp: sa_async_write_disk_def sync_as_async_new_def)
  obtain y where y: "sk_flush ?S x = (Ok (), y)"
    using file_flush_sink [of _ "fst x" "snd x"] x(2) by (metis prod.collapse)
  have "\<exists>t. wa_run ?S ?es (t0, [], None) = (t, [1, 2], Some (Flushed (Ready (Ok ()))))"
    using y by (simp add: x(1) write_adapter_new_def write_begin_def front_step_def status_recv_def write_rest_def flush_begin_def wa_send_def
        flush_rest_def bg_step_def accepted_def offered_def Let_def)
  then obtain t where R: "wa_run ?S ?es (t0, [], None) = (t, [1, 2], Some (Flushed (Ready (Ok ()))))" ..
  from O R P [OF R] show ?thesis by blast
qed

theorem adapter_flushes_once_witness:
  "\<exists>s u. wa_run cursor_sink [Poll_Flush, Front, Front, Thread, Thread, Thread, Poll_Flush, Front, Front] (wa_start (cursor_from []) 2) =
      (s, [], Some (Flushed (Ready (Ok ())))) \<and>
     wa_run cursor_sink [Poll_Write [7, 8], Front, Front, Poll_Flush, Front, Front] (s, [], Some (Flushed (Ready (Ok ())))) =
       (u, [7, 8], Some (Flushed Pending)) \<and>
     no_more_flushes u \<and> (\<forall>gs. \<not> wa_woken (fst (wa_run cursor_sink gs (u, [7, 8], Some (Flushed Pending)))))"
proof -
  obtain s where s: "wa_run cursor_sink [Poll_Flush, Front, Front, Thread, Thread, Thread, Poll_Flush, Front, Front] (wa_start (cursor_from []) 2) =
      (s, [], Some (Flushed (Ready (Ok ()))))" "s = (write_adapter_new (cursor_from []) 2)\<lparr>wa_flush_waker := True\<rparr>"
    by (simp add: wa_start_def write_adapter_new_def flush_begin_def wa_send_def front_step_def status_recv_def flush_rest_def bg_step_def
        accepted_def cursor_sink_def cursor_flush_def)
  obtain u where u: "wa_run cursor_sink [Poll_Write [7, 8], Front, Front, Poll_Flush, Front, Front] (s, [], Some (Flushed (Ready (Ok ())))) =
       (u, [7, 8], Some (Flushed Pending))" "bg_phase u = Idle" "\<not> wa_woken u"
    by (simp add: s(2) write_adapter_new_def write_begin_def flush_begin_def wa_send_def front_step_def status_recv_def write_rest_def
        flush_rest_def accepted_def offered_def Let_def)
  have "cu_pos (cursor_from []) = length (cu_inner (cursor_from []))" "cu_inner (cursor_from []) = []" by (simp_all add: cursor_from_def)
  from adapter_flushes_once [OF cursor_sink.byte_sink_axioms this s(1) _ _ u(1)] s u show ?thesis
    by (simp add: write_adapter_new_def del: wa_run_simps)
qed

end
