(* ===== verification/Adapter_Coder.thy ===== *)
theory Adapter_Coder
  imports Formats
begin

text \<open>
  The coder adapters of \<open>src/entry/adapters.rs\<close>: \<open>SyncCoderAsyncDisk\<close> (a synchronous coder over
  asynchronous disks) and \<open>SyncCoderAsAsync\<close> (both synchronous, on another thread), the jobs they hand
  out, and the runner \<open>tokio_blocking\<close> of \<open>src/utils/blocking.rs\<close>. Every operation is awaited to its end.
\<close>

section \<open>The jobs\<close>

text \<open>\<open>DecodeBg::call\<close> and \<open>EncodeBg::call\<close>: the coder on the reader or the sink the job owns.\<close>

definition decode_bg_call :: "('c, 'v, 'e) coder_ops \<Rightarrow> 'c \<Rightarrow> bytes \<Rightarrow> ('v, 'e) result" where
  "decode_bg_call C c b = decode C c b"

definition encode_bg_call ::
  "('c, 'v, 'e) coder_ops \<Rightarrow> ('d, 'wr, 'w) disk_ops \<Rightarrow> 'c \<Rightarrow> 'v \<Rightarrow> 'wr \<Rightarrow> 'w \<Rightarrow> (unit, 'e) result \<times> 'w" where
  "encode_bg_call C D c data sink w = encode C D c data sink w"

text \<open>
  \<open>tokio_blocking\<close>: a spawned thread stores the result of the job in \<open>val\<close>, which is read when the
  thread has ended; a thread that panicked makes the \<open>unwrap\<close> panic.
\<close>

definition tokio_blocking :: "('w \<Rightarrow> ('a, 'e) result \<times> 'w) \<Rightarrow> 'w \<Rightarrow> ('a, 'e) result \<times> 'w" where
  "tokio_blocking job w =
     (case job w of
        (Ok v, w1) \<Rightarrow> (let val = Some (Ok v) in (the val, w1))
      | (Err e, w1) \<Rightarrow> (let val = Some (Err e) in (the val, w1))
      | (Panic, w1) \<Rightarrow> (Panic, w1))"

section \<open>A synchronous coder over asynchronous disks\<close>

text \<open>
  The handles are missing after deserialization. The encoding handle runs the coder on a vector and
  returns its bytes; the decoding handle runs the coder on the bytes that were read.
\<close>

record ('c, 'v, 'e) coder_async_disk =
  cad_coder :: 'c
  cad_read_handle :: "(('c \<Rightarrow> bytes \<Rightarrow> ('v, 'e) result)) option"
  cad_encode_handle :: "('c \<Rightarrow> 'v \<Rightarrow> (bytes, 'e) result) option"

definition cad_new ::
  "'c \<Rightarrow> ('c \<Rightarrow> bytes \<Rightarrow> ('v, 'e) result) \<Rightarrow> ('c \<Rightarrow> 'v \<Rightarrow> (bytes, 'e) result) \<Rightarrow> ('c, 'v, 'e) coder_async_disk" where
  "cad_new coder rd en = \<lparr>cad_coder = coder, cad_read_handle = Some rd, cad_encode_handle = Some en\<rparr>"

definition cad_deserialized :: "'c \<Rightarrow> ('c, 'v, 'e) coder_async_disk" where
  "cad_deserialized coder = \<lparr>cad_coder = coder, cad_read_handle = None, cad_encode_handle = None\<rparr>"

definition cad_set_handles ::
  "('c \<Rightarrow> bytes \<Rightarrow> ('v, 'e) result) \<Rightarrow> ('c \<Rightarrow> 'v \<Rightarrow> (bytes, 'e) result) \<Rightarrow> ('c, 'v, 'e) coder_async_disk \<Rightarrow>
     ('c, 'v, 'e) coder_async_disk" where
  "cad_set_handles rd en a = a\<lparr>cad_read_handle := Some rd, cad_encode_handle := Some en\<rparr>"

text \<open>\<open>decode\<close>: the missing handle is found first; then the source is read to its end.\<close>

definition cad_decode ::
  "('c, 'v, 'e) coder_ops \<Rightarrow> ('c, 'v, 'e) coder_async_disk \<Rightarrow> (bytes, io_error) result \<Rightarrow> ('v, 'e) result" where
  "cad_decode C a source =
     (case cad_read_handle a of
        None \<Rightarrow> Err (c_from_io C OtherError)
      | Some handle \<Rightarrow> (case source of
          Ok b \<Rightarrow> handle (cad_coder a) b
        | Err e \<Rightarrow> Err (c_from_io C e)
        | Panic \<Rightarrow> Panic))"

text \<open>
  \<open>encode\<close>: the bytes, then \<open>write_all\<close>, \<open>flush\<close> and \<open>close\<close> of the target, which is dropped on every exit.
\<close>

definition cad_encode ::
  "('c, 'v, 'e) coder_ops \<Rightarrow> ('d, 'wr, 'w) disk_ops \<Rightarrow> ('wr \<Rightarrow> 'w \<Rightarrow> (unit, io_error) result \<times> 'wr \<times> 'w) \<Rightarrow>
     ('c, 'v, 'e) coder_async_disk \<Rightarrow> 'v \<Rightarrow> 'wr \<Rightarrow> 'w \<Rightarrow> (unit, 'e) result \<times> 'w" where
  "cad_encode C D close a data target w =
     (case cad_encode_handle a of
        None \<Rightarrow> (Err (c_from_io C OtherError), wr_drop D target w)
      | Some handle \<Rightarrow>
          (case handle (cad_coder a) data of
             Err e \<Rightarrow> (Err e, wr_drop D target w)
           | Panic \<Rightarrow> (Panic, wr_drop D target w)
           | Ok encoded \<Rightarrow>
               (case wr_write D target encoded w of
                  (Ok _, t1, w1) \<Rightarrow>
                    (case wr_flush D t1 w1 of
                       (Ok _, t2, w2) \<Rightarrow>
                         (case close t2 w2 of (r, t3, w3) \<Rightarrow> (map_err (c_from_io C) r, wr_drop D t3 w3))
                     | (r, t2, w2) \<Rightarrow> (map_err (c_from_io C) r, wr_drop D t2 w2))
                | (r, t1, w1) \<Rightarrow> (map_err (c_from_io C) r, wr_drop D t1 w1))))"

section \<open>A synchronous coder with synchronous disks\<close>

record ('c, 'v, 'e, 'wr, 'w) coder_as_async =
  caa_coder :: 'c
  caa_decode_handle :: "'c \<Rightarrow> bytes \<Rightarrow> ('v, 'e) result"
  caa_encode_handle :: "'c \<Rightarrow> 'v \<Rightarrow> 'wr \<Rightarrow> 'w \<Rightarrow> (unit, 'e) result \<times> 'w"

definition caa_new ::
  "'c \<Rightarrow> ('c \<Rightarrow> bytes \<Rightarrow> ('v, 'e) result) \<Rightarrow> ('c \<Rightarrow> 'v \<Rightarrow> 'wr \<Rightarrow> 'w \<Rightarrow> (unit, 'e) result \<times> 'w) \<Rightarrow>
     ('c, 'v, 'e, 'wr, 'w) coder_as_async" where
  "caa_new coder dh eh = \<lparr>caa_coder = coder, caa_decode_handle = dh, caa_encode_handle = eh\<rparr>"

definition caa_decode :: "('c, 'v, 'e, 'wr, 'w) coder_as_async \<Rightarrow> bytes \<Rightarrow> ('v, 'e) result" where
  "caa_decode a source = caa_decode_handle a (caa_coder a) source"

definition caa_encode :: "('c, 'v, 'e, 'wr, 'w) coder_as_async \<Rightarrow> 'v \<Rightarrow> 'wr \<Rightarrow> 'w \<Rightarrow> (unit, 'e) result \<times> 'w" where
  "caa_encode a data target w = caa_encode_handle a (caa_coder a) data target w"

text \<open>The handle that runs the job with \<open>tokio_blocking\<close>.\<close>

definition tokio_encode ::
  "('c, 'v, 'e) coder_ops \<Rightarrow> ('d, 'wr, 'w) disk_ops \<Rightarrow> 'c \<Rightarrow> 'v \<Rightarrow> 'wr \<Rightarrow> 'w \<Rightarrow> (unit, 'e) result \<times> 'w" where
  "tokio_encode C D c data target = tokio_blocking (encode_bg_call C D c data target)"

definition vec_encode :: "('c, 'v, 'e) coder_ops \<Rightarrow> 'c \<Rightarrow> 'v \<Rightarrow> (bytes, 'e) result" where
  "vec_encode C c v = (case c_pieces C c v of (ps, None) \<Rightarrow> Ok (concat ps) | (ps, Some e) \<Rightarrow> Err e)"

section \<open>The adapters agree with the coder\<close>

lemma tokio_blocking_eq [simp]: "tokio_blocking job w = job w"
  by (cases "job w"; cases "fst (job w)") (auto simp: tokio_blocking_def)

lemma cad_session:
  assumes "vec_encode C c v = Ok b" and "cad_encode_handle a = Some (vec_encode C)" and "cad_coder a = c"
    and "\<And>t w. close t w = (Ok (), t, w)"
  shows "(case d_write D d w of
       (Ok t, w1) \<Rightarrow> cad_encode C D close a v t w1
     | (Err e, w1) \<Rightarrow> (Err (c_from_io C e), w1)
     | (Panic, w1) \<Rightarrow> (Panic, w1)) =
    (case put D d [b] True w of (r, w') \<Rightarrow> (map_err (\<lambda>x. case x of WriteIo e \<Rightarrow> c_from_io C e | FlushIo e \<Rightarrow> c_from_io C e
       | OpenIo e \<Rightarrow> c_from_io C e | Ser \<Rightarrow> c_from_io C OtherError) r, w'))"
proof (cases "d_write D d w")
  case (Pair q w1)
  show ?thesis
  proof (cases q)
    case (Ok t)
    obtain r1 t1 w2 where W: "wr_write D t b w1 = (r1, t1, w2)" by (metis prod_cases3)
    obtain r2 t2 w3 where F: "wr_flush D t1 w2 = (r2, t2, w3)" by (metis prod_cases3)
    show ?thesis
      using assms Pair Ok W F
      by (cases r1; cases r2) (simp_all add: cad_encode_def put_def serialize_flush_def)
  qed (use Pair in \<open>simp_all add: put_def\<close>)
qed

text \<open>
  a coder behind either adapter does what it does alone: \<open>SyncCoderAsAsync\<close> runs the same encoding
  and decoding, and over a disk that keeps the contract \<open>SyncCoderAsyncDisk\<close> leaves the bytes of the value,
  which it decodes again; without handles, after deserialization, both operations are errors.
\<close>

theorem coder_adapters_agree:
  assumes "byte_disk D site stored writable" and "coder_roundtrip C" and "accepts C c v"
    and "writable d w" and "\<And>t w. close t w = (Ok (), t, w)"
  shows "caa_encode (caa_new c (decode_bg_call C) (tokio_encode C D)) v t u = encode C D c v t u \<and>
    caa_decode (caa_new c (decode_bg_call C) (tokio_encode C D)) b = decode C c b \<and>
    (\<exists>t1 w1 w2. d_write D d w = (Ok t1, w1) \<and>
       cad_encode C D close (cad_new c (decode_bg_call C) (vec_encode C)) v t1 w1 = (Ok (), w2) \<and>
       stored d w2 = Some (encoding C c v) \<and>
       cad_decode C (cad_new c (decode_bg_call C) (vec_encode C)) (fst (d_read D d w2)) = Ok v) \<and>
    fst (cad_encode C D close (cad_deserialized c) v t u) = Err (c_from_io C OtherError) \<and>
    cad_decode C (cad_deserialized c) q = (Err (c_from_io C OtherError) :: ('v, 'e) result)"
proof -
  have enc: "vec_encode C c v = Ok (encoding C c v)"
    using assms(3) by (auto simp: vec_encode_def accepts_def encoding_def split: prod.splits)
  from byte_disk.put_writable [OF assms(1,4)] obtain w2 where P: "put D d [encoding C c v] True w = (Ok (), w2)" by blast
  then obtain t1 w1 where O: "d_write D d w = (Ok t1, w1)"
    by (cases "d_write D d w"; cases "fst (d_write D d w)") (auto simp: put_def)
  have "cad_encode C D close (cad_new c (decode_bg_call C) (vec_encode C)) v t1 w1 = (Ok (), w2)"
    using cad_session [OF enc, of "cad_new c (decode_bg_call C) (vec_encode C)" close D d w] P O assms(5)
    by (simp add: cad_new_def)
  moreover have "stored d w2 = Some (encoding C c v)" using byte_disk.put_stored [OF assms(1) P] by simp
  moreover have "fst (d_read D d w2) = Ok (encoding C c v)"
    using byte_disk.read_of_stored [OF assms(1) calculation(2)] by simp
  moreover have "c_parse C c (encoding C c v) = Ok v" using roundtrip_parse [OF assms(2,3)] .
  ultimately show ?thesis using O
    by (simp add: caa_encode_def caa_decode_def caa_new_def tokio_encode_def encode_bg_call_def decode_bg_call_def
        cad_decode_def cad_new_def cad_encode_def cad_deserialized_def decode_def)
qed

theorem coder_adapters_agree_witness:
  "\<exists>t1 w1 w2. d_write plainfile_disk (Plainfile [''f'']) empty_fs = (Ok t1, w1) \<and>
     cad_encode prefix_ops plainfile_disk (\<lambda>t w. (Ok (), t, w))
       (cad_new BincodeCoder (decode_bg_call prefix_ops) (vec_encode prefix_ops)) [5] t1 w1 = (Ok (), w2) \<and>
     file_stored [''f''] w2 = Some [1, 5]"
proof -
  have ok: "accepts prefix_ops BincodeCoder [5]" "encoding prefix_ops BincodeCoder [5] = [1, 5]"
    by (simp_all add: accepts_def encoding_def)
  have w: "file_writable (pf_path (Plainfile [''f''])) empty_fs" by simp
  from coder_adapters_agree [OF plain.byte_disk_axioms prefix_roundtrip ok(1) w, of "\<lambda>t w. (Ok (), t, w)",
      THEN conjunct2, THEN conjunct2, THEN conjunct1, OF refl] ok(2)
  show ?thesis by fastforce
qed

end
