(* ===== verification/Zstd.thy ===== *)
theory Zstd
  imports Formats
begin

text \<open>
  The compressing disk of \<open>src/entry/disks/zstd.rs\<close>: the compression level with its bounds, and
  \<open>ZstdDisk\<close> over another disk. The compressor is a parameter. A \<open>ZstdDisk\<close> keeps the contract of the
  disk it is built on, so what holds of entries and arrays over a disk holds over a compressed one.
\<close>

section \<open>The level\<close>

text \<open>\<open>ZstdLevel\<close> and the errors of its constructors; \<open>N\<close> is an unsigned type, converted to \<open>i32\<close>.\<close>

record zstd_level =
  zl_level :: int

datatype level_error = OutOfBounds string | ConversionError

text \<open>\<open>OutOfBounds::from\<close> and its message; \<open>shown\<close> is the decimal form of the value.\<close>

definition out_of_bounds :: "(int \<Rightarrow> string) \<Rightarrow> int \<Rightarrow> level_error" where
  "out_of_bounds shown value = OutOfBounds (shown value @ '' is outside of [0-22]'')"

definition zstd_level_new :: "(int \<Rightarrow> string) \<Rightarrow> nat \<Rightarrow> (zstd_level, level_error) result" where
  "zstd_level_new shown value =
     (if 2 ^ 31 \<le> value then Err ConversionError
      else if int value < 23 then Ok \<lparr>zl_level = int value\<rparr>
      else Err (out_of_bounds shown (int value)))"

definition zstd_level_const_new :: "int \<Rightarrow> (zstd_level, int) result" where
  "zstd_level_const_new value = (if 0 \<le> value \<and> value < 23 then Ok \<lparr>zl_level = value\<rparr> else Err value)"

definition zstd_level_into :: "zstd_level \<Rightarrow> int" where
  "zstd_level_into l = zl_level l"

text \<open>
  both constructors build exactly the levels from 0 to 22, agree where both apply, and
  report every other value.
\<close>

theorem zstd_level_bounds:
  "(\<forall>l. zstd_level_new shown n = Ok l \<longleftrightarrow> n < 23 \<and> zstd_level_into l = int n) \<and>
   (\<forall>l. zstd_level_const_new i = Ok l \<longleftrightarrow> 0 \<le> i \<and> i < 23 \<and> zstd_level_into l = i) \<and>
   is_ok (zstd_level_const_new (int n)) = is_ok (zstd_level_new shown n) \<and>
   zstd_level_new shown n \<noteq> Panic"
  by (auto simp: zstd_level_new_def zstd_level_const_new_def zstd_level_into_def zstd_level.equality)

section \<open>The disk\<close>

text \<open>
  A compressor: a new encoder for a level (and, when the crate is built for it, a number of threads),
  the pieces an encoder hands to its writer when it is given bytes and when it finishes; finishing
  twice adds nothing. A decoder yields the contents of a frame, or an error.
\<close>

record 'z zstd_lib =
  z_new :: "int \<Rightarrow> ('z, io_error) result"
  z_multithread :: "nat \<Rightarrow> 'z \<Rightarrow> ('z, io_error) result"
  z_write :: "bytes \<Rightarrow> 'z \<Rightarrow> bytes list \<times> 'z"
  z_finish :: "'z \<Rightarrow> bytes list \<times> 'z"
  z_decode :: "bytes \<Rightarrow> (bytes, io_error) result"

text \<open>\<open>ZSTD_LEVEL\<close> is a parameter of the type; the disk holds only the disk below it.\<close>

datatype 'd zstd_disk = ZstdDisk (zd_inner: 'd)

definition zstd_from_path :: "(path \<Rightarrow> 'd) \<Rightarrow> path \<Rightarrow> 'd zstd_disk" where
  "zstd_from_path from_path p = ZstdDisk (from_path p)"

definition zstd_into_path :: "('d \<Rightarrow> path) \<Rightarrow> 'd zstd_disk \<Rightarrow> path" where
  "zstd_into_path into_path d = into_path (zd_inner d)"

definition zstd_read_disk ::
  "'z zstd_lib \<Rightarrow> ('d, 'wr, 'w) disk_ops \<Rightarrow> 'd zstd_disk \<Rightarrow> 'w \<Rightarrow> (bytes, io_error) result \<times> 'w" where
  "zstd_read_disk Z D d w =
     (case d_read D (zd_inner d) w of (r, w1) \<Rightarrow> (res_bind r (z_decode Z), w1))"

record ('z, 'wr) zstd_writer =
  zw_encoder :: 'z
  zw_inner :: 'wr

text \<open>
  \<open>write_disk\<close>: the inner disk is opened first, then the level is checked. \<open>threads\<close> is the static
  \<open>ZSTD_MULTITHREAD\<close>. A writer that is not returned is dropped.
\<close>

definition zstd_write_disk ::
  "'z zstd_lib \<Rightarrow> (int \<Rightarrow> string) \<Rightarrow> nat \<Rightarrow> nat \<Rightarrow> ('d, 'wr, 'w) disk_ops \<Rightarrow> 'd zstd_disk \<Rightarrow> 'w \<Rightarrow>
     (('z, 'wr) zstd_writer, io_error) result \<times> 'w" where
  "zstd_write_disk Z shown level threads D d w =
     (case d_write D (zd_inner d) w of
        (Ok wr, w1) \<Rightarrow>
          (case res_bind (map_err (\<lambda>_. OtherError) (zstd_level_new shown level)) (\<lambda>l. z_new Z (zstd_level_into l)) of
             Ok z \<Rightarrow>
               (if 0 < threads then
                  (case z_multithread Z threads z of
                     Ok z1 \<Rightarrow> (Ok \<lparr>zw_encoder = z1, zw_inner = wr\<rparr>, w1)
                   | _ \<Rightarrow> (Panic, wr_drop D wr w1))
                else (Ok \<lparr>zw_encoder = z, zw_inner = wr\<rparr>, w1))
           | Err e \<Rightarrow> (Err e, wr_drop D wr w1)
           | Panic \<Rightarrow> (Panic, wr_drop D wr w1))
      | (Err e, w1) \<Rightarrow> (Err e, w1)
      | (Panic, w1) \<Rightarrow> (Panic, w1))"

text \<open>What the encoder emits goes to the inner writer; \<open>flush\<close> finishes the frame.\<close>

definition zw_emit ::
  "('d, 'wr, 'w) disk_ops \<Rightarrow> bytes list \<times> 'z \<Rightarrow> ('z, 'wr) zstd_writer \<Rightarrow> 'w \<Rightarrow>
     (unit, io_error) result \<times> ('z, 'wr) zstd_writer \<times> 'w" where
  "zw_emit D out e w =
     (case write_pieces D (zw_inner e) (fst out) w of
        (Ok _, wr, w1) \<Rightarrow> (Ok (), \<lparr>zw_encoder = snd out, zw_inner = wr\<rparr>, w1)
      | (r, wr, w1) \<Rightarrow> (r, e\<lparr>zw_inner := wr\<rparr>, w1))"

definition zw_write_all ::
  "'z zstd_lib \<Rightarrow> ('d, 'wr, 'w) disk_ops \<Rightarrow> ('z, 'wr) zstd_writer \<Rightarrow> bytes \<Rightarrow> 'w \<Rightarrow>
     (unit, io_error) result \<times> ('z, 'wr) zstd_writer \<times> 'w" where
  "zw_write_all Z D e buf w = (if buf = [] then (Ok (), e, w) else zw_emit D (z_write Z buf (zw_encoder e)) e w)"

definition zw_flush ::
  "'z zstd_lib \<Rightarrow> ('d, 'wr, 'w) disk_ops \<Rightarrow> ('z, 'wr) zstd_writer \<Rightarrow> 'w \<Rightarrow>
     (unit, io_error) result \<times> ('z, 'wr) zstd_writer \<times> 'w" where
  "zw_flush Z D e w =
     (case zw_emit D (z_finish Z (zw_encoder e)) e w of
        (Ok _, e1, w1) \<Rightarrow> (case wr_flush D (zw_inner e1) w1 of (r, wr, w2) \<Rightarrow> (r, e1\<lparr>zw_inner := wr\<rparr>, w2))
      | (r, e1, w1) \<Rightarrow> (r, e1, w1))"

definition zstd_disk_ops ::
  "'z zstd_lib \<Rightarrow> (int \<Rightarrow> string) \<Rightarrow> nat \<Rightarrow> nat \<Rightarrow> ('d, 'wr, 'w) disk_ops \<Rightarrow>
     ('d zstd_disk, ('z, 'wr) zstd_writer, 'w) disk_ops" where
  "zstd_disk_ops Z shown level threads D =
     \<lparr>d_read = zstd_read_disk Z D, d_write = zstd_write_disk Z shown level threads D,
      wr_write = zw_write_all Z D, wr_flush = zw_flush Z D, wr_drop = (\<lambda>e. wr_drop D (zw_inner e))\<rparr>"

text \<open>
  The asynchronous disk. The encoder of \<open>async_compression\<close> is made from the level and a number of
  workers and cannot fail (\<open>new_encoder\<close>); its decoder is made without looking at the source, so a bad
  frame shows when it is read.
\<close>

definition zstd_async_read_disk ::
  "'z zstd_lib \<Rightarrow> ('d, 'wr, 'w) disk_ops \<Rightarrow> 'd zstd_disk \<Rightarrow> 'w \<Rightarrow> ((unit \<Rightarrow> (bytes, io_error) result), io_error) result \<times> 'w" where
  "zstd_async_read_disk Z D d w =
     (case d_read D (zd_inner d) w of (r, w1) \<Rightarrow> (map_ok (\<lambda>b _. z_decode Z b) r, w1))"

definition zstd_async_write_disk ::
  "(int \<Rightarrow> nat option \<Rightarrow> 'y) \<Rightarrow> (int \<Rightarrow> string) \<Rightarrow> nat \<Rightarrow> nat \<Rightarrow> ('d, 'wr, 'w) disk_ops \<Rightarrow> 'd zstd_disk \<Rightarrow> 'w \<Rightarrow>
     (('y, 'wr) zstd_writer, io_error) result \<times> 'w" where
  "zstd_async_write_disk new_encoder shown level threads D d w =
     (case d_write D (zd_inner d) w of
        (Ok wr, w1) \<Rightarrow>
          (case map_err (\<lambda>_. OtherError) (zstd_level_new shown level) of
             Ok l \<Rightarrow>
               (Ok \<lparr>zw_encoder = new_encoder (zstd_level_into l) (if 0 < threads then Some threads else None),
                  zw_inner = wr\<rparr>, w1)
           | Err e \<Rightarrow> (Err e, wr_drop D wr w1)
           | Panic \<Rightarrow> (Panic, wr_drop D wr w1))
      | (Err e, w1) \<Rightarrow> (Err e, w1)
      | (Panic, w1) \<Rightarrow> (Panic, w1))"

text \<open>\<open>new\<close> and \<open>into_inner\<close>.\<close>

definition zstd_new :: "'d \<Rightarrow> 'd zstd_disk" where
  "zstd_new d = ZstdDisk d"

definition zstd_into_inner :: "'d zstd_disk \<Rightarrow> 'd" where
  "zstd_into_inner d = zd_inner d"

section \<open>What the compressor promises\<close>

text \<open>The pieces emitted for a list of writes, and the encoder after them.\<close>

fun z_writes :: "'z zstd_lib \<Rightarrow> bytes list \<Rightarrow> 'z \<Rightarrow> bytes list \<times> 'z" where
  "z_writes Z [] z = ([], z)"
| "z_writes Z (p # ps) z =
     (if p = [] then z_writes Z ps z
      else case z_write Z p z of (out, z1) \<Rightarrow> (case z_writes Z ps z1 of (outs, z2) \<Rightarrow> (out @ outs, z2)))"

locale zstd_laws =
  fixes Z :: "'z zstd_lib" and started :: "'z \<Rightarrow> bool"
  assumes new_works: "0 \<le> l \<Longrightarrow> l < 23 \<Longrightarrow> \<exists>z. z_new Z l = Ok z \<and> started z"
    and multithread_works: "started z \<Longrightarrow> \<exists>z1. z_multithread Z n z = Ok z1 \<and> started z1"
    and decodes: "started z \<Longrightarrow> z_writes Z ps z = (out, z1) \<Longrightarrow>
      z_decode Z (concat (out @ fst (z_finish Z z1))) = Ok (concat ps)"
    and decode_returns: "z_decode Z b \<noteq> Panic"

section \<open>The contract of the disk below\<close>

definition same_outcome :: "('a, 'e) result \<Rightarrow> ('a, 'f) result \<Rightarrow> bool" where
  "same_outcome r q \<longleftrightarrow> is_ok r = is_ok q \<and> (r = Panic \<longleftrightarrow> q = Panic)"

lemma same_outcome_simps [simp]:
  "same_outcome (Ok a) q \<longleftrightarrow> is_ok q" "same_outcome Panic q \<longleftrightarrow> q = Panic"
  "same_outcome (Err e) q \<longleftrightarrow> (\<exists>f. q = Err f)"
  by (cases q; simp add: same_outcome_def)+

lemma zstd_ops [simp]:
  "d_read (zstd_disk_ops Z shown level threads D) = zstd_read_disk Z D"
  "d_write (zstd_disk_ops Z shown level threads D) = zstd_write_disk Z shown level threads D"
  "wr_write (zstd_disk_ops Z shown level threads D) = zw_write_all Z D"
  "wr_flush (zstd_disk_ops Z shown level threads D) = zw_flush Z D"
  "wr_drop (zstd_disk_ops Z shown level threads D) = (\<lambda>e. wr_drop D (zw_inner e))"
  by (simp_all add: zstd_disk_ops_def)

lemma zw_emit_pieces:
  assumes "write_pieces D (zw_inner e) (fst out) w = (r, wr, w1)"
  shows "\<exists>e1. zw_emit D out e w = (r, e1, w1) \<and> zw_inner e1 = wr \<and> (is_ok r \<longrightarrow> zw_encoder e1 = snd out)"
  using assms by (cases r) (simp_all add: zw_emit_def)

lemma zw_pieces:
  assumes "z_writes Z ps (zw_encoder e) = (outs, z1)" and "write_pieces D (zw_inner e) outs w = (r, wr, w1)"
  shows "\<exists>e1. write_pieces (zstd_disk_ops Z shown level threads D) e ps w = (r, e1, w1) \<and> zw_inner e1 = wr \<and>
    (is_ok r \<longrightarrow> zw_encoder e1 = z1)"
  using assms
proof (induction ps arbitrary: e outs w)
  case (Cons p ps)
  show ?case
  proof (cases "p = []")
    case True
    with Cons show ?thesis by (simp add: zw_write_all_def)
  next
    case False
    obtain out z where Z: "z_write Z p (zw_encoder e) = (out, z)" by fastforce
    obtain outs2 where R: "z_writes Z ps z = (outs2, z1)" "outs = out @ outs2"
      using Cons.prems(1) False Z by (auto split: prod.splits)
    obtain r0 wr0 w0 where O: "write_pieces D (zw_inner e) out w = (r0, wr0, w0)" by (metis prod_cases3)
    from zw_emit_pieces [of D e "(out, z)" w r0 wr0 w0] O obtain e0 where
      E: "zw_write_all Z D e p w = (r0, e0, w0)" "zw_inner e0 = wr0" "is_ok r0 \<longrightarrow> zw_encoder e0 = z"
      using False Z by (auto simp: zw_write_all_def)
    show ?thesis
    proof (cases r0)
      case (Ok u)
      with Cons.prems(2) R(2) O have "write_pieces D (zw_inner e0) outs2 w0 = (r, wr, w1)"
        by (simp add: write_pieces_append E(2))
      with Cons.IH [of e0 outs2 w0] R(1) E Ok show ?thesis by simp
    qed (use Cons.prems(2) R(2) O E in \<open>auto simp: write_pieces_append\<close>)
  qed
qed auto

lemma serialize_nothing: "serialize_flush D wr [] False w = (Err Ser, wr_drop D wr w)"
  by (simp add: serialize_flush_def)

context zstd_laws
begin

lemma zstd_opens:
  assumes "level < 23" and "d_write D (zd_inner d) w = (Ok wr, w1)"
  obtains z where "zstd_write_disk Z shown level threads D d w = (Ok \<lparr>zw_encoder = z, zw_inner = wr\<rparr>, w1)" "started z"
proof -
  from new_works [of "int level"] assms(1) obtain z where z: "z_new Z (int level) = Ok z" "started z" by auto
  from multithread_works [OF z(2), of threads] obtain z1 where z1: "z_multithread Z threads z = Ok z1" "started z1" by auto
  show thesis
    using assms z z1 by (cases "0 < threads")
      (auto simp: zstd_write_disk_def zstd_level_new_def zstd_level_into_def intro: that)
qed

lemma zstd_session:
  assumes "started z" and "serialize_flush (zstd_disk_ops Z shown level threads D) \<lparr>zw_encoder = z, zw_inner = wr\<rparr> ps ok w = (r, w')"
  shows "\<exists>qs r'. serialize_flush D wr qs ok w = (r', w') \<and> same_outcome r r' \<and>
    (ok \<longrightarrow> z_decode Z (concat qs) = Ok (concat ps))"
proof -
  let ?E = "zstd_disk_ops Z shown level threads D" and ?e = "\<lparr>zw_encoder = z, zw_inner = wr\<rparr>"
  obtain outs z1 where O: "z_writes Z ps z = (outs, z1)" by fastforce
  define fin where "fin = z_finish Z z1"
  obtain r1 wr1 w1 where P: "write_pieces D wr outs w = (r1, wr1, w1)" by (metis prod_cases3)
  from zw_pieces [of Z ps ?e outs z1 D w r1 wr1 w1 shown level threads] O P obtain e1 where
    E: "write_pieces ?E ?e ps w = (r1, e1, w1)" "zw_inner e1 = wr1" "is_ok r1 \<longrightarrow> zw_encoder e1 = z1" by auto
  have dec: "z_decode Z (concat (outs @ fst fin)) = Ok (concat ps)" using decodes [OF assms(1) O] by (simp add: fin_def)
  show ?thesis
  proof (cases "ok \<and> is_ok r1")
    case False
    have "serialize_flush D wr (if ok then outs @ fst fin else outs) ok w = (r, w')"
      using False assms(2) E P
      by (cases r1; cases ok) (auto simp: serialize_flush_def write_pieces_append)
    then show ?thesis
      using dec by (intro exI [of _ "if ok then outs @ fst fin else outs"] exI [of _ r]) (auto simp: same_outcome_def)
  next
    case True
    then obtain u where r1: "r1 = Ok u" and ok: "ok" by (auto simp: is_ok_iff)
    obtain r2 wr2 w2 where F: "write_pieces D wr1 (fst fin) w1 = (r2, wr2, w2)" by (metis prod_cases3)
    with zw_emit_pieces [of D e1 fin w1 r2 wr2 w2] E(2) obtain e2 where
      E2: "zw_emit D fin e1 w1 = (r2, e2, w2)" "zw_inner e2 = wr2" by auto
    have all: "write_pieces D wr (outs @ fst fin) w = (r2, wr2, w2)" using P r1 F by (simp add: write_pieces_append)
    obtain r3 wr3 w3 where L: "wr_flush D wr2 w2 = (r3, wr3, w3)" by (metis prod_cases3)
    have "\<exists>r'. serialize_flush D wr (outs @ fst fin) ok w = (r', w') \<and> same_outcome r r'"
      using assms(2) E r1 ok E2 L all
      by (cases r2; cases r3) (auto simp: serialize_flush_def zw_flush_def fin_def)
    with dec show ?thesis by blast
  qed
qed

text \<open>Both disks open alike: the same levels are refused, and the store is left the same.\<close>

lemma zstd_async_opens_alike:
  "same_outcome (fst (zstd_async_write_disk new_encoder shown level threads D d w)) (fst (zstd_write_disk Z shown level threads D d w)) \<and>
   snd (zstd_async_write_disk new_encoder shown level threads D d w) = snd (zstd_write_disk Z shown level threads D d w)"
proof (cases "d_write D (zd_inner d) w")
  case (Pair q w1)
  show ?thesis
  proof (cases "\<exists>wr. q = Ok wr \<and> level < 23")
    case True
    then obtain wr where q: "q = Ok wr" and l: "level < 23" by blast
    from zstd_opens [where shown = shown and threads = threads, OF l Pair [unfolded q]] obtain z where
      "zstd_write_disk Z shown level threads D d w = (Ok \<lparr>zw_encoder = z, zw_inner = wr\<rparr>, w1)" .
    with Pair q l show ?thesis by (simp add: zstd_async_write_disk_def zstd_level_new_def)
  next
    case False
    with Pair show ?thesis
      by (cases q) (auto simp: zstd_async_write_disk_def zstd_write_disk_def zstd_level_new_def)
  qed
qed

lemma some_frame: "\<exists>qs. z_decode Z (concat qs) = Ok (concat ps)"
proof -
  from new_works [of 0] obtain z where z: "started z" by auto
  obtain outs z1 where "z_writes Z ps z = (outs, z1)" by fastforce
  from decodes [OF z this] show ?thesis by blast
qed

lemma zstd_put:
  assumes "put (zstd_disk_ops Z shown level threads D) d ps ok w = (r, w')"
  shows "\<exists>qs ok' r'. put D (zd_inner d) qs ok' w = (r', w') \<and> same_outcome r r' \<and> (ok' \<longrightarrow> ok) \<and>
    (level < 23 \<longrightarrow> ok' = ok) \<and> (ok' \<longrightarrow> z_decode Z (concat qs) = Ok (concat ps))"
proof (cases "d_write D (zd_inner d) w")
  case (Pair q w1)
  show ?thesis
  proof (cases q)
    case (Ok wr)
    show ?thesis
    proof (cases "level < 23")
      case True
      from zstd_opens [OF True Pair [unfolded Ok]] obtain z where
        "zstd_write_disk Z shown level threads D d w = (Ok \<lparr>zw_encoder = z, zw_inner = wr\<rparr>, w1)" "started z" .
      with zstd_session [of z shown level threads D wr ps ok w1 r w'] assms Pair Ok show ?thesis
        by (auto simp: put_def)
    next
      case False
      then have "\<exists>e. zstd_write_disk Z shown level threads D d w = (Err e, wr_drop D wr w1)"
        using Pair Ok by (auto simp: zstd_write_disk_def zstd_level_new_def)
      with assms Pair Ok False show ?thesis
        by (intro exI [of _ "[]"] exI [of _ False]) (auto simp: serialize_nothing put_def)
    qed
  next
    case (Err e)
    from some_frame [of ps] obtain qs where "z_decode Z (concat qs) = Ok (concat ps)" by blast
    with Err assms Pair show ?thesis
      by (intro exI [of _ qs] exI [of _ ok]) (auto simp: put_def zstd_write_disk_def)
  next
    case Panic
    from some_frame [of ps] obtain qs where "z_decode Z (concat qs) = Ok (concat ps)" by blast
    with Panic assms Pair show ?thesis
      by (intro exI [of _ qs] exI [of _ ok]) (auto simp: put_def zstd_write_disk_def)
  qed
qed

end

section \<open>A compressed disk keeps the contract\<close>

text \<open>What is stored on a compressed disk is what the stored frame decodes to.\<close>

definition zstd_stored :: "'z zstd_lib \<Rightarrow> ('d \<Rightarrow> 'w \<Rightarrow> bytes option) \<Rightarrow> 'd zstd_disk \<Rightarrow> 'w \<Rightarrow> bytes option" where
  "zstd_stored Z stored d w = (case stored (zd_inner d) w of
     None \<Rightarrow> None
   | Some b \<Rightarrow> (case z_decode Z b of Ok c \<Rightarrow> Some c | _ \<Rightarrow> None))"

context zstd_laws
begin

lemma zstd_byte_disk:
  assumes "byte_disk D site stored writable"
  shows "byte_disk (zstd_disk_ops Z shown level threads D) (\<lambda>d. site (zd_inner d)) (zstd_stored Z stored)
    (\<lambda>d w. level < 23 \<and> writable (zd_inner d) w)"
proof -
  have dec: "z_decode Z b \<noteq> Panic" for b by (rule decode_returns)
  note put = zstd_put [of shown level threads D]
  note inner = assms
  show ?thesis
  proof (rule byte_disk.intro, goal_cases)
    case (1 d w r w')
    then show ?case
      using byte_disk.read_pure [OF inner, of "zd_inner d" w] by (auto simp: zstd_read_disk_def split: prod.splits)
  next
    case (2 d w r w' b)
    obtain q w1 where R: "d_read D (zd_inner d) w = (q, w1)" by fastforce
    note s = byte_disk.read_stored [OF inner R]
    show ?case
    proof (cases q)
      case (Ok c)
      with s [of c] 2 R show ?thesis by (auto simp: zstd_read_disk_def zstd_stored_def split: result.splits)
    next
      case (Err e)
      with s have "stored (zd_inner d) w = None" by (cases "stored (zd_inner d) w") auto
      with Err 2 R show ?thesis by (auto simp: zstd_read_disk_def zstd_stored_def)
    next
      case Panic
      with R byte_disk.read_returns [OF inner] show ?thesis by blast
    qed
  next
    case (3 d w w')
    obtain q w1 where R: "d_read D (zd_inner d) w = (q, w1)" by fastforce
    with byte_disk.read_returns [OF inner, of "zd_inner d" w w1] dec show ?case
      by (cases q) (auto simp: zstd_read_disk_def)
  next
    case (4 d ps ok w u w')
    from put [OF 4] obtain qs ok' r' where P: "put D (zd_inner d) qs ok' w = (r', w')" "is_ok r'"
      "ok' \<longrightarrow> ok" "ok' \<longrightarrow> z_decode Z (concat qs) = Ok (concat ps)" by auto
    then obtain u' where "put D (zd_inner d) qs ok' w = (Ok u', w')" by (auto simp: is_ok_iff)
    from byte_disk.put_stored [OF inner this] P show ?case by (simp add: zstd_stored_def)
  next
    case (5 d ps ok w rp w' d')
    from put [OF 5(1)] obtain qs ok' r' where P: "put D (zd_inner d) qs ok' w = (r', w')" by blast
    from byte_disk.put_frame [OF inner P] 5(2) show ?case by (simp add: zstd_stored_def)
  next
    case (6 d ps ok w w')
    show ?case
    proof
      assume "put (zstd_disk_ops Z shown level threads D) d ps ok w = (Panic, w')"
      from put [OF this] byte_disk.put_returns [OF inner] show False by auto
    qed
  next
    case (7 d w ps)
    obtain r w' where P: "put (zstd_disk_ops Z shown level threads D) d ps True w = (r, w')" by fastforce
    from put [OF P] 7 obtain qs r' where Q: "put D (zd_inner d) qs True w = (r', w')" "same_outcome r r'" by auto
    from byte_disk.put_writable [OF inner, of "zd_inner d" w qs] 7 Q(1) have "r' = Ok ()" by auto
    with Q(2) P show ?case by (auto simp: same_outcome_def is_ok_iff)
  next
    case (8 d ps ok w rp w' d')
    from put [OF 8] obtain qs ok' r' where P: "put D (zd_inner d) qs ok' w = (r', w')" by blast
    from byte_disk.put_keeps_writable [OF inner P] show ?case by simp
  qed
qed

end

text \<open>
  C32: a \<open>ZstdDisk\<close> over any disk that keeps the contract of the traits keeps it too, at every level and
  number of threads: a completed session leaves the bytes written, a read returns them, other disks are
  not disturbed and nothing panics; sessions succeed when the level is at most 22.
\<close>

theorem zstd_disk_keeps_contract:
  assumes "zstd_laws Z started" and "byte_disk D site stored writable"
  shows "byte_disk (zstd_disk_ops Z shown level threads D) (\<lambda>d. site (zd_inner d)) (zstd_stored Z stored)
    (\<lambda>d w. level < 23 \<and> writable (zd_inner d) w)"
  by (rule zstd_laws.zstd_byte_disk [OF assms])

text \<open>
  with a level above 22 the inner disk is opened, and its file emptied, before the level is
  rejected: the stored value is lost although nothing could have been written.
\<close>

theorem zstd_bad_level_truncates:
  assumes "23 \<le> level" and "file_writable (ub_path (zd_inner d)) s"
  shows "\<exists>s'. zstd_write_disk Z shown level threads unbuffered_disk d s = (Err OtherError, s') \<and>
    files s' (ub_path (zd_inner d)) = Some []"
  using assms by (auto simp: zstd_write_disk_def zstd_level_new_def unbuffered_disk_def unbuffered_write_disk_def
      open_truncate_writable file_drop_def)

section \<open>Examples\<close>

text \<open>
  A compressor that can be run: it stores the bytes behind a mark, and finishes with another. It shows that
  the laws can be met; its interpretation is the disk the examples use.
\<close>

definition demo_zstd :: "bool zstd_lib" where
  "demo_zstd = \<lparr>z_new = (\<lambda>l. if 0 \<le> l \<and> l < 23 then Ok False else Err OtherError), z_multithread = (\<lambda>_. Ok),
     z_write = (\<lambda>b z. ((if z then [] else [[40]]) @ [b], True)),
     z_finish = (\<lambda>z. if z then ([], z) else ([[40]], True)),
     z_decode = (\<lambda>b. case b of [] \<Rightarrow> Err OtherError | m # c \<Rightarrow> if m = 40 then Ok c else Err OtherError)\<rparr>"

lemma demo_writes:
  "z_writes demo_zstd ps z = (out, z1) \<Longrightarrow>
   concat (out @ fst (z_finish demo_zstd z1)) = (if z then [] else [40]) @ concat ps"
proof (induction ps arbitrary: z out)
  case (Cons p ps)
  then show ?case
    by (cases "p = []") (auto simp: demo_zstd_def split: prod.splits if_splits)
qed (auto simp: demo_zstd_def)

interpretation demo_zstd: zstd_laws demo_zstd Not
proof
  fix ps out z z1
  assume "\<not> z" and "z_writes demo_zstd ps z = (out, z1)"
  from demo_writes [OF this(2)] this(1)
  show "z_decode demo_zstd (concat (out @ fst (z_finish demo_zstd z1))) = Ok (concat ps)"
    by (simp add: demo_zstd_def)
qed (auto simp: demo_zstd_def split: list.splits)

interpretation zstd_plain: byte_disk "zstd_disk_ops demo_zstd (\<lambda>_. []) 3 0 plainfile_disk"
  "\<lambda>d. pf_path (zd_inner d)" "zstd_stored demo_zstd (\<lambda>d. file_stored (pf_path d))"
  "\<lambda>d w. (3 :: nat) < 23 \<and> file_writable (pf_path (zd_inner d)) w"
  by (rule demo_zstd.zstd_byte_disk [OF plain.byte_disk_axioms])

text \<open>Entries and arrays can therefore be built over it, as over the disk below.\<close>

interpretation zstd_prefix: backing "zstd_disk_ops demo_zstd (\<lambda>_. []) 3 0 plainfile_disk"
  "\<lambda>d. pf_path (zd_inner d)" "zstd_stored demo_zstd (\<lambda>d. file_stored (pf_path d))"
  "\<lambda>d w. (3 :: nat) < 23 \<and> file_writable (pf_path (zd_inner d)) w" prefix_ops
  by (intro backing.intro backing_axioms.intro zstd_plain.byte_disk_axioms prefix_roundtrip)

text \<open>A value written to a compressed plain file and read back.\<close>

theorem zstd_disk_keeps_contract_witness:
  "\<exists>s'. put (zstd_disk_ops demo_zstd (\<lambda>_. []) 19 2 plainfile_disk) (ZstdDisk (Plainfile [''f''])) [[1], [], [2, 3]] True
      empty_fs = (Ok (), s') \<and>
    d_read (zstd_disk_ops demo_zstd (\<lambda>_. []) 19 2 plainfile_disk) (ZstdDisk (Plainfile [''f''])) s' = (Ok [1, 2, 3], s')"
proof -
  note disk = zstd_disk_keeps_contract [OF demo_zstd.zstd_laws_axioms plain.byte_disk_axioms, of "\<lambda>_. []" 19 2]
  have "(19 :: nat) < 23 \<and> file_writable (pf_path (zd_inner (ZstdDisk (Plainfile [''f''])))) empty_fs" by simp
  from byte_disk.put_writable [OF disk this, of "[[1], [], [2, 3]]"] obtain s' where
    P: "put (zstd_disk_ops demo_zstd (\<lambda>_. []) 19 2 plainfile_disk) (ZstdDisk (Plainfile [''f''])) [[1], [], [2, 3]] True
      empty_fs = (Ok (), s')" by blast
  from byte_disk.put_then_read [OF disk P] P show ?thesis by auto
qed

theorem zstd_bad_level_truncates_witness:
  "\<exists>s'. zstd_write_disk demo_zstd (\<lambda>_. []) 23 0 unbuffered_disk (ZstdDisk (Unbuffered [''f'']))
       (set_file [''f''] (Some [1, 2]) empty_fs) = (Err OtherError, s') \<and> files s' [''f''] = Some []"
  using zstd_bad_level_truncates [of 23 "ZstdDisk (Unbuffered [''f''])" "set_file [''f''] (Some [1, 2]) empty_fs" demo_zstd
      "\<lambda>_. []" 0]
  by (simp add: file_writable_def empty_fs_def parent_def)

end
