(* ===== verification/Array_History.thy ===== *)
theory Array_History
  imports Backed_Array Zstd
begin

text \<open>
  Histories of a \<open>BackedArray\<close> (\<open>src/array/sync_impl/mod.rs\<close>, \<open>slice.rs\<close>, \<open>generic.rs\<close>): any sequence
  of its operations, on any disk that keeps the contract of the traits, against a list of chunks.
  The specification says what each operation may answer and which list is left; a failed write leaves
  the list alone.
\<close>

section \<open>Operations and their answers\<close>

datatype ('a, 'd, 'c) array_op =
    Append "'a list" 'd 'c
  | Append_Memory "'a list" 'd 'c
  | Get nat
  | Generic_Get nat
  | Remove nat
  | Clear_Memory
  | Clear_Chunk nat
  | Shrink_To_Query "nat list"
  | Loaded_Len
  | Chunk_Iter

datatype ('a, 'e) array_answer =
    Wrote "(unit, 'e) result"
  | Got "('a, 'e array_error) result"
  | Removed "(unit, unit) result"
  | Counted "(nat, unit) result"
  | Loaded "('a list, 'e) result list"
  | Quiet

definition array_step ::
  "searcher \<Rightarrow> ('k, nat) resizing_ops \<Rightarrow> ('c, 'a list, 'e) coder_ops \<Rightarrow> ('d, 'wr, 'w) disk_ops \<Rightarrow> ('a, 'd, 'c) array_op \<Rightarrow>
   ('k, 'a, 'd, 'c) backed_array \<Rightarrow> 'w \<Rightarrow> ('a, 'e) array_answer \<times> ('k, 'a, 'd, 'c) backed_array \<times> 'w" where
  "array_step bs K C D p a w =
     (case p of
        Append vals d c \<Rightarrow> (case array_append K C D vals d c a w of (r, a1, w1) \<Rightarrow> (Wrote r, a1, w1))
      | Append_Memory vals d c \<Rightarrow> (case array_append_memory K C D vals d c a w of (r, a1, w1) \<Rightarrow> (Wrote r, a1, w1))
      | Get k \<Rightarrow> (case array_get bs K C D k a w of (r, a1, w1) \<Rightarrow> (Got r, a1, w1))
      | Generic_Get k \<Rightarrow> (case generic_get bs K C D k a w of (r, a1, w1) \<Rightarrow> (Got r, a1, w1))
      | Remove i \<Rightarrow> (case array_remove K i a of (r, a1) \<Rightarrow> (Removed r, a1, w))
      | Clear_Memory \<Rightarrow> (Quiet, clear_memory a, w)
      | Clear_Chunk i \<Rightarrow> (Quiet, clear_chunk i a, w)
      | Shrink_To_Query idxs \<Rightarrow> (Quiet, shrink_to_query K idxs a, w)
      | Loaded_Len \<Rightarrow> (Counted (loaded_len K a), a, w)
      | Chunk_Iter \<Rightarrow> (case chunk_iter C D a w of (rs, a1, w1) \<Rightarrow> (Loaded rs, a1, w1)))"

fun array_history ::
  "searcher \<Rightarrow> ('k, nat) resizing_ops \<Rightarrow> ('c, 'a list, 'e) coder_ops \<Rightarrow> ('d, 'wr, 'w) disk_ops \<Rightarrow> ('a, 'd, 'c) array_op list \<Rightarrow>
   ('k, 'a, 'd, 'c) backed_array \<Rightarrow> 'w \<Rightarrow> ('a, 'e) array_answer list \<times> ('k, 'a, 'd, 'c) backed_array \<times> 'w" where
  "array_history bs K C D [] a w = ([], a, w)"
| "array_history bs K C D (p # ps) a w =
     (case array_step bs K C D p a w of
        (r, a1, w1) \<Rightarrow> (case array_history bs K C D ps a1 w1 of (rs, a2, w2) \<Rightarrow> (r # rs, a2, w2)))"

section \<open>The specification\<close>

text \<open>The list after an operation with an answer; \<open>None\<close> where the answer is not allowed.\<close>

fun spec_step :: "('a, 'd, 'c) array_op \<Rightarrow> ('a, 'e) array_answer \<Rightarrow> 'a list list \<Rightarrow> 'a list list option" where
  "spec_step (Append vals d c) (Wrote (Ok u)) xss = Some (xss @ [vals])"
| "spec_step (Append vals d c) (Wrote (Err x)) xss = Some xss"
| "spec_step (Append_Memory vals d c) (Wrote (Ok u)) xss = Some (xss @ [vals])"
| "spec_step (Append_Memory vals d c) (Wrote (Err x)) xss = Some xss"
| "spec_step (Get k) (Got r) xss =
     (if r = (if k < length (concat xss) then Ok (concat xss ! k) else Err (OutsideEntryBounds k)) then Some xss else None)"
| "spec_step (Generic_Get k) (Got r) xss =
     (if r = (if k < length (concat xss) then Ok (concat xss ! k) else Err (OutsideEntryBounds k)) then Some xss else None)"
| "spec_step (Remove i) (Removed (Ok u)) xss = Some (take i xss @ drop (Suc i) xss)"
| "spec_step Clear_Memory Quiet xss = Some xss"
| "spec_step (Clear_Chunk i) Quiet xss = Some xss"
| "spec_step (Shrink_To_Query idxs) Quiet xss = Some xss"
| "spec_step Loaded_Len (Counted (Ok n)) xss = (if n \<le> length (concat xss) then Some xss else None)"
| "spec_step Chunk_Iter (Loaded rs) xss = (if rs = map Ok xss then Some xss else None)"
| "spec_step _ _ _ = None"

fun spec_run :: "('a, 'd, 'c) array_op list \<Rightarrow> ('a, 'e) array_answer list \<Rightarrow> 'a list list \<Rightarrow> 'a list list option" where
  "spec_run [] [] xss = Some xss"
| "spec_run (p # ps) (r # rs) xss = (case spec_step p r xss of Some yss \<Rightarrow> spec_run ps rs yss | None \<Rightarrow> None)"
| "spec_run _ _ _ = None"

text \<open>The disks an operation brings into the array.\<close>

fun op_disks :: "('a, 'd, 'c) array_op \<Rightarrow> 'd list" where
  "op_disks (Append vals d c) = [d]"
| "op_disks (Append_Memory vals d c) = [d]"
| "op_disks _ = []"

text \<open>The chunks an operation brings into the array.\<close>

fun op_chunks :: "('a, 'd, 'c) array_op \<Rightarrow> 'a list list" where
  "op_chunks (Append vals d c) = [vals]"
| "op_chunks (Append_Memory vals d c) = [vals]"
| "op_chunks _ = []"

section \<open>Simulation\<close>

context growing_array
begin

lemma loaded_len_le:
  assumes "represents a w xss"
  shows "\<exists>n. loaded_len K a = Ok n \<and> n \<le> length (concat xss)"
proof -
  have "sum_list (map snd (filter P (zip es ls))) \<le> sum_list ls" for P and es :: "'z list" and ls :: "nat list"
  proof (induction ls arbitrary: es)
    case (Cons l ls)
    show ?case
    proof (cases es)
      case (Cons e es')
      with Cons.IH [of es'] show ?thesis by simp
    qed simp
  qed simp
  with loaded_len_represents [OF assms] show ?thesis by (simp add: length_concat)
qed

lemma step_simulates:
  assumes "represents a w xss" "all_synced a w" "set (map site (op_disks p)) \<inter> set (sites a) = {}"
    and "array_step bs K C D p a w = (r, a1, w1)" and "searches bs xss"
  shows "\<exists>yss. spec_step p r xss = Some yss \<and> represents a1 w1 yss \<and> all_synced a1 w1 \<and>
    set (sites a1) \<subseteq> set (sites a) \<union> set (map site (op_disks p)) \<and> set yss \<subseteq> set xss \<union> set (op_chunks p)"
proof -
  note get = get_by_locate [OF assms(1) searches_locate [OF assms(5)]]
  show ?thesis
  proof (cases p)
    case (Append vals d c)
    with assms append_Ok [OF assms(1,2), of d vals c] show ?thesis
      by (fastforce simp: array_step_def split: prod.splits)
  next
    case (Append_Memory vals d c)
    with assms append_memory_Ok [OF assms(1,2), of d vals c] show ?thesis
      by (fastforce simp: array_step_def split: prod.splits)
  next
    case (Get k)
    with assms get [of k] show ?thesis by (auto simp: array_step_def)
  next
    case (Generic_Get k)
    with assms get [of k] show ?thesis by (auto simp: array_step_def)
  next
    case (Remove i)
    show ?thesis
    proof (cases "i < length xss")
      case True
      have "set (take i (sites a) @ drop (Suc i) (sites a)) \<subseteq> set (sites a)"
        by (simp add: set_take_subset set_drop_subset)
      moreover have "set (take i xss @ drop (Suc i) xss) \<subseteq> set xss" by (simp add: set_take_subset set_drop_subset)
      ultimately show ?thesis using True Remove assms remove_represents [OF assms(1,2), of i]
        by (auto simp: array_step_def simp del: set_append)
    next
      case False
      with Remove assms remove_outside [OF assms(1), of i] show ?thesis by (auto simp: array_step_def)
    qed
  next
    case Clear_Memory
    with assms clear_memory_represents [OF assms(1,2)] show ?thesis by (auto simp: array_step_def)
  next
    case (Clear_Chunk i)
    with assms clear_chunk_represents [OF assms(1,2), of i] show ?thesis by (auto simp: array_step_def)
  next
    case (Shrink_To_Query idxs)
    with assms shrink_represents [OF assms(1,2), of idxs] show ?thesis by (auto simp: array_step_def)
  next
    case Loaded_Len
    with assms loaded_len_le [OF assms(1)] show ?thesis by (auto simp: array_step_def)
  next
    case Chunk_Iter
    have l: "length (entries a) = length xss" using assms(1) by (rule represents_length)
    let ?a = "a\<lparr>entries := map2 (\<lambda>e xs. e\<lparr>entry_value := Some xs\<rparr>) (entries a) xss\<rparr>"
    have I: "chunk_iter C D a w = (map Ok xss, ?a, w)"
      using assms(1) chunk_iter_from_represents [of w "entries a" xss]
      by (simp add: chunk_iter_def array_represents_def)
    have "represents ?a w xss"
      using assms(1) l by (auto simp: array_represents_def list_all2_conv_all_nth)
    moreover have "sites ?a = sites a" using l by (auto simp: array_sites_def intro: nth_equalityI)
    moreover have "all_synced ?a w"
      unfolding array_synced_def list_all_length
    proof (intro allI impI)
      fix i assume "i < length (entries ?a)"
      with l have i: "i < length xss" "i < length (entries a)" by auto
      have "entry_load C D (entries a ! i) w = (Ok (xss ! i), (entries a ! i)\<lparr>entry_value := Some (xss ! i)\<rparr>, w)"
        using represents_nth [OF assms(1) i(1)] by (simp add: load_abs)
      from load_synced [OF _ this] assms(2) i
      have "synced C D ((entries a ! i)\<lparr>entry_value := Some (xss ! i)\<rparr>) w"
        by (simp add: array_synced_def list_all_length)
      with i show "synced C D (entries ?a ! i) w" by simp
    qed
    ultimately show ?thesis using Chunk_Iter assms(4) I by (auto simp: array_step_def)
  qed
qed

lemma history_simulates:
  assumes "represents a w xss" "all_synced a w" "distinct (map site (concat (map op_disks ps)))"
    and "set (map site (concat (map op_disks ps))) \<inter> set (sites a) = {}"
    and "array_history bs K C D ps a w = (rs, a', w')" and "searches bs (xss @ concat (map op_chunks ps))"
  shows "\<exists>yss. spec_run ps rs xss = Some yss \<and> represents a' w' yss \<and> all_synced a' w'"
  using assms
proof (induction ps arbitrary: a w xss rs)
  case (Cons p ps)
  obtain r a1 w1 where S: "array_step bs K C D p a w = (r, a1, w1)" by (metis prod_cases3)
  obtain rs' where H: "array_history bs K C D ps a1 w1 = (rs', a', w')" "rs = r # rs'"
    using Cons.prems(5) S by (auto split: prod.splits)
  have "set (map site (op_disks p)) \<inter> set (sites a) = {}" using Cons.prems(4) by auto
  moreover have "searches bs xss" by (rule searches_subset [OF Cons.prems(6)]) simp
  ultimately obtain yss where
    Y: "spec_step p r xss = Some yss" "represents a1 w1 yss" "all_synced a1 w1"
       "set (sites a1) \<subseteq> set (sites a) \<union> set (map site (op_disks p))" "set yss \<subseteq> set xss \<union> set (op_chunks p)"
    using step_simulates [OF Cons.prems(1,2) _ S] by blast
  have "searches bs (yss @ concat (map op_chunks ps))" by (rule searches_subset [OF Cons.prems(6)]) (use Y(5) in auto)
  moreover have "distinct (map site (concat (map op_disks ps)))" using Cons.prems(3) by simp
  moreover have "set (map site (concat (map op_disks ps))) \<inter> set (sites a1) = {}"
    using Cons.prems(3,4) Y(4) by fastforce
  ultimately show ?case using Cons.IH [OF Y(2,3) _ _ H(1)] Y(1) H(2) by simp
qed auto

lemma history_from_empty:
  assumes "distinct (map site (concat (map op_disks ps)))"
    and "array_history bs K C D ps (array_default K) w = (rs, a', w')" and "searches bs (concat (map op_chunks ps))"
  shows "\<exists>yss. spec_run ps rs [] = Some yss \<and> represents a' w' yss \<and> all_synced a' w'"
  by (rule history_simulates [OF _ _ assms(1) _ assms(2)]) (use assms(3) in \<open>simp_all add: default_represents\<close>)

end

lemma growing_over_bytes:
  "byte_disk D site stored writable \<Longrightarrow> coder_roundtrip C \<Longrightarrow> growing_array D site stored writable C vec_ops"
  by (intro growing_array.intro array_backing.intro array_backing_axioms.intro backing.intro backing_axioms.intro
      vec.resizing_container_axioms vec.container_axioms)

text \<open>
  C1: every history of an array refines the list of its chunks. On any disk that keeps the contract of
  the traits, with a coder that restores what it encodes, any sequence of appends to disks of their own,
  reads by index, removals, moves out of memory and iterations from the empty array answers as the list
  of chunks does, for every binary search that meets the documented contract, if no appended chunk is
  empty or the search returns the last of equal keys: a read gives the element at its index in the concatenated chunks or the error of an
  index out of bounds, a write that fails changes nothing, nothing panics; and the array that is left
  represents that list, in step with its disks.
\<close>

theorem array_history_refines:
  assumes "byte_disk D site stored writable" and "coder_roundtrip C"
    and "distinct (map site (concat (map op_disks ps)))"
    and "searches bs (concat (map op_chunks ps))"
    and "array_history bs vec_ops C D ps (array_default vec_ops) w = (rs, a, w')"
  shows "\<exists>xss. spec_run ps rs [] = Some xss \<and> array_represents vec_ops C D a w' xss \<and> array_synced C D a w' \<and>
    array_len vec_ops a = length (concat xss) \<and> chunks_len a = length xss"
proof -
  note G = growing_over_bytes [OF assms(1,2)]
  note A = growing_array.axioms(1) [OF G]
  from growing_array.history_from_empty [OF G assms(3,5,4)] obtain xss where
    "spec_run ps rs [] = Some xss" "array_represents vec_ops C D a w' xss" "array_synced C D a w'" by blast
  with array_backing.represents_array_len [OF A] array_backing.represents_chunks_len [OF A] show ?thesis by blast
qed

text \<open>
  A history on compressed files, and its chunks with one more that is empty: the first runs with the search
  of the oldest supported compiler, the second needs one that returns the last of equal keys.
\<close>

definition demo_history :: "bytes \<Rightarrow> (byte, plainfile zstd_disk, bincode_coder) array_op list" where
  "demo_history xs =
     [Append [1, 2] (ZstdDisk (Plainfile [''a''])) BincodeCoder, Append_Memory xs (ZstdDisk (Plainfile [''b''])) BincodeCoder,
      Get 1, Clear_Memory, Append [3] (ZstdDisk (Plainfile [''c''])) BincodeCoder, Remove 0, Generic_Get 0, Loaded_Len, Chunk_Iter]"

lemma demo_history_apart: "distinct (map (\<lambda>d. pf_path (zd_inner d)) (concat (map op_disks (demo_history xs))))"
  by (simp add: demo_history_def)

lemma demo_history_searches:
  "searches bsearch_early (concat (map op_chunks (demo_history [4])))"
  "searches bsearch_last (concat (map op_chunks (demo_history [])))"
  by (rule searches_early, simp add: demo_history_def) (rule searches_last)

theorem array_history_refines_witness:
  "(\<exists>rs a s' xss. array_history bsearch_early vec_ops prefix_ops (zstd_disk_ops demo_zstd (\<lambda>_. []) 3 0 plainfile_disk)
      (demo_history [4]) (array_default vec_ops) empty_fs = (rs, a, s') \<and>
    spec_run (demo_history [4]) rs [] = Some xss \<and> array_len vec_ops a = length (concat xss)) \<and>
   (\<exists>rs a s' xss. array_history bsearch_last vec_ops prefix_ops (zstd_disk_ops demo_zstd (\<lambda>_. []) 3 0 plainfile_disk)
      (demo_history []) (array_default vec_ops) empty_fs = (rs, a, s') \<and>
    spec_run (demo_history []) rs [] = Some xss \<and> array_len vec_ops a = length (concat xss))"
proof -
  have "\<exists>rs a s' xss. array_history bs vec_ops prefix_ops (zstd_disk_ops demo_zstd (\<lambda>_. []) 3 0 plainfile_disk)
      (demo_history xs) (array_default vec_ops) empty_fs = (rs, a, s') \<and>
    spec_run (demo_history xs) rs [] = Some xss \<and> array_len vec_ops a = length (concat xss)"
    if B: "searches bs (concat (map op_chunks (demo_history xs)))" for bs xs
  proof -
    obtain rs a s' where H: "array_history bs vec_ops prefix_ops
        (zstd_disk_ops demo_zstd (\<lambda>_. []) 3 0 plainfile_disk) (demo_history xs) (array_default vec_ops) empty_fs = (rs, a, s')"
      by (metis prod_cases3)
    from array_history_refines [OF zstd_plain.byte_disk_axioms prefix_roundtrip demo_history_apart B H] H show ?thesis by blast
  qed
  from this [OF demo_history_searches(1)] this [OF demo_history_searches(2)] show ?thesis by blast
qed

end
