(* ===== verification/Async_History.thy ===== *)
theory Async_History
  imports Array_History Async_Directory
begin

text \<open>
  Histories of a \<open>BackedArray\<close> over asynchronous entries (\<open>src/array/async_impl/mod.rs\<close>, \<open>slice.rs\<close>,
  \<open>generic.rs\<close>, and the operations of \<open>src/array/sync_impl/mod.rs\<close> that are written for both kinds of
  entries), each operation awaited to completion. One step simulates the step of the synchronous array
  behind it, so whole histories answer as the list of chunks does.
\<close>

section \<open>Memory management\<close>

definition aa_clear_memory :: "('k, 'a, 'd, 'c) async_array \<Rightarrow> ('k, 'a, 'd, 'c) async_array" where
  "aa_clear_memory a = a\<lparr>aa_entries := map a_unload (aa_entries a)\<rparr>"

definition aa_clear_chunk :: "nat \<Rightarrow> ('k, 'a, 'd, 'c) async_array \<Rightarrow> ('k, 'a, 'd, 'c) async_array" where
  "aa_clear_chunk i a =
     (case nth_opt (aa_entries a) i of
        Some e \<Rightarrow> a\<lparr>aa_entries := (aa_entries a)[i := a_unload e]\<rparr>
      | None \<Rightarrow> a)"

fun a_sum_widths :: "(('a list, 'd, 'c) async_entry \<times> nat \<times> nat) list \<Rightarrow> (nat, unit) result" where
  "a_sum_widths [] = Ok 0"
| "a_sum_widths ((e, s, t) # xs) =
     (if a_is_loaded e then res_bind (usub t s) (\<lambda>n. map_ok (\<lambda>m. n + m) (a_sum_widths xs)) else a_sum_widths xs)"

definition aa_loaded_len :: "('k, nat) resizing_ops \<Rightarrow> ('k, 'a, 'd, 'c) async_array \<Rightarrow> (nat, unit) result" where
  "aa_loaded_len K a = a_sum_widths (zip (aa_entries a) (zip (c_ref K (aa_starts a)) (c_ref K (aa_ends a))))"

definition aa_shrink_to_query ::
  "('k, nat) resizing_ops \<Rightarrow> nat list \<Rightarrow> ('k, 'a, 'd, 'c) async_array \<Rightarrow> ('k, 'a, 'd, 'c) async_array" where
  "aa_shrink_to_query K idxs a =
     foldl (\<lambda>a' (i, r). if in_query idxs r then a' else aa_clear_chunk i a') a
       (enumerate 0 (zip (c_ref K (aa_starts a)) (c_ref K (aa_ends a))))"

definition aa_default :: "('k, nat) resizing_ops \<Rightarrow> ('k, 'a, 'd, 'c) async_array" where
  "aa_default K = \<lparr>aa_starts = c_default K, aa_ends = c_default K, aa_entries = []\<rparr>"

section \<open>Histories\<close>

text \<open>The operations are those of the synchronous histories; \<open>Chunk_Iter\<close> awaits the chunk stream in order.\<close>

definition a_array_step ::
  "searcher \<Rightarrow> ('k, nat) resizing_ops \<Rightarrow> ('c, 'a list, 'e) coder_ops \<Rightarrow> ('d, 'wr, 'w) disk_ops \<Rightarrow> ('a, 'd, 'c) array_op \<Rightarrow>
   ('k, 'a, 'd, 'c) async_array \<Rightarrow> 'w \<Rightarrow> ('a, 'e) array_answer \<times> ('k, 'a, 'd, 'c) async_array \<times> 'w" where
  "a_array_step bs K C D p a w =
     (case p of
        Append vals d c \<Rightarrow> (case a_append K C D vals d c a w of (r, a1, w1) \<Rightarrow> (Wrote r, a1, w1))
      | Append_Memory vals d c \<Rightarrow> (case a_append_memory K C D vals d c a w of (r, a1, w1) \<Rightarrow> (Wrote r, a1, w1))
      | Get k \<Rightarrow> (case a_get bs K C D k a w of (r, a1, w1) \<Rightarrow> (Got r, a1, w1))
      | Generic_Get k \<Rightarrow> (case a_generic_get bs K C D k a w of (r, a1, w1) \<Rightarrow> (Got r, a1, w1))
      | Remove i \<Rightarrow> (case aa_remove K i a of (r, a1) \<Rightarrow> (Removed r, a1, w))
      | Clear_Memory \<Rightarrow> (Quiet, aa_clear_memory a, w)
      | Clear_Chunk i \<Rightarrow> (Quiet, aa_clear_chunk i a, w)
      | Shrink_To_Query idxs \<Rightarrow> (Quiet, aa_shrink_to_query K idxs a, w)
      | Loaded_Len \<Rightarrow> (Counted (aa_loaded_len K a), a, w)
      | Chunk_Iter \<Rightarrow> (case await_all (chunk_await C D) (chunk_stream a) a w of (rs, a1, w1) \<Rightarrow> (Loaded rs, a1, w1)))"

fun a_array_history ::
  "searcher \<Rightarrow> ('k, nat) resizing_ops \<Rightarrow> ('c, 'a list, 'e) coder_ops \<Rightarrow> ('d, 'wr, 'w) disk_ops \<Rightarrow> ('a, 'd, 'c) array_op list \<Rightarrow>
   ('k, 'a, 'd, 'c) async_array \<Rightarrow> 'w \<Rightarrow> ('a, 'e) array_answer list \<times> ('k, 'a, 'd, 'c) async_array \<times> 'w" where
  "a_array_history bs K C D [] a w = ([], a, w)"
| "a_array_history bs K C D (p # ps) a w =
     (case a_array_step bs K C D p a w of
        (r, a1, w1) \<Rightarrow> (case a_array_history bs K C D ps a1 w1 of (rs, a2, w2) \<Rightarrow> (r # rs, a2, w2)))"

section \<open>Simulation\<close>

lemma a_unload_view [simp]: "sync_view (a_unload e) = unload (sync_view e)"
  by (rule sync_view_unload)

lemma a_unload_idle [simp]: "idle (ae_value (a_unload e))"
  by (simp add: a_unload_def)

lemma a_is_loaded_view: "is_loaded (sync_view e) = a_is_loaded e"
  by (simp add: a_is_loaded_def is_loaded_iff sync_view_def)

lemma aa_default_sim: "array_view (aa_default K) = array_default K" "all_idle (aa_default K)"
  by (simp_all add: aa_default_def array_default_def array_view_def all_idle_def)

lemma aa_clear_memory_sim: "array_view (aa_clear_memory a) = clear_memory (array_view a)" "all_idle (aa_clear_memory a)"
  by (simp_all add: aa_clear_memory_def clear_memory_def array_view_def all_idle_def)

lemma aa_clear_chunk_sim:
  "array_view (aa_clear_chunk i a) = clear_chunk i (array_view a)" "all_idle a \<Longrightarrow> all_idle (aa_clear_chunk i a)"
  by (auto simp: aa_clear_chunk_def clear_chunk_def array_view_update all_idle_update nth_opt_def)

lemma aa_shrink_sim:
  "array_view (aa_shrink_to_query K idxs a) = shrink_to_query K idxs (array_view a)"
  "all_idle a \<Longrightarrow> all_idle (aa_shrink_to_query K idxs a)"
proof -
  have "array_view (foldl (\<lambda>a' (i, r). if in_query idxs r then a' else aa_clear_chunk i a') a xs) =
      foldl (\<lambda>a' (i, r). if in_query idxs r then a' else clear_chunk i a') (array_view a) xs \<and>
    (all_idle a \<longrightarrow> all_idle (foldl (\<lambda>a' (i, r). if in_query idxs r then a' else aa_clear_chunk i a') a xs))" for xs
    by (induction xs arbitrary: a) (auto simp: aa_clear_chunk_sim)
  then show "array_view (aa_shrink_to_query K idxs a) = shrink_to_query K idxs (array_view a)"
    "all_idle a \<Longrightarrow> all_idle (aa_shrink_to_query K idxs a)"
    by (simp_all add: aa_shrink_to_query_def shrink_to_query_def)
qed

lemma aa_loaded_len_sim: "loaded_len K (array_view a) = aa_loaded_len K a"
proof -
  have "sum_widths (zip (map sync_view es) ks) = a_sum_widths (zip es ks)" for es :: "('x list, 'y, 'z) async_entry list" and ks
  proof (induction es arbitrary: ks)
    case (Cons e es)
    then show ?case by (cases ks) (auto simp: a_is_loaded_view)
  qed simp
  then show ?thesis by (simp add: loaded_len_def aa_loaded_len_def)
qed

lemma aa_remove_idle: "aa_remove K i a = (r, a') \<Longrightarrow> all_idle a \<Longrightarrow> all_idle a'"
  by (auto simp: aa_remove_def vec_c_remove_def all_idle_def dest!: in_set_takeD in_set_dropD
      split: option.splits result.splits prod.splits if_splits)

context growing_array
begin

lemma take_Suc_snoc:
  assumes "take (Suc i) ys = zs @ [e]" and "length zs = i"
  shows "take i ys = zs \<and> i < length ys \<and> ys ! i = e"
proof -
  have "length (take (Suc i) ys) = Suc i" using assms by simp
  then have i: "i < length ys" by simp
  with assms show ?thesis by (simp add: take_Suc_conv_app_nth)
qed

text \<open>The chunk stream, from a position on, over entries that all have a value.\<close>

lemma chunk_stream_sim:
  assumes "all_idle a" and "\<forall>j<length (aa_entries a). entry_abs C D (sync_view (aa_entries a ! j)) w \<noteq> None"
    and "await_all (chunk_await C D) [i..<length (aa_entries a)] a w = (rs, a', w')"
  shows "chunk_iter_from C D (drop i (map sync_view (aa_entries a))) w = (rs, drop i (map sync_view (aa_entries a')), w') \<and>
    take i (aa_entries a') = take i (aa_entries a) \<and> all_idle a' \<and> aa_starts a' = aa_starts a \<and> aa_ends a' = aa_ends a"
  using assms
proof (induction "length (aa_entries a) - i" arbitrary: a i rs)
  case (Suc n)
  let ?e = "aa_entries a ! i"
  from Suc.hyps(2) have i: "i < length (aa_entries a)" by linarith
  with Suc.prems(2) obtain xs where X: "entry_abs C D (sync_view ?e) w = Some xs" by blast
  obtain r e1 w1 where L: "a_load C D ?e w = (r, e1, w1)" "entry_load C D (sync_view ?e) w = (r, sync_view e1, w1)"
    "r \<noteq> Panic \<longrightarrow> all_idle (a\<lparr>aa_entries := (aa_entries a)[i := e1]\<rparr>)"
    using load_view [OF Suc.prems(1) i, of C D w] by blast
  from load_abs [OF X] L(2) have r: "r = Ok xs" "w1 = w" "sync_view e1 = (sync_view ?e)\<lparr>entry_value := Some xs\<rparr>" by simp_all
  let ?a = "a\<lparr>aa_entries := (aa_entries a)[i := e1]\<rparr>"
  from Suc.prems(3) i L(1) r obtain rs' where
    A: "await_all (chunk_await C D) [Suc i..<length (aa_entries ?a)] ?a w = (rs', a', w')" "rs = Ok xs # rs'"
    by (auto simp: upt_conv_Cons chunk_await_def split: prod.splits)
  have "entry_abs C D (sync_view e1) w = Some xs" unfolding r(3) by (simp add: entry_abs_def)
  then have V: "\<forall>j<length (aa_entries ?a). entry_abs C D (sync_view (aa_entries ?a ! j)) w \<noteq> None"
    using Suc.prems(2) i by (simp add: nth_list_update)
  have "n = length (aa_entries ?a) - Suc i" using Suc.hyps(2) by simp
  from Suc.hyps(1) [OF this _ V A(1)] L(3) r(1)
  have I: "chunk_iter_from C D (drop (Suc i) (map sync_view (aa_entries ?a))) w = (rs', drop (Suc i) (map sync_view (aa_entries a')), w')"
    "take (Suc i) (aa_entries a') = take (Suc i) (aa_entries ?a)" "all_idle a'" "aa_starts a' = aa_starts a" "aa_ends a' = aa_ends a"
    by simp_all
  have "take (Suc i) (aa_entries a') = take i (aa_entries a) @ [e1]"
    using I(2) i by (simp add: take_Suc_conv_app_nth)
  from take_Suc_snoc [OF this] i
  have T: "take i (aa_entries a') = take i (aa_entries a)" and N: "i < length (aa_entries a')" "aa_entries a' ! i = e1"
    by simp_all
  have "drop i (map sync_view (aa_entries a')) = sync_view e1 # drop (Suc i) (map sync_view (aa_entries a'))"
    using N by (metis Cons_nth_drop_Suc length_map nth_map)
  moreover have "drop i (map sync_view (aa_entries a)) = sync_view ?e # drop (Suc i) (map sync_view (aa_entries ?a))"
    using i by (simp add: Cons_nth_drop_Suc [symmetric] drop_map map_update)
  ultimately show ?case using I(1,3,4,5) T A(2) L(2) r by simp
qed auto

lemma a_step_simulates:
  assumes "all_idle a" "represents (array_view a) w xss" "all_synced (array_view a) w"
    and "set (map site (op_disks p)) \<inter> set (sites (array_view a)) = {}"
    and "a_array_step bs K C D p a w = (r, a1, w1)" and "searches bs xss"
  shows "array_step bs K C D p (array_view a) w = (r, array_view a1, w1) \<and> all_idle a1"
proof -
  note get = get_by_locate [OF assms(2) searches_locate [OF assms(6)]]
  show ?thesis
  proof (cases p)
    case (Append vals d c)
    with assms(1,5) show ?thesis
      by (auto simp: array_step_def a_array_step_def split: prod.splits dest: a_append_sim)
  next
    case (Append_Memory vals d c)
    with assms(1,5) show ?thesis
      by (auto simp: array_step_def a_array_step_def split: prod.splits dest: a_append_memory_sim)
  next
    case (Get k)
    obtain q b v where G: "a_get bs K C D k a w = (q, b, v)" by (metis prod_cases3)
    from a_get_sim [OF assms(1) G] get [of k] Get G assms(5) show ?thesis
      by (auto simp: array_step_def a_array_step_def split: if_splits)
  next
    case (Generic_Get k)
    obtain q b v where G: "internal_a_get bs K C D k a w = (q, b, v)" by (metis prod_cases3)
    from internal_a_get_sim [OF assms(1) G] get [of k] Generic_Get G assms(5) show ?thesis
      by (cases q) (auto simp: array_step_def a_array_step_def a_generic_get_def split: if_splits)
  next
    case (Remove i)
    with assms(1,5) show ?thesis
      by (auto simp: array_step_def a_array_step_def split: prod.splits dest: aa_remove_sim aa_remove_idle)
  next
    case Chunk_Iter
    have E: "\<forall>j<length (aa_entries a). entry_abs C D (sync_view (aa_entries a ! j)) w \<noteq> None"
      using represents_nth [OF assms(2)] represents_length [OF assms(2)] by simp
    obtain rs b v where W: "await_all (chunk_await C D) [0..<length (aa_entries a)] a w = (rs, b, v)" by (metis prod_cases3)
    from chunk_stream_sim [OF assms(1) E W] W Chunk_Iter assms(5) show ?thesis
      by (simp add: array_step_def a_array_step_def chunk_stream_def chunk_iter_def array_view_def)
  qed (use assms(1,5) in \<open>auto simp: array_step_def a_array_step_def aa_clear_memory_sim aa_clear_chunk_sim
        aa_shrink_sim aa_loaded_len_sim\<close>)
qed

lemma a_history_simulates:
  assumes "all_idle a" "represents (array_view a) w xss" "all_synced (array_view a) w"
    and "distinct (map site (concat (map op_disks ps)))"
    and "set (map site (concat (map op_disks ps))) \<inter> set (sites (array_view a)) = {}"
    and "a_array_history bs K C D ps a w = (rs, a', w')" and "searches bs (xss @ concat (map op_chunks ps))"
  shows "array_history bs K C D ps (array_view a) w = (rs, array_view a', w') \<and> all_idle a'"
  using assms
proof (induction ps arbitrary: a w xss rs)
  case (Cons p ps)
  obtain r a1 w1 where S: "a_array_step bs K C D p a w = (r, a1, w1)" by (metis prod_cases3)
  obtain rs' where H: "a_array_history bs K C D ps a1 w1 = (rs', a', w')" "rs = r # rs'"
    using Cons.prems(6) S by (auto split: prod.splits)
  have disj: "set (map site (op_disks p)) \<inter> set (sites (array_view a)) = {}" using Cons.prems(5) by auto
  have now: "searches bs xss" by (rule searches_subset [OF Cons.prems(7)]) simp
  from a_step_simulates [OF Cons.prems(1-3) disj S now]
  have V: "array_step bs K C D p (array_view a) w = (r, array_view a1, w1)" "all_idle a1" by simp_all
  from step_simulates [OF Cons.prems(2,3) disj V(1) now] obtain yss where
    Y: "represents (array_view a1) w1 yss" "all_synced (array_view a1) w1"
       "set (sites (array_view a1)) \<subseteq> set (sites (array_view a)) \<union> set (map site (op_disks p))"
       "set yss \<subseteq> set xss \<union> set (op_chunks p)" by blast
  have bs: "searches bs (yss @ concat (map op_chunks ps))" by (rule searches_subset [OF Cons.prems(7)]) (use Y(4) in auto)
  have "distinct (map site (concat (map op_disks ps)))" using Cons.prems(4) by simp
  moreover have "set (map site (concat (map op_disks ps))) \<inter> set (sites (array_view a1)) = {}"
    using Cons.prems(4,5) Y(3) by fastforce
  ultimately show ?case using Cons.IH [OF V(2) Y(1,2) _ _ H(1) bs] V(1) H(2) by simp
qed auto

end

text \<open>
  C3: every history of an array of asynchronous entries is the same history of the synchronous array:
  the same operations give the same answers, the same store and the same chunks in memory, and refine
  the list of the chunks; between two operations no cell is left initializing. This holds on any disk that
  keeps the contract of the traits, with a coder that restores what it encodes, from the empty array, for
  every binary search that meets the documented contract, if no appended chunk is empty or the search
  returns the last of equal keys.
\<close>

theorem async_history_refines:
  assumes "byte_disk D site stored writable" and "coder_roundtrip C"
    and "distinct (map site (concat (map op_disks ps)))"
    and "searches bs (concat (map op_chunks ps))"
    and "a_array_history bs vec_ops C D ps (aa_default vec_ops) w = (rs, a, w')"
  shows "array_history bs vec_ops C D ps (array_default vec_ops) w = (rs, array_view a, w') \<and> all_idle a \<and>
    (\<exists>xss. spec_run ps rs [] = Some xss \<and> array_represents vec_ops C D (array_view a) w' xss \<and> aa_len vec_ops a = length (concat xss))"
proof -
  note G = growing_over_bytes [OF assms(1,2)]
  have R: "array_represents vec_ops C D (array_view (aa_default vec_ops)) w []" "array_synced C D (array_view (aa_default vec_ops)) w"
    "array_sites site (array_view (aa_default vec_ops)) = []"
    using growing_array.default_represents [OF G] by (simp_all add: aa_default_sim array_sites_def array_default_def)
  have disj: "set (map site (concat (map op_disks ps))) \<inter> set (array_sites site (array_view (aa_default vec_ops))) = {}"
    unfolding R(3) by simp
  from growing_array.a_history_simulates [OF G aa_default_sim(2) R(1,2) assms(3) disj assms(5)] assms(4)
  have H: "array_history bs vec_ops C D ps (array_default vec_ops) w = (rs, array_view a, w')" "all_idle a"
    by (simp_all add: aa_default_sim)
  from growing_array.history_from_empty [OF G assms(3) H(1) assms(4)] obtain xss where
    "spec_run ps rs [] = Some xss" "array_represents vec_ops C D (array_view a) w' xss" by blast
  with H array_backing.represents_array_len [OF growing_array.axioms(1) [OF G], of "array_view a"] show ?thesis by auto
qed

theorem async_history_refines_witness:
  "\<exists>rs a s'. a_array_history bsearch_early vec_ops prefix_ops (zstd_disk_ops demo_zstd (\<lambda>_. []) 3 0 plainfile_disk)
      (demo_history [4]) (aa_default vec_ops) empty_fs = (rs, a, s') \<and> all_idle a \<and> spec_run (demo_history [4]) rs [] \<noteq> None"
proof -
  obtain rs a s' where H: "a_array_history bsearch_early vec_ops prefix_ops
      (zstd_disk_ops demo_zstd (\<lambda>_. []) 3 0 plainfile_disk) (demo_history [4]) (aa_default vec_ops) empty_fs = (rs, a, s')"
    by (metis prod_cases3)
  from async_history_refines [OF zstd_plain.byte_disk_axioms prefix_roundtrip demo_history_apart demo_history_searches(1) H] H
  show ?thesis by blast
qed

end
