(* ===== verification/Csv.thy ===== *)
theory Csv
  imports Encrypted
begin

text \<open>
  The CSV coders of \<open>src/entry/formats/csv.rs\<close> and \<open>async_csv.rs\<close>: the options, the builders made from
  them, the conversions between the two coders, and encoding and decoding. The two CSV libraries are
  parameters. The last section composes the coder with the encrypting disk.
\<close>

section \<open>The options\<close>

text \<open>
  The enumerations of the two libraries. They may gain variants, which the serialized forms of the
  crate and its conversions do not know.
\<close>

datatype csv_trim = Trim_None | Trim_Headers | Trim_Fields | Trim_All | Trim_Unknown
datatype csv_terminator = Term_CRLF | Term_Any byte | Term_Unknown
datatype csv_quote_style = Quote_Always | Quote_Necessary | Quote_NonNumeric | Quote_Never | Quote_Unknown

datatype async_trim = ATrim_None | ATrim_Headers | ATrim_Fields | ATrim_All | ATrim_Unknown
datatype async_terminator = ATerm_CRLF | ATerm_Any byte | ATerm_Unknown
datatype async_quote_style = AQuote_Always | AQuote_Necessary | AQuote_NonNumeric | AQuote_Never | AQuote_Unknown

text \<open>\<open>CsvCoder\<close> and \<open>AsyncCsvCoder\<close>, over the enumerations of their library.\<close>

record ('q, 't, 'm) csv_fields =
  cc_comment :: "byte option"
  cc_delimiter :: "byte option"
  cc_double_quote :: "bool option"
  cc_escape :: "byte option"
  cc_flexible :: "bool option"
  cc_has_headers :: "bool option"
  cc_quote :: "byte option"
  cc_quoting :: "bool option"
  cc_quote_style :: "'q option"
  cc_terminator :: "'t option"
  cc_trim :: "'m option"

type_synonym csv_coder = "(csv_quote_style, csv_terminator, csv_trim) csv_fields"
type_synonym async_csv_coder = "(async_quote_style, async_terminator, async_trim) csv_fields"

text \<open>The builders of the libraries; what \<open>new\<close> sets is an argument.\<close>

record ('t, 'm) reader_conf =
  rb_comment :: "byte option"
  rb_delimiter :: byte
  rb_double_quote :: bool
  rb_escape :: "byte option"
  rb_flexible :: bool
  rb_has_headers :: bool
  rb_quote :: byte
  rb_quoting :: bool
  rb_terminator :: 't
  rb_trim :: 'm

record ('q, 't) writer_conf =
  wb_comment :: "byte option"
  wb_delimiter :: byte
  wb_double_quote :: bool
  wb_escape :: byte
  wb_flexible :: bool
  wb_has_headers :: bool
  wb_quote :: byte
  wb_quote_style :: 'q
  wb_terminator :: 't

definition set_if :: "'a option \<Rightarrow> ('a \<Rightarrow> 'b \<Rightarrow> 'b) \<Rightarrow> 'b \<Rightarrow> 'b" where
  "set_if x f b = (case x of Some a \<Rightarrow> f a b | None \<Rightarrow> b)"

definition csv_reader_builder ::
  "(csv_terminator, csv_trim) reader_conf \<Rightarrow> csv_coder \<Rightarrow> (csv_terminator, csv_trim) reader_conf" where
  "csv_reader_builder new c =
     (let b = new\<lparr>rb_comment := cc_comment c\<rparr>;
          b = set_if (cc_delimiter c) (\<lambda>x b. b\<lparr>rb_delimiter := x\<rparr>) b;
          b = set_if (cc_double_quote c) (\<lambda>x b. b\<lparr>rb_double_quote := x\<rparr>) b;
          b = b\<lparr>rb_escape := cc_escape c\<rparr>;
          b = set_if (cc_flexible c) (\<lambda>x b. b\<lparr>rb_flexible := x\<rparr>) b;
          b = set_if (cc_has_headers c) (\<lambda>x b. b\<lparr>rb_has_headers := x\<rparr>) b;
          b = set_if (cc_quote c) (\<lambda>x b. b\<lparr>rb_quote := x\<rparr>) b;
          b = set_if (cc_quoting c) (\<lambda>x b. b\<lparr>rb_quoting := x\<rparr>) b;
          b = set_if (cc_terminator c) (\<lambda>x b. b\<lparr>rb_terminator := x\<rparr>) b
      in set_if (cc_trim c) (\<lambda>x b. b\<lparr>rb_trim := x\<rparr>) b)"

definition csv_writer_builder ::
  "(csv_quote_style, csv_terminator) writer_conf \<Rightarrow> csv_coder \<Rightarrow> (csv_quote_style, csv_terminator) writer_conf" where
  "csv_writer_builder new c =
     (let b = new\<lparr>wb_comment := cc_comment c\<rparr>;
          b = set_if (cc_delimiter c) (\<lambda>x b. b\<lparr>wb_delimiter := x\<rparr>) b;
          b = set_if (cc_double_quote c) (\<lambda>x b. b\<lparr>wb_double_quote := x\<rparr>) b;
          b = set_if (cc_escape c) (\<lambda>x b. b\<lparr>wb_escape := x\<rparr>) b;
          b = set_if (cc_flexible c) (\<lambda>x b. b\<lparr>wb_flexible := x\<rparr>) b;
          b = set_if (cc_has_headers c) (\<lambda>x b. b\<lparr>wb_has_headers := x\<rparr>) b;
          b = set_if (cc_quote c) (\<lambda>x b. b\<lparr>wb_quote := x\<rparr>) b;
          b = set_if (cc_quote_style c) (\<lambda>x b. b\<lparr>wb_quote_style := x\<rparr>) b
      in set_if (cc_terminator c) (\<lambda>x b. b\<lparr>wb_terminator := x\<rparr>) b)"

definition async_csv_reader_builder ::
  "(async_terminator, async_trim) reader_conf \<Rightarrow> async_csv_coder \<Rightarrow> (async_terminator, async_trim) reader_conf" where
  "async_csv_reader_builder new c =
     (let b = new\<lparr>rb_comment := cc_comment c\<rparr>;
          b = set_if (cc_delimiter c) (\<lambda>x b. b\<lparr>rb_delimiter := x\<rparr>) b;
          b = set_if (cc_double_quote c) (\<lambda>x b. b\<lparr>rb_double_quote := x\<rparr>) b;
          b = b\<lparr>rb_escape := cc_escape c\<rparr>;
          b = set_if (cc_flexible c) (\<lambda>x b. b\<lparr>rb_flexible := x\<rparr>) b;
          b = set_if (cc_has_headers c) (\<lambda>x b. b\<lparr>rb_has_headers := x\<rparr>) b;
          b = set_if (cc_quote c) (\<lambda>x b. b\<lparr>rb_quote := x\<rparr>) b;
          b = set_if (cc_quoting c) (\<lambda>x b. b\<lparr>rb_quoting := x\<rparr>) b;
          b = set_if (cc_terminator c) (\<lambda>x b. b\<lparr>rb_terminator := x\<rparr>) b
      in set_if (cc_trim c) (\<lambda>x b. b\<lparr>rb_trim := x\<rparr>) b)"

definition async_csv_writer_builder ::
  "(async_quote_style, async_terminator) writer_conf \<Rightarrow> async_csv_coder \<Rightarrow>
     (async_quote_style, async_terminator) writer_conf" where
  "async_csv_writer_builder new c =
     (let b = new\<lparr>wb_comment := cc_comment c\<rparr>;
          b = set_if (cc_delimiter c) (\<lambda>x b. b\<lparr>wb_delimiter := x\<rparr>) b;
          b = set_if (cc_double_quote c) (\<lambda>x b. b\<lparr>wb_double_quote := x\<rparr>) b;
          b = set_if (cc_escape c) (\<lambda>x b. b\<lparr>wb_escape := x\<rparr>) b;
          b = set_if (cc_flexible c) (\<lambda>x b. b\<lparr>wb_flexible := x\<rparr>) b;
          b = set_if (cc_has_headers c) (\<lambda>x b. b\<lparr>wb_has_headers := x\<rparr>) b;
          b = set_if (cc_quote c) (\<lambda>x b. b\<lparr>wb_quote := x\<rparr>) b;
          b = set_if (cc_quote_style c) (\<lambda>x b. b\<lparr>wb_quote_style := x\<rparr>) b
      in set_if (cc_terminator c) (\<lambda>x b. b\<lparr>wb_terminator := x\<rparr>) b)"

section \<open>The conversions\<close>

text \<open>An unknown variant panics.\<close>

fun quote_style_from_async :: "async_quote_style \<Rightarrow> (csv_quote_style, unit) result" where
  "quote_style_from_async AQuote_Always = Ok Quote_Always"
| "quote_style_from_async AQuote_Necessary = Ok Quote_Necessary"
| "quote_style_from_async AQuote_NonNumeric = Ok Quote_NonNumeric"
| "quote_style_from_async AQuote_Never = Ok Quote_Never"
| "quote_style_from_async AQuote_Unknown = Panic"

fun term_from_async :: "async_terminator \<Rightarrow> (csv_terminator, unit) result" where
  "term_from_async ATerm_CRLF = Ok Term_CRLF"
| "term_from_async (ATerm_Any x) = Ok (Term_Any x)"
| "term_from_async ATerm_Unknown = Panic"

fun trim_from_async :: "async_trim \<Rightarrow> (csv_trim, unit) result" where
  "trim_from_async ATrim_None = Ok Trim_None"
| "trim_from_async ATrim_Headers = Ok Trim_Headers"
| "trim_from_async ATrim_Fields = Ok Trim_Fields"
| "trim_from_async ATrim_All = Ok Trim_All"
| "trim_from_async ATrim_Unknown = Panic"

fun quote_style_to_async :: "csv_quote_style \<Rightarrow> (async_quote_style, unit) result" where
  "quote_style_to_async Quote_Always = Ok AQuote_Always"
| "quote_style_to_async Quote_Necessary = Ok AQuote_Necessary"
| "quote_style_to_async Quote_NonNumeric = Ok AQuote_NonNumeric"
| "quote_style_to_async Quote_Never = Ok AQuote_Never"
| "quote_style_to_async Quote_Unknown = Panic"

fun term_to_async :: "csv_terminator \<Rightarrow> (async_terminator, unit) result" where
  "term_to_async Term_CRLF = Ok ATerm_CRLF"
| "term_to_async (Term_Any x) = Ok (ATerm_Any x)"
| "term_to_async Term_Unknown = Panic"

fun trim_to_async :: "csv_trim \<Rightarrow> (async_trim, unit) result" where
  "trim_to_async Trim_None = Ok ATrim_None"
| "trim_to_async Trim_Headers = Ok ATrim_Headers"
| "trim_to_async Trim_Fields = Ok ATrim_Fields"
| "trim_to_async Trim_All = Ok ATrim_All"
| "trim_to_async Trim_Unknown = Panic"

text \<open>\<open>Option::map\<close> with a function that may panic.\<close>

fun map_opt :: "('a \<Rightarrow> ('b, 'e) result) \<Rightarrow> 'a option \<Rightarrow> ('b option, 'e) result" where
  "map_opt f None = Ok None"
| "map_opt f (Some x) = map_ok Some (f x)"

definition csv_from_async :: "async_csv_coder \<Rightarrow> (csv_coder, unit) result" where
  "csv_from_async c =
     res_bind (map_opt quote_style_from_async (cc_quote_style c)) (\<lambda>q.
     res_bind (map_opt term_from_async (cc_terminator c)) (\<lambda>t.
     res_bind (map_opt trim_from_async (cc_trim c)) (\<lambda>m.
     Ok \<lparr>cc_comment = cc_comment c, cc_delimiter = cc_delimiter c, cc_double_quote = cc_double_quote c,
       cc_escape = cc_escape c, cc_flexible = cc_flexible c, cc_has_headers = cc_has_headers c, cc_quote = cc_quote c,
       cc_quoting = cc_quoting c, cc_quote_style = q, cc_terminator = t, cc_trim = m\<rparr>)))"

definition csv_to_async :: "csv_coder \<Rightarrow> (async_csv_coder, unit) result" where
  "csv_to_async c =
     res_bind (map_opt quote_style_to_async (cc_quote_style c)) (\<lambda>q.
     res_bind (map_opt term_to_async (cc_terminator c)) (\<lambda>t.
     res_bind (map_opt trim_to_async (cc_trim c)) (\<lambda>m.
     Ok \<lparr>cc_comment = cc_comment c, cc_delimiter = cc_delimiter c, cc_double_quote = cc_double_quote c,
       cc_escape = cc_escape c, cc_flexible = cc_flexible c, cc_has_headers = cc_has_headers c, cc_quote = cc_quote c,
       cc_quoting = cc_quoting c, cc_quote_style = q, cc_terminator = t, cc_trim = m\<rparr>)))"

text \<open>The two directions of the enumerations are inverse.\<close>

lemma quote_style_inverse: "quote_style_to_async q = Ok a \<longleftrightarrow> quote_style_from_async a = Ok q"
  by (cases q; cases a) simp_all

lemma term_inverse: "term_to_async t = Ok a \<longleftrightarrow> term_from_async a = Ok t"
  by (cases t; cases a) auto

lemma trim_inverse: "trim_to_async m = Ok a \<longleftrightarrow> trim_from_async a = Ok m"
  by (cases m; cases a) simp_all

lemma map_opt_inverse:
  assumes "\<And>x y. f x = Ok y \<longleftrightarrow> g y = Ok x"
  shows "map_opt f a = Ok b \<longleftrightarrow> map_opt g b = Ok a"
  using assms by (cases a; cases b) auto

text \<open>The configurations of the two libraries that mean the same.\<close>

definition same_reader :: "(csv_terminator, csv_trim) reader_conf \<Rightarrow> (async_terminator, async_trim) reader_conf \<Rightarrow> bool" where
  "same_reader r a \<longleftrightarrow> rb_comment a = rb_comment r \<and> rb_delimiter a = rb_delimiter r \<and>
     rb_double_quote a = rb_double_quote r \<and> rb_escape a = rb_escape r \<and> rb_flexible a = rb_flexible r \<and>
     rb_has_headers a = rb_has_headers r \<and> rb_quote a = rb_quote r \<and> rb_quoting a = rb_quoting r \<and>
     term_to_async (rb_terminator r) = Ok (rb_terminator a) \<and> trim_to_async (rb_trim r) = Ok (rb_trim a)"

definition same_writer ::
  "(csv_quote_style, csv_terminator) writer_conf \<Rightarrow> (async_quote_style, async_terminator) writer_conf \<Rightarrow> bool" where
  "same_writer r a \<longleftrightarrow> wb_comment a = wb_comment r \<and> wb_delimiter a = wb_delimiter r \<and>
     wb_double_quote a = wb_double_quote r \<and> wb_escape a = wb_escape r \<and> wb_flexible a = wb_flexible r \<and>
     wb_has_headers a = wb_has_headers r \<and> wb_quote a = wb_quote r \<and>
     quote_style_to_async (wb_quote_style r) = Ok (wb_quote_style a) \<and> term_to_async (wb_terminator r) = Ok (wb_terminator a)"

text \<open>A setter that is called if the option is set, as one update of its field.\<close>

lemma set_if_rb:
  "set_if x1 (\<lambda>y b. b\<lparr>rb_delimiter := y\<rparr>) b = rb_delimiter_update (\<lambda>d. case x1 of None \<Rightarrow> d | Some y \<Rightarrow> y) b"
  "set_if x2 (\<lambda>y b. b\<lparr>rb_double_quote := y\<rparr>) b = rb_double_quote_update (\<lambda>d. case x2 of None \<Rightarrow> d | Some y \<Rightarrow> y) b"
  "set_if x3 (\<lambda>y b. b\<lparr>rb_flexible := y\<rparr>) b = rb_flexible_update (\<lambda>d. case x3 of None \<Rightarrow> d | Some y \<Rightarrow> y) b"
  "set_if x4 (\<lambda>y b. b\<lparr>rb_has_headers := y\<rparr>) b = rb_has_headers_update (\<lambda>d. case x4 of None \<Rightarrow> d | Some y \<Rightarrow> y) b"
  "set_if x5 (\<lambda>y b. b\<lparr>rb_quote := y\<rparr>) b = rb_quote_update (\<lambda>d. case x5 of None \<Rightarrow> d | Some y \<Rightarrow> y) b"
  "set_if x6 (\<lambda>y b. b\<lparr>rb_quoting := y\<rparr>) b = rb_quoting_update (\<lambda>d. case x6 of None \<Rightarrow> d | Some y \<Rightarrow> y) b"
  "set_if x7 (\<lambda>y b. b\<lparr>rb_terminator := y\<rparr>) b = rb_terminator_update (\<lambda>d. case x7 of None \<Rightarrow> d | Some y \<Rightarrow> y) b"
  "set_if x8 (\<lambda>y b. b\<lparr>rb_trim := y\<rparr>) b = rb_trim_update (\<lambda>d. case x8 of None \<Rightarrow> d | Some y \<Rightarrow> y) b"
  by (cases b; simp add: set_if_def split: option.split)+

lemma set_if_wb:
  "set_if x1 (\<lambda>y b. b\<lparr>wb_delimiter := y\<rparr>) b = wb_delimiter_update (\<lambda>d. case x1 of None \<Rightarrow> d | Some y \<Rightarrow> y) b"
  "set_if x2 (\<lambda>y b. b\<lparr>wb_double_quote := y\<rparr>) b = wb_double_quote_update (\<lambda>d. case x2 of None \<Rightarrow> d | Some y \<Rightarrow> y) b"
  "set_if x3 (\<lambda>y b. b\<lparr>wb_escape := y\<rparr>) b = wb_escape_update (\<lambda>d. case x3 of None \<Rightarrow> d | Some y \<Rightarrow> y) b"
  "set_if x4 (\<lambda>y b. b\<lparr>wb_flexible := y\<rparr>) b = wb_flexible_update (\<lambda>d. case x4 of None \<Rightarrow> d | Some y \<Rightarrow> y) b"
  "set_if x5 (\<lambda>y b. b\<lparr>wb_has_headers := y\<rparr>) b = wb_has_headers_update (\<lambda>d. case x5 of None \<Rightarrow> d | Some y \<Rightarrow> y) b"
  "set_if x6 (\<lambda>y b. b\<lparr>wb_quote := y\<rparr>) b = wb_quote_update (\<lambda>d. case x6 of None \<Rightarrow> d | Some y \<Rightarrow> y) b"
  "set_if x7 (\<lambda>y b. b\<lparr>wb_quote_style := y\<rparr>) b = wb_quote_style_update (\<lambda>d. case x7 of None \<Rightarrow> d | Some y \<Rightarrow> y) b"
  "set_if x8 (\<lambda>y b. b\<lparr>wb_terminator := y\<rparr>) b = wb_terminator_update (\<lambda>d. case x8 of None \<Rightarrow> d | Some y \<Rightarrow> y) b"
  by (cases b; simp add: set_if_def split: option.split)+

lemmas builder_fields = csv_reader_builder_def async_csv_reader_builder_def csv_writer_builder_def
  async_csv_writer_builder_def Let_def set_if_rb set_if_wb

lemma csv_reader_fields [simp]:
  "rb_comment (csv_reader_builder new c) = cc_comment c"
  "rb_delimiter (csv_reader_builder new c) = (case cc_delimiter c of None \<Rightarrow> rb_delimiter new | Some x \<Rightarrow> x)"
  "rb_double_quote (csv_reader_builder new c) = (case cc_double_quote c of None \<Rightarrow> rb_double_quote new | Some x \<Rightarrow> x)"
  "rb_escape (csv_reader_builder new c) = cc_escape c"
  "rb_flexible (csv_reader_builder new c) = (case cc_flexible c of None \<Rightarrow> rb_flexible new | Some x \<Rightarrow> x)"
  "rb_has_headers (csv_reader_builder new c) = (case cc_has_headers c of None \<Rightarrow> rb_has_headers new | Some x \<Rightarrow> x)"
  "rb_quote (csv_reader_builder new c) = (case cc_quote c of None \<Rightarrow> rb_quote new | Some x \<Rightarrow> x)"
  "rb_quoting (csv_reader_builder new c) = (case cc_quoting c of None \<Rightarrow> rb_quoting new | Some x \<Rightarrow> x)"
  "rb_terminator (csv_reader_builder new c) = (case cc_terminator c of None \<Rightarrow> rb_terminator new | Some x \<Rightarrow> x)"
  "rb_trim (csv_reader_builder new c) = (case cc_trim c of None \<Rightarrow> rb_trim new | Some x \<Rightarrow> x)"
  by (simp_all add: builder_fields)

lemma async_csv_reader_fields [simp]:
  "rb_comment (async_csv_reader_builder new c) = cc_comment c"
  "rb_delimiter (async_csv_reader_builder new c) = (case cc_delimiter c of None \<Rightarrow> rb_delimiter new | Some x \<Rightarrow> x)"
  "rb_double_quote (async_csv_reader_builder new c) = (case cc_double_quote c of None \<Rightarrow> rb_double_quote new | Some x \<Rightarrow> x)"
  "rb_escape (async_csv_reader_builder new c) = cc_escape c"
  "rb_flexible (async_csv_reader_builder new c) = (case cc_flexible c of None \<Rightarrow> rb_flexible new | Some x \<Rightarrow> x)"
  "rb_has_headers (async_csv_reader_builder new c) = (case cc_has_headers c of None \<Rightarrow> rb_has_headers new | Some x \<Rightarrow> x)"
  "rb_quote (async_csv_reader_builder new c) = (case cc_quote c of None \<Rightarrow> rb_quote new | Some x \<Rightarrow> x)"
  "rb_quoting (async_csv_reader_builder new c) = (case cc_quoting c of None \<Rightarrow> rb_quoting new | Some x \<Rightarrow> x)"
  "rb_terminator (async_csv_reader_builder new c) = (case cc_terminator c of None \<Rightarrow> rb_terminator new | Some x \<Rightarrow> x)"
  "rb_trim (async_csv_reader_builder new c) = (case cc_trim c of None \<Rightarrow> rb_trim new | Some x \<Rightarrow> x)"
  by (simp_all add: builder_fields)

lemma csv_writer_fields [simp]:
  "wb_comment (csv_writer_builder new c) = cc_comment c"
  "wb_delimiter (csv_writer_builder new c) = (case cc_delimiter c of None \<Rightarrow> wb_delimiter new | Some x \<Rightarrow> x)"
  "wb_double_quote (csv_writer_builder new c) = (case cc_double_quote c of None \<Rightarrow> wb_double_quote new | Some x \<Rightarrow> x)"
  "wb_escape (csv_writer_builder new c) = (case cc_escape c of None \<Rightarrow> wb_escape new | Some x \<Rightarrow> x)"
  "wb_flexible (csv_writer_builder new c) = (case cc_flexible c of None \<Rightarrow> wb_flexible new | Some x \<Rightarrow> x)"
  "wb_has_headers (csv_writer_builder new c) = (case cc_has_headers c of None \<Rightarrow> wb_has_headers new | Some x \<Rightarrow> x)"
  "wb_quote (csv_writer_builder new c) = (case cc_quote c of None \<Rightarrow> wb_quote new | Some x \<Rightarrow> x)"
  "wb_quote_style (csv_writer_builder new c) = (case cc_quote_style c of None \<Rightarrow> wb_quote_style new | Some x \<Rightarrow> x)"
  "wb_terminator (csv_writer_builder new c) = (case cc_terminator c of None \<Rightarrow> wb_terminator new | Some x \<Rightarrow> x)"
  by (simp_all add: builder_fields)

lemma async_csv_writer_fields [simp]:
  "wb_comment (async_csv_writer_builder new c) = cc_comment c"
  "wb_delimiter (async_csv_writer_builder new c) = (case cc_delimiter c of None \<Rightarrow> wb_delimiter new | Some x \<Rightarrow> x)"
  "wb_double_quote (async_csv_writer_builder new c) = (case cc_double_quote c of None \<Rightarrow> wb_double_quote new | Some x \<Rightarrow> x)"
  "wb_escape (async_csv_writer_builder new c) = (case cc_escape c of None \<Rightarrow> wb_escape new | Some x \<Rightarrow> x)"
  "wb_flexible (async_csv_writer_builder new c) = (case cc_flexible c of None \<Rightarrow> wb_flexible new | Some x \<Rightarrow> x)"
  "wb_has_headers (async_csv_writer_builder new c) = (case cc_has_headers c of None \<Rightarrow> wb_has_headers new | Some x \<Rightarrow> x)"
  "wb_quote (async_csv_writer_builder new c) = (case cc_quote c of None \<Rightarrow> wb_quote new | Some x \<Rightarrow> x)"
  "wb_quote_style (async_csv_writer_builder new c) = (case cc_quote_style c of None \<Rightarrow> wb_quote_style new | Some x \<Rightarrow> x)"
  "wb_terminator (async_csv_writer_builder new c) = (case cc_terminator c of None \<Rightarrow> wb_terminator new | Some x \<Rightarrow> x)"
  by (simp_all add: builder_fields)

lemma csv_to_async_Ok:
  "csv_to_async c = Ok a \<longleftrightarrow>
     cc_comment a = cc_comment c \<and> cc_delimiter a = cc_delimiter c \<and> cc_double_quote a = cc_double_quote c \<and>
     cc_escape a = cc_escape c \<and> cc_flexible a = cc_flexible c \<and> cc_has_headers a = cc_has_headers c \<and>
     cc_quote a = cc_quote c \<and> cc_quoting a = cc_quoting c \<and>
     map_opt quote_style_to_async (cc_quote_style c) = Ok (cc_quote_style a) \<and>
     map_opt term_to_async (cc_terminator c) = Ok (cc_terminator a) \<and> map_opt trim_to_async (cc_trim c) = Ok (cc_trim a)"
  by (cases a) (auto simp: csv_to_async_def)

lemma csv_from_async_Ok:
  "csv_from_async a = Ok c \<longleftrightarrow>
     cc_comment a = cc_comment c \<and> cc_delimiter a = cc_delimiter c \<and> cc_double_quote a = cc_double_quote c \<and>
     cc_escape a = cc_escape c \<and> cc_flexible a = cc_flexible c \<and> cc_has_headers a = cc_has_headers c \<and>
     cc_quote a = cc_quote c \<and> cc_quoting a = cc_quoting c \<and>
     map_opt quote_style_from_async (cc_quote_style a) = Ok (cc_quote_style c) \<and>
     map_opt term_from_async (cc_terminator a) = Ok (cc_terminator c) \<and> map_opt trim_from_async (cc_trim a) = Ok (cc_trim c)"
  by (cases c) (auto simp: csv_from_async_def)

lemma to_async_panics:
  "quote_style_to_async q = Panic \<longleftrightarrow> q = Quote_Unknown" "term_to_async t = Panic \<longleftrightarrow> t = Term_Unknown"
  "trim_to_async m = Panic \<longleftrightarrow> m = Trim_Unknown"
  "quote_style_to_async q \<noteq> Err e" "term_to_async t \<noteq> Err e" "trim_to_async m \<noteq> Err e"
  by (cases q; cases t; cases m; simp)+

lemma map_opt_panics:
  "map_opt f x = Panic \<longleftrightarrow> (\<exists>y. x = Some y \<and> f y = Panic)" "map_opt f x = Err e \<longleftrightarrow> (\<exists>y. x = Some y \<and> f y = Err e)"
  by (cases x; simp)+

lemma map_opt_default:
  "map_opt f x = Ok y \<Longrightarrow> f d = Ok e \<Longrightarrow>
   f (case x of None \<Rightarrow> d | Some v \<Rightarrow> v) = Ok (case y of None \<Rightarrow> e | Some v \<Rightarrow> v)"
  by (cases x) auto

lemma same_readers:
  assumes "csv_to_async c = Ok a" and "same_reader rn an"
  shows "same_reader (csv_reader_builder rn c) (async_csv_reader_builder an a)"
proof -
  from assms(1) have a: "cc_comment a = cc_comment c" "cc_delimiter a = cc_delimiter c" "cc_double_quote a = cc_double_quote c"
    "cc_escape a = cc_escape c" "cc_flexible a = cc_flexible c" "cc_has_headers a = cc_has_headers c"
    "cc_quote a = cc_quote c" "cc_quoting a = cc_quoting c"
    and t: "map_opt term_to_async (cc_terminator c) = Ok (cc_terminator a)"
    and m: "map_opt trim_to_async (cc_trim c) = Ok (cc_trim a)"
    unfolding csv_to_async_Ok by blast+
  from assms(2) have n: "rb_delimiter an = rb_delimiter rn" "rb_double_quote an = rb_double_quote rn"
    "rb_flexible an = rb_flexible rn" "rb_has_headers an = rb_has_headers rn" "rb_quote an = rb_quote rn"
    "rb_quoting an = rb_quoting rn"
    and nt: "term_to_async (rb_terminator rn) = Ok (rb_terminator an)" and nm: "trim_to_async (rb_trim rn) = Ok (rb_trim an)"
    unfolding same_reader_def by blast+
  show ?thesis
    unfolding same_reader_def csv_reader_fields async_csv_reader_fields a n
    using map_opt_default [OF t nt] map_opt_default [OF m nm] by blast
qed

lemma same_writers:
  assumes "csv_to_async c = Ok a" and "same_writer wn aw"
  shows "same_writer (csv_writer_builder wn c) (async_csv_writer_builder aw a)"
proof -
  from assms(1) have a: "cc_comment a = cc_comment c" "cc_delimiter a = cc_delimiter c" "cc_double_quote a = cc_double_quote c"
    "cc_escape a = cc_escape c" "cc_flexible a = cc_flexible c" "cc_has_headers a = cc_has_headers c"
    "cc_quote a = cc_quote c"
    and q: "map_opt quote_style_to_async (cc_quote_style c) = Ok (cc_quote_style a)"
    and t: "map_opt term_to_async (cc_terminator c) = Ok (cc_terminator a)"
    unfolding csv_to_async_Ok by blast+
  from assms(2) have n: "wb_delimiter aw = wb_delimiter wn" "wb_double_quote aw = wb_double_quote wn"
    "wb_escape aw = wb_escape wn" "wb_flexible aw = wb_flexible wn" "wb_has_headers aw = wb_has_headers wn"
    "wb_quote aw = wb_quote wn"
    and nq: "quote_style_to_async (wb_quote_style wn) = Ok (wb_quote_style aw)"
    and nt: "term_to_async (wb_terminator wn) = Ok (wb_terminator aw)"
    unfolding same_writer_def by blast+
  show ?thesis
    unfolding same_writer_def csv_writer_fields async_csv_writer_fields a n
    using map_opt_default [OF q nq] map_opt_default [OF t nt] by blast
qed

lemma csv_inverse: "csv_to_async c = Ok a \<longleftrightarrow> csv_from_async a = Ok c"
  unfolding csv_to_async_Ok csv_from_async_Ok
    map_opt_inverse [of quote_style_to_async quote_style_from_async, OF quote_style_inverse]
    map_opt_inverse [of term_to_async term_from_async, OF term_inverse]
    map_opt_inverse [of trim_to_async trim_from_async, OF trim_inverse]
  by blast

lemma csv_to_async_fails:
  "csv_to_async c = Panic \<longleftrightarrow> cc_quote_style c = Some Quote_Unknown \<or> cc_terminator c = Some Term_Unknown \<or>
      cc_trim c = Some Trim_Unknown"
  "csv_to_async c \<noteq> Err e"
proof -
  obtain q where q: "map_opt quote_style_to_async (cc_quote_style c) = q" by simp
  obtain t where t: "map_opt term_to_async (cc_terminator c) = t" by simp
  obtain m where m: "map_opt trim_to_async (cc_trim c) = m" by simp
  show "csv_to_async c = Panic \<longleftrightarrow> cc_quote_style c = Some Quote_Unknown \<or> cc_terminator c = Some Term_Unknown \<or>
      cc_trim c = Some Trim_Unknown" "csv_to_async c \<noteq> Err e"
    using q t m by (cases q; cases t; cases m; auto simp: csv_to_async_def map_opt_panics to_async_panics)+
qed

text \<open>
  converting a CSV coder to the asynchronous one and back gives the coder again, and the two
  configure their libraries alike, whatever options are set, if the libraries' defaults agree; the only
  panic is an unknown variant of an enumeration.
\<close>

theorem csv_conversions:
  assumes "same_reader rn an" and "same_writer wn aw"
  shows "(csv_to_async c = Ok a \<longleftrightarrow> csv_from_async a = Ok c) \<and>
   (csv_to_async c = Panic \<longleftrightarrow> cc_quote_style c = Some Quote_Unknown \<or> cc_terminator c = Some Term_Unknown \<or>
      cc_trim c = Some Trim_Unknown) \<and> (\<forall>e. csv_to_async c \<noteq> Err e) \<and>
   (csv_to_async c = Ok a \<longrightarrow> same_reader (csv_reader_builder rn c) (async_csv_reader_builder an a) \<and>
      same_writer (csv_writer_builder wn c) (async_csv_writer_builder aw a))"
  using csv_inverse csv_to_async_fails same_readers [OF _ assms(1)] same_writers [OF _ assms(2)] by blast

text \<open>The documented defaults of the two libraries.\<close>

definition csv_reader_new :: "(csv_terminator, csv_trim) reader_conf" where
  "csv_reader_new = \<lparr>rb_comment = None, rb_delimiter = 44, rb_double_quote = True, rb_escape = None, rb_flexible = False,
     rb_has_headers = True, rb_quote = 34, rb_quoting = True, rb_terminator = Term_CRLF, rb_trim = Trim_None\<rparr>"

definition async_csv_reader_new :: "(async_terminator, async_trim) reader_conf" where
  "async_csv_reader_new = \<lparr>rb_comment = None, rb_delimiter = 44, rb_double_quote = True, rb_escape = None, rb_flexible = False,
     rb_has_headers = True, rb_quote = 34, rb_quoting = True, rb_terminator = ATerm_CRLF, rb_trim = ATrim_None\<rparr>"

definition csv_writer_new :: "(csv_quote_style, csv_terminator) writer_conf" where
  "csv_writer_new = \<lparr>wb_comment = None, wb_delimiter = 44, wb_double_quote = True, wb_escape = 92, wb_flexible = False,
     wb_has_headers = True, wb_quote = 34, wb_quote_style = Quote_Necessary, wb_terminator = Term_Any 10\<rparr>"

definition async_csv_writer_new :: "(async_quote_style, async_terminator) writer_conf" where
  "async_csv_writer_new = \<lparr>wb_comment = None, wb_delimiter = 44, wb_double_quote = True, wb_escape = 92, wb_flexible = False,
     wb_has_headers = True, wb_quote = 34, wb_quote_style = AQuote_Necessary, wb_terminator = ATerm_Any 10\<rparr>"

definition tab_coder :: csv_coder where
  "tab_coder = \<lparr>cc_comment = None, cc_delimiter = Some 9, cc_double_quote = None, cc_escape = None, cc_flexible = None,
     cc_has_headers = None, cc_quote = None, cc_quoting = None, cc_quote_style = Some Quote_Always, cc_terminator = None,
     cc_trim = Some Trim_None\<rparr>"

theorem csv_conversions_witness:
  "\<exists>a. csv_to_async tab_coder = Ok a \<and> csv_from_async a = Ok tab_coder \<and>
     same_reader (csv_reader_builder csv_reader_new tab_coder) (async_csv_reader_builder async_csv_reader_new a)"
proof -
  have d: "same_reader csv_reader_new async_csv_reader_new" "same_writer csv_writer_new async_csv_writer_new"
    by (simp_all add: same_reader_def same_writer_def csv_reader_new_def async_csv_reader_new_def csv_writer_new_def
        async_csv_writer_new_def)
  obtain a where "csv_to_async tab_coder = Ok a" by (simp add: csv_to_async_def tab_coder_def)
  with csv_conversions [OF d, of tab_coder a] show ?thesis by blast
qed

section \<open>Encoding and decoding\<close>

text \<open>
  The \<open>csv\<close> and \<open>csv_async\<close> libraries, over the types of their options. A writer of the library collects bytes: serializing a row may hand some of them to the
  target (\<open>cl_serialize\<close>: those pieces, an error, the writer after it), and a flush hands over the
  rest. Dropping the writer flushes it again, and ignores the result. \<open>cl_parse\<close> gives the rows, with
  errors in their places.
\<close>

record ('wc, 'rc, 'cw, 'row, 'e) row_lib =
  cl_writer :: "'wc \<Rightarrow> 'cw"
  cl_serialize :: "'row \<Rightarrow> 'cw \<Rightarrow> bytes list \<times> 'e option \<times> 'cw"
  cl_buffered :: "'cw \<Rightarrow> bytes list"
  cl_cleared :: "'cw \<Rightarrow> 'cw"
  cl_io :: "io_error \<Rightarrow> 'e"
  cl_parse :: "'rc \<Rightarrow> bytes \<Rightarrow> ('row, 'e) result list"

type_synonym ('cw, 'row, 'e) csv_lib =
  "((csv_quote_style, csv_terminator) writer_conf, (csv_terminator, csv_trim) reader_conf, 'cw, 'row, 'e) row_lib"

type_synonym ('cw, 'row, 'e) async_csv_lib =
  "((async_quote_style, async_terminator) writer_conf, (async_terminator, async_trim) reader_conf, 'cw, 'row, 'e) row_lib"

text \<open>\<open>collect::<Result<T, _>>\<close>: the first error, or everything.\<close>

fun collect_rows :: "('row, 'e) result list \<Rightarrow> ('row list, 'e) result" where
  "collect_rows [] = Ok []"
| "collect_rows (r # rs) = res_bind r (\<lambda>x. map_ok (\<lambda>xs. x # xs) (collect_rows rs))"

definition csv_decode :: "('cw, 'row, 'e) csv_lib \<Rightarrow> csv_coder \<Rightarrow> bytes \<Rightarrow> ('row list, 'e) result" where
  "csv_decode L c b = collect_rows (cl_parse L (csv_reader_builder csv_reader_new c) b)"

fun csv_rows ::
  "('wc, 'rc, 'cw, 'row, 'e) row_lib \<Rightarrow> ('d, 'wr, 'w) disk_ops \<Rightarrow> 'row list \<Rightarrow> 'cw \<Rightarrow> 'wr \<Rightarrow> 'w \<Rightarrow>
     (unit, 'e) result \<times> 'cw \<times> 'wr \<times> 'w" where
  "csv_rows L D [] cw wr w = (Ok (), cw, wr, w)"
| "csv_rows L D (row # rows) cw wr w =
     (case cl_serialize L row cw of (ps, err, cw1) \<Rightarrow>
        (case write_pieces D wr ps w of
           (Ok _, wr1, w1) \<Rightarrow>
             (case err of
                None \<Rightarrow> csv_rows L D rows cw1 wr1 w1
              | Some e \<Rightarrow> (Err e, cw1, wr1, w1))
         | (Err e, wr1, w1) \<Rightarrow> (Err (cl_io L e), cw1, wr1, w1)
         | (Panic, wr1, w1) \<Rightarrow> (Panic, cw1, wr1, w1)))"

definition csv_flush ::
  "('wc, 'rc, 'cw, 'row, 'e) row_lib \<Rightarrow> ('d, 'wr, 'w) disk_ops \<Rightarrow> 'cw \<Rightarrow> 'wr \<Rightarrow> 'w \<Rightarrow>
     (unit, 'e) result \<times> 'cw \<times> 'wr \<times> 'w" where
  "csv_flush L D cw wr w =
     (case write_pieces D wr (cl_buffered L cw) w of
        (Ok _, wr1, w1) \<Rightarrow> (case wr_flush D wr1 w1 of (r, wr2, w2) \<Rightarrow> (map_err (cl_io L) r, cl_cleared L cw, wr2, w2))
      | (Err e, wr1, w1) \<Rightarrow> (Err (cl_io L e), cw, wr1, w1)
      | (Panic, wr1, w1) \<Rightarrow> (Panic, cw, wr1, w1))"

text \<open>\<open>encode\<close>: the rows, \<open>flush\<close>, and the drops of the library's writer and of the target.\<close>

definition csv_encode ::
  "('cw, 'row, 'e) csv_lib \<Rightarrow> ('d, 'wr, 'w) disk_ops \<Rightarrow> csv_coder \<Rightarrow> 'row list \<Rightarrow> 'wr \<Rightarrow> 'w \<Rightarrow> (unit, 'e) result \<times> 'w" where
  "csv_encode L D c rows target w =
     (case (case csv_rows L D rows (cl_writer L (csv_writer_builder csv_writer_new c)) target w of
          (Ok _, cw, wr, w1) \<Rightarrow> csv_flush L D cw wr w1
        | (r, cw, wr, w1) \<Rightarrow> (r, cw, wr, w1)) of
        (r, cw, wr, w1) \<Rightarrow> (case csv_flush L D cw wr w1 of (_, _, wr1, w2) \<Rightarrow> (r, wr_drop D wr1 w2)))"

text \<open>What the library hands to the target for a list of rows, and the writer after them.\<close>

fun csv_pieces :: "('wc, 'rc, 'cw, 'row, 'e) row_lib \<Rightarrow> 'row list \<Rightarrow> 'cw \<Rightarrow> bytes list \<times> 'e option \<times> 'cw" where
  "csv_pieces L [] cw = ([], None, cw)"
| "csv_pieces L (row # rows) cw =
     (case cl_serialize L row cw of
        (ps, Some e, cw1) \<Rightarrow> (ps, Some e, cw1)
      | (ps, None, cw1) \<Rightarrow> (case csv_pieces L rows cw1 of (qs, e, cw2) \<Rightarrow> (ps @ qs, e, cw2)))"

definition row_text :: "('wc, 'rc, 'cw, 'row, 'e) row_lib \<Rightarrow> 'wc \<Rightarrow> 'row list \<Rightarrow> bytes option" where
  "row_text L wc rows =
     (case csv_pieces L rows (cl_writer L wc) of
        (ps, None, cw) \<Rightarrow> Some (concat (ps @ cl_buffered L cw))
      | (ps, Some e, cw) \<Rightarrow> None)"

definition csv_bytes :: "('cw, 'row, 'e) csv_lib \<Rightarrow> csv_coder \<Rightarrow> 'row list \<Rightarrow> bytes option" where
  "csv_bytes L c rows = row_text L (csv_writer_builder csv_writer_new c) rows"

text \<open>
  A reader of the library understands the dialect of a writer when they are set alike: the same
  delimiter, quote, comment and header options, quoting on, nothing trimmed, quotes escaped in the way
  they are unescaped, rows of uneven length read if they are written, and line ends that the reader takes
  for such (its default takes a carriage return, a line feed or both).
\<close>

definition reads_dialect :: "(csv_quote_style, csv_terminator) writer_conf \<Rightarrow> (csv_terminator, csv_trim) reader_conf \<Rightarrow> bool" where
  "reads_dialect wb rb \<longleftrightarrow>
     rb_delimiter rb = wb_delimiter wb \<and> rb_quote rb = wb_quote wb \<and> rb_comment rb = wb_comment wb \<and>
     rb_has_headers rb = wb_has_headers wb \<and> rb_quoting rb \<and> rb_trim rb = Trim_None \<and>
     rb_double_quote rb = wb_double_quote wb \<and> rb_escape rb = (if wb_double_quote wb then None else Some (wb_escape wb)) \<and>
     (wb_flexible wb \<longrightarrow> rb_flexible rb) \<and> rb_terminator rb \<noteq> Term_Unknown \<and>
     (rb_terminator rb = wb_terminator wb \<or> rb_terminator rb = Term_CRLF \<and> wb_terminator wb \<in> {Term_Any 10, Term_Any 13})"

text \<open>The coders whose builders make a reader that understands their writer.\<close>

definition restorable :: "csv_coder \<Rightarrow> bool" where
  "restorable c \<longleftrightarrow> cc_quoting c \<noteq> Some False \<and> cc_trim c \<in> {None, Some Trim_None} \<and> cc_terminator c \<noteq> Some Term_Unknown \<and>
     (if cc_double_quote c = Some False then cc_escape c \<noteq> None else cc_escape c = None)"

lemma csv_builders_agree:
  "reads_dialect (csv_writer_builder csv_writer_new c) (csv_reader_builder csv_reader_new c) \<longleftrightarrow> restorable c"
  by (cases "cc_double_quote c"; cases "cc_escape c"; cases "cc_terminator c"; cases "cc_quoting c"; cases "cc_trim c")
    (auto simp: reads_dialect_def restorable_def csv_reader_new_def csv_writer_new_def split: option.split)

text \<open>
  with \<open>double_quote\<close> off and no \<open>escape\<close>, the writer escapes quotes with the library's default, a
  backslash, and the reader is told that there is no escape character.
\<close>

theorem csv_escape_not_read:
  assumes "cc_double_quote c = Some False" and "cc_escape c = None"
  shows "wb_escape (csv_writer_builder csv_writer_new c) = 92 \<and> rb_escape (csv_reader_builder csv_reader_new c) = None \<and>
    \<not> reads_dialect (csv_writer_builder csv_writer_new c) (csv_reader_builder csv_reader_new c)"
  using assms by (simp add: csv_builders_agree restorable_def) (simp add: csv_writer_new_def)

text \<open>
  The documented behaviour, for configurations of the library's own: a flushed writer has nothing left,
  and a reader that understands the dialect of a writer reads the rows it has written, if they are of the
  kind that can be told apart in this dialect (\<open>readable\<close>).
\<close>

locale csv_laws =
  fixes L :: "('cw, 'row, 'e) csv_lib" and readable :: "(csv_quote_style, csv_terminator) writer_conf \<Rightarrow> 'row list \<Rightarrow> bool"
  assumes cleared: "cl_buffered L (cl_cleared L cw) = []"
    and reads_back: "reads_dialect wb rb \<Longrightarrow> readable wb rows \<Longrightarrow> row_text L wb rows = Some b \<Longrightarrow>
      cl_parse L rb b = map Ok rows"

lemma collect_rows_Ok: "collect_rows (map Ok rows) = Ok rows"
  by (induction rows) simp_all

lemma csv_rows_pieces:
  assumes "csv_pieces L rows cw = (ps, None, cw1)" and "write_pieces D wr ps w = (Ok (), wr1, w1)"
  shows "csv_rows L D rows cw wr w = (Ok (), cw1, wr1, w1)"
  using assms
proof (induction rows arbitrary: cw ps wr w)
  case (Cons row rows)
  obtain qs e cw2 where S: "cl_serialize L row cw = (qs, e, cw2)" by (metis prod_cases3)
  with Cons.prems(1) have e: "e = None" by (cases e) auto
  obtain rs cw3 where R: "csv_pieces L rows cw2 = (rs, None, cw1)" "ps = qs @ rs"
    using Cons.prems(1) S e by (auto split: prod.splits)
  with Cons.prems(2) obtain wr2 w2 where W: "write_pieces D wr qs w = (Ok (), wr2, w2)" "write_pieces D wr2 rs w2 = (Ok (), wr1, w1)"
    by (auto simp: write_pieces_append split: prod.splits result.splits)
  from Cons.IH [OF R(1) W(2)] S e W(1) show ?case by simp
qed simp

text \<open>
  On a disk where flushing a flushed writer does nothing the second flush, of the drop, is harmless.
\<close>

definition idle_flush :: "('d, 'wr, 'w) disk_ops \<Rightarrow> bool" where
  "idle_flush D \<longleftrightarrow> (\<forall>wr w wr1 w1. wr_flush D wr w = (Ok (), wr1, w1) \<longrightarrow> wr_flush D wr1 w1 = (Ok (), wr1, w1))"

lemma idle_flush_files: "idle_flush plainfile_disk" "idle_flush unbuffered_disk"
  by (auto simp: idle_flush_def plainfile_disk_def unbuffered_disk_def file_flush_def buf_flush_def file_write_all_def
      split: prod.splits result.splits option.splits if_splits)

lemma csv_encode_session:
  assumes "csv_laws L readable" and "idle_flush D"
    and "csv_pieces L rows (cl_writer L (csv_writer_builder csv_writer_new c)) = (ps, None, cw)"
    and "serialize_flush D wr (ps @ cl_buffered L cw) True w = (Ok (), w')"
  shows "csv_encode L D c rows wr w = (Ok (), w')"
proof -
  obtain wr1 w1 where A: "write_pieces D wr ps w = (Ok (), wr1, w1)"
    using assms(4) by (auto simp: serialize_flush_def write_pieces_append split: prod.splits result.splits)
  obtain wr2 w2 where B: "write_pieces D wr1 (cl_buffered L cw) w1 = (Ok (), wr2, w2)"
    using assms(4) A by (auto simp: serialize_flush_def write_pieces_append split: prod.splits result.splits)
  obtain wr3 w3 where F: "wr_flush D wr2 w2 = (Ok (), wr3, w3)" "w' = wr_drop D wr3 w3"
    using assms(4) A B by (auto simp: serialize_flush_def write_pieces_append split: prod.splits)
  have "wr_flush D wr3 w3 = (Ok (), wr3, w3)" using assms(2) F(1) by (simp add: idle_flush_def)
  with csv_rows_pieces [OF assms(3) A] B F csv_laws.cleared [OF assms(1)] show ?thesis
    by (simp add: csv_encode_def csv_flush_def)
qed

text \<open>
  C37: rows written by a \<open>CsvCoder\<close> are decoded again by the same coder, stored as the library's text, on
  a disk that keeps the contract and on which a second flush does nothing. The condition on the coder is
  exact: its builders make a reader that understands its writer if and only if quoting is on, nothing is
  trimmed, the terminator is known, and an escape character is given when double quotes are off and only
  then.
\<close>

theorem csv_roundtrip:
  assumes "csv_laws L readable" and "byte_disk D site stored writable" and "idle_flush D"
    and "restorable c" and "readable (csv_writer_builder csv_writer_new c) rows"
    and "csv_bytes L c rows = Some b" and "writable d w"
  shows "(\<exists>wr w1 w2. d_write D d w = (Ok wr, w1) \<and> csv_encode L D c rows wr w1 = (Ok (), w2) \<and>
      stored d w2 = Some b \<and> csv_decode L c b = Ok rows) \<and>
    (reads_dialect (csv_writer_builder csv_writer_new c2) (csv_reader_builder csv_reader_new c2) = restorable c2)"
proof -
  from assms(6) obtain ps cw where
    P: "csv_pieces L rows (cl_writer L (csv_writer_builder csv_writer_new c)) = (ps, None, cw)" "b = concat (ps @ cl_buffered L cw)"
    by (auto simp: csv_bytes_def row_text_def split: prod.splits option.splits)
  from byte_disk.put_writable [OF assms(2,7)] obtain w2 where
    W: "put D d (ps @ cl_buffered L cw) True w = (Ok (), w2)" by blast
  then obtain wr w1 where O: "d_write D d w = (Ok wr, w1)" "serialize_flush D wr (ps @ cl_buffered L cw) True w1 = (Ok (), w2)"
    by (auto simp: put_def split: prod.splits result.splits)
  have "stored d w2 = Some b" using byte_disk.put_stored [OF assms(2) W] P(2) by simp
  moreover have "csv_decode L c b = Ok rows"
    using csv_laws.reads_back [OF assms(1) _ assms(5) assms(6) [unfolded csv_bytes_def]] assms(4)
    by (simp add: csv_builders_agree csv_decode_def collect_rows_Ok)
  ultimately show ?thesis using O csv_encode_session [OF assms(1,3) P(1) O(2)] csv_builders_agree by blast
qed

section \<open>A CSV coder on an encrypting disk\<close>

text \<open>A flush of an encrypting writer over an open file appends the sealed bytes to it.\<close>

lemma ew_flush_appends:
  assumes "files s (fh_path (ew_inner e)) = Some c" and "fh_pos (ew_inner e) = length c" and "\<not> full s (fh_path (ew_inner e))"
    and "aead_seal A (kn_key (ew_secrets e)) (kn_nonce (ew_secrets e)) (sb_inner (ew_buffer e)) = Some (x, t)"
    and "length x + length t \<le> usize_max"
  shows "\<exists>h s'. ew_flush A unbuffered_disk e s = (Ok (), e\<lparr>ew_inner := h\<rparr>, s') \<and> fh_path h = fh_path (ew_inner e) \<and>
    files s' (fh_path h) = Some (c @ x @ t) \<and> fh_pos h = length (c @ x @ t) \<and> full s' = full s \<and> faulty s' = faulty s"
proof -
  let ?h = "(ew_inner e)\<lparr>fh_pos := length c + length (x @ t)\<rparr>"
  have "file_write_all (ew_inner e) (x @ t) s =
      (Ok (), ?h, if x @ t = [] then s else set_file (fh_path (ew_inner e)) (Some (c @ x @ t)) s)"
    by (rule handle_appends [OF assms(1-3)])
  with ew_flush_eq [OF assms(4,5), of unbuffered_disk s] assms(1) show ?thesis
    by (auto simp: unbuffered_disk_def)
qed

text \<open>
  a table encoded with \<open>CsvCoder\<close> on an \<open>Encrypted\<close> disk is lost: the library flushes once more when
  its writer is dropped, so the file ends up with two sealed copies. Encoding reports success; if the
  cipher rejects what is not one sealed message, as it is meant to, every read of the disk fails.
\<close>

theorem csv_on_encrypted_disk_is_lost:
  assumes "csv_laws L readable" and "csv_bytes L c rows = Some b" and "file_writable (ub_path (en_inner d)) s"
    and "seals A d b (x, t)"
    and "aead_unseal A (kn_key (en_secrets d)) (kn_nonce (en_secrets d)) ((x @ t) @ (x @ t)) = None"
  shows "\<exists>wr s1 s2. encrypted_write_disk unbuffered_disk d s = (Ok wr, s1) \<and>
    csv_encode L (encrypted_disk A unbuffered_disk) c rows wr s1 = (Ok (), s2) \<and>
    files s2 (ub_path (en_inner d)) = Some ((x @ t) @ (x @ t)) \<and>
    encrypted_read_disk A unbuffered_disk d s2 = (Err OtherError, s2)"
proof -
  let ?E = "encrypted_disk A unbuffered_disk" and ?p = "ub_path (en_inner d)"
  define s1 where "s1 = set_file ?p (Some []) s"
  define e where "e = encrypted_writer_new \<lparr>fh_path = ?p, fh_pos = 0\<rparr> (en_secrets d)"
  have e: "sb_inner (ew_buffer e) = []" "ew_secrets e = en_secrets d" "ew_inner e = \<lparr>fh_path = ?p, fh_pos = 0\<rparr>"
    by (simp_all add: e_def encrypted_writer_new_def)
  have O: "encrypted_write_disk unbuffered_disk d s = (Ok e, s1)"
    using assms(3) by (simp add: encrypted_write_disk_def unbuffered_disk_def unbuffered_write_disk_def
        open_truncate_writable e_def s1_def)
  from assms(2) obtain ps cw where
    P: "csv_pieces L rows (cl_writer L (csv_writer_builder csv_writer_new c)) = (ps, None, cw)" "b = concat (ps @ cl_buffered L cw)"
    by (auto simp: csv_bytes_def row_text_def split: prod.splits option.splits)
  have len: "length b \<le> usize_max" "length x + length t \<le> usize_max" using assms(4) by (auto simp: seals_def)
  obtain b1 where B1: "write_pieces ?E e ps s1 = (Ok (), e\<lparr>ew_buffer := b1\<rparr>, s1)" "sb_inner b1 = concat ps"
    using ew_pieces [of e ps A unbuffered_disk s1] e len P(2) by auto
  obtain b2 where B2: "write_pieces ?E (e\<lparr>ew_buffer := b1\<rparr>) (cl_buffered L cw) s1 = (Ok (), e\<lparr>ew_buffer := b2\<rparr>, s1)"
      "sb_inner b2 = b"
    using ew_pieces [of "e\<lparr>ew_buffer := b1\<rparr>" "cl_buffered L cw" A unbuffered_disk s1] len P(2) B1(2) by auto
  have seal: "aead_seal A (kn_key (en_secrets d)) (kn_nonce (en_secrets d)) b = Some (x, t)"
    using assms(4) by (simp add: seals_def)
  let ?e2 = "e\<lparr>ew_buffer := b2\<rparr>"
  have there: "files s1 ?p = Some []" "\<not> full s1 ?p" "\<not> faulty s1 ?p" using assms(3) by (simp_all add: s1_def file_writable_def)
  obtain h s2 where F1: "ew_flush A unbuffered_disk ?e2 s1 = (Ok (), ?e2\<lparr>ew_inner := h\<rparr>, s2)" "fh_path h = ?p"
      "files s2 ?p = Some (x @ t)" "fh_pos h = length (x @ t)" "full s2 = full s1" "faulty s2 = faulty s1"
    using ew_flush_appends [of s1 ?e2 "[]" A x t] there e seal len B2(2) by auto
  let ?e3 = "?e2\<lparr>ew_inner := h\<rparr>"
  obtain h' s3 where F2: "ew_flush A unbuffered_disk ?e3 s2 = (Ok (), ?e3\<lparr>ew_inner := h'\<rparr>, s3)"
      "files s3 ?p = Some ((x @ t) @ x @ t)" "faulty s3 = faulty s1"
    using ew_flush_appends [of s2 ?e3 "x @ t" A x t] F1 there e seal len B2(2) by auto
  have "csv_encode L ?E c rows e s1 = (Ok (), s3)"
    using csv_rows_pieces [OF P(1) B1(1)] B2(1) F1(1) F2(1) csv_laws.cleared [OF assms(1)]
    by (simp add: csv_encode_def csv_flush_def unbuffered_disk_def file_drop_def)
  moreover have "encrypted_read_disk A unbuffered_disk d s3 = (Err OtherError, s3)"
    using F2(2,3) there assms(5)
    by (simp add: encrypted_read_disk_def unbuffered_disk_def unbuffered_read_disk_def fs_read_def decrypt_in_place_def)
  ultimately show ?thesis using O F2(2) by auto
qed

section \<open>Examples\<close>

text \<open>
  A library for tables of two columns of which the first is empty: a row is a line that starts with the
  delimiter, without line breaks.
\<close>

fun lines :: "bytes \<Rightarrow> bytes \<Rightarrow> bytes list" where
  "lines acc [] = (if acc = [] then [] else [acc])"
| "lines acc (b # bs) = (if b = 10 then acc # lines [] bs else lines (acc @ [b]) bs)"

definition row_line :: "byte \<Rightarrow> bytes \<Rightarrow> bytes" where
  "row_line d row = d # row @ [10]"

fun line_row :: "byte \<Rightarrow> bytes \<Rightarrow> (bytes, unit) result" where
  "line_row d [] = Err ()"
| "line_row d (b # row) = (if b = d then Ok row else Err ())"

definition line_rows :: "byte \<Rightarrow> bytes list \<Rightarrow> bool" where
  "line_rows d rows \<longleftrightarrow> d \<noteq> 10 \<and> (\<forall>row \<in> set rows. 10 \<notin> set row)"

definition demo_csv :: "(byte \<times> bytes, bytes, unit) csv_lib" where
  "demo_csv = \<lparr>cl_writer = (\<lambda>wb. (wb_delimiter wb, [])), cl_serialize = (\<lambda>row (d, cw). ([], None, (d, cw @ row_line d row))),
     cl_buffered = (\<lambda>(d, cw). if cw = [] then [] else [cw]), cl_cleared = (\<lambda>(d, cw). (d, [])), cl_io = (\<lambda>_. ()),
     cl_parse = (\<lambda>rb b. map (line_row (rb_delimiter rb)) (lines [] b))\<rparr>"

lemma lines_row: "10 \<notin> set row \<Longrightarrow> lines acc (row @ 10 # rest) = (acc @ row) # lines [] rest"
  by (induction row arbitrary: acc) auto

lemma rows_of_lines: "line_rows d rows \<Longrightarrow> map (line_row d) (lines [] (concat (map (row_line d) rows))) = map Ok rows"
  by (induction rows) (auto simp: line_rows_def row_line_def lines_row)

lemma demo_csv_pieces: "csv_pieces demo_csv rows (d, cw) = ([], None, (d, cw @ concat (map (row_line d) rows)))"
  by (induction rows arbitrary: cw) (simp_all add: demo_csv_def)

lemma demo_csv_text: "row_text demo_csv wb rows = Some (concat (map (row_line (wb_delimiter wb)) rows))"
proof -
  have "cl_writer demo_csv wb = (wb_delimiter wb, [])" by (simp add: demo_csv_def)
  then show ?thesis by (simp add: row_text_def demo_csv_pieces) (simp add: demo_csv_def)
qed

interpretation demo_csv: csv_laws demo_csv "\<lambda>wb. line_rows (wb_delimiter wb)"
proof
  fix wb rb and rows :: "bytes list" and b
  assume "reads_dialect wb rb" "line_rows (wb_delimiter wb) rows" "row_text demo_csv wb rows = Some b"
  then have "rb_delimiter rb = wb_delimiter wb" "line_rows (wb_delimiter wb) rows"
    "b = concat (map (row_line (wb_delimiter wb)) rows)"
    by (simp_all add: demo_csv_text reads_dialect_def)
  then show "cl_parse demo_csv rb b = map Ok rows" by (simp add: demo_csv_def rows_of_lines)
qed (simp add: demo_csv_def split: prod.split)

lemma tab_coder_text:
  "csv_bytes demo_csv tab_coder [[1], [2, 3]] = Some [9, 1, 10, 9, 2, 3, 10]" "restorable tab_coder"
  "line_rows (wb_delimiter (csv_writer_builder csv_writer_new tab_coder)) [[1], [2, 3]]"
  by (simp_all add: csv_bytes_def demo_csv_text row_line_def restorable_def line_rows_def tab_coder_def)

theorem csv_roundtrip_witness:
  "\<exists>wr w1 w2. d_write plainfile_disk (Plainfile [''f'']) empty_fs = (Ok wr, w1) \<and>
     csv_encode demo_csv plainfile_disk tab_coder [[1], [2, 3]] wr w1 = (Ok (), w2) \<and>
     file_stored [''f''] w2 = Some [9, 1, 10, 9, 2, 3, 10] \<and>
     csv_decode demo_csv tab_coder [9, 1, 10, 9, 2, 3, 10] = Ok [[1], [2, 3]]"
proof -
  have w: "file_writable (pf_path (Plainfile [''f''])) empty_fs" by simp
  from csv_roundtrip [OF demo_csv.csv_laws_axioms plain.byte_disk_axioms idle_flush_files(1) tab_coder_text(2,3,1) w]
  show ?thesis by simp
qed

theorem csv_escape_not_read_witness:
  "rb_escape (csv_reader_builder csv_reader_new (tab_coder\<lparr>cc_double_quote := Some False\<rparr>)) = None \<and>
   \<not> reads_dialect (csv_writer_builder csv_writer_new (tab_coder\<lparr>cc_double_quote := Some False\<rparr>))
       (csv_reader_builder csv_reader_new (tab_coder\<lparr>cc_double_quote := Some False\<rparr>))"
  using csv_escape_not_read [of "tab_coder\<lparr>cc_double_quote := Some False\<rparr>"] by (simp add: tab_coder_def)

text \<open>A cipher whose tag ends with the length of the message.\<close>

definition strict_aead :: aead where
  "strict_aead = \<lparr>aead_seal = (\<lambda>k n p. Some (rev p, replicate 15 0 @ [of_nat (length p)])),
     aead_unseal = (\<lambda>k n b. if length b < 16 \<or> drop (length b - 16) b \<noteq> replicate 15 0 @ [of_nat (length b - 16)] then None
       else Some (rev (take (length b - 16) b) @ drop (length b - 16) b, length b - 16))\<rparr>"

theorem csv_on_encrypted_disk_is_lost_witness:
  "\<exists>wr s1 s2. encrypted_write_disk unbuffered_disk (demo_secret (Unbuffered [''f''])) empty_fs = (Ok wr, s1) \<and>
    csv_encode demo_csv (encrypted_disk strict_aead unbuffered_disk) tab_coder [[1], [2, 3]] wr s1 = (Ok (), s2) \<and>
    encrypted_read_disk strict_aead unbuffered_disk (demo_secret (Unbuffered [''f''])) s2 = (Err OtherError, s2)"
proof -
  let ?d = "demo_secret (Unbuffered [''f''])" and ?t = "replicate 15 0 @ [7] :: bytes"
  have seal: "seals strict_aead ?d [9, 1, 10, 9, 2, 3, 10] ([10, 3, 2, 9, 10, 1, 9], ?t)"
    by (simp add: seals_def strict_aead_def usize_max_def)
  have reject: "aead_unseal strict_aead k n (([10, 3, 2, 9, 10, 1, 9] @ ?t) @ [10, 3, 2, 9, 10, 1, 9] @ ?t) = None" for k n
    unfolding strict_aead_def aead.simps by code_simp
  have w: "file_writable (ub_path (en_inner ?d)) empty_fs" by simp
  from csv_on_encrypted_disk_is_lost [OF demo_csv.csv_laws_axioms tab_coder_text(1) w seal reject] show ?thesis by blast
qed

end
