(* ===== verification/Async_File.thy ===== *)
theory Async_File
  imports Disks
begin

text \<open>
  The asynchronous openings of the file disks (\<open>src/entry/disks/async_file.rs\<close> and the async
  implementations in \<open>plainfile.rs\<close>, \<open>unbuffered.rs\<close>, \<open>write_unbuffered.rs\<close>), each operation as its
  effect once it has been awaited. They open the same file in the same way; the buffered writer of
  the \<open>futures\<close> crate differs from the standard one in that dropping it does not flush.
\<close>

section \<open>Opening\<close>

definition async_read_file :: "path \<Rightarrow> fs \<Rightarrow> (bytes, io_error) result \<times> fs" where
  "async_read_file p s = (fs_read p s, s)"

definition async_write_file :: "path \<Rightarrow> fs \<Rightarrow> (file_handle, io_error) result \<times> fs" where
  "async_write_file p s =
     (case fs_open_truncate p s of (r, s') \<Rightarrow> (map_ok (\<lambda>_. \<lparr>fh_path = p, fh_pos = 0\<rparr>) r, s'))"

definition async_buf_drop :: "buf_writer \<Rightarrow> fs \<Rightarrow> fs" where
  "async_buf_drop b s = s"

definition plainfile_async_read_disk :: "plainfile \<Rightarrow> fs \<Rightarrow> (bytes, io_error) result \<times> fs" where
  "plainfile_async_read_disk d s = async_read_file (pf_path d) s"

definition plainfile_async_write_disk :: "plainfile \<Rightarrow> fs \<Rightarrow> (buf_writer, io_error) result \<times> fs" where
  "plainfile_async_write_disk d s =
     (case async_write_file (pf_path d) s of (r, s') \<Rightarrow> (map_ok (\<lambda>h. \<lparr>bw_inner = h, bw_buf = []\<rparr>) r, s'))"

definition unbuffered_async_read_disk :: "unbuffered \<Rightarrow> fs \<Rightarrow> (bytes, io_error) result \<times> fs" where
  "unbuffered_async_read_disk d s = async_read_file (ub_path d) s"

definition unbuffered_async_write_disk :: "unbuffered \<Rightarrow> fs \<Rightarrow> (file_handle, io_error) result \<times> fs" where
  "unbuffered_async_write_disk d s = async_write_file (ub_path d) s"

definition write_unbuffered_async_read_disk :: "write_unbuffered \<Rightarrow> fs \<Rightarrow> (bytes, io_error) result \<times> fs" where
  "write_unbuffered_async_read_disk d s = async_read_file (wu_path d) s"

definition write_unbuffered_async_write_disk :: "write_unbuffered \<Rightarrow> fs \<Rightarrow> (file_handle, io_error) result \<times> fs" where
  "write_unbuffered_async_write_disk d s = async_write_file (wu_path d) s"

definition async_plainfile_disk :: "(plainfile, buf_writer, fs) disk_ops" where
  "async_plainfile_disk = \<lparr>d_read = plainfile_async_read_disk, d_write = plainfile_async_write_disk,
     wr_write = buf_write_all, wr_flush = buf_flush, wr_drop = async_buf_drop\<rparr>"

definition async_unbuffered_disk :: "(unbuffered, file_handle, fs) disk_ops" where
  "async_unbuffered_disk = \<lparr>d_read = unbuffered_async_read_disk, d_write = unbuffered_async_write_disk,
     wr_write = file_write_all, wr_flush = file_flush, wr_drop = file_drop\<rparr>"

definition async_write_unbuffered_disk :: "(write_unbuffered, file_handle, fs) disk_ops" where
  "async_write_unbuffered_disk = \<lparr>d_read = write_unbuffered_async_read_disk, d_write = write_unbuffered_async_write_disk,
     wr_write = file_write_all, wr_flush = file_flush, wr_drop = file_drop\<rparr>"

section \<open>The contract\<close>

interpretation async_buffered: file_writer buf_write_all buf_flush async_buf_drop "\<lambda>b. fh_path (bw_inner b)"
  "\<lambda>p. \<lparr>bw_inner = \<lparr>fh_path = p, fh_pos = 0\<rparr>, bw_buf = []\<rparr>" buf_holds
proof
  fix b b' :: buf_writer and c s r s' u
  show "buf_holds b c s \<Longrightarrow> buf_flush b s = (Ok u, b', s') \<Longrightarrow>
      files (async_buf_drop b' s') (fh_path (bw_inner b)) = Some c"
    using buf_flush_holds [of b c s] by (auto simp: async_buf_drop_def split: if_splits)
qed (use buffered_file.holds_start buffered_file.write_holds buffered_file.write_fails buffered_file.flush_fails in
    \<open>simp_all add: buf_write_all_touches buf_flush_touches async_buf_drop_def buf_no_panic buf_write_all_no_panic\<close>)

lemma map_ok_map_ok: "map_ok g (map_ok f r) = map_ok (\<lambda>x. g (f x)) r"
  by (cases r) simp_all

lemma async_file_ops:
  "async_plainfile_disk = file_ops pf_path (\<lambda>p. \<lparr>bw_inner = \<lparr>fh_path = p, fh_pos = 0\<rparr>, bw_buf = []\<rparr>)
     buf_write_all buf_flush async_buf_drop"
  "async_unbuffered_disk = unbuffered_disk"
  "async_write_unbuffered_disk = write_unbuffered_disk"
  by (simp_all add: file_ops_def fun_eq_iff async_read_file_def async_write_file_def
      async_plainfile_disk_def plainfile_async_read_disk_def plainfile_async_write_disk_def
      async_unbuffered_disk_def unbuffered_async_read_disk_def unbuffered_async_write_disk_def
      async_write_unbuffered_disk_def write_unbuffered_async_read_disk_def write_unbuffered_async_write_disk_def
      unbuffered_disk_def unbuffered_read_disk_def unbuffered_write_disk_def
      write_unbuffered_disk_def write_unbuffered_read_disk_def write_unbuffered_write_disk_def
      map_ok_map_ok split: prod.splits)

interpretation async_plain: byte_disk async_plainfile_disk pf_path
  "\<lambda>d. file_stored (pf_path d)" "\<lambda>d. file_writable (pf_path d)"
  unfolding async_file_ops by (rule async_buffered.file_disk)

interpretation async_unbuf: byte_disk async_unbuffered_disk ub_path
  "\<lambda>d. file_stored (ub_path d)" "\<lambda>d. file_writable (ub_path d)"
  unfolding async_file_ops by (rule unbuf.byte_disk_axioms)

interpretation async_write_unbuf: byte_disk async_write_unbuffered_disk wu_path
  "\<lambda>d. file_stored (wu_path d)" "\<lambda>d. file_writable (wu_path d)"
  unfolding async_file_ops by (rule write_unbuf.byte_disk_axioms)

section \<open>Agreement with the synchronous disks\<close>

text \<open>
  a completed asynchronous session on any of the three disks ends in the store the synchronous one
  ends in, and either kind of read returns what either kind of session wrote.
\<close>

theorem async_files_agree:
  assumes "file_writable p s"
  shows "let s' = set_file p (Some (concat ps)) s in
    put async_plainfile_disk (Plainfile p) ps True s = (Ok (), s') \<and> put plainfile_disk (Plainfile p) ps True s = (Ok (), s') \<and>
    put async_unbuffered_disk (Unbuffered p) ps True s = (Ok (), s') \<and>
    put async_write_unbuffered_disk (WriteUnbuffered p) ps True s = (Ok (), s') \<and>
    plainfile_async_read_disk (Plainfile p) s' = (Ok (concat ps), s') \<and>
    plainfile_read_disk (Plainfile p) s' = (Ok (concat ps), s')"
proof -
  define s' where "s' = set_file p (Some (concat ps)) s"
  obtain s1 where 1: "put async_plainfile_disk (Plainfile p) ps True s = (Ok (), s1)"
    using async_plain.put_writable [of "Plainfile p" s ps] assms by auto
  obtain s2 where 2: "put plainfile_disk (Plainfile p) ps True s = (Ok (), s2)"
    using plain.put_writable [of "Plainfile p" s ps] assms by auto
  obtain s3 where 3: "put unbuffered_disk (Unbuffered p) ps True s = (Ok (), s3)"
    using unbuf.put_writable [of "Unbuffered p" s ps] assms by auto
  obtain s4 where 4: "put write_unbuffered_disk (WriteUnbuffered p) ps True s = (Ok (), s4)"
    using write_unbuf.put_writable [of "WriteUnbuffered p" s ps] assms by auto
  have "s1 = s'" "s2 = s'" "s3 = s'" "s4 = s'"
    using async_buffered.put_exact [OF 1 [unfolded async_file_ops]] buffered_file.put_exact [OF 2 [unfolded file_disk_ops]]
      raw_file.put_exact [OF 3 [unfolded file_disk_ops]] raw_file.put_exact [OF 4 [unfolded file_disk_ops]]
    by (simp_all add: s'_def)
  moreover have "fs_read p s' = Ok (concat ps)"
    using assms by (simp add: s'_def fs_read_def file_writable_def)
  ultimately show ?thesis
    using 1 2 3 4 unfolding async_file_ops(2,3) s'_def [symmetric] Let_def
    by (simp add: plainfile_async_read_disk_def async_read_file_def plainfile_read_disk_def)
qed

text \<open>
  when serializing fails after some bytes, the synchronous \<open>Plainfile\<close> leaves those bytes in the file and
  the asynchronous one leaves the file empty: the buffer is not flushed when it is dropped.
\<close>

theorem failed_sessions_differ:
  "files (snd (put plainfile_disk (Plainfile [''f'']) [[1, 2]] False empty_fs)) [''f''] = Some [1, 2] \<and>
   files (snd (put async_plainfile_disk (Plainfile [''f'']) [[1, 2]] False empty_fs)) [''f''] = Some []"
  by code_simp

theorem async_files_agree_witness:
  "put async_plainfile_disk (Plainfile [''f'']) [[1], [2]] True empty_fs = (Ok (), set_file [''f''] (Some [1, 2]) empty_fs)"
  using async_files_agree [OF demo_writable, of "[[1], [2]]"] by (simp add: Let_def)

end
