(* ===== verification/Async_Formats.thy ===== *)
theory Async_Formats
  imports Csv Async_File
begin

text \<open>
  The asynchronous coders with a body of their own: \<open>AsyncBincodeCoder\<close>
  (\<open>src/entry/formats/async_bincode.rs\<close>) and the encoding and decoding of \<open>AsyncCsvCoder\<close>
  (\<open>async_csv.rs\<close>). The libraries are parameters; each await is its effect once completed. A target has a
  \<open>close\<close> beside the operations of a writer.
\<close>

text \<open>The end of every \<open>encode\<close>: \<open>flush\<close>, \<open>close\<close>, and the drop of the target on every exit.\<close>

definition flush_close ::
  "(io_error \<Rightarrow> 'e) \<Rightarrow> ('d, 'wr, 'w) disk_ops \<Rightarrow> ('wr \<Rightarrow> 'w \<Rightarrow> (unit, io_error) result \<times> 'wr \<times> 'w) \<Rightarrow> 'wr \<Rightarrow> 'w \<Rightarrow>
     (unit, 'e) result \<times> 'w" where
  "flush_close io D close t w =
     (case wr_flush D t w of
        (Ok _, t1, w1) \<Rightarrow> (case close t1 w1 of (r, t2, w2) \<Rightarrow> (map_err io r, wr_drop D t2 w2))
      | (r, t1, w1) \<Rightarrow> (map_err io r, wr_drop D t1 w1))"

section \<open>Bincode\<close>

text \<open>
  The library frames values: \<open>fl_frame\<close> is the frame of a value or an error of the serializer, and
  \<open>fl_next\<close> the first item of the stream of values in some bytes, \<open>None\<close> where there is none.
\<close>

record ('v, 'e) frame_lib =
  fl_frame :: "'v \<Rightarrow> (bytes, 'e) result"
  fl_next :: "bytes \<Rightarrow> ('v, 'e) result option"
  fl_io :: "io_error \<Rightarrow> 'e"
  fl_custom :: "string \<Rightarrow> 'e"

definition async_bincode_decode :: "('v, 'e) frame_lib \<Rightarrow> bytes \<Rightarrow> ('v, 'e) result" where
  "async_bincode_decode L b =
     (case fl_next L b of
        Some r \<Rightarrow> r
      | None \<Rightarrow> Err (fl_custom L ''AsyncBincodeReader stream empty''))"

text \<open>\<open>SinkExt::send\<close>: the frame is written, and the sink flushes its target.\<close>

definition bincode_send ::
  "('v, 'e) frame_lib \<Rightarrow> ('d, 'wr, 'w) disk_ops \<Rightarrow> 'v \<Rightarrow> 'wr \<Rightarrow> 'w \<Rightarrow> (unit, 'e) result \<times> 'wr \<times> 'w" where
  "bincode_send L D v t w =
     (case fl_frame L v of
        Ok b \<Rightarrow>
          (case wr_write D t b w of
             (Ok _, t1, w1) \<Rightarrow> (case wr_flush D t1 w1 of (r, t2, w2) \<Rightarrow> (map_err (fl_io L) r, t2, w2))
           | (r, t1, w1) \<Rightarrow> (map_err (fl_io L) r, t1, w1))
      | Err e \<Rightarrow> (Err e, t, w)
      | Panic \<Rightarrow> (Panic, t, w))"

definition async_bincode_encode ::
  "('v, 'e) frame_lib \<Rightarrow> ('d, 'wr, 'w) disk_ops \<Rightarrow> ('wr \<Rightarrow> 'w \<Rightarrow> (unit, io_error) result \<times> 'wr \<times> 'w) \<Rightarrow>
     'v \<Rightarrow> 'wr \<Rightarrow> 'w \<Rightarrow> (unit, 'e) result \<times> 'w" where
  "async_bincode_encode L D close v target w =
     (case bincode_send L D v target w of
        (Ok _, t1, w1) \<Rightarrow> flush_close (fl_io L) D close t1 w1
      | (r, t1, w1) \<Rightarrow> (r, wr_drop D t1 w1))"

section \<open>CSV\<close>

definition async_csv_decode :: "('cw, 'row, 'e) async_csv_lib \<Rightarrow> async_csv_coder \<Rightarrow> bytes \<Rightarrow> ('row list, 'e) result" where
  "async_csv_decode L c b = collect_rows (cl_parse L (async_csv_reader_builder async_csv_reader_new c) b)"

text \<open>
  \<open>encode\<close>: the rows; the library's writer is dropped, which hands over what it still holds and ignores
  the outcome; then \<open>flush\<close> and \<open>close\<close> of the target.
\<close>

definition async_csv_encode ::
  "('cw, 'row, 'e) async_csv_lib \<Rightarrow> ('d, 'wr, 'w) disk_ops \<Rightarrow> ('wr \<Rightarrow> 'w \<Rightarrow> (unit, io_error) result \<times> 'wr \<times> 'w) \<Rightarrow>
     async_csv_coder \<Rightarrow> 'row list \<Rightarrow> 'wr \<Rightarrow> 'w \<Rightarrow> (unit, 'e) result \<times> 'w" where
  "async_csv_encode L D close c rows target w =
     (case csv_rows L D rows (cl_writer L (async_csv_writer_builder async_csv_writer_new c)) target w of
        (r, cw, wr, w1) \<Rightarrow>
          (case csv_flush L D cw wr w1 of
             (_, _, wr1, w2) \<Rightarrow>
               (case r of
                  Ok _ \<Rightarrow> flush_close (cl_io L) D close wr1 w2
                | _ \<Rightarrow> (r, wr_drop D wr1 w2))))"

definition async_csv_bytes :: "('cw, 'row, 'e) async_csv_lib \<Rightarrow> async_csv_coder \<Rightarrow> 'row list \<Rightarrow> bytes option" where
  "async_csv_bytes L c rows = row_text L (async_csv_writer_builder async_csv_writer_new c) rows"

text \<open>
  Configurations of this library mean what the same ones mean of the other; the builders of a coder
  agree when those of the coder it converts to do.
\<close>

definition async_reads_dialect ::
  "(async_quote_style, async_terminator) writer_conf \<Rightarrow> (async_terminator, async_trim) reader_conf \<Rightarrow> bool" where
  "async_reads_dialect aw ar \<longleftrightarrow> (\<exists>wb rb. same_writer wb aw \<and> same_reader rb ar \<and> reads_dialect wb rb)"

lemma news_agree: "same_reader csv_reader_new async_csv_reader_new" "same_writer csv_writer_new async_csv_writer_new"
  by (simp_all add: same_reader_def same_writer_def csv_reader_new_def async_csv_reader_new_def csv_writer_new_def
      async_csv_writer_new_def)

lemma async_builders_agree:
  assumes "csv_from_async c = Ok sc" and "restorable sc"
  shows "async_reads_dialect (async_csv_writer_builder async_csv_writer_new c) (async_csv_reader_builder async_csv_reader_new c)"
  unfolding async_reads_dialect_def
  using assms same_readers [OF _ news_agree(1)] same_writers [OF _ news_agree(2)] csv_builders_agree csv_inverse by blast

lemma async_reads_delimiter: "async_reads_dialect aw ar \<Longrightarrow> rb_delimiter ar = wb_delimiter aw"
  by (auto simp: async_reads_dialect_def same_writer_def same_reader_def reads_dialect_def)

section \<open>Round trips\<close>

text \<open>
  The documented behaviour of the two libraries, on the values and rows they support, for configurations
  of their own.
\<close>

locale async_formats =
  fixes F :: "('v, 'e) frame_lib" and L :: "('cw, 'row, 'f) async_csv_lib" 
    and readable :: "(async_quote_style, async_terminator) writer_conf \<Rightarrow> 'row list \<Rightarrow> bool"
  assumes frame_back: "fl_frame F v = Ok b \<Longrightarrow> fl_next F b = Some (Ok v)"
    and rows_back: "async_reads_dialect aw ar \<Longrightarrow> readable aw rows \<Longrightarrow> row_text L aw rows = Some b \<Longrightarrow>
      cl_parse L ar b = map Ok rows"

text \<open>A flush that has succeeded, one more and a \<open>close\<close> that does nothing else, and the drop.\<close>

lemma flush_close_idle:
  assumes "idle_flush D" and "\<And>t w. close t w = (Ok (), t, w)" and "wr_flush D t w = (Ok (), t1, w1)"
  shows "flush_close io D close t1 w1 = (Ok (), wr_drop D t1 w1)"
proof -
  have "wr_flush D t1 w1 = (Ok (), t1, w1)" using assms(1,3) by (simp add: idle_flush_def)
  with assms(2) show ?thesis by (simp add: flush_close_def)
qed

lemma bincode_encode_session:
  assumes "idle_flush D" and "\<And>t w. close t w = (Ok (), t, w)" and "fl_frame F v = Ok b"
    and "serialize_flush D t [b] True w = (Ok (), w')"
  shows "async_bincode_encode F D close v t w = (Ok (), w')"
proof -
  obtain t1 w1 where A: "wr_write D t b w = (Ok (), t1, w1)"
    using assms(4) by (auto simp: serialize_flush_def split: prod.splits result.splits)
  obtain t2 w2 where B: "wr_flush D t1 w1 = (Ok (), t2, w2)" "w' = wr_drop D t2 w2"
    using assms(4) A by (auto simp: serialize_flush_def split: prod.splits)
  from flush_close_idle [OF assms(1,2) B(1)] A B assms(3) show ?thesis
    by (simp add: async_bincode_encode_def bincode_send_def)
qed

lemma async_csv_session:
  assumes "idle_flush D" and "\<And>t w. close t w = (Ok (), t, w)"
    and "csv_pieces L rows (cl_writer L (async_csv_writer_builder async_csv_writer_new c)) = (ps, None, cw)"
    and "serialize_flush D t (ps @ cl_buffered L cw) True w = (Ok (), w')"
  shows "async_csv_encode L D close c rows t w = (Ok (), w')"
proof -
  obtain t1 w1 where A: "write_pieces D t ps w = (Ok (), t1, w1)"
    using assms(4) by (auto simp: serialize_flush_def write_pieces_append split: prod.splits result.splits)
  obtain t2 w2 where B: "write_pieces D t1 (cl_buffered L cw) w1 = (Ok (), t2, w2)"
    using assms(4) A by (auto simp: serialize_flush_def write_pieces_append split: prod.splits result.splits)
  obtain t3 w3 where F: "wr_flush D t2 w2 = (Ok (), t3, w3)" "w' = wr_drop D t3 w3"
    using assms(4) A B by (auto simp: serialize_flush_def write_pieces_append split: prod.splits)
  from flush_close_idle [OF assms(1,2) F(1)] csv_rows_pieces [OF assms(3) A] B F show ?thesis
    by (simp add: async_csv_encode_def csv_flush_def)
qed

text \<open>
  what either asynchronous coder writes to a disk that keeps the contract, on which a second flush
  and a close are harmless, is stored as the library's bytes and decoded again by the same coder, for
  CSV if its builders agree.
\<close>

theorem async_formats_roundtrip:
  assumes "async_formats F L readable" and "byte_disk D site stored writable" and "idle_flush D"
    and "\<And>t w. close t w = (Ok (), t, w)" and "writable d w"
    and "fl_frame F v = Ok b" and "csv_from_async c = Ok sc" and "restorable sc"
    and "readable (async_csv_writer_builder async_csv_writer_new c) rows" and "async_csv_bytes L c rows = Some csv"
  shows "(\<exists>t w1 w2. d_write D d w = (Ok t, w1) \<and> async_bincode_encode F D close v t w1 = (Ok (), w2) \<and>
      stored d w2 = Some b \<and> async_bincode_decode F b = Ok v) \<and>
    (\<exists>t w1 w2. d_write D d w = (Ok t, w1) \<and> async_csv_encode L D close c rows t w1 = (Ok (), w2) \<and>
      stored d w2 = Some csv \<and> async_csv_decode L c csv = Ok rows)"
proof -
  have session: "\<exists>t w1 w2. d_write D d w = (Ok t, w1) \<and> serialize_flush D t ps True w1 = (Ok (), w2) \<and>
      stored d w2 = Some (concat ps)" for ps
  proof -
    from byte_disk.put_writable [OF assms(2,5)] obtain w2 where W: "put D d ps True w = (Ok (), w2)" by blast
    with byte_disk.put_stored [OF assms(2) W] show ?thesis by (auto simp: put_def split: prod.splits result.splits)
  qed
  have "async_bincode_decode F b = Ok v"
    using async_formats.frame_back [OF assms(1,6)] by (simp add: async_bincode_decode_def)
  with session [of "[b]"] bincode_encode_session [where close = close, OF assms(3,4,6)] have
    "\<exists>t w1 w2. d_write D d w = (Ok t, w1) \<and> async_bincode_encode F D close v t w1 = (Ok (), w2) \<and>
      stored d w2 = Some b \<and> async_bincode_decode F b = Ok v" by fastforce
  moreover obtain ps cw where
    P: "csv_pieces L rows (cl_writer L (async_csv_writer_builder async_csv_writer_new c)) = (ps, None, cw)"
      "csv = concat (ps @ cl_buffered L cw)"
    using assms(10) by (auto simp: async_csv_bytes_def row_text_def split: prod.splits option.splits)
  have "async_csv_decode L c csv = Ok rows"
    using async_formats.rows_back [OF assms(1) async_builders_agree [OF assms(7,8)] assms(9) assms(10) [unfolded async_csv_bytes_def]]
    by (simp add: async_csv_decode_def collect_rows_Ok)
  with session [of "ps @ cl_buffered L cw"] async_csv_session [where close = close, OF assms(3,4) P(1)] P(2)
  have "\<exists>t w1 w2. d_write D d w = (Ok t, w1) \<and> async_csv_encode L D close c rows t w1 = (Ok (), w2) \<and>
      stored d w2 = Some csv \<and> async_csv_decode L c csv = Ok rows" by blast
  ultimately show ?thesis by blast
qed

text \<open>
  a failed write of an asynchronous CSV table is not reported. Rows the library still collects are
  written when its writer is dropped, with the outcome ignored: on a file that is full encoding returns
  success and the file is left empty, where the synchronous coder, with the same rows collected, reports
  the error.
\<close>

theorem async_csv_error_is_lost:
  assumes "csv_pieces L rows (cl_writer L (async_csv_writer_builder async_csv_writer_new c)) = ([], None, cw)"
    and "cl_buffered L cw = [b]" and "b \<noteq> []" and "full s p" and "files s p = Some []"
    and "csv_pieces M rows (cl_writer M (csv_writer_builder csv_writer_new sc)) = ([], None, cm)"
    and "cl_buffered M cm = [b]"
  shows "async_csv_encode L async_unbuffered_disk (\<lambda>t s. (Ok (), t, s)) c rows \<lparr>fh_path = p, fh_pos = 0\<rparr> s = (Ok (), s) \<and>
    csv_encode M unbuffered_disk sc rows \<lparr>fh_path = p, fh_pos = 0\<rparr> s = (Err (cl_io M OtherError), s)"
proof
  let ?h = "\<lparr>fh_path = p, fh_pos = 0\<rparr>"
  have w: "file_write_all ?h b s = (Err OtherError, ?h, s)" using assms(3,4) by (simp add: file_write_all_def)
  have "write_pieces unbuffered_disk ?h [] s = (Ok (), ?h, s)" by simp
  note rows = csv_rows_pieces [OF assms(1) this] csv_rows_pieces [OF assms(6) this]
  show "async_csv_encode L async_unbuffered_disk (\<lambda>t s. (Ok (), t, s)) c rows ?h s = (Ok (), s)"
    unfolding async_file_ops async_csv_encode_def rows(1)
    by (simp add: csv_flush_def assms(2) unbuffered_disk_def w flush_close_def file_flush_def file_drop_def)
  show "csv_encode M unbuffered_disk sc rows ?h s = (Err (cl_io M OtherError), s)"
    unfolding csv_encode_def rows(2)
    by (simp add: csv_flush_def assms(7) unbuffered_disk_def w file_drop_def)
qed

section \<open>Examples\<close>

text \<open>Frames that start with their length, and the tables of lines.\<close>

definition demo_frames :: "(bytes, unit) frame_lib" where
  "demo_frames = \<lparr>fl_frame = (\<lambda>v. if length v < 256 then Ok (of_nat (length v) # v) else Err ()),
     fl_next = (\<lambda>b. case b of [] \<Rightarrow> None | n # v \<Rightarrow> Some (if unat n \<le> length v then Ok (take (unat n) v) else Err ())),
     fl_io = (\<lambda>_. ()), fl_custom = (\<lambda>_. ())\<rparr>"

definition demo_async_csv :: "(byte \<times> bytes, bytes, unit) async_csv_lib" where
  "demo_async_csv = \<lparr>cl_writer = (\<lambda>wb. (wb_delimiter wb, [])), cl_serialize = cl_serialize demo_csv,
     cl_buffered = cl_buffered demo_csv, cl_cleared = cl_cleared demo_csv, cl_io = cl_io demo_csv,
     cl_parse = (\<lambda>rb b. map (line_row (rb_delimiter rb)) (lines [] b))\<rparr>"

lemma demo_async_pieces: "csv_pieces demo_async_csv rows (d, cw) = ([], None, (d, cw @ concat (map (row_line d) rows)))"
  by (induction rows arbitrary: cw) (simp_all add: demo_async_csv_def demo_csv_def)

lemma demo_async_text: "row_text demo_async_csv wb rows = Some (concat (map (row_line (wb_delimiter wb)) rows))"
proof -
  have "cl_writer demo_async_csv wb = (wb_delimiter wb, [])" by (simp add: demo_async_csv_def)
  then show ?thesis by (simp add: row_text_def demo_async_pieces) (simp add: demo_async_csv_def demo_csv_def)
qed

interpretation demo_async: async_formats demo_frames demo_async_csv "\<lambda>wb. line_rows (wb_delimiter wb)"
proof
  fix aw ar and rows :: "bytes list" and b
  assume "async_reads_dialect aw ar" "line_rows (wb_delimiter aw) rows" "row_text demo_async_csv aw rows = Some b"
  then have "rb_delimiter ar = wb_delimiter aw" "line_rows (wb_delimiter aw) rows" "b = concat (map (row_line (wb_delimiter aw)) rows)"
    by (simp_all add: async_reads_delimiter demo_async_text)
  then show "cl_parse demo_async_csv ar b = map Ok rows" by (simp add: demo_async_csv_def rows_of_lines)
qed (auto simp: demo_frames_def unat_of_nat split: if_splits)

definition tab_async :: async_csv_coder where
  "tab_async = \<lparr>cc_comment = None, cc_delimiter = Some 9, cc_double_quote = None, cc_escape = None, cc_flexible = None,
     cc_has_headers = None, cc_quote = None, cc_quoting = None, cc_quote_style = Some AQuote_Always, cc_terminator = None,
     cc_trim = Some ATrim_None\<rparr>"

lemma tab_async_text:
  "csv_from_async tab_async = Ok tab_coder"
  "line_rows (wb_delimiter (async_csv_writer_builder async_csv_writer_new tab_async)) [[1], [2, 3]]"
  "async_csv_bytes demo_async_csv tab_async [[1], [2, 3]] = Some [9, 1, 10, 9, 2, 3, 10]"
  by (simp_all add: async_csv_bytes_def demo_async_text row_line_def line_rows_def tab_coder_def tab_async_def csv_from_async_def)

lemma idle_async_file: "idle_flush async_unbuffered_disk"
  unfolding async_file_ops by (rule idle_flush_files)

theorem async_formats_roundtrip_witness:
  "\<exists>t w1 w2. d_write async_unbuffered_disk (Unbuffered [''f'']) empty_fs = (Ok t, w1) \<and>
     async_csv_encode demo_async_csv async_unbuffered_disk (\<lambda>t s. (Ok (), t, s)) tab_async [[1], [2, 3]] t w1 = (Ok (), w2) \<and>
     file_stored [''f''] w2 = Some [9, 1, 10, 9, 2, 3, 10] \<and>
     async_csv_decode demo_async_csv tab_async [9, 1, 10, 9, 2, 3, 10] = Ok [[1], [2, 3]]"
proof -
  have w: "file_writable (ub_path (Unbuffered [''f''])) empty_fs" by simp
  have f: "fl_frame demo_frames [7] = Ok [1, 7]" by (simp add: demo_frames_def)
  from async_formats_roundtrip [OF demo_async.async_formats_axioms async_unbuf.byte_disk_axioms idle_async_file refl w f
      tab_async_text(1) tab_coder_text(2) tab_async_text(2,3)]
  show ?thesis by simp
qed

theorem async_csv_error_is_lost_witness:
  "async_csv_encode demo_async_csv async_unbuffered_disk (\<lambda>t s. (Ok (), t, s)) tab_async [[1], [2, 3]]
     \<lparr>fh_path = [''f''], fh_pos = 0\<rparr> (set_file [''f''] (Some []) (empty_fs\<lparr>full := (\<lambda>_. True)\<rparr>)) =
   (Ok (), set_file [''f''] (Some []) (empty_fs\<lparr>full := (\<lambda>_. True)\<rparr>))"
proof -
  let ?s = "set_file [''f''] (Some []) (empty_fs\<lparr>full := (\<lambda>_. True)\<rparr>)"
  have new: "cl_writer demo_async_csv (async_csv_writer_builder async_csv_writer_new tab_async) = (9, [])"
    "cl_writer demo_csv (csv_writer_builder csv_writer_new tab_coder) = (9, [])"
    by (simp_all add: demo_async_csv_def demo_csv_def tab_async_def tab_coder_def)
  have a: "csv_pieces demo_async_csv [[1], [2, 3]] (cl_writer demo_async_csv (async_csv_writer_builder async_csv_writer_new tab_async)) =
      ([], None, (9, [9, 1, 10, 9, 2, 3, 10]))" "cl_buffered demo_async_csv (9, [9, 1, 10, 9, 2, 3, 10]) = [[9, 1, 10, 9, 2, 3, 10]]"
    unfolding new by (simp_all add: demo_async_pieces) (simp_all add: demo_async_csv_def demo_csv_def row_line_def)
  have m: "csv_pieces demo_csv [[1], [2, 3]] (cl_writer demo_csv (csv_writer_builder csv_writer_new tab_coder)) =
      ([], None, (9, [9, 1, 10, 9, 2, 3, 10]))" "cl_buffered demo_csv (9, [9, 1, 10, 9, 2, 3, 10]) = [[9, 1, 10, 9, 2, 3, 10]]"
    unfolding new by (simp_all add: demo_csv_pieces) (simp_all add: demo_csv_def row_line_def)
  have "full ?s [''f'']" "files ?s [''f''] = Some []" by simp_all
  from async_csv_error_is_lost [OF a _ this m] show ?thesis by simp
qed

end
