(* ===== verification/Directory_History.thy ===== *)
theory Directory_History
  imports Directory_Array
begin

text \<open>
  Histories of a \<open>DirectoryBackedArray\<close> (\<open>src/directory/sync_impl.rs\<close>): a program that creates an array in
  a directory and then appends, removes, reads, unloads, and closes and reopens it, in any order,
  against the list of its chunks. Names of chunks come from the generator of unique names; they are
  given with the operations here.
\<close>

section \<open>Operations and their answers\<close>

text \<open>\<open>Reopen\<close>: \<open>save\<close>, and if that succeeds \<open>load\<close> of the same root; on an error the array is kept.\<close>

datatype ('a, 'c, 'm) dir_op =
    D_Append string "'a list" 'c
  | D_Append_Memory string "'a list" 'c
  | D_Remove nat
  | D_Get nat
  | D_Clear_Memory
  | D_Reopen 'm

datatype ('a, 'e, 'x, 'f) dir_answer =
    D_Wrote "(unit, ('e, 'x) disk_write_err) result"
  | D_Removed "(unit, io_error) result"
  | D_Got "('a, 'e array_error) result"
  | D_Done
  | D_Saved "(unit, ('f, 'x) disk_write_err) result"
  | D_Loaded "(unit, ('x, 'f) disk_read_err) result"

definition dir_reopen ::
  "('m, (nat list, 'a, plainfile, 'c) dir_array, 'f) coder_ops \<Rightarrow> 'm \<Rightarrow> (nat list, 'a, plainfile, 'c) dir_array \<Rightarrow> fs \<Rightarrow>
     ('a, 'e, 'x, 'f) dir_answer \<times> (nat list, 'a, plainfile, 'c) dir_array \<times> fs" where
  "dir_reopen M coder a s =
     (case dir_save M plainfile_disk plain_paths coder a s of
        (Ok _, s1) \<Rightarrow>
          (case dir_load M plainfile_disk plain_paths coder (da_root a) s1 of
             (Ok b, s2) \<Rightarrow> (D_Loaded (Ok ()), b, s2)
           | (r, s2) \<Rightarrow> (D_Loaded (map_ok (\<lambda>_. ()) r), a, s2))
      | (r, s1) \<Rightarrow> (D_Saved r, a, s1))"

definition dir_step ::
  "searcher \<Rightarrow> ('c, 'a list, 'e) coder_ops \<Rightarrow> ('m, (nat list, 'a, plainfile, 'c) dir_array, 'f) coder_ops \<Rightarrow> ('a, 'c, 'm) dir_op \<Rightarrow>
   (nat list, 'a, plainfile, 'c) dir_array \<Rightarrow> fs \<Rightarrow>
     ('a, 'e, 'x, 'f) dir_answer \<times> (nat list, 'a, plainfile, 'c) dir_array \<times> fs" where
  "dir_step bs C M p a s =
     (case p of
        D_Append uuid vals c \<Rightarrow>
          (case dir_append vec_ops C plainfile_disk plain_paths c uuid vals a s of (r, a1, s1) \<Rightarrow> (D_Wrote r, a1, s1))
      | D_Append_Memory uuid vals c \<Rightarrow>
          (case dir_append_memory vec_ops C plainfile_disk plain_paths c uuid vals a s of (r, a1, s1) \<Rightarrow> (D_Wrote r, a1, s1))
      | D_Remove i \<Rightarrow>
          (case dir_remove vec_ops (plain_paths :: (plainfile, 'x) path_disk) i a s of (r, a1, s1) \<Rightarrow> (D_Removed r, a1, s1))
      | D_Get k \<Rightarrow>
          (case array_get bs vec_ops C plainfile_disk k (da_array a) s of
             (r, b, s1) \<Rightarrow> (D_Got r, a\<lparr>da_array := b\<rparr>, s1))
      | D_Clear_Memory \<Rightarrow> (D_Done, a\<lparr>da_array := clear_memory (da_array a)\<rparr>, s)
      | D_Reopen coder \<Rightarrow> dir_reopen M coder a s)"

fun dir_history ::
  "searcher \<Rightarrow> ('c, 'a list, 'e) coder_ops \<Rightarrow> ('m, (nat list, 'a, plainfile, 'c) dir_array, 'f) coder_ops \<Rightarrow> ('a, 'c, 'm) dir_op list \<Rightarrow>
   (nat list, 'a, plainfile, 'c) dir_array \<Rightarrow> fs \<Rightarrow>
     ('a, 'e, 'x, 'f) dir_answer list \<times> (nat list, 'a, plainfile, 'c) dir_array \<times> fs" where
  "dir_history bs C M [] a s = ([], a, s)"
| "dir_history bs C M (p # ps) a s =
     (case dir_step bs C M p a s of
        (r, a1, s1) \<Rightarrow> (case dir_history bs C M ps a1 s1 of (rs, a2, s2) \<Rightarrow> (r # rs, a2, s2)))"

section \<open>The specification\<close>

text \<open>
  A failed write or save leaves the list alone; removing and reading cannot fail, and what has been
  saved can be loaded.
\<close>

fun dir_spec :: "('a, 'c, 'm) dir_op \<Rightarrow> ('a, 'e, 'x, 'f) dir_answer \<Rightarrow> 'a list list \<Rightarrow> 'a list list option" where
  "dir_spec (D_Append uuid vals c) (D_Wrote (Ok u)) xss = Some (xss @ [vals])"
| "dir_spec (D_Append uuid vals c) (D_Wrote (Err (WriteErr x))) xss = Some xss"
| "dir_spec (D_Append_Memory uuid vals c) (D_Wrote (Ok u)) xss = Some (xss @ [vals])"
| "dir_spec (D_Append_Memory uuid vals c) (D_Wrote (Err (WriteErr x))) xss = Some xss"
| "dir_spec (D_Remove i) (D_Removed (Ok u)) xss = Some (take i xss @ drop (Suc i) xss)"
| "dir_spec (D_Get k) (D_Got r) xss =
     (if r = (if k < length (concat xss) then Ok (concat xss ! k) else Err (OutsideEntryBounds k)) then Some xss else None)"
| "dir_spec D_Clear_Memory D_Done xss = Some xss"
| "dir_spec (D_Reopen coder) (D_Saved (Err x)) xss = Some xss"
| "dir_spec (D_Reopen coder) (D_Loaded (Ok u)) xss = Some xss"
| "dir_spec _ _ _ = None"

fun dir_spec_run :: "('a, 'c, 'm) dir_op list \<Rightarrow> ('a, 'e, 'x, 'f) dir_answer list \<Rightarrow> 'a list list \<Rightarrow> 'a list list option" where
  "dir_spec_run [] [] xss = Some xss"
| "dir_spec_run (p # ps) (r # rs) xss = (case dir_spec p r xss of Some yss \<Rightarrow> dir_spec_run ps rs yss | None \<Rightarrow> None)"
| "dir_spec_run _ _ _ = None"

fun new_names :: "('a, 'c, 'm) dir_op \<Rightarrow> string list" where
  "new_names (D_Append uuid vals c) = [uuid]"
| "new_names (D_Append_Memory uuid vals c) = [uuid]"
| "new_names _ = []"

fun new_chunks :: "('a, 'c, 'm) dir_op \<Rightarrow> 'a list list" where
  "new_chunks (D_Append uuid vals c) = [vals]"
| "new_chunks (D_Append_Memory uuid vals c) = [vals]"
| "new_chunks _ = []"

section \<open>The invariant\<close>

definition chunk_names :: "('k, 'a, plainfile, 'c) dir_array \<Rightarrow> string set" where
  "chunk_names a = (\<lambda>e. name_of (pf_path (entry_disk e))) ` set (entries (da_array a))"

definition dir_inv ::
  "('c, 'a list, 'e) coder_ops \<Rightarrow> path \<Rightarrow> (nat list, 'a, plainfile, 'c) dir_array \<Rightarrow> fs \<Rightarrow> 'a list list \<Rightarrow> bool" where
  "dir_inv C root a s xss \<longleftrightarrow>
     array_represents vec_ops C plainfile_disk (da_array a) s xss \<and> array_synced C plainfile_disk (da_array a) s \<and>
     dir_layout a \<and> da_root a = root \<and> meta_file \<notin> chunk_names a"

lemma layout_distinct: "dir_layout a \<Longrightarrow> distinct (array_sites pf_path (da_array a))"
  unfolding dir_layout_def array_sites_def by (auto simp: distinct_map inj_on_def)

lemma meta_outside:
  assumes "meta_file \<notin> chunk_names a"
  shows "join root meta_file \<notin> set (array_sites pf_path (da_array a))"
proof
  assume "join root meta_file \<in> set (array_sites pf_path (da_array a))"
  then obtain e where e: "e \<in> set (entries (da_array a))" "pf_path (entry_disk e) = join root meta_file"
    by (auto simp: array_sites_def)
  have "name_of (join root meta_file) = meta_file" by (simp add: name_of_def file_name_def join_def meta_file_def)
  with e assms show False by (force simp: chunk_names_def)
qed

text \<open>What matters to the layout are the disks of the entries.\<close>

lemma layout_same_disks:
  assumes "map entry_disk (entries b) = map entry_disk (entries (da_array a))"
  shows "dir_layout (a\<lparr>da_array := b\<rparr>) = dir_layout a" and "chunk_names (a\<lparr>da_array := b\<rparr>) = chunk_names a"
proof -
  have names: "map (\<lambda>e. name_of (pf_path (entry_disk e))) (entries b) =
      map (\<lambda>e. name_of (pf_path (entry_disk e))) (entries (da_array a))"
    using arg_cong [OF assms, of "map (\<lambda>d. name_of (pf_path d))"] by (simp add: o_def)
  have disks: "entry_disk ` set (entries b) = entry_disk ` set (entries (da_array a))"
    using assms by (metis list.set_map)
  have all: "(\<forall>e\<in>set (entries b). P (entry_disk e)) = (\<forall>e\<in>set (entries (da_array a)). P (entry_disk e))" for P
    using disks by (metis (mono_tags, lifting) image_iff)
  show "dir_layout (a\<lparr>da_array := b\<rparr>) = dir_layout a"
    using names all [of "\<lambda>d. file_name (pf_path d) \<noteq> None \<and> pf_path d = join (da_root a) (name_of (pf_path d))"]
    by (simp add: dir_layout_def)
  show "chunk_names (a\<lparr>da_array := b\<rparr>) = chunk_names a"
    using arg_cong [OF names, of set] by (simp add: chunk_names_def)
qed

lemma same_sites_disks:
  assumes "array_sites pf_path b = array_sites pf_path a"
  shows "map entry_disk (entries b) = map entry_disk (entries a)"
  using arg_cong [OF assms, of "map Plainfile"] by (simp add: array_sites_def o_def)

lemma layout_removed:
  assumes "dir_layout a" and "entries b = take i (entries (da_array a)) @ drop (Suc i) (entries (da_array a))"
  shows "dir_layout (a\<lparr>da_array := b\<rparr>)" and "chunk_names (a\<lparr>da_array := b\<rparr>) \<subseteq> chunk_names a"
proof -
  let ?es = "entries (da_array a)" and ?f = "\<lambda>e :: ('b list, plainfile, 'c) backed_entry. name_of (pf_path (entry_disk e))"
  have sub: "set (entries b) \<subseteq> set ?es" unfolding assms(2) by (simp add: set_take_subset set_drop_subset)
  have d: "distinct (map ?f ?es)" using assms(1) by (simp add: dir_layout_def)
  have "distinct (map ?f (entries b))"
  proof (cases "i < length ?es")
    case True
    with d show ?thesis unfolding assms(2) by (subst (asm) id_take_nth_drop [OF True]) simp
  next
    case False
    with d show ?thesis unfolding assms(2) by simp
  qed
  with assms(1) sub show "dir_layout (a\<lparr>da_array := b\<rparr>)" by (auto simp: dir_layout_def)
  show "chunk_names (a\<lparr>da_array := b\<rparr>) \<subseteq> chunk_names a" using sub by (auto simp: chunk_names_def)
qed

section \<open>Simulation\<close>

text \<open>A save, successful or not, leaves the files of the chunks alone, and does not panic.\<close>

lemma save_frame:
  assumes M: "coder_roundtrip M" and "meta_file \<notin> chunk_names a"
    and S: "dir_save M plainfile_disk plain_paths coder a s = (r, s1)"
  shows "r \<noteq> Panic \<and> (\<forall>e\<in>set (entries (da_array a)). file_stored (pf_path (entry_disk e)) s1 = file_stored (pf_path (entry_disk e)) s)"
proof -
  let ?d = "Plainfile (join (da_root a) meta_file)"
  note B = plainfile_backing [OF M]
  obtain q s2 where W: "write_value M plainfile_disk coder ?d (serialized a) s = (q, s2)" by fastforce
  have same: "s1 = s2 \<and> (r = Panic \<longrightarrow> q = Panic)"
    using S W by (cases q; cases r)
      (auto simp: dir_save_def write_value_def plain_paths_def plainfile_new_def split: prod.splits result.splits)
  obtain r1 where P: "put plainfile_disk ?d (fst (c_pieces M coder (serialized a))) (accepts M coder (serialized a)) s = (r1, s2)"
    using W unfolding write_value_put by (auto split: prod.splits)
  have "file_stored (pf_path (entry_disk e)) s1 = file_stored (pf_path (entry_disk e)) s" if "e \<in> set (entries (da_array a))" for e
  proof -
    have "pf_path (entry_disk e) \<in> set (array_sites pf_path (da_array a))" using that by (simp add: array_sites_def)
    with meta_outside [OF assms(2)] have "pf_path (entry_disk e) \<noteq> pf_path ?d" by auto
    from byte_disk.put_frame [OF backing.axioms(1) [OF B] P this] same show ?thesis by simp
  qed
  with same W backing.write_value_returns [OF B] show ?thesis by metis
qed

text \<open>A successful save can be loaded, with every value out of memory.\<close>

lemma saved_loads:
  assumes M: "coder_roundtrip M"
    and S: "dir_save M plainfile_disk (plain_paths :: (plainfile, 'x) path_disk) coder a s = (Ok u, s1)"
  shows "dir_load M plainfile_disk (plain_paths :: (plainfile, 'x) path_disk) coder (da_root a) s1 = (Ok (serialized a), s1)"
proof -
  let ?d = "Plainfile (join (da_root a) meta_file)"
  note B = plainfile_backing [OF M]
  have "write_value M plainfile_disk coder ?d (serialized a) s = (Ok (), s1)"
    using S by (auto simp: dir_save_def write_value_def plain_paths_def plainfile_new_def split: prod.splits result.splits)
  from backing.read_value_ok [OF B backing.write_value_ok(1) [OF B this]] show ?thesis
    by (rule dir_load_Ok) (simp add: plain_paths_def plainfile_new_def)
qed

lemma clear_inv: "coder_roundtrip C \<Longrightarrow> dir_inv C root a s xss \<Longrightarrow>
  dir_inv C root (a\<lparr>da_array := clear_memory (da_array a)\<rparr>) s xss \<and>
  chunk_names (a\<lparr>da_array := clear_memory (da_array a)\<rparr>) = chunk_names a"
proof -
  assume C: "coder_roundtrip C" and inv: "dir_inv C root a s xss"
  have "map entry_disk (entries (clear_memory (da_array a))) = map entry_disk (entries (da_array a))"
    by (simp add: clear_memory_def unload_def)
  note same = layout_same_disks [OF this]
  show ?thesis
    using inv same array_backing.clear_memory_represents(1,2) [OF growing_array.axioms(1) [OF plain_array [OF C]], of "da_array a" s xss]
    by (simp add: dir_inv_def)
qed

lemma reopen_simulates:
  fixes r :: "('a, 'e, 'x, 'f) dir_answer"
  assumes C: "coder_roundtrip C" and M: "coder_roundtrip M" and inv: "dir_inv C root a s xss"
    and R: "dir_reopen M coder a s = (r, a1, s1)"
  shows "dir_spec (D_Reopen coder) r xss = Some xss \<and> dir_inv C root a1 s1 xss \<and> chunk_names a1 = chunk_names a"
proof -
  obtain q s2 where S: "dir_save M plainfile_disk (plain_paths :: (plainfile, 'x) path_disk) coder a s = (q, s2)" by fastforce
  have meta: "meta_file \<notin> chunk_names a" using inv by (simp add: dir_inv_def)
  note frame = save_frame [OF M meta S]
  have inv2: "dir_inv C root a s2 xss"
    using inv represents_transfer [OF C, of "da_array a" s xss s2] frame by (simp add: dir_inv_def)
  show ?thesis
  proof (cases q)
    case (Ok u)
    from saved_loads [OF M S [unfolded Ok]] R S Ok have "r = D_Loaded (Ok ())" "a1 = serialized a" "s1 = s2"
      by (simp_all add: dir_reopen_def)
    with clear_inv [OF C inv2] show ?thesis by (simp add: serialized_clears)
  qed (use R S inv2 frame in \<open>auto simp: dir_reopen_def\<close>)
qed

lemma append_simulates:
  assumes C: "coder_roundtrip C" and inv: "dir_inv C root a s xss"
    and fresh: "uuid \<notin> chunk_names a" "uuid \<noteq> ''..''" "uuid \<noteq> meta_file"
    and f: "f = dir_append \<or> f = dir_append_memory"
    and A: "f vec_ops C plainfile_disk plain_paths c uuid vals a s = (r, a1, s1)"
  shows "\<exists>yss. ((r = Ok () \<and> yss = xss @ [vals]) \<or> (\<exists>x. r = Err (WriteErr x) \<and> yss = xss)) \<and> dir_inv C root a1 s1 yss \<and>
    chunk_names a1 \<subseteq> insert uuid (chunk_names a)"
proof -
  have names: "\<forall>e\<in>set (entries (da_array a)). name_of (pf_path (entry_disk e)) \<noteq> uuid"
    using fresh(1) by (auto simp: chunk_names_def)
  have kept: "array_synced C plainfile_disk (da_array a1) s1 \<and> dir_layout a1 \<and>
      ((r = Ok () \<and> array_represents vec_ops C plainfile_disk (da_array a1) s1 (xss @ [vals])) \<or>
       (\<exists>x. r = Err (WriteErr x) \<and> a1 = a \<and> array_represents vec_ops C plainfile_disk (da_array a) s1 xss))"
    using dir_append_ok [where s = s and xss = xss and c = c and vals = vals, OF C _ _ _ names fresh(2) f] inv A
    by (simp add: dir_inv_def)
  have new: "da_root a1 = da_root a \<and> chunk_names a1 \<subseteq> insert uuid (chunk_names a)" if "r = Ok ()"
  proof -
    have n: "name_of (join (da_root a) uuid) = uuid" using fresh(2) by (simp add: name_of_def)
    have "\<exists>b e. a1 = a\<lparr>da_array := b\<rparr> \<and> entries b = entries (da_array a) @ [e] \<and> entry_disk e = Plainfile (join (da_root a) uuid)"
      using f A that append_entries append_memory_entries
      by (auto simp: dir_append_eq split: prod.splits; metis)
    with n show ?thesis by (auto simp: chunk_names_def)
  qed
  from kept show ?thesis
  proof (elim conjE disjE exE)
    assume r: "r = Ok ()" and "array_represents vec_ops C plainfile_disk (da_array a1) s1 (xss @ [vals])"
    with kept new [OF r] inv fresh(3) show ?thesis by (intro exI [of _ "xss @ [vals]"]) (auto simp: dir_inv_def)
  next
    fix x assume "r = Err (WriteErr x)" "a1 = a" "array_represents vec_ops C plainfile_disk (da_array a) s1 xss"
    with kept inv show ?thesis by (intro exI [of _ xss]) (auto simp: dir_inv_def)
  qed
qed

lemma dir_step_simulates:
  fixes r :: "('a, 'e, 'x, 'f) dir_answer"
  assumes C: "coder_roundtrip C" and M: "coder_roundtrip M" and inv: "dir_inv C root a s xss"
    and fresh: "set (new_names p) \<inter> (chunk_names a \<union> {''..'', meta_file}) = {}"
    and S: "dir_step bs C M p a s = (r, a1, s1)" and bs: "searches bs xss"
  shows "\<exists>yss. dir_spec p r xss = Some yss \<and> dir_inv C root a1 s1 yss \<and>
    chunk_names a1 \<subseteq> chunk_names a \<union> set (new_names p) \<and> set yss \<subseteq> set xss \<union> set (new_chunks p)"
proof -
  note A = growing_array.axioms(1) [OF plain_array [OF C]]
  have rep: "array_represents vec_ops C plainfile_disk (da_array a) s xss" "array_synced C plainfile_disk (da_array a) s"
    "dir_layout a" "da_root a = root" "meta_file \<notin> chunk_names a" using inv by (simp_all add: dir_inv_def)
  show ?thesis
  proof (cases p)
    case (D_Append uuid vals c)
    with S append_simulates [OF C inv, of uuid dir_append c vals] fresh show ?thesis
      by (fastforce simp: dir_step_def split: prod.splits)
  next
    case (D_Append_Memory uuid vals c)
    with S append_simulates [OF C inv, of uuid dir_append_memory c vals] fresh show ?thesis
      by (fastforce simp: dir_step_def split: prod.splits)
  next
    case (D_Remove i)
    show ?thesis
    proof (cases "i < length xss")
      case True
      from dir_remove_at [OF C rep(1,2) layout_distinct [OF rep(3)] True] obtain b s' where R:
        "dir_remove vec_ops (plain_paths :: (plainfile, 'x) path_disk) i a s = (Ok (), a\<lparr>da_array := b\<rparr>, s')"
        "entries b = take i (entries (da_array a)) @ drop (Suc i) (entries (da_array a))"
        "array_represents vec_ops C plainfile_disk b s' (take i xss @ drop (Suc i) xss)" "array_synced C plainfile_disk b s'"
        by (auto simp: Let_def)
      have "set (take i xss @ drop (Suc i) xss) \<subseteq> set xss" by (simp add: set_take_subset set_drop_subset)
      with layout_removed [OF rep(3) R(2)] R(3,4) rep S R(1) D_Remove show ?thesis
        by (auto simp: dir_step_def dir_inv_def simp del: set_append)
    next
      case False
      have "length (entries (da_array a)) = length xss" using array_backing.represents_length [OF A rep(1)] .
      then have "dir_remove vec_ops (plain_paths :: (plainfile, 'x) path_disk) i a s = (Ok (), a, s)"
        using growing_array.remove_outside [OF plain_array [OF C] rep(1), of i] False
        by (simp add: dir_remove_def nth_opt_def expect_def)
      with False S D_Remove inv show ?thesis by (auto simp: dir_step_def)
    qed
  next
    case (D_Get k)
    from array_backing.get_by_locate [OF A rep(1) searches_locate [OF bs], of k] obtain b where
      G: "array_get bs vec_ops C plainfile_disk k (da_array a) s =
        (if k < length (concat xss) then Ok (concat xss ! k) else Err (OutsideEntryBounds k), b, s)"
      "array_represents vec_ops C plainfile_disk b s xss"
      "array_synced C plainfile_disk (da_array a) s \<longrightarrow> array_synced C plainfile_disk b s"
      "array_sites pf_path b = array_sites pf_path (da_array a)" by blast
    have same: "map entry_disk (entries b) = map entry_disk (entries (da_array a))" using G(4) by (rule same_sites_disks)
    have R: "r = D_Got (if k < length (concat xss) then Ok (concat xss ! k) else Err (OutsideEntryBounds k))"
      "a1 = a\<lparr>da_array := b\<rparr>" "s1 = s"
      using S D_Get G(1) by (simp_all add: dir_step_def split del: if_split)
    have "dir_spec p r xss = Some xss" unfolding R(1) D_Get by (subst dir_spec.simps) simp
    with layout_same_disks [OF same] G(2,3) rep show ?thesis
      unfolding R(2,3) by (intro exI [of _ xss]) (auto simp: dir_inv_def)
  next
    case D_Clear_Memory
    with S clear_inv [OF C inv] show ?thesis by (auto simp: dir_step_def)
  next
    case (D_Reopen coder)
    with S reopen_simulates [OF C M inv] show ?thesis by (fastforce simp: dir_step_def)
  qed
qed

lemma dir_history_simulates:
  fixes rs :: "('a, 'e, 'x, 'f) dir_answer list"
  assumes C: "coder_roundtrip C" and M: "coder_roundtrip M" and "dir_inv C root a s xss"
    and "distinct (concat (map new_names ps))"
    and "set (concat (map new_names ps)) \<inter> (chunk_names a \<union> {''..'', meta_file}) = {}"
    and "dir_history bs C M ps a s = (rs, a', s')" and "searches bs (xss @ concat (map new_chunks ps))"
  shows "\<exists>yss. dir_spec_run ps rs xss = Some yss \<and> dir_inv C root a' s' yss"
  using assms(3-)
proof (induction ps arbitrary: a s xss rs)
  case (Cons p ps)
  obtain r :: "('a, 'e, 'x, 'f) dir_answer" and a1 s1 where S: "dir_step bs C M p a s = (r, a1, s1)" by (metis prod_cases3)
  obtain rs' where H: "dir_history bs C M ps a1 s1 = (rs', a', s')" "rs = r # rs'"
    using Cons.prems(4) S by (auto split: prod.splits)
  have "set (new_names p) \<inter> (chunk_names a \<union> {''..'', meta_file}) = {}" using Cons.prems(3) by auto
  moreover have "searches bs xss" by (rule searches_subset [OF Cons.prems(5)]) simp
  ultimately obtain yss where
    Y: "dir_spec p r xss = Some yss" "dir_inv C root a1 s1 yss" "chunk_names a1 \<subseteq> chunk_names a \<union> set (new_names p)"
       "set yss \<subseteq> set xss \<union> set (new_chunks p)"
    using dir_step_simulates [OF C M Cons.prems(1) _ S] by blast
  have bs: "searches bs (yss @ concat (map new_chunks ps))" by (rule searches_subset [OF Cons.prems(5)]) (use Y(4) in auto)
  have "distinct (concat (map new_names ps))" using Cons.prems(2) by simp
  moreover have "set (concat (map new_names ps)) \<inter> (chunk_names a1 \<union> {''..'', meta_file}) = {}"
    using Cons.prems(2,3) Y(3) by fastforce
  ultimately show ?case using Cons.IH [OF Y(2) _ _ H(1) bs] Y(1) H(2) by simp
qed auto

section \<open>Every history\<close>

text \<open>
  C2: every history of a directory array over plain files, with coders that restore what they encode,
  refines the list of its chunks. From a directory that could be
  created, any sequence of appends under new names, removals, reads, moves out of memory, and saves
  followed by loads answers as the list of chunks does: reads give the element at its index or the error
  of an index out of bounds, a removal takes the chunk's file and its element of the list, a failed append
  or save changes nothing, what has been saved always loads and loads the same list, and nothing panics.
  This holds for every binary search that meets the documented contract, if no appended chunk is empty
  or the search returns the last of equal keys.
\<close>

theorem dir_history_refines:
  fixes rs :: "('a, 'e, 'x, 'f) dir_answer list"
  assumes "coder_roundtrip C" and "coder_roundtrip M"
    and "distinct (concat (map new_names ps))" and "set (concat (map new_names ps)) \<inter> {''..'', meta_file} = {}"
    and "searches bs (concat (map new_chunks ps))"
    and "dir_new vec_ops root s = (Ok a0, s0)" and "dir_history bs C M ps a0 s0 = (rs, a, s')"
  shows "\<exists>xss. dir_spec_run ps rs [] = Some xss \<and> array_represents vec_ops C plainfile_disk (da_array a) s' xss \<and>
    array_synced C plainfile_disk (da_array a) s' \<and> dir_layout a \<and> da_root a = root"
proof -
  have a0: "a0 = \<lparr>da_array = array_default vec_ops, da_root = root\<rparr>"
    using assms(6) by (cases "fst (fs_create_dir_all root s)") (auto simp: dir_new_def split: prod.splits)
  have none: "entries (da_array a0) = []" by (simp add: a0 array_default_def)
  have "array_represents vec_ops C plainfile_disk (da_array a0) s0 [] \<and> array_synced C plainfile_disk (da_array a0) s0"
    using growing_array.default_represents [OF plain_array [OF assms(1)], of s0] by (simp add: a0 array_represents_def array_synced_def array_default_def)
  with none have inv: "dir_inv C root a0 s0 []" by (simp add: dir_inv_def dir_layout_def chunk_names_def a0)
  have "chunk_names a0 = {}" using none by (simp add: chunk_names_def)
  with assms(4) have "set (concat (map new_names ps)) \<inter> (chunk_names a0 \<union> {''..'', meta_file}) = {}" by simp
  from dir_history_simulates [OF assms(1,2) inv assms(3) this assms(7)] assms(5) show ?thesis by (auto simp: dir_inv_def)
qed

text \<open>A history with two reopenings: the coder of the metadata accepts the first array and refuses the second.\<close>

definition known_array_ops ::
  "(nat list, byte, plainfile, bincode_coder) dir_array \<Rightarrow> (unit, (nat list, byte, plainfile, bincode_coder) dir_array, unit) coder_ops" where
  "known_array_ops v0 = \<lparr>c_pieces = (\<lambda>_ v. if v = v0 then ([[1]], None) else ([], Some ())),
     c_write_io = (\<lambda>_. ()), c_from_io = (\<lambda>_. ()), c_parse = (\<lambda>_ b. if b = [1] then Ok v0 else Err ())\<rparr>"

lemma known_array_roundtrip: "coder_roundtrip (known_array_ops v)"
  by (simp add: coder_roundtrip_def accepts_def encoding_def known_array_ops_def)

abbreviation saved_dir :: "(nat list, byte, plainfile, bincode_coder) dir_array" where
  "saved_dir \<equiv> \<lparr>da_array = \<lparr>key_starts = [0, 2], key_ends = [2, 3],
     entries = [entry_new (Plainfile [''r'', ''u'']) BincodeCoder, entry_new (Plainfile [''r'', ''v'']) BincodeCoder]\<rparr>, da_root = [''r'']\<rparr>"

definition demo_dir_history :: "(byte, bincode_coder, unit) dir_op list" where
  "demo_dir_history = [D_Append ''u'' [10, 11] BincodeCoder, D_Append_Memory ''v'' [12] BincodeCoder, D_Get 2,
     D_Reopen (), D_Remove 0, D_Get 0, D_Get 1, D_Reopen ()]"

theorem dir_history_refines_witness:
  "\<exists>rs a s0 s' a0 xss. dir_new vec_ops [''r''] empty_fs = (Ok a0, s0) \<and>
    dir_history bsearch_early prefix_ops (known_array_ops saved_dir) demo_dir_history a0 s0 = (rs :: (byte, prefix_err, 'x, unit) dir_answer list, a, s') \<and>
    dir_spec_run demo_dir_history rs [] = Some xss \<and> array_represents vec_ops prefix_ops plainfile_disk (da_array a) s' xss"
proof -
  obtain a0 :: "(nat list, byte, plainfile, bincode_coder) dir_array" and s0 where N: "dir_new vec_ops [''r''] empty_fs = (Ok a0, s0)"
    by (simp add: dir_new_def fs_create_dir_all_def join_def empty_fs_def)
  obtain rs :: "(byte, prefix_err, 'x, unit) dir_answer list" and a s' where
    H: "dir_history bsearch_early prefix_ops (known_array_ops saved_dir) demo_dir_history a0 s0 = (rs, a, s')" by (metis prod_cases3)
  have "distinct (concat (map new_names demo_dir_history))"
    "set (concat (map new_names demo_dir_history)) \<inter> {''..'', meta_file} = {}"
    "searches bsearch_early (concat (map new_chunks demo_dir_history))"
    by (simp_all add: demo_dir_history_def meta_file_def searches_early)
  from dir_history_refines [OF prefix_roundtrip known_array_roundtrip this N H] N H show ?thesis by blast
qed

end
