(* ===== verification/Extender.thy ===== *)
theory Extender
  imports Async_Read
begin

text \<open>
  \<open>BorrowExtender\<close> (\<open>src/utils/extender.rs\<close>) and the reference wrappers (\<open>src/utils/refs.rs\<close>): a child
  borrowed from a parent, kept in one struct with it. The rest of the development has values where the
  code has borrows; here the addresses are explicit, because what the unsafe code has to get right is
  that the child never outlives, and never refers into, a place the parent has left.
\<close>

section \<open>The extender\<close>

type_synonym addr = nat

text \<open>
  The fields in the order of their declaration, in which Rust drops them. A closure over \<open>&T\<close> or a
  pointer to \<open>T\<close> has the address of the parent, the local variable of the constructor, and what it reads
  there; the closures over \<open>NonNull<T>\<close> may also change it.
\<close>

record ('t, 'u) borrow_extender =
  be_child :: 'u
  be_parent :: 't

definition be_new :: "(addr \<Rightarrow> 't \<Rightarrow> 'u) \<Rightarrow> addr \<Rightarrow> 't \<Rightarrow> ('t, 'u) borrow_extender" where
  "be_new child at owner = \<lparr>be_child = child at owner, be_parent = owner\<rparr>"

definition be_try_new ::
  "(addr \<Rightarrow> 't \<Rightarrow> ('u, 'e) result) \<Rightarrow> addr \<Rightarrow> 't \<Rightarrow> (('t, 'u) borrow_extender, 'e) result" where
  "be_try_new child at owner = map_ok (\<lambda>u. \<lparr>be_child = u, be_parent = owner\<rparr>) (child at owner)"

definition be_maybe_new ::
  "(addr \<Rightarrow> 't \<Rightarrow> 'u option) \<Rightarrow> addr \<Rightarrow> 't \<Rightarrow> ('t, 'u) borrow_extender option" where
  "be_maybe_new child at owner = map_option (\<lambda>u. \<lparr>be_child = u, be_parent = owner\<rparr>) (child at owner)"

definition be_new_mut :: "(addr \<Rightarrow> 't \<Rightarrow> 'u \<times> 't) \<Rightarrow> addr \<Rightarrow> 't \<Rightarrow> ('t, 'u) borrow_extender" where
  "be_new_mut child at owner = (case child at owner of (u, p) \<Rightarrow> \<lparr>be_child = u, be_parent = p\<rparr>)"

definition be_try_new_mut ::
  "(addr \<Rightarrow> 't \<Rightarrow> ('u, 'e) result \<times> 't) \<Rightarrow> addr \<Rightarrow> 't \<Rightarrow> (('t, 'u) borrow_extender, 'e) result" where
  "be_try_new_mut child at owner =
     (case child at owner of (r, p) \<Rightarrow> map_ok (\<lambda>u. \<lparr>be_child = u, be_parent = p\<rparr>) r)"

definition be_maybe_new_mut ::
  "(addr \<Rightarrow> 't \<Rightarrow> 'u option \<times> 't) \<Rightarrow> addr \<Rightarrow> 't \<Rightarrow> ('t, 'u) borrow_extender option" where
  "be_maybe_new_mut child at owner =
     (case child at owner of (r, p) \<Rightarrow> map_option (\<lambda>u. \<lparr>be_child = u, be_parent = p\<rparr>) r)"

text \<open>
  The asynchronous constructors, one poll each: the future of the closure is polled, and the parent waits
  in the frame of the constructor. \<open>fut\<close> is that future, which for the mutable ones can change the parent.
\<close>

definition be_a_new :: "('s \<Rightarrow> 'u poll \<times> 's) \<Rightarrow> 't \<Rightarrow> 's \<Rightarrow> ('t, 'u) borrow_extender poll \<times> 's" where
  "be_a_new fut owner s =
     (case fut s of
        (Ready u, s1) \<Rightarrow> (Ready \<lparr>be_child = u, be_parent = owner\<rparr>, s1)
      | (Pending, s1) \<Rightarrow> (Pending, s1))"

definition be_a_try_new ::
  "('s \<Rightarrow> ('u, 'e) result poll \<times> 's) \<Rightarrow> 't \<Rightarrow> 's \<Rightarrow> (('t, 'u) borrow_extender, 'e) result poll \<times> 's" where
  "be_a_try_new fut owner s =
     (case fut s of
        (Ready r, s1) \<Rightarrow> (Ready (map_ok (\<lambda>u. \<lparr>be_child = u, be_parent = owner\<rparr>) r), s1)
      | (Pending, s1) \<Rightarrow> (Pending, s1))"

definition be_a_maybe_new ::
  "('s \<Rightarrow> 'u option poll \<times> 's) \<Rightarrow> 't \<Rightarrow> 's \<Rightarrow> ('t, 'u) borrow_extender option poll \<times> 's" where
  "be_a_maybe_new fut owner s =
     (case fut s of
        (Ready r, s1) \<Rightarrow> (Ready (map_option (\<lambda>u. \<lparr>be_child = u, be_parent = owner\<rparr>) r), s1)
      | (Pending, s1) \<Rightarrow> (Pending, s1))"

definition be_a_new_mut ::
  "('t \<Rightarrow> 's \<Rightarrow> 'u poll \<times> 't \<times> 's) \<Rightarrow> 't \<Rightarrow> 's \<Rightarrow> ('t, 'u) borrow_extender poll \<times> 't \<times> 's" where
  "be_a_new_mut fut owner s =
     (case fut owner s of
        (Ready u, p, s1) \<Rightarrow> (Ready \<lparr>be_child = u, be_parent = p\<rparr>, p, s1)
      | (Pending, p, s1) \<Rightarrow> (Pending, p, s1))"

definition be_a_try_new_mut ::
  "('t \<Rightarrow> 's \<Rightarrow> ('u, 'e) result poll \<times> 't \<times> 's) \<Rightarrow> 't \<Rightarrow> 's \<Rightarrow>
     (('t, 'u) borrow_extender, 'e) result poll \<times> 't \<times> 's" where
  "be_a_try_new_mut fut owner s =
     (case fut owner s of
        (Ready r, p, s1) \<Rightarrow> (Ready (map_ok (\<lambda>u. \<lparr>be_child = u, be_parent = p\<rparr>) r), p, s1)
      | (Pending, p, s1) \<Rightarrow> (Pending, p, s1))"

definition be_a_maybe_new_mut ::
  "('t \<Rightarrow> 's \<Rightarrow> 'u option poll \<times> 't \<times> 's) \<Rightarrow> 't \<Rightarrow> 's \<Rightarrow>
     ('t, 'u) borrow_extender option poll \<times> 't \<times> 's" where
  "be_a_maybe_new_mut fut owner s =
     (case fut owner s of
        (Ready r, p, s1) \<Rightarrow> (Ready (map_option (\<lambda>u. \<lparr>be_child = u, be_parent = p\<rparr>) r), p, s1)
      | (Pending, p, s1) \<Rightarrow> (Pending, p, s1))"

text \<open>Taking a result or an option out of the child.\<close>

definition open_result :: "('t, ('v, 'e) result) borrow_extender \<Rightarrow> (('t, 'v) borrow_extender, 'e) result" where
  "open_result x = map_ok (\<lambda>v. \<lparr>be_child = v, be_parent = be_parent x\<rparr>) (be_child x)"

definition open_option :: "('t, 'v option) borrow_extender \<Rightarrow> ('t, 'v) borrow_extender option" where
  "open_option x = map_option (\<lambda>v. \<lparr>be_child = v, be_parent = be_parent x\<rparr>) (be_child x)"

text \<open>The comparisons with a value are those of the child.\<close>

definition be_eq :: "('u \<Rightarrow> 'v \<Rightarrow> bool) \<Rightarrow> ('t, 'u) borrow_extender \<Rightarrow> 'v \<Rightarrow> bool" where
  "be_eq eq x other = eq (be_child x) other"

definition be_partial_cmp :: "('u \<Rightarrow> 'v \<Rightarrow> 'o option) \<Rightarrow> ('t, 'u) borrow_extender \<Rightarrow> 'v \<Rightarrow> 'o option" where
  "be_partial_cmp cmp x other = cmp (be_child x) other"

lemma open_result_new: "open_result (be_new child at p) = be_try_new child at p"
  by (simp add: open_result_def be_new_def be_try_new_def)

lemma open_option_new: "open_option (be_new child at p) = be_maybe_new child at p"
  by (simp add: open_option_def be_new_def be_maybe_new_def)

section \<open>Addresses\<close>

text \<open>
  \<open>Deref::deref\<close> as the address it returns for a value that lies at an address. A reference wrapper is
  the address it holds; a wrapper that returns a field of its own returns the place where it lies. The
  fields of a struct are taken to lie at its address.
\<close>

datatype to_ref = ToRef (tr_ref: addr)
datatype to_mut = ToMut (tm_ref: addr)
datatype indirect_ref = IndirectRef (ir_ref: addr)
datatype indirect_mut = IndirectMut (im_ref: addr)

definition to_ref_deref :: "addr \<Rightarrow> to_ref \<Rightarrow> addr" where "to_ref_deref at r = tr_ref r"
definition to_mut_deref :: "addr \<Rightarrow> to_mut \<Rightarrow> addr" where "to_mut_deref at r = tm_ref r"
definition indirect_ref_deref :: "addr \<Rightarrow> indirect_ref \<Rightarrow> addr" where "indirect_ref_deref at r = ir_ref r"
definition indirect_mut_deref :: "addr \<Rightarrow> indirect_mut \<Rightarrow> addr" where "indirect_mut_deref at r = im_ref r"

definition be_deref :: "addr \<Rightarrow> ('t, 'u) borrow_extender \<Rightarrow> addr" where
  "be_deref at x = at"

text \<open>\<open>NestDeref\<close> derefs the nest to its child and the child to its own target.\<close>

datatype ('a, 'b, 'c) nest_deref = NestDeref (nest_inner: "(('a, 'b) borrow_extender, 'c) borrow_extender")

definition nest_deref_deref :: "(addr \<Rightarrow> 'c \<Rightarrow> addr) \<Rightarrow> addr \<Rightarrow> ('a, 'b, 'c) nest_deref \<Rightarrow> addr" where
  "nest_deref_deref target at n = target (be_deref at (nest_inner n)) (be_child (nest_inner n))"

text \<open>
  \<open>StableDeref\<close>: the target stays where it is when the value is moved. The reference wrappers keep it, and
  so does a nest over a child that keeps it.
\<close>

locale stable_deref =
  fixes target :: "addr \<Rightarrow> 'v \<Rightarrow> addr"
  assumes moved: "target a v = target b v"
begin

lemma nest_moved: "nest_deref_deref target a n = nest_deref_deref target b n"
  unfolding nest_deref_deref_def by (rule moved)

end

interpretation to_ref: stable_deref to_ref_deref by unfold_locales (simp add: to_ref_deref_def)
interpretation to_mut: stable_deref to_mut_deref by unfold_locales (simp add: to_mut_deref_def)
interpretation indirect_ref: stable_deref indirect_ref_deref by unfold_locales (simp add: indirect_ref_deref_def)
interpretation indirect_mut: stable_deref indirect_mut_deref by unfold_locales (simp add: indirect_mut_deref_def)

section \<open>The life of an extender\<close>

text \<open>
  Memory is the set of cells that are allocated. Three functions describe the types involved: the cells a
  parent keeps allocated as long as it lives, by owning or by borrowing them, the ones it frees when it is
  dropped, and the cells a child refers to.
\<close>

record ('t, 'u) holder =
  ho_live :: "addr set"
  ho_at :: addr
  ho_ext :: "('t, 'u) borrow_extender option"

text \<open>A constructor returns: the parent leaves the local variable at \<open>loc\<close>, the struct arrives at \<open>at\<close>.\<close>

definition returned :: "addr \<Rightarrow> addr \<Rightarrow> addr set \<Rightarrow> ('t, 'u) borrow_extender \<Rightarrow> ('t, 'u) holder" where
  "returned loc at live x = \<lparr>ho_live = insert at (live - {loc}), ho_at = at, ho_ext = Some x\<rparr>"

text \<open>
  Dropping the struct: each field in order. A child may use what it refers to when it is dropped; the
  parent frees what it owns. The first component says that no freed cell was touched.
\<close>

definition drop_child :: "('u \<Rightarrow> addr set) \<Rightarrow> 'u \<Rightarrow> addr set \<Rightarrow> bool \<times> addr set" where
  "drop_child reaches u live = (reaches u \<subseteq> live, live)"

definition drop_parent :: "('t \<Rightarrow> addr set) \<Rightarrow> 't \<Rightarrow> addr set \<Rightarrow> bool \<times> addr set" where
  "drop_parent frees p live = (frees p \<subseteq> live, live - frees p)"

definition extender_drop ::
  "('t \<Rightarrow> addr set) \<Rightarrow> ('u \<Rightarrow> addr set) \<Rightarrow> ('t, 'u) borrow_extender \<Rightarrow> addr set \<Rightarrow> bool \<times> addr set" where
  "extender_drop frees reaches x live =
     (case drop_child reaches (be_child x) live of (ok1, live1) \<Rightarrow>
      case drop_parent frees (be_parent x) live1 of (ok2, live2) \<Rightarrow> (ok1 \<and> ok2, live2))"

text \<open>
  What happens to an extender: it is moved, its child is used, it is dropped, or other code allocates and
  frees cells of its own.
\<close>

datatype memory_op = Move_To addr | Use_Child | Drop_Extender | Elsewhere "addr set" "addr set"

definition allowed :: "('t \<Rightarrow> addr set) \<Rightarrow> memory_op \<Rightarrow> ('t, 'u) holder \<Rightarrow> bool" where
  "allowed keeps p s \<longleftrightarrow>
     (case (p, ho_ext s) of
        (Elsewhere new old, None) \<Rightarrow> True
      | (Elsewhere new old, Some x) \<Rightarrow> old \<inter> insert (ho_at s) (keeps (be_parent x)) = {}
      | (Move_To b, Some x) \<Rightarrow> b \<notin> ho_live s
      | (_, ho) \<Rightarrow> ho \<noteq> None)"

definition life_step ::
  "('t \<Rightarrow> addr set) \<Rightarrow> ('u \<Rightarrow> addr set) \<Rightarrow> memory_op \<Rightarrow> ('t, 'u) holder \<Rightarrow> bool \<times> ('t, 'u) holder" where
  "life_step frees reaches p s =
     (case (p, ho_ext s) of
        (Elsewhere new old, _) \<Rightarrow> (True, s\<lparr>ho_live := (ho_live s - old) \<union> new\<rparr>)
      | (Move_To b, Some x) \<Rightarrow> (ho_at s \<in> ho_live s, s\<lparr>ho_live := insert b (ho_live s - {ho_at s}), ho_at := b\<rparr>)
      | (Use_Child, Some x) \<Rightarrow> (be_deref (ho_at s) x \<in> ho_live s \<and> reaches (be_child x) \<subseteq> ho_live s, s)
      | (Drop_Extender, Some x) \<Rightarrow>
          (case extender_drop frees reaches x (ho_live s) of
             (ok, live) \<Rightarrow> (ok \<and> ho_at s \<in> ho_live s, s\<lparr>ho_live := live - {ho_at s}, ho_ext := None\<rparr>))
      | (_, None) \<Rightarrow> (False, s))"

text \<open>Every operation up to the first that is not allowed touches allocated cells only.\<close>

fun life_safe ::
  "('t \<Rightarrow> addr set) \<Rightarrow> ('t \<Rightarrow> addr set) \<Rightarrow> ('u \<Rightarrow> addr set) \<Rightarrow> memory_op list \<Rightarrow> ('t, 'u) holder \<Rightarrow> bool" where
  "life_safe keeps frees reaches [] s = True"
| "life_safe keeps frees reaches (p # ps) s =
     (allowed keeps p s \<longrightarrow>
       (case life_step frees reaches p s of (ok, s1) \<Rightarrow> ok \<and> life_safe keeps frees reaches ps s1))"

definition held :: "('t \<Rightarrow> addr set) \<Rightarrow> ('t \<Rightarrow> addr set) \<Rightarrow> ('u \<Rightarrow> addr set) \<Rightarrow> ('t, 'u) holder \<Rightarrow> bool" where
  "held keeps frees reaches s \<longleftrightarrow>
     (case ho_ext s of None \<Rightarrow> True | Some x \<Rightarrow>
        reaches (be_child x) \<subseteq> keeps (be_parent x) \<and> frees (be_parent x) \<subseteq> keeps (be_parent x) \<and>
        keeps (be_parent x) \<subseteq> ho_live s \<and> ho_at s \<in> ho_live s \<and> ho_at s \<notin> keeps (be_parent x))"

lemma life_step_held:
  assumes "held keeps frees reaches s" and "allowed keeps p s"
  shows "fst (life_step frees reaches p s) \<and> held keeps frees reaches (snd (life_step frees reaches p s))"
proof (cases "ho_ext s")
  case None
  with assms show ?thesis by (cases p) (simp_all add: held_def allowed_def life_step_def)
next
  case (Some x)
  with assms show ?thesis
    by (cases p) (auto simp: held_def allowed_def life_step_def be_deref_def extender_drop_def drop_child_def drop_parent_def)
qed

lemma held_safe: "held keeps frees reaches s \<Longrightarrow> life_safe keeps frees reaches ps s"
proof (induction ps arbitrary: s)
  case (Cons p ps)
  then show ?case using life_step_held [OF Cons.prems, of p] by (auto split: prod.split)
qed simp

lemma returned_held:
  assumes "reaches (be_child x) \<subseteq> keeps (be_parent x)" and "frees (be_parent x) \<subseteq> keeps (be_parent x)"
    and "keeps (be_parent x) \<subseteq> live" and "loc \<notin> keeps (be_parent x)" and "at \<notin> live"
  shows "held keeps frees reaches (returned loc at live x)"
  using assms by (auto simp: held_def returned_def)

end
