(* ===== verification/Borrow_Safety.thy ===== *)
theory Borrow_Safety
  imports Extender Backed_Array Encrypted
begin

text \<open>
  The uses of \<open>BorrowExtender\<close> in the crate: the nest of handles \<open>generic_get\<close> returns
  (\<open>src/array/sync_impl/generic.rs\<close>), the bytes of a decrypted buffer (\<open>src/entry/disks/encrypted.rs\<close>), and the
  types that are declared \<open>StableDeref\<close>.
\<close>

section \<open>Addresses of the protected vectors\<close>

text \<open>
  \<open>SecretVecWrapper\<close> derefs to its field; the handles of single elements and of the whole vector deref
  through the handle of the \<open>secrets\<close> crate they wrap, whose target is \<open>target\<close>.
\<close>

definition secret_wrapper_deref :: "addr \<Rightarrow> 't list \<Rightarrow> addr" where
  "secret_wrapper_deref at v = at"

definition secret_box_ref_deref :: "(addr \<Rightarrow> 'h \<Rightarrow> addr) \<Rightarrow> addr \<Rightarrow> 'h \<Rightarrow> addr" where
  "secret_box_ref_deref target at h = target at h"

definition secret_item_ref_deref :: "(addr \<Rightarrow> 'h \<Rightarrow> addr) \<Rightarrow> addr \<Rightarrow> 'h \<Rightarrow> addr" where
  "secret_item_ref_deref target at h = target at h"

definition secret_item_mut_deref :: "(addr \<Rightarrow> 'h \<Rightarrow> addr) \<Rightarrow> addr \<Rightarrow> 'h \<Rightarrow> addr" where
  "secret_item_mut_deref target at h = target at h"

definition secret_vec_ref_deref :: "(addr \<Rightarrow> 'h \<Rightarrow> addr) \<Rightarrow> addr \<Rightarrow> 'h \<Rightarrow> addr" where
  "secret_vec_ref_deref target at h = target at h"

definition secret_vec_mut_deref :: "(addr \<Rightarrow> 'h \<Rightarrow> addr) \<Rightarrow> addr \<Rightarrow> 'h \<Rightarrow> addr" where
  "secret_vec_mut_deref target at h = target at h"

text \<open>\<open>SecretVecU8::from\<close>: \<open>borrow\<close> is \<open>SecretVec::borrow\<close> of the vector at an address.\<close>

definition secret_vec_u8_from :: "(addr \<Rightarrow> bytes \<Rightarrow> 'h) \<Rightarrow> addr \<Rightarrow> bytes \<Rightarrow> (bytes, 'h) borrow_extender" where
  "secret_vec_u8_from borrow loc vec = be_new (\<lambda>at v. borrow (secret_wrapper_deref at v) v) loc vec"

section \<open>The handles of a read\<close>

text \<open>
  \<open>generic_get_loc\<close>, as far as addresses go: \<open>target\<close> is where a handle of the container points, \<open>load\<close>
  the address of the loaded value of the entry there, or the error of loading it, and \<open>elem\<close> (\<open>c_get\<close>) the
  address of its element. The two constructors hold the handle in their local variables at \<open>loc1\<close> and
  \<open>loc2\<close>.
\<close>

definition generic_get_handle ::
  "(addr \<Rightarrow> 'r \<Rightarrow> addr) \<Rightarrow> (addr \<Rightarrow> (addr, 'e) result) \<Rightarrow> (addr \<Rightarrow> nat \<Rightarrow> addr option) \<Rightarrow> array_loc \<Rightarrow> nat \<Rightarrow>
   addr \<Rightarrow> addr \<Rightarrow> 'r option \<Rightarrow> ((('r, addr) borrow_extender, addr) borrow_extender, 'e array_error) result" where
  "generic_get_handle target load elem loc idx loc1 loc2 wrapped =
     res_bind (ok_or (OutsideEntryBounds idx) wrapped) (\<lambda>wrapped_container.
     res_bind (be_try_new (\<lambda>at r. map_err CoderError (load (target at r))) loc1 wrapped_container) (\<lambda>entry.
     be_try_new (\<lambda>at e. ok_or (OutsideEntryBounds idx) (elem (be_child e) (inside_entry_idx loc))) loc2 entry))"

lemma in_place_not_stable: "(\<And>at v. target at v = at) \<Longrightarrow> \<not> stable_deref target"
  unfolding stable_deref_def by (metis zero_neq_one)

section \<open>Properties\<close>

text \<open>
  C25: \<open>BorrowExtender\<close> is memory safe. If the closure only ever returns children that refer to cells the
  parent keeps alive, wherever the parent lies, then a struct built by one of the constructors can be moved,
  used and dropped in any order, with other code allocating and freeing its own memory in between, and no
  freed cell is touched; the child is dropped before the parent.
\<close>

theorem extender_memory_safe:
  assumes "\<And>a. reaches (child a p) \<subseteq> keeps p" and "\<And>a u. try_child a p = Ok u \<Longrightarrow> reaches u \<subseteq> keeps p"
    and "\<And>a u. maybe_child a p = Some u \<Longrightarrow> reaches u \<subseteq> keeps p"
    and "frees p \<subseteq> keeps p" and "keeps p \<subseteq> live" and "loc \<notin> keeps p" and "at \<notin> live"
  shows "life_safe keeps frees reaches ps (returned loc at live (be_new child loc p)) \<and>
    (\<forall>x. be_try_new try_child loc p = Ok x \<longrightarrow> life_safe keeps frees reaches ps (returned loc at live x)) \<and>
    (\<forall>x. be_maybe_new maybe_child loc p = Some x \<longrightarrow> life_safe keeps frees reaches ps (returned loc at live x))"
proof -
  have "life_safe keeps frees reaches ps (returned loc at live x)" if "be_parent x = p" "reaches (be_child x) \<subseteq> keeps p" for x
    by (rule held_safe, rule returned_held) (use that assms(4-7) in simp_all)
  with assms(1-3) show ?thesis by (auto simp: be_new_def be_try_new_def be_maybe_new_def)
qed

text \<open>
  the handle \<open>generic_get\<close> returns is memory safe: as long as the handle of the container keeps the
  loaded value and its elements alive, the nest of extenders over it can be moved, used and dropped in any
  order without touching a freed cell.
\<close>

theorem generic_get_handle_safe:
  assumes "generic_get_handle target load elem loc idx loc1 loc2 (Some r) = Ok x"
    and "\<And>v c. load (target loc1 r) = Ok v \<Longrightarrow> elem v (inside_entry_idx loc) = Some c \<Longrightarrow> c \<in> keeps r"
    and "frees r \<subseteq> keeps r" and "keeps r \<subseteq> live" and "loc2 \<notin> keeps r" and "at \<notin> live"
  shows "life_safe (\<lambda>e. keeps (be_parent e)) (\<lambda>e. frees (be_parent e)) (\<lambda>c. {c}) ps (returned loc2 at live x) \<and>
    be_parent (be_parent x) = r"
proof -
  obtain v c where x: "load (target loc1 r) = Ok v" "elem v (inside_entry_idx loc) = Some c"
    "x = \<lparr>be_child = c, be_parent = \<lparr>be_child = v, be_parent = r\<rparr>\<rparr>"
    using assms(1) by (auto simp: generic_get_handle_def be_try_new_def ok_or_def split: option.splits)
  have "life_safe (\<lambda>e. keeps (be_parent e)) (\<lambda>e. frees (be_parent e)) (\<lambda>c. {c}) ps (returned loc2 at live x)"
    by (rule held_safe, rule returned_held) (use assms(3-6) assms(2) [OF x(1,2)] x(3) in simp_all)
  with x(3) show ?thesis by simp
qed

text \<open>
  which of the types declared \<open>StableDeref\<close> are. The reference wrappers keep their target when
  they are moved, and so do the handles of protected vectors if the ones they wrap do; \<open>BorrowExtender\<close> and
  \<open>SecretVecWrapper\<close> deref to a field of their own and do not. A child made of what such a parent derefs
  to is left behind by the constructor itself: its first use touches a freed cell, in \<open>SecretVecU8::from\<close>
  whenever the borrow of the library refers to the vector it was made from.
\<close>

theorem stable_deref_claims:
  assumes "stable_deref target" and "\<And>a v. a \<in> reaches (borrow a v)" and "at \<noteq> loc"
  shows "stable_deref to_ref_deref \<and> stable_deref to_mut_deref \<and> stable_deref indirect_ref_deref \<and>
    stable_deref indirect_mut_deref \<and> stable_deref (secret_box_ref_deref target) \<and>
    stable_deref (secret_item_ref_deref target) \<and> stable_deref (secret_item_mut_deref target) \<and>
    stable_deref (secret_vec_ref_deref target) \<and> stable_deref (secret_vec_mut_deref target) \<and>
    \<not> stable_deref (be_deref :: addr \<Rightarrow> ('t, 'u) borrow_extender \<Rightarrow> addr) \<and>
    \<not> stable_deref (secret_wrapper_deref :: addr \<Rightarrow> 'v list \<Rightarrow> addr) \<and>
    \<not> life_safe keeps frees reaches [Use_Child] (returned loc at live (secret_vec_u8_from borrow loc vec))"
proof -
  have "\<not> stable_deref (be_deref :: addr \<Rightarrow> ('t, 'u) borrow_extender \<Rightarrow> addr)"
    by (rule in_place_not_stable) (simp add: be_deref_def)
  moreover have "\<not> stable_deref (secret_wrapper_deref :: addr \<Rightarrow> 'v list \<Rightarrow> addr)"
    by (rule in_place_not_stable) (simp add: secret_wrapper_deref_def)
  moreover have "\<not> life_safe keeps frees reaches [Use_Child] (returned loc at live (secret_vec_u8_from borrow loc vec))"
    using assms(2) [of loc vec] assms(3)
    by (auto simp: returned_def allowed_def life_step_def secret_vec_u8_from_def secret_wrapper_deref_def be_new_def)
  moreover have "stable_deref (secret_box_ref_deref target)" "stable_deref (secret_item_ref_deref target)"
    "stable_deref (secret_item_mut_deref target)" "stable_deref (secret_vec_ref_deref target)"
    "stable_deref (secret_vec_mut_deref target)"
    using assms(1) by (simp_all add: stable_deref_def secret_box_ref_deref_def secret_item_ref_deref_def
        secret_item_mut_deref_def secret_vec_ref_deref_def secret_vec_mut_deref_def)
  ultimately show ?thesis
    using to_ref.stable_deref_axioms to_mut.stable_deref_axioms indirect_ref.stable_deref_axioms
      indirect_mut.stable_deref_axioms by simp
qed

section \<open>Examples\<close>

text \<open>A box at address 7 in a variable at 1: the struct is returned to 2, moved to 3, used and dropped.\<close>

theorem extender_memory_safe_witness:
  "life_safe (\<lambda>p. {p}) (\<lambda>p. {p}) (\<lambda>u. {u}) [Use_Child, Move_To 3, Elsewhere {9} {2}, Use_Child, Drop_Extender]
     (returned 1 2 {1, 7} (be_new (\<lambda>at p. p) 1 7)) \<and>
   snd (life_step (\<lambda>p. {p}) (\<lambda>u. {u}) Drop_Extender (returned 1 2 {1, 7} (be_new (\<lambda>at p. p) 1 7))) =
     \<lparr>ho_live = {}, ho_at = 2, ho_ext = None\<rparr>"
proof -
  have "life_safe (\<lambda>p. {p}) (\<lambda>p. {p}) (\<lambda>u. {u}) ps (returned 1 2 {1, 7} (be_new (\<lambda>at p. p) 1 7))" for ps :: "memory_op list"
    by (rule extender_memory_safe [where try_child = "\<lambda>at p. Ok p" and maybe_child = "\<lambda>at p. Some p", THEN conjunct1]) simp_all
  moreover have "snd (life_step (\<lambda>p. {p}) (\<lambda>u. {u}) Drop_Extender (returned 1 2 {1, 7} (be_new (\<lambda>at p. p) 1 7))) =
     \<lparr>ho_live = {}, ho_at = 2, ho_ext = None\<rparr>"
    by (auto simp: life_step_def extender_drop_def drop_child_def drop_parent_def returned_def be_new_def)
  ultimately show ?thesis by blast
qed

text \<open>An entry at 10 with its value at 20 and the third element of it at 22, read through a reference.\<close>

theorem generic_get_handle_safe_witness:
  "\<exists>x. generic_get_handle to_ref_deref (\<lambda>e. Ok (e + 10)) (\<lambda>v i. if i < 3 then Some (v + i) else None)
      \<lparr>entry_idx = 0, inside_entry_idx = 2\<rparr> 2 1 2 (Some (ToRef 10)) = (Ok x :: (_, unit array_error) result) \<and>
    life_safe (\<lambda>e. {10, 20, 21, 22}) (\<lambda>e. {}) (\<lambda>c. {c}) [Move_To 4, Use_Child, Drop_Extender]
      (returned 2 3 {1, 2, 10, 20, 21, 22} x)"
proof -
  let ?load = "\<lambda>e. Ok (e + 10) :: (addr, unit) result" and ?elem = "\<lambda>v i. if i < (3 :: nat) then Some (v + i) else None"
  obtain x where x: "generic_get_handle to_ref_deref ?load ?elem \<lparr>entry_idx = 0, inside_entry_idx = 2\<rparr> 2 1 2 (Some (ToRef 10)) = Ok x"
    by (simp add: generic_get_handle_def be_try_new_def ok_or_def)
  from generic_get_handle_safe [OF x, of "\<lambda>r. {10, 20, 21, 22}" "\<lambda>r. {}" "{1, 2, 10, 20, 21, 22}" 3 "[Move_To 4, Use_Child, Drop_Extender]"] x
  show ?thesis by (auto simp: to_ref_deref_def)
qed

theorem stable_deref_claims_witness:
  "\<not> stable_deref (be_deref :: addr \<Rightarrow> (to_ref, addr) borrow_extender \<Rightarrow> addr) \<and>
   \<not> life_safe (\<lambda>v. {}) (\<lambda>v. {}) (\<lambda>h. {h}) [Use_Child] (returned 1 2 {1} (secret_vec_u8_from (\<lambda>at v. at) 1 [5]))"
proof -
  have *: "P1 \<and> P2 \<and> P3 \<and> P4 \<and> P5 \<and> P6 \<and> P7 \<and> P8 \<and> P9 \<and> Q \<and> P10 \<and> R \<Longrightarrow> Q \<and> R"
    for P1 P2 P3 P4 P5 P6 P7 P8 P9 P10 Q R by simp
  show ?thesis by (rule *, rule stable_deref_claims [OF to_ref.stable_deref_axioms]) simp_all
qed

end
