(* ===== verification/Protected.thy ===== *)
theory Protected
  imports Async_Read
begin

text \<open>
  \<open>ProtectedAccess\<close> (\<open>src/utils/protected.rs\<close>): mutable access from behind a shared reference, through a
  mutex or through an unsafe cell. A handle is counted as long as it lives.
\<close>

section \<open>The two implementations\<close>

record 'v mutex =
  mx_val :: 'v
  mx_guards :: nat
  mx_poisoned :: bool

text \<open>\<open>lock().unwrap()\<close>: waits for the guard of somebody else, panics when one was dropped by a panic.\<close>

definition mutex_lock :: "'v mutex \<Rightarrow> (unit, unit) result poll \<times> 'v mutex" where
  "mutex_lock m =
     (if 0 < mx_guards m then (Pending, m)
      else if mx_poisoned m then (Ready Panic, m)
      else (Ready (Ok ()), m\<lparr>mx_guards := mx_guards m + 1\<rparr>))"

definition mutex_get_mut_unsafe :: "'v mutex \<Rightarrow> (unit, unit) result poll \<times> 'v mutex" where
  "mutex_get_mut_unsafe m = mutex_lock m"

definition mutex_get_unsafe :: "'v mutex \<Rightarrow> (unit, unit) result poll \<times> 'v mutex" where
  "mutex_get_unsafe m = mutex_lock m"

text \<open>With a mutable borrow of the mutex itself nothing is locked.\<close>

definition mutex_get_mut :: "('v \<Rightarrow> 'v) \<Rightarrow> 'v mutex \<Rightarrow> (unit, unit) result \<times> 'v mutex" where
  "mutex_get_mut f m = (if mx_poisoned m then (Panic, m) else (Ok (), m\<lparr>mx_val := f (mx_val m)\<rparr>))"

definition mutex_inner :: "'v mutex \<Rightarrow> ('v, unit) result" where
  "mutex_inner m = (if mx_poisoned m then Panic else Ok (mx_val m))"

definition mutex_wrap :: "'v \<Rightarrow> 'v mutex" where
  "mutex_wrap v = \<lparr>mx_val = v, mx_guards = 0, mx_poisoned = False\<rparr>"

text \<open>Dropping a guard, in a panic or not.\<close>

definition guard_drop :: "bool \<Rightarrow> 'v mutex \<Rightarrow> 'v mutex" where
  "guard_drop panicking m = m\<lparr>mx_guards := mx_guards m - 1, mx_poisoned := mx_poisoned m \<or> panicking\<rparr>"

definition guard_write :: "('v \<Rightarrow> 'v) \<Rightarrow> 'v mutex \<Rightarrow> 'v mutex" where
  "guard_write f m = m\<lparr>mx_val := f (mx_val m)\<rparr>"

record 'v unsafe_cell =
  uc_val :: 'v
  uc_muts :: nat
  uc_refs :: nat

definition cell_get_mut_unsafe :: "'v unsafe_cell \<Rightarrow> 'v unsafe_cell" where
  "cell_get_mut_unsafe c = c\<lparr>uc_muts := uc_muts c + 1\<rparr>"

definition cell_get_unsafe :: "'v unsafe_cell \<Rightarrow> 'v unsafe_cell" where
  "cell_get_unsafe c = c\<lparr>uc_refs := uc_refs c + 1\<rparr>"

definition cell_get_mut :: "('v \<Rightarrow> 'v) \<Rightarrow> 'v unsafe_cell \<Rightarrow> 'v unsafe_cell" where
  "cell_get_mut f c = c\<lparr>uc_val := f (uc_val c)\<rparr>"

definition cell_inner :: "'v unsafe_cell \<Rightarrow> 'v" where
  "cell_inner c = uc_val c"

definition cell_wrap :: "'v \<Rightarrow> 'v unsafe_cell" where
  "cell_wrap v = \<lparr>uc_val = v, uc_muts = 0, uc_refs = 0\<rparr>"

section \<open>Exclusive access\<close>

text \<open>What can happen to a mutex that is shared: two kinds of access, a write through a guard, the end of a guard.\<close>

datatype 'v access = Get_Mut | Get_Ref | Write "'v \<Rightarrow> 'v" | Release bool

fun mutex_step :: "'v access \<Rightarrow> 'v mutex \<Rightarrow> 'v mutex" where
  "mutex_step Get_Mut m = snd (mutex_get_mut_unsafe m)"
| "mutex_step Get_Ref m = snd (mutex_get_unsafe m)"
| "mutex_step (Write f) m = (if 0 < mx_guards m then guard_write f m else m)"
| "mutex_step (Release panicking) m = (if 0 < mx_guards m then guard_drop panicking m else m)"

fun cell_step :: "'v access \<Rightarrow> 'v unsafe_cell \<Rightarrow> 'v unsafe_cell" where
  "cell_step Get_Mut c = cell_get_mut_unsafe c"
| "cell_step Get_Ref c = cell_get_unsafe c"
| "cell_step (Write f) c = (if 0 < uc_muts c then cell_get_mut f c else c)"
| "cell_step (Release panicking) c = c\<lparr>uc_muts := uc_muts c - 1\<rparr>"

lemma mutex_run: "mx_guards m \<le> 1 \<Longrightarrow> mx_guards (fold mutex_step ps m) \<le> 1"
proof (induction ps arbitrary: m)
  case (Cons p ps)
  have "mx_guards (mutex_step p m) \<le> 1"
    using Cons.prems
    by (cases p) (auto simp: mutex_get_mut_unsafe_def mutex_get_unsafe_def mutex_lock_def guard_write_def guard_drop_def)
  from Cons.IH [OF this] show ?case by simp
qed simp

text \<open>
  whatever is done to a mutex, at most one handle is out, and one that is taken while another is out has
  to wait; after a panic under a guard every access panics, and so does \<open>inner\<close>. The unsafe cell never
  refuses: two mutable handles can be out at once, and its users have to see to it that they are not.
\<close>

theorem protected_exclusive:
  "mx_guards (fold mutex_step ps (mutex_wrap v)) \<le> 1 \<and>
   (\<exists>m. fold mutex_step [Get_Mut] (mutex_wrap v) = m \<and> fst (mutex_get_mut_unsafe m) = Pending \<and> fst (mutex_get_unsafe m) = Pending) \<and>
   (\<exists>m. fold mutex_step [Get_Mut, Write f, Release True] (mutex_wrap v) = m \<and> fst (mutex_get_unsafe m) = Ready Panic \<and>
      mutex_inner m = Panic) \<and>
   uc_muts (fold cell_step [Get_Mut, Get_Mut] (cell_wrap v)) = 2"
  using mutex_run [of "mutex_wrap v" ps]
  by (simp add: mutex_wrap_def mutex_get_mut_unsafe_def mutex_get_unsafe_def mutex_lock_def guard_write_def guard_drop_def
      mutex_inner_def cell_wrap_def cell_get_mut_unsafe_def)

end
