(* ===== verification/Cursor_Disk.thy ===== *)
theory Cursor_Disk
  imports Disks Async_Read
begin

text \<open>
  The disks in memory of \<open>src/test_utils.rs\<close>, over which the crate's own tests run: \<open>CursorVec\<close>, a mutex
  around a borrowed cursor, and \<open>OwnedCursorVec\<close>, which has a cursor of its own. The store is the heap of
  cursors; every lock is released at the end of its statement. Both keep the contract of the traits, so
  everything proved of a disk that does holds in the tests.
\<close>

section \<open>The disks\<close>

type_synonym cursors = "nat \<Rightarrow> cursor"

datatype cursor_vec = CursorVec (cv_inner: nat)
datatype owned_cursor_vec = OwnedCursorVec (ocv_inner: nat)

definition rewind :: "cursor \<Rightarrow> (unit, io_error) result \<times> cursor" where
  "rewind c = (case cursor_seek (Seek_Start 0) c of (r, c1) \<Rightarrow> (map_ok (\<lambda>_. ()) r, c1))"

text \<open>A read clones the cursor and rewinds the clone; what the reader then gives is what the clone holds.\<close>

definition cv_read_disk :: "cursor_vec \<Rightarrow> cursors \<Rightarrow> (bytes, io_error) result \<times> cursors" where
  "cv_read_disk d w = (case rewind (w (cv_inner d)) of (r, this) \<Rightarrow> (map_ok (\<lambda>_. cursor_fill_buf this) r, w))"

text \<open>A write clears and rewinds the cursor itself and lends it out.\<close>

definition cv_write_disk :: "cursor_vec \<Rightarrow> cursors \<Rightarrow> (nat, io_error) result \<times> cursors" where
  "cv_write_disk d w =
     (case rewind ((w (cv_inner d))\<lparr>cu_inner := []\<rparr>) of
        (r, c) \<Rightarrow> (map_ok (\<lambda>_. cv_inner d) r, w(cv_inner d := c)))"

text \<open>The asynchronous traits lend out the bytes below the cursor, which they rewind also for a read.\<close>

definition cv_async_read_disk :: "cursor_vec \<Rightarrow> cursors \<Rightarrow> (bytes, io_error) result \<times> cursors" where
  "cv_async_read_disk d w =
     (case rewind (w (cv_inner d)) of (r, c) \<Rightarrow> (map_ok (\<lambda>_. cu_inner c) r, w(cv_inner d := c)))"

definition cv_async_write_disk :: "cursor_vec \<Rightarrow> cursors \<Rightarrow> (nat, io_error) result \<times> cursors" where
  "cv_async_write_disk d w =
     (case rewind ((w (cv_inner d))\<lparr>cu_inner := []\<rparr>) of
        (r, c) \<Rightarrow> (map_ok (\<lambda>_. cv_inner d) r, w(cv_inner d := c)))"

text \<open>The implementations for \<open>&mut CursorVec\<close>.\<close>

definition cv_mut_read_disk :: "cursor_vec \<Rightarrow> cursors \<Rightarrow> (bytes, io_error) result \<times> cursors" where
  "cv_mut_read_disk d w = (case rewind (w (cv_inner d)) of (r, this) \<Rightarrow> (map_ok (\<lambda>_. cursor_fill_buf this) r, w))"

definition cv_mut_async_read_disk :: "cursor_vec \<Rightarrow> cursors \<Rightarrow> (bytes, io_error) result \<times> cursors" where
  "cv_mut_async_read_disk d w =
     (case rewind (w (cv_inner d)) of (r, c) \<Rightarrow> (map_ok (\<lambda>_. cu_inner c) r, w(cv_inner d := c)))"

definition ocv_read_disk :: "owned_cursor_vec \<Rightarrow> cursors \<Rightarrow> (bytes, io_error) result \<times> cursors" where
  "ocv_read_disk d w = (case rewind (w (ocv_inner d)) of (r, this) \<Rightarrow> (map_ok (\<lambda>_. cursor_fill_buf this) r, w))"

definition ocv_write_disk :: "owned_cursor_vec \<Rightarrow> cursors \<Rightarrow> (nat, io_error) result \<times> cursors" where
  "ocv_write_disk d w =
     (case rewind ((w (ocv_inner d))\<lparr>cu_inner := []\<rparr>) of
        (r, c) \<Rightarrow> (map_ok (\<lambda>_. ocv_inner d) r, w(ocv_inner d := c)))"

definition ocv_async_read_disk :: "owned_cursor_vec \<Rightarrow> cursors \<Rightarrow> (bytes, io_error) result \<times> cursors" where
  "ocv_async_read_disk d w =
     (case rewind (w (ocv_inner d)) of (r, c) \<Rightarrow> (map_ok (\<lambda>_. cu_inner c) r, w(ocv_inner d := c)))"

definition ocv_async_write_disk :: "owned_cursor_vec \<Rightarrow> cursors \<Rightarrow> (nat, io_error) result \<times> cursors" where
  "ocv_async_write_disk d w =
     (case rewind ((w (ocv_inner d))\<lparr>cu_inner := []\<rparr>) of
        (r, c) \<Rightarrow> (map_ok (\<lambda>_. ocv_inner d) r, w(ocv_inner d := c)))"

text \<open>\<open>new\<close> takes a cursor at an address; \<open>clone\<close> copies it to a new one; the default is the empty cursor.\<close>

definition ocv_new :: "nat \<Rightarrow> cursor \<Rightarrow> cursors \<Rightarrow> owned_cursor_vec \<times> cursors" where
  "ocv_new at c w = (OwnedCursorVec at, w(at := c))"

definition ocv_default :: "nat \<Rightarrow> cursors \<Rightarrow> owned_cursor_vec \<times> cursors" where
  "ocv_default at w = ocv_new at (cursor_from []) w"

definition ocv_clone :: "nat \<Rightarrow> owned_cursor_vec \<Rightarrow> cursors \<Rightarrow> owned_cursor_vec \<times> cursors" where
  "ocv_clone at d w = (OwnedCursorVec at, w(at := w (ocv_inner d)))"

text \<open>
  \<open>write_all\<close> on the two writers: the cursor itself, whose position moves, and the vector below it, which
  grows at its end. Nothing is buffered.
\<close>

definition cursor_write_all :: "nat \<Rightarrow> bytes \<Rightarrow> cursors \<Rightarrow> (unit, io_error) result \<times> nat \<times> cursors" where
  "cursor_write_all i b w =
     (if b = [] then (Ok (), i, w)
      else case cursor_write_vec b (w i) of (r, c) \<Rightarrow> (map_ok (\<lambda>_. ()) r, i, w(i := c)))"

definition vec_write_all :: "nat \<Rightarrow> bytes \<Rightarrow> cursors \<Rightarrow> (unit, io_error) result \<times> nat \<times> cursors" where
  "vec_write_all i b w = (Ok (), i, w(i := (w i)\<lparr>cu_inner := cu_inner (w i) @ b\<rparr>))"

definition cursor_disk :: "(cursor_vec, nat, cursors) disk_ops" where
  "cursor_disk = \<lparr>d_read = cv_read_disk, d_write = cv_write_disk, wr_write = cursor_write_all,
     wr_flush = (\<lambda>i w. (Ok (), i, w)), wr_drop = (\<lambda>i w. w)\<rparr>"

definition cursor_async_disk :: "(cursor_vec, nat, cursors) disk_ops" where
  "cursor_async_disk = \<lparr>d_read = cv_async_read_disk, d_write = cv_async_write_disk, wr_write = vec_write_all,
     wr_flush = (\<lambda>i w. (Ok (), i, w)), wr_drop = (\<lambda>i w. w)\<rparr>"

definition owned_disk :: "(owned_cursor_vec, nat, cursors) disk_ops" where
  "owned_disk = \<lparr>d_read = ocv_read_disk, d_write = ocv_write_disk, wr_write = cursor_write_all,
     wr_flush = (\<lambda>i w. (Ok (), i, w)), wr_drop = (\<lambda>i w. w)\<rparr>"

section \<open>The contract\<close>

lemma rewind_eq [simp]: "rewind c = (Ok (), c\<lparr>cu_pos := 0\<rparr>)"
  by (simp add: rewind_def cursor_seek_def)

lemma fill_buf_rewound [simp]: "cursor_fill_buf (c\<lparr>cu_pos := 0\<rparr>) = cu_inner c"
  by (simp add: cursor_fill_buf_def)

lemmas cursor_disk_defs = cursor_disk_def owned_disk_def cursor_async_disk_def cv_read_disk_def cv_write_disk_def
  cv_async_read_disk_def cv_async_write_disk_def ocv_read_disk_def ocv_write_disk_def ocv_async_read_disk_def
  ocv_async_write_disk_def

text \<open>A session through the cursor appends at its end.\<close>

lemma cursor_pieces:
  assumes "wr_write D = cursor_write_all" and "cu_pos (w i) = length (cu_inner (w i))"
  shows "write_pieces D i ps w =
    (Ok (), i, w(i := \<lparr>cu_inner = cu_inner (w i) @ concat ps, cu_pos = length (cu_inner (w i) @ concat ps)\<rparr>))"
  using assms(2)
proof (induction ps arbitrary: w)
  case Nil
  then have "w i = \<lparr>cu_inner = cu_inner (w i), cu_pos = length (cu_inner (w i))\<rparr>" by (cases "w i") simp
  then show ?case by (simp add: fun_upd_idem)
next
  case (Cons p ps)
  show ?case
  proof (cases "p = []")
    case False
    let ?w = "w(i := \<lparr>cu_inner = cu_inner (w i) @ p, cu_pos = length (cu_inner (w i) @ p)\<rparr>)"
    have "wr_write D i p w = (Ok (), i, ?w)"
      using False Cons.prems by (simp add: assms(1) cursor_write_all_def cursor_write_vec_def overwrite_def)
    moreover have "write_pieces D i ps ?w =
      (Ok (), i, ?w(i := \<lparr>cu_inner = cu_inner (?w i) @ concat ps, cu_pos = length (cu_inner (?w i) @ concat ps)\<rparr>))"
      by (rule Cons.IH) simp
    ultimately show ?thesis by simp (rule ext, simp)
  qed (use Cons in \<open>simp add: assms(1) cursor_write_all_def\<close>)
qed

lemma vec_pieces:
  "wr_write D = vec_write_all \<Longrightarrow>
    write_pieces D i ps w = (Ok (), i, w(i := (w i)\<lparr>cu_inner := cu_inner (w i) @ concat ps\<rparr>))"
  by (induction ps arbitrary: w) (simp_all add: vec_write_all_def)

lemma cursor_put:
  "put cursor_disk d ps ok w =
     (if ok then Ok () else Err Ser, w(cv_inner d := \<lparr>cu_inner = concat ps, cu_pos = length (concat ps)\<rparr>))"
  by (simp add: put_def serialize_flush_def cursor_disk_defs cursor_pieces)

lemma owned_put:
  "put owned_disk d ps ok w =
     (if ok then Ok () else Err Ser, w(ocv_inner d := \<lparr>cu_inner = concat ps, cu_pos = length (concat ps)\<rparr>))"
  by (simp add: put_def serialize_flush_def cursor_disk_defs cursor_pieces)

lemma cursor_async_put:
  "put cursor_async_disk d ps ok w =
     (if ok then Ok () else Err Ser, w(cv_inner d := \<lparr>cu_inner = concat ps, cu_pos = 0\<rparr>))"
  by (cases "w (cv_inner d)") (simp add: put_def serialize_flush_def cursor_disk_defs vec_pieces)

interpretation cursor: byte_disk cursor_disk cv_inner "\<lambda>d w. Some (cu_inner (w (cv_inner d)))" "\<lambda>_ _. True"
  by unfold_locales (auto simp: cursor_put split: if_splits, auto simp: cursor_disk_defs)

interpretation owned: byte_disk owned_disk ocv_inner "\<lambda>d w. Some (cu_inner (w (ocv_inner d)))" "\<lambda>_ _. True"
  by unfold_locales (auto simp: owned_put split: if_splits, auto simp: cursor_disk_defs)

text \<open>
  the disks of the tests are interchangeable: a write session through any of them leaves the same bytes
  below the cursor, and each of the reads gives them back; after an asynchronous session the cursor is at
  the start and not at the end. A clone of an owned disk has the bytes of the original and shares
  nothing with it, unlike the clone of a disk that names a file.
\<close>

theorem test_disks_interchangeable:
  assumes "put cursor_disk d ps True w = (r1, w1)" and "put cursor_async_disk d ps True w = (r2, w2)"
  shows "r1 = Ok () \<and> r2 = Ok () \<and> cu_inner (w1 (cv_inner d)) = cu_inner (w2 (cv_inner d)) \<and>
    cv_read_disk d w2 = (Ok (concat ps), w2) \<and> fst (cv_async_read_disk d w1) = Ok (concat ps) \<and>
    cv_mut_read_disk d w2 = (Ok (concat ps), w2) \<and> fst (cv_mut_async_read_disk d w1) = Ok (concat ps) \<and>
    cu_pos (w1 (cv_inner d)) = length (concat ps) \<and> cu_pos (w2 (cv_inner d)) = 0"
  using assms
  by (auto simp: cursor_put cursor_async_put cv_read_disk_def cv_async_read_disk_def cv_mut_read_disk_def
      cv_mut_async_read_disk_def)

lemma owned_clone_apart:
  assumes "ocv_clone at d w = (d', w1)" and "at \<noteq> ocv_inner d" and "put owned_disk d' ps ok w1 = (r, w2)"
  shows "ocv_read_disk d' w1 = (Ok (cu_inner (w (ocv_inner d))), w1) \<and>
    ocv_read_disk d w2 = (Ok (cu_inner (w (ocv_inner d))), w2)"
  using assms by (auto simp: ocv_clone_def owned_put ocv_read_disk_def)

lemma owned_async_same:
  "ocv_async_write_disk d w = ocv_write_disk d w" "fst (ocv_async_read_disk d w) = fst (ocv_read_disk d w)"
  by (simp_all add: cursor_disk_defs)

end
