(* ===== verification/Utf8_Text.thy ===== *)
theory Utf8_Text
  imports Container
begin

text \<open>
  The part of \<open>std::str\<close> the example programs use, on bytes: the check of \<open>from_utf8\<close>, \<open>rfind\<close> and the count
  of \<open>matches\<close>; and the loop of \<open>examples/shakespeare_secret.rs\<close> that replaces a word by a shorter one in
  place, in unsafe code that has to leave text behind.
\<close>

section \<open>Text\<close>

definition continuation :: "byte \<Rightarrow> bool" where
  "continuation b \<longleftrightarrow> 0x80 \<le> b \<and> b \<le> 0xBF"

text \<open>How many continuation bytes a first byte asks for, and what it asks of the first of them.\<close>

definition tail_len :: "byte \<Rightarrow> nat option" where
  "tail_len b =
     (if b < 0x80 then Some 0
      else if 0xC2 \<le> b \<and> b \<le> 0xDF then Some 1
      else if 0xE0 \<le> b \<and> b \<le> 0xEF then Some 2
      else if 0xF0 \<le> b \<and> b \<le> 0xF4 then Some 3
      else None)"

definition second_ok :: "byte \<Rightarrow> bytes \<Rightarrow> bool" where
  "second_ok b cs =
     (case cs of
        [] \<Rightarrow> True
      | c # _ \<Rightarrow> (b = 0xE0 \<longrightarrow> 0xA0 \<le> c) \<and> (b = 0xED \<longrightarrow> c \<le> 0x9F) \<and> (b = 0xF0 \<longrightarrow> 0x90 \<le> c) \<and> (b = 0xF4 \<longrightarrow> c \<le> 0x8F))"

fun utf8_valid :: "bytes \<Rightarrow> bool" where
  "utf8_valid [] = True"
| "utf8_valid (b # r) =
     (case tail_len b of
        None \<Rightarrow> False
      | Some n \<Rightarrow> n \<le> length r \<and> list_all continuation (take n r) \<and> second_ok b (take n r) \<and> utf8_valid (drop n r))"

text \<open>The last occurrence, and the number of occurrences counted from the left without overlap.\<close>

fun rfind :: "bytes \<Rightarrow> bytes \<Rightarrow> nat option" where
  "rfind pat [] = (if pat = [] then Some 0 else None)"
| "rfind pat (x # xs) =
     (case rfind pat xs of
        Some i \<Rightarrow> Some (Suc i)
      | None \<Rightarrow> if take (length pat) (x # xs) = pat then Some 0 else None)"

fun count_matches :: "bytes \<Rightarrow> bytes \<Rightarrow> nat" where
  "count_matches pat [] = 0"
| "count_matches pat (x # xs) =
     (if take (length pat) (x # xs) = pat then Suc (count_matches pat (drop (length pat - 1) xs)) else count_matches pat xs)"

section \<open>The loop\<close>

definition thou :: bytes where "thou = [0x74, 0x68, 0x6F, 0x75]"
definition you :: bytes where "you = [0x79, 0x6F, 0x75]"

text \<open>\<open>var[i] = var[i + 1]\<close> and \<open>var[i] = b'0'\<close> for the indices of a range.\<close>

fun shift_left :: "nat list \<Rightarrow> bytes \<Rightarrow> (bytes, unit) result" where
  "shift_left [] v = Ok v"
| "shift_left (i # is) v =
     res_bind (index v (i + 1)) (\<lambda>b. res_bind (index v i) (\<lambda>_. shift_left is (v[i := b])))"

fun zero_out :: "nat list \<Rightarrow> bytes \<Rightarrow> (bytes, unit) result" where
  "zero_out [] v = Ok v"
| "zero_out (i # is) v = res_bind (index v i) (\<lambda>_. zero_out is (v[i := 0x30]))"

definition thou_step :: "nat \<Rightarrow> bytes \<Rightarrow> (bytes, unit) result" where
  "thou_step idx v =
     res_bind (copy_range idx (idx + length you) you v) (\<lambda>v1.
     res_bind (usub (length thou) (length you)) (\<lambda>d.
     res_bind (usub (length v1) d) (\<lambda>last.
     res_bind (shift_left [idx + length you..<last] v1) (\<lambda>v2.
       zero_out [last..<length v2] v2))))"

section \<open>Lemmas on occurrences\<close>

text \<open>A word that starts with a byte that cannot continue a pattern is never cut by an occurrence.\<close>

definition apart :: "bytes \<Rightarrow> bytes \<Rightarrow> bool" where
  "apart pat w \<longleftrightarrow> w \<noteq> [] \<and> hd w \<notin> set (tl pat)"

lemma apart_whole:
  assumes "apart pat w" and "take (length pat) (x # p @ w @ q) = pat"
  shows "length pat \<le> Suc (length p)"
proof (rule ccontr)
  assume "\<not> ?thesis"
  then have l: "Suc (length p) < length pat" by simp
  then have "pat ! Suc (length p) = (x # p @ w @ q) ! Suc (length p)"
    using assms(2) by (metis nth_take)
  also have "\<dots> = hd w" using assms(1) by (simp add: nth_append hd_conv_nth apart_def)
  finally have "tl pat ! length p = hd w" using l by (simp add: nth_tl)
  then have "hd w \<in> set (tl pat)" using l by (metis Suc_less_eq length_tl nth_mem Suc_pred' diff_Suc_1 less_diff_conv Suc_eq_plus1)
  with assms(1) show False by (simp add: apart_def)
qed

lemma apart_take:
  assumes "apart pat w"
  shows "take (length pat) (x # p @ w @ q) = pat \<longleftrightarrow> take (length pat) (x # p) = pat"
proof
  assume *: "take (length pat) (x # p @ w @ q) = pat"
  with apart_whole [OF assms *] show "take (length pat) (x # p) = pat"
    by (metis append_Cons append_take_drop_id diff_is_0_eq length_Cons take0 take_append append_Nil2)
next
  assume *: "take (length pat) (x # p) = pat"
  then have "length pat \<le> length (x # p)" by (metis length_take min.cobounded1 min_def nle_le)
  with * show "take (length pat) (x # p @ w @ q) = pat" by (metis append_Cons take_append append_Nil2 diff_is_0_eq take0)
qed

lemma count_matches_append:
  assumes "apart pat w" and "pat \<noteq> []"
  shows "count_matches pat (p @ w @ q) = count_matches pat p + count_matches pat (w @ q)"
  using assms
proof (induction pat p rule: count_matches.induct)
  case (2 pat x p)
  show ?case
  proof (cases "take (length pat) (x # p) = pat")
    case True
    then have "length pat \<le> Suc (length p)" by (metis length_Cons length_take min.cobounded1 min_def nle_le)
    then have "drop (length pat - 1) (p @ w @ q) = drop (length pat - 1) p @ w @ q" by simp
    with True 2 apart_take [OF 2(3), of x p q] show ?thesis by simp
  next
    case False
    with 2 apart_take [OF 2(3), of x p q] show ?thesis by simp
  qed
qed simp

lemma rfind_split:
  "rfind pat xs = Some i \<Longrightarrow> pat \<noteq> [] \<Longrightarrow> \<exists>p q. xs = p @ pat @ q \<and> length p = i \<and> rfind pat (tl pat @ q) = None"
proof (induction xs arbitrary: i)
  case (Cons x xs)
  show ?case
  proof (cases "rfind pat xs")
    case (Some j)
    with Cons.IH [OF Some Cons.prems(2)] Cons.prems(1) obtain p q where
      "xs = p @ pat @ q" "length p = j" "rfind pat (tl pat @ q) = None" by auto
    with Some Cons.prems(1) show ?thesis by (intro exI [of _ "x # p"] exI [of _ q]) simp
  next
    case None
    with Cons.prems(1) have t: "take (length pat) (x # xs) = pat" "i = 0" by (auto split: if_splits)
    obtain y ys where "pat = y # ys" using Cons.prems(2) by (cases pat) auto
    with t have "x # xs = pat @ drop (length ys) xs" "xs = tl pat @ drop (length ys) xs"
      by (auto simp: append_take_drop_id) (metis append_take_drop_id)+
    with None t(2) show ?thesis by (intro exI [of _ "[]"] exI [of _ "drop (length ys) xs"]) simp
  qed
qed auto

lemma rfind_None_tl: "rfind pat (x # xs) = None \<Longrightarrow> rfind pat xs = None"
  by (auto split: option.splits)

lemma rfind_None_append: "rfind pat (p @ q) = None \<Longrightarrow> rfind pat q = None"
  by (induction p) (auto dest: rfind_None_tl simp del: rfind.simps(2))

lemma rfind_None_snoc:
  assumes "z \<notin> set pat" and "pat \<noteq> []"
  shows "rfind pat q = None \<Longrightarrow> rfind pat (q @ [z]) = None"
proof (induction q)
  case Nil
  have "take (length pat) [z] \<noteq> pat" using assms by (cases pat) auto
  with assms(2) show ?case by simp
next
  case (Cons x q)
  have "take (length pat) (x # q @ [z]) \<noteq> pat"
  proof
    assume *: "take (length pat) (x # q @ [z]) = pat"
    have "apart pat [z]" using assms by (cases pat) (auto simp: apart_def)
    from apart_take [OF this, of x q "[]"] * Cons.prems show False by (simp split: option.splits)
  qed
  with Cons rfind_None_tl [OF Cons.prems] show ?case by simp
qed

lemma count_matches_None: "rfind pat xs = None \<Longrightarrow> count_matches pat xs = 0"
  by (induction xs) (auto split: option.splits)

section \<open>The text stays text\<close>

lemma utf8_valid_append: "utf8_valid p \<Longrightarrow> utf8_valid q \<Longrightarrow> utf8_valid (p @ q)"
  by (induction p rule: utf8_valid.induct) (auto split: option.splits)

lemma utf8_valid_split:
  assumes "\<not> continuation a" and "tail_len a = Some 0"
  shows "utf8_valid (p @ a # q) \<Longrightarrow> utf8_valid p \<and> utf8_valid q"
proof (induction p rule: utf8_valid.induct)
  case (2 b r)
  then obtain n where n: "tail_len b = Some n" "n \<le> length (r @ a # q)"
    "list_all continuation (take n (r @ a # q))" "second_ok b (take n (r @ a # q))" "utf8_valid (drop n (r @ a # q))"
    by (auto split: option.splits)
  have l: "n \<le> length r"
  proof (rule ccontr)
    assume "\<not> n \<le> length r"
    then have "a \<in> set (take n (r @ a # q))" by (cases "n - length r") auto
    with n(3) assms(1) show False by (auto simp: list_all_iff)
  qed
  with n 2(1) [OF n(1)] show ?case by simp
qed (use assms in auto)

text \<open>An ASCII byte is a character of its own, so a word of them can be cut out and others put in.\<close>

lemma ascii_byte: "a < 0x80 \<Longrightarrow> \<not> continuation a \<and> tail_len a = Some 0"
  by (auto simp: continuation_def tail_len_def)

lemma utf8_valid_cut:
  assumes "\<forall>a\<in>set w. a < 0x80" and "w \<noteq> []"
  shows "utf8_valid (p @ w @ q) \<longleftrightarrow> utf8_valid p \<and> utf8_valid q"
proof
  have A: "utf8_valid w" using assms(1) by (induction w) (auto simp: ascii_byte second_ok_def)
  show "utf8_valid p \<and> utf8_valid q \<Longrightarrow> utf8_valid (p @ w @ q)"
    using A by (simp add: utf8_valid_append)
  have B: "\<forall>a\<in>set w. a < 0x80 \<Longrightarrow> utf8_valid (w @ q) \<Longrightarrow> utf8_valid q"
    by (induction w) (auto simp: ascii_byte)
  obtain a w' where w: "w = a # w'" using assms(2) by (cases w) auto
  assume "utf8_valid (p @ w @ q)"
  with utf8_valid_split [of a p "w' @ q"] ascii_byte [of a] assms(1) w have "utf8_valid p" "utf8_valid (w' @ q)" by auto
  moreover from this(2) have "utf8_valid (w @ q)" using w assms(1) by (simp add: ascii_byte second_ok_def)
  ultimately show "utf8_valid p \<and> utf8_valid q" using B assms(1) by simp
qed

section \<open>What the loop does\<close>

lemma shift_left_range:
  "shift_left [length a..<length a + length b] (a @ x # b) = Ok (a @ b @ [last (x # b)])"
proof (induction b arbitrary: a x)
  case (Cons y b)
  have I: "shift_left [length (a @ [y])..<length (a @ [y]) + length b] ((a @ [y]) @ y # b) = Ok ((a @ [y]) @ b @ [last (y # b)])"
    by (rule Cons.IH)
  have "[length a..<length a + length (y # b)] = length a # [Suc (length a)..<Suc (length a + length b)]"
    by (simp add: upt_conv_Cons del: upt_Suc)
  with I show ?case by (simp add: index_def nth_append)
qed simp

lemma thou_step_eq: "thou_step (length p) (p @ thou @ q) = Ok (p @ you @ q @ [0x30])"
proof -
  let ?l = "length p + length you" and ?v1 = "p @ you @ 0x75 # q" and ?v2 = "(p @ you @ q) @ [last (0x75 # q)]"
  have A: "copy_range (length p) ?l you (p @ thou @ q) = Ok ?v1"
    by (simp add: copy_range_def thou_def you_def)
  have B: "usub (length thou) (length you) = Ok 1" by (simp add: usub_def thou_def you_def)
  have C: "usub (length ?v1) 1 = Ok (?l + length q)" by (simp add: usub_def)
  have D: "shift_left [?l..<?l + length q] ?v1 = Ok ?v2"
    using shift_left_range [of "p @ you" q "0x75"] by simp
  have "zero_out [length r..<length (r @ [z])] (r @ [z]) = Ok (r @ [0x30])" for r z by (simp add: index_def)
  from this [of "p @ you @ q" "last (0x75 # q)"]
  have E: "zero_out [?l + length q..<length ?v2] ?v2 = Ok ((p @ you @ q) @ [0x30])" by (simp add: add.assoc)
  show ?thesis unfolding thou_step_def A res_bind.simps B C D E by simp
qed

lemma thou_found:
  assumes "rfind thou v = Some i"
  obtains p q where "v = p @ thou @ q" "length p = i" "rfind thou q = None" "thou_step i v = Ok (p @ you @ q @ [0x30])"
proof -
  have "thou \<noteq> []" by (simp add: thou_def)
  from rfind_split [OF assms this] obtain p q where "v = p @ thou @ q" "length p = i" "rfind thou (tl thou @ q) = None"
    by blast
  then show thesis using thou_step_eq [of p q] rfind_None_append [of thou "tl thou" q] by (intro that [of p q]) simp_all
qed

text \<open>The loop: every round takes one \<open>t\<close> away, so it ends.\<close>

function replace_thou :: "bytes \<Rightarrow> (bytes, unit) result" where
  "replace_thou v =
     (case rfind thou v of
        None \<Rightarrow> Ok v
      | Some idx \<Rightarrow>
          (case thou_step idx v of
             Ok v1 \<Rightarrow> replace_thou v1
           | Err x \<Rightarrow> Err x
           | Panic \<Rightarrow> Panic))"
  by pat_completeness auto
termination
proof (relation "measure (\<lambda>v. count_list v 0x74)")
  fix v idx v1
  assume "rfind thou v = Some idx" "thou_step idx v = Ok v1"
  then show "(v1, v) \<in> measure (\<lambda>v. count_list v 0x74)"
    by (elim thou_found) (simp add: thou_def you_def)
qed simp

declare replace_thou.simps [simp del]

text \<open>The reference: the text with every occurrence from the left replaced.\<close>

fun replaced :: "bytes \<Rightarrow> bytes" where
  "replaced [] = []"
| "replaced (x # xs) = (if take (length thou) (x # xs) = thou then you @ replaced (drop (length thou - 1) xs) else x # replaced xs)"

lemma words_apart: "apart thou thou" "apart thou you" "apart you thou" "apart you you" "apart thou [0x30]" "apart you [0x30]"
  by (simp_all add: apart_def thou_def you_def)

lemma replaced_append:
  assumes "apart thou w"
  shows "replaced (p @ w @ q) = replaced p @ replaced (w @ q)"
proof (induction p rule: replaced.induct)
  case (2 x p)
  show ?case
  proof (cases "take (length thou) (x # p) = thou")
    case True
    then have "length thou \<le> Suc (length p)" by (metis length_Cons length_take min.cobounded1 min_def nle_le)
    then have "drop (length thou - 1) (p @ w @ q) = drop (length thou - 1) p @ w @ q" by simp
    with True 2 apart_take [OF assms, of x p q] show ?thesis by simp
  next
    case False
    with 2 apart_take [OF assms, of x p q] show ?thesis by simp
  qed
qed simp

lemma replaced_None: "rfind thou xs = None \<Longrightarrow> replaced xs = xs"
  by (induction xs) (auto split: option.splits)

lemma replaced_thou [simp]: "replaced (thou @ q) = you @ replaced q"
  by (simp add: thou_def)

lemma replaced_you [simp]: "replaced (you @ q) = you @ replaced q"
  by (simp add: thou_def you_def)

lemma counts_at_words [simp]:
  "count_matches you (thou @ q) = count_matches you q" "count_matches you (you @ q) = Suc (count_matches you q)"
  "count_matches thou (thou @ q) = Suc (count_matches thou q)" "count_matches thou (you @ q) = count_matches thou q"
  by (simp_all add: thou_def you_def)

text \<open>One round, seen from the reference.\<close>

lemma round_replaced:
  assumes "rfind thou q = None"
  shows "replaced (p @ you @ q @ [0x30]) = replaced (p @ thou @ q) @ [0x30]"
    and "length (replaced (p @ thou @ q)) = length (replaced p) + length you + length q"
proof -
  have "rfind thou (q @ [0x30]) = None" using assms by (rule rfind_None_snoc [rotated 2]) (simp_all add: thou_def)
  then show "replaced (p @ you @ q @ [0x30]) = replaced (p @ thou @ q) @ [0x30]"
    using replaced_append [OF words_apart(2), of p "q @ [0x30]"] replaced_append [OF words_apart(1), of p q]
    by (simp add: replaced_None assms)
  show "length (replaced (p @ thou @ q)) = length (replaced p) + length you + length q"
    using replaced_append [OF words_apart(1), of p q] by (simp add: replaced_None assms)
qed

lemma count_snoc: "apart pat [z] \<Longrightarrow> pat \<noteq> [] \<Longrightarrow> pat \<noteq> [z] \<Longrightarrow> count_matches pat (q @ [z]) = count_matches pat q"
  using count_matches_append [of pat "[z]" q "[]"] by (auto simp: take_Cons' split: if_splits)

lemma round_counts:
  "count_matches you (p @ you @ q @ [0x30]) = Suc (count_matches you (p @ thou @ q))"
  "count_matches thou (p @ thou @ q) = Suc (count_matches thou (p @ you @ q @ [0x30]))"
proof -
  have ne: "thou \<noteq> []" "you \<noteq> []" "thou \<noteq> [0x30]" "you \<noteq> [0x30]" by (simp_all add: thou_def you_def)
  note c = count_matches_append count_snoc [OF words_apart(5) ne(1,3)] count_snoc [OF words_apart(6) ne(2,4)]
  show "count_matches you (p @ you @ q @ [0x30]) = Suc (count_matches you (p @ thou @ q))"
    using count_matches_append [OF words_apart(4) ne(2), of p "q @ [0x30]"] count_matches_append [OF words_apart(3) ne(2), of p q] c
    by simp
  show "count_matches thou (p @ thou @ q) = Suc (count_matches thou (p @ you @ q @ [0x30]))"
    using count_matches_append [OF words_apart(2) ne(1), of p "q @ [0x30]"] count_matches_append [OF words_apart(1) ne(1), of p q] c
    by simp
qed

lemma length_replaced: "length (replaced v) \<le> length v"
proof (induction v rule: replaced.induct)
  case (2 x xs)
  then show ?case
  proof (cases "take (length thou) (x # xs) = thou")
    case True
    then have "length thou \<le> Suc (length xs)" by (metis length_Cons length_take min.cobounded1 min_def nle_le)
    with True 2(1) show ?thesis by (simp add: thou_def you_def)
  qed simp
qed simp

text \<open>
  the loop of the example ends without a panic, with every occurrence of the longer word replaced by
  the shorter one, the bytes after it moved up and zeros (the digit) at the end, so that the length is
  kept; what was valid UTF-8 still is, which the unsafe block has to see to; and the shorter word occurs
  as often as both did before.
\<close>

theorem replace_thou_correct:
  "replace_thou v = Ok (replaced v @ replicate (length v - length (replaced v)) 0x30) \<and>
   (utf8_valid v \<longrightarrow> utf8_valid (replaced v @ replicate (length v - length (replaced v)) 0x30)) \<and>
   count_matches you (replaced v @ replicate (length v - length (replaced v)) 0x30) = count_matches you v + count_matches thou v"
proof (induction v rule: replace_thou.induct)
  case (1 v)
  show ?case
  proof (cases "rfind thou v")
    case None
    then show ?thesis by (simp add: replace_thou.simps [of v] replaced_None count_matches_None)
  next
    case (Some i)
    then obtain p q where v: "v = p @ thou @ q" "rfind thou q = None" "thou_step i v = Ok (p @ you @ q @ [0x30])"
      by (elim thou_found)
    let ?v1 = "p @ you @ q @ [0x30]"
    have len: "length v - length (replaced v) = Suc (length ?v1 - length (replaced ?v1))"
      using round_replaced [OF v(2), of p] length_replaced [of p] v(1) by (simp add: thou_def you_def)
    have rep: "replaced ?v1 @ replicate (length ?v1 - length (replaced ?v1)) 0x30 =
        replaced v @ replicate (length v - length (replaced v)) 0x30"
      unfolding len by (simp add: round_replaced(1) [OF v(2)] v(1))
    have "utf8_valid v \<Longrightarrow> utf8_valid ?v1"
      using utf8_valid_cut [of thou p q] utf8_valid_cut [of you p "q @ [0x30]"] utf8_valid_cut [of "[0x30]" q "[]"]
      by (simp add: v(1)) (simp add: thou_def you_def)
    moreover have "replace_thou v = replace_thou ?v1"
      by (simp add: replace_thou.simps [of v] Some v(3))
    moreover note 1 [OF Some v(3)] round_counts [of p q]
    ultimately show ?thesis unfolding rep v(1) by simp
  qed
qed

end
