(* ===== verification/Shakespeare.thy ===== *)
theory Shakespeare
  imports Array_Chunks Directory_Array Encrypted Utf8_Text
begin

text \<open>
  The program of \<open>examples/shakespeare_secret.rs\<close>: the lines of a text go into a directory array of
  protected vectors, are counted, rewritten in place through the handles of \<open>chunk_mut_iter\<close>, flushed and
  counted again. It composes the directory, the entries and their handles with a piece of unsafe code.
\<close>

section \<open>The program\<close>

text \<open>The path conversions of an encrypted file: each new disk has its own random key and nonce.\<close>

definition secret_paths :: "(path \<Rightarrow> bytes \<times> bytes) \<Rightarrow> (plainfile encrypted, 'x) path_disk" where
  "secret_paths rnd =
     \<lparr>pd_from = (\<lambda>p. Ok (case rnd p of (key, nonce) \<Rightarrow> encrypted_from_path key nonce p)),
      pd_path = encrypted_into_path pf_path\<rparr>"

text \<open>\<open>append_memory(work).unwrap()\<close> of every line, under the names drawn for them.\<close>

fun append_lines ::
  "('c, bytes, 'e) coder_ops \<Rightarrow> ('d, 'wr, fs) disk_ops \<Rightarrow> ('d, 'x) path_disk \<Rightarrow> 'c \<Rightarrow> (string \<times> bytes) list \<Rightarrow>
   (nat list, byte, 'd, 'c) dir_array \<Rightarrow> fs \<Rightarrow> (unit, unit) result \<times> (nat list, byte, 'd, 'c) dir_array \<times> fs" where
  "append_lines C D P c [] a s = (Ok (), a, s)"
| "append_lines C D P c ((uuid, work) # works) a s =
     (case dir_append_memory (secret_ops 0) C D P c uuid work a s of
        (Ok _, a1, s1) \<Rightarrow> append_lines C D P c works a1 s1
      | (_, a1, s1) \<Rightarrow> (Panic, a1, s1))"

text \<open>The sum over the chunks, of \<open>from_utf8(..).unwrap().matches("you").count()\<close>.\<close>

fun count_all :: "bytes \<Rightarrow> (bytes, 'e) result list \<Rightarrow> (nat, unit) result" where
  "count_all pat [] = Ok 0"
| "count_all pat (r # rs) =
     (case r of
        Ok v \<Rightarrow> if utf8_valid v then map_ok (\<lambda>n. count_matches pat v + n) (count_all pat rs) else Panic
      | _ \<Rightarrow> Panic)"

definition modernise :: "bytes \<Rightarrow> (bytes, unit) result" where
  "modernise v = (if utf8_valid v then replace_thou v else Panic)"

text \<open>\<open>chunk_mut_iter().for_each\<close>: each handle is opened, written through, flushed and dropped.\<close>

fun modernise_chunks ::
  "('c, bytes, 'e) coder_ops \<Rightarrow> ('d, 'wr, fs) disk_ops \<Rightarrow> (bytes, 'd, 'c) backed_entry list \<Rightarrow> fs \<Rightarrow>
     (unit, unit) result \<times> (bytes, 'd, 'c) backed_entry list \<times> fs" where
  "modernise_chunks C D [] s = (Ok (), [], s)"
| "modernise_chunks C D (e # es) s =
     (case mut_handle C D e s of
        (Ok x, e1, s1) \<Rightarrow>
          (case res_bind (mut_deref x) modernise of
             Ok v \<Rightarrow>
               (case (mut_deref_mut (\<lambda>_. v) x :: (unit, unit) result \<times> (bytes, 'd, 'c) entry_mut) of
                  (Ok _, x1) \<Rightarrow>
                    (case mut_flush C D x1 s1 of
                       (Ok _, x2, s2) \<Rightarrow>
                         (case mut_drop C D x2 s2 of
                            (Ok _, e2, s3) \<Rightarrow>
                              (case modernise_chunks C D es s3 of (r, es2, s4) \<Rightarrow> (r, e2 # es2, s4))
                          | (_, e2, s3) \<Rightarrow> (Panic, e2 # es, s3))
                     | (_, x2, s2) \<Rightarrow> (Panic, mh_entry x2 # es, s2))
                | (_, x1) \<Rightarrow> (Panic, mh_entry x1 # es, s1))
           | _ \<Rightarrow> (Panic, e1 # es, s1))
      | (_, e1, s1) \<Rightarrow> (Panic, e1 # es, s1))"

text \<open>The two numbers the program prints, and the array as it is before it is dropped.\<close>

definition shakespeare ::
  "('c, bytes, 'e) coder_ops \<Rightarrow> ('d, 'wr, fs) disk_ops \<Rightarrow> ('d, 'x) path_disk \<Rightarrow> 'c \<Rightarrow> (string \<times> bytes) list \<Rightarrow> path \<Rightarrow> fs \<Rightarrow>
     (nat \<times> nat \<times> (nat list, byte, 'd, 'c) dir_array, unit) result \<times> fs" where
  "shakespeare C D P c works dir s =
     (case dir_new (secret_ops 0) dir s of
        (Ok a, s1) \<Rightarrow>
          (case append_lines C D P c works a s1 of
             (Ok _, a1, s2) \<Rightarrow>
               (case chunk_iter C D (da_array a1) s2 of
                  (rs, b1, s3) \<Rightarrow>
                    (case count_all you rs of
                       Ok num_you \<Rightarrow>
                         (case modernise_chunks C D (entries b1) s3 of
                            (Ok _, es, s4) \<Rightarrow>
                              (case chunk_iter C D (b1\<lparr>entries := es\<rparr>) s4 of
                                 (rs2, b2, s5) \<Rightarrow>
                                   (map_ok (\<lambda>num_you2. (num_you, num_you2, a1\<lparr>da_array := b2\<rparr>)) (count_all you rs2), s5))
                          | (_, es, s4) \<Rightarrow> (Panic, s4))
                     | _ \<Rightarrow> (Panic, s3)))
           | (_, a1, s2) \<Rightarrow> (Panic, s2))
      | (_, s1) \<Rightarrow> (Panic, s1))"

section \<open>What the parts do\<close>

definition modern :: "bytes \<Rightarrow> bytes" where
  "modern v = replaced v @ replicate (length v - length (replaced v)) 0x30"

lemma modernise_eq: "modernise v = (if utf8_valid v then Ok (modern v) else Panic)"
  using replace_thou_correct [of v] by (simp add: modernise_def modern_def)

lemma modern_facts:
  "length (modern v) = length v" "utf8_valid v \<Longrightarrow> utf8_valid (modern v)"
  "count_matches you (modern v) = count_matches you v + count_matches thou v"
  using replace_thou_correct [of v] length_replaced [of v] by (simp_all add: modern_def)

lemma load_in_memory: "entry_value e = Some v \<Longrightarrow> entry_load C D e s = (Ok v, e, s)"
  by (simp add: entry_load_def oc_get_def)

lemma chunk_iter_loaded:
  "map entry_value es = map Some vs \<Longrightarrow> chunk_iter_from C D es s = (map Ok vs, es, s)"
proof (induction vs arbitrary: es)
  case (Cons v vs)
  then obtain e es' where "es = e # es'" "entry_value e = Some v" "map entry_value es' = map Some vs" by auto
  with Cons.IH [of es'] show ?case by (simp add: load_in_memory)
qed simp

lemma count_all_ok:
  "\<forall>x\<in>set xs. utf8_valid (f x) \<Longrightarrow> count_all pat (map (\<lambda>x. Ok (f x)) xs) = Ok (\<Sum>x\<leftarrow>xs. count_matches pat (f x))"
  by (induction xs) simp_all

lemma append_lines_loaded:
  "append_lines C D P c works a s = (Ok u, a', s') \<Longrightarrow>
    map entry_value (entries (da_array a')) = map entry_value (entries (da_array a)) @ map (\<lambda>w. Some (snd w)) works \<and>
    (\<forall>e\<in>set (entries (da_array a')). e \<in> set (entries (da_array a)) \<or> entry_coder e = c)"
proof (induction works arbitrary: a s)
  case (Cons w works)
  obtain uuid work where w: "w = (uuid, work)" by fastforce
  obtain a1 s1 where A: "dir_append_memory (secret_ops 0) C D P c uuid work a s = (Ok (), a1, s1)"
    "append_lines C D P c works a1 s1 = (Ok u, a', s')"
    using Cons.prems by (auto simp: w split: prod.splits result.splits)
  have "\<exists>d. entries (da_array a1) = entries (da_array a) @ [\<lparr>entry_value = Some work, entry_disk = d, entry_coder = c\<rparr>]"
    using A(1)
    by (auto simp: dir_append_memory_def array_append_memory_def entry_write_def entry_new_def oc_set_def oc_new_def push_range_def
        Let_def expect_def split: prod.splits result.splits)
  then obtain d where "entries (da_array a1) = entries (da_array a) @ [\<lparr>entry_value = Some work, entry_disk = d, entry_coder = c\<rparr>]" ..
  with Cons.IH [OF A(2)] w show ?case by fastforce
qed simp

lemma append_lines_returns:
  assumes "\<And>d v s. \<exists>s'. write_value C D c d v s = (Ok (), s')" and "\<And>p. \<exists>d. pd_from P p = Ok d"
  shows "\<exists>a' s'. append_lines C D P c works a s = (Ok (), a', s')"
proof (induction works arbitrary: a s)
  case (Cons w works)
  obtain uuid work where w: "w = (uuid, work)" by fastforce
  obtain d where d: "next_target P uuid a = Ok d" using assms(2) by (auto simp: next_target_def)
  obtain s1 where W: "write_value C D c d work s = (Ok (), s1)" using assms(1) by blast
  have "\<exists>a1. dir_append_memory (secret_ops 0) C D P c uuid work a s = (Ok (), a1, s1)"
    using d W by (simp add: dir_append_memory_def array_append_memory_def entry_write_def entry_new_def push_range_def Let_def
        expect_def secret_ops_def secret_push)
  with Cons.IH show ?case by (auto simp: w)
qed simp

text \<open>One handle: what is written through it is in memory, and on the disk if the write succeeds.\<close>

lemma modernise_chunks_step:
  assumes "entry_value e = Some v"
  shows "modernise_chunks C D (e # es) s =
    (if utf8_valid v then
       (case write_value C D (entry_coder e) (entry_disk e) (modern v) s of
          (Ok _, s1) \<Rightarrow>
            (case modernise_chunks C D es s1 of (r, es2, s4) \<Rightarrow> (r, e\<lparr>entry_value := Some (modern v)\<rparr> # es2, s4))
        | (_, s1) \<Rightarrow> (Panic, e\<lparr>entry_value := Some (modern v)\<rparr> # es, s1))
     else (Panic, e # es, s))"
proof -
  obtain q s1 where W: "write_value C D (entry_coder e) (entry_disk e) (modern v) s = (q, s1)" by fastforce
  have "mut_handle C D e s = (Ok \<lparr>mh_entry = e, mh_modified = False\<rparr>, e, s)"
    by (simp add: mut_handle_def load_in_memory [OF assms])
  then show ?thesis
    using W by (cases q) (simp_all add: assms mut_deref_def oc_get_def unwrap_opt_def modernise_eq mut_deref_mut_def mut_flush_def
        mut_drop_def entry_update_def)
qed

lemma modernise_chunks_loaded:
  assumes "modernise_chunks C D es s = (Ok u, es', s')" and "map entry_value es = map Some vs"
  shows "map entry_value es' = map (\<lambda>v. Some (modern v)) vs \<and> (\<forall>v\<in>set vs. utf8_valid v)"
  using assms
proof (induction vs arbitrary: es es' s)
  case (Cons v vs)
  then obtain e es1 where e: "es = e # es1" "entry_value e = Some v" "map entry_value es1 = map Some vs" by auto
  from Cons.prems(1) obtain es2 s3 where R: "utf8_valid v" "modernise_chunks C D es1 s3 = (Ok u, es2, s')"
    "es' = e\<lparr>entry_value := Some (modern v)\<rparr> # es2"
    unfolding e(1) modernise_chunks_step [OF e(2)] by (auto split: prod.splits result.splits if_splits)
  from Cons.IH [OF R(2) e(3)] R(1,3) show ?case by simp
qed auto

lemma modernise_chunks_returns:
  assumes "\<And>d v s. \<exists>s'. write_value C D c d v s = (Ok (), s')" and "\<forall>v\<in>set vs. utf8_valid v"
  shows "map entry_value es = map Some vs \<Longrightarrow> \<forall>e\<in>set es. entry_coder e = c \<Longrightarrow> \<exists>es' s'. modernise_chunks C D es s = (Ok (), es', s')"
  using assms(2)
proof (induction vs arbitrary: es s)
  case (Cons v vs)
  then obtain e es1 where e: "es = e # es1" "entry_value e = Some v" "map entry_value es1 = map Some vs" "entry_coder e = c"
    "\<forall>e\<in>set es1. entry_coder e = c" by auto
  obtain s1 where W: "write_value C D c (entry_disk e) (modern v) s = (Ok (), s1)" using assms(1) by blast
  from Cons.IH [OF e(3,5), of s1] Cons.prems(3) obtain es' s' where "modernise_chunks C D es1 s1 = (Ok (), es', s')" by auto
  with W Cons.prems(3) e(4) show ?case unfolding e(1) modernise_chunks_step [OF e(2)] by simp
qed simp

section \<open>The run as a whole\<close>

text \<open>Once the lines are appended, all that matters is what becomes of the chunks.\<close>

lemma lines_in_memory:
  assumes "dir_new (secret_ops 0) dir s = (Ok a, s1)" and "append_lines C D P c works a s1 = (Ok (), a1, s2)"
  shows "map entry_value (entries (da_array a1)) = map Some (map snd works)" and "\<forall>e\<in>set (entries (da_array a1)). entry_coder e = c"
proof -
  have "entries (da_array a) = []" using assms(1) by (cases "fs_create_dir_all dir s") (auto simp: dir_new_def array_default_def)
  with append_lines_loaded [OF assms(2)] show "map entry_value (entries (da_array a1)) = map Some (map snd works)"
    "\<forall>e\<in>set (entries (da_array a1)). entry_coder e = c" by (simp_all add: comp_def)
qed

lemma shakespeare_step:
  assumes valid: "\<forall>w\<in>set works. utf8_valid (snd w)"
    and N: "dir_new (secret_ops 0) dir s = (Ok a, s1)" and A: "append_lines C D P c works a s1 = (Ok (), a1, s2)"
  shows "shakespeare C D P c works dir s =
      (case modernise_chunks C D (entries (da_array a1)) s2 of
         (Ok _, es, s4) \<Rightarrow> (Ok (\<Sum>w\<leftarrow>works. count_matches you (snd w),
             (\<Sum>w\<leftarrow>works. count_matches you (snd w)) + (\<Sum>w\<leftarrow>works. count_matches thou (snd w)),
             a1\<lparr>da_array := da_array a1\<lparr>entries := es\<rparr>\<rparr>), s4)
       | (_, es, s4) \<Rightarrow> (Panic, s4))"
proof -
  note L = lines_in_memory(1) [OF N A]
  have I: "chunk_iter_from C D es s4 = (map Ok (map modern (map snd works)), es, s4)"
    if "modernise_chunks C D (entries (da_array a1)) s2 = (Ok u, es, s4)" for es u s4
    by (rule chunk_iter_loaded) (use modernise_chunks_loaded [OF that L] in \<open>simp add: comp_def\<close>)
  have "\<forall>w\<in>set works. utf8_valid (modern (snd w))" using valid modern_facts(2) by auto
  then show ?thesis
    using N A chunk_iter_loaded [OF L, of C D s2] I
    by (cases "modernise_chunks C D (entries (da_array a1)) s2"; cases "fst (modernise_chunks C D (entries (da_array a1)) s2)")
      (auto simp: shakespeare_def chunk_iter_def comp_def count_all_ok valid modern_facts(3) sum_list_addf)
qed

text \<open>
  C36: the example is correct on any disk, the encrypted one included, whose reads it never needs: when it
  returns, every line is in memory with each \<open>thou\<close> turned into \<open>you\<close>, the same length as before and still
  valid UTF-8, and the second number printed is the first plus the number of replacements. It panics
  only if a directory cannot be made, a path not be turned into a disk or a write fails.
\<close>

theorem shakespeare_correct:
  fixes C :: "('c, bytes, 'e) coder_ops" and D :: "('d, 'wr, fs) disk_ops"
  assumes "\<forall>w\<in>set works. utf8_valid (snd w)" and "shakespeare C D P c works dir s = (r, s')"
  shows "(\<forall>m n a. r = Ok (m, n, a) \<longrightarrow>
      map entry_value (entries (da_array a)) = map (\<lambda>w. Some (modern (snd w))) works \<and>
      (\<forall>w\<in>set works. utf8_valid (modern (snd w)) \<and> length (modern (snd w)) = length (snd w)) \<and>
      m = (\<Sum>w\<leftarrow>works. count_matches you (snd w)) \<and> n = m + (\<Sum>w\<leftarrow>works. count_matches thou (snd w))) \<and>
    (is_ok (fst (fs_create_dir_all dir s)) \<and> (\<forall>p. \<exists>d. pd_from P p = Ok d) \<and>
       (\<forall>d v s. \<exists>s'. write_value C D c d v s = (Ok (), s')) \<longrightarrow> (\<exists>x. r = Ok x))"
proof -
  note step = shakespeare_step [OF assms(1)]
  have "map entry_value (entries (da_array a)) = map (\<lambda>w. Some (modern (snd w))) works \<and>
      m = (\<Sum>w\<leftarrow>works. count_matches you (snd w)) \<and> n = m + (\<Sum>w\<leftarrow>works. count_matches thou (snd w))" if "r = Ok (m, n, a)" for m n a
  proof -
    from assms(2) that obtain a0 s1 a1 s2 where N: "dir_new (secret_ops 0) dir s = (Ok a0, s1)"
      "append_lines C D P c works a0 s1 = (Ok (), a1, s2)"
      by (auto simp: shakespeare_def split: prod.splits result.splits)
    from step [OF N] assms(2) that obtain es where
      M: "modernise_chunks C D (entries (da_array a1)) s2 = (Ok (), es, s')" "a = a1\<lparr>da_array := da_array a1\<lparr>entries := es\<rparr>\<rparr>"
        "m = (\<Sum>w\<leftarrow>works. count_matches you (snd w))" "n = m + (\<Sum>w\<leftarrow>works. count_matches thou (snd w))"
      by (auto split: prod.splits result.splits)
    with modernise_chunks_loaded [OF M(1) lines_in_memory(1) [OF N]] show ?thesis by (simp add: comp_def)
  qed
  moreover have "\<exists>x. r = Ok x" if M: "is_ok (fst (fs_create_dir_all dir s))" and F: "\<And>p. \<exists>d. pd_from P p = Ok d"
    and W: "\<And>d v s. \<exists>s'. write_value C D c d v s = (Ok (), s')"
  proof -
    obtain a s1 where N: "dir_new (secret_ops 0) dir s = (Ok a :: ((nat list, byte, 'd, 'c) dir_array, io_error) result, s1)"
      using M by (cases "fs_create_dir_all dir s") (auto simp: dir_new_def is_ok_iff)
    obtain a1 s2 where A: "append_lines C D P c works a s1 = (Ok (), a1, s2)"
      using append_lines_returns [OF W F] by blast
    have "\<forall>v\<in>set (map snd works). utf8_valid v" using assms(1) by simp
    from modernise_chunks_returns [OF W this lines_in_memory [OF N A]] obtain es s4 where
      "modernise_chunks C D (entries (da_array a1)) s2 = (Ok (), es, s4)" by blast
    with step [OF N A] assms(2) show ?thesis by auto
  qed
  ultimately show ?thesis using assms(1) modern_facts(1,2) by auto
qed

text \<open>Two lines on a disk that swallows what is written to it.\<close>

definition swallow_disk :: "(path, unit, fs) disk_ops" where
  "swallow_disk = \<lparr>d_read = (\<lambda>_ s. (Err NotFound, s)), d_write = (\<lambda>_ s. (Ok (), s)), wr_write = (\<lambda>_ _ s. (Ok (), (), s)),
     wr_flush = (\<lambda>_ s. (Ok (), (), s)), wr_drop = (\<lambda>_ s. s)\<rparr>"

definition raw_ops :: "(unit, bytes, unit) coder_ops" where
  "raw_ops = \<lparr>c_pieces = (\<lambda>_ v. ([v], None)), c_write_io = (\<lambda>_. ()), c_from_io = (\<lambda>_. ()), c_parse = (\<lambda>_ b. Ok b)\<rparr>"

definition any_path :: "(path, unit) path_disk" where
  "any_path = \<lparr>pd_from = Ok, pd_path = id\<rparr>"

theorem shakespeare_correct_witness:
  "\<exists>a s'. shakespeare raw_ops swallow_disk any_path ()
      [(''u'', thou @ [0x20] @ thou), (''v'', you)] [''r''] empty_fs = (Ok (1, 3, a), s') \<and>
    map entry_value (entries (da_array a)) = [Some (you @ [0x20] @ you @ [0x30, 0x30]), Some you]"
proof -
  let ?works = "[(''u'', thou @ [0x20] @ thou), (''v'', you)]"
  have V: "\<forall>w\<in>set ?works. utf8_valid (snd w)"
    by (simp add: thou_def you_def tail_len_def second_ok_def)
  have W: "\<exists>s'. write_value raw_ops swallow_disk () d v s = (Ok (), s')" for d v s
    by (simp add: write_value_def encode_def serialize_flush_def raw_ops_def swallow_disk_def)
  have N: "is_ok (fst (fs_create_dir_all [''r''] empty_fs))"
    by (simp add: fs_create_dir_all_def empty_fs_def)
  obtain r s' where S: "shakespeare raw_ops swallow_disk any_path () ?works [''r''] empty_fs = (r, s')"
    by fastforce
  note T = shakespeare_correct [OF V S]
  from T N W obtain m n a where R: "r = Ok (m, n, a)" by (auto simp: any_path_def)
  from T R have E: "map entry_value (entries (da_array a)) = map (\<lambda>w. Some (modern (snd w))) ?works"
    and "m = (\<Sum>w\<leftarrow>?works. count_matches you (snd w))" "n = m + (\<Sum>w\<leftarrow>?works. count_matches thou (snd w))" by blast+
  then have mn: "m = 1" "n = 3" by (simp_all add: thou_def you_def)
  have "modern (thou @ [0x20] @ thou) = you @ [0x20] @ you @ [0x30, 0x30]" "modern you = you"
    by (simp_all add: modern_def thou_def you_def)
  with E have "map entry_value (entries (da_array a)) = [Some (you @ [0x20] @ you @ [0x30, 0x30]), Some you]" by simp
  with S [unfolded R mn] show ?thesis by (intro exI conjI)
qed

end
