(* ===== verification/Reencode.thy ===== *)
theory Reencode
  imports Async_History "HOL-Library.Multiset"
begin

text \<open>
  The program of \<open>examples/large_reencode.rs\<close>: a stream of CSV texts is decoded, grouped, and every group
  written by a task of its own to a file of one shared directory; the arrays of the tasks are appended to
  each other in whatever order they complete. The download, the archive and the CSV library are parameters
  (the list of texts and \<open>parse\<close>); the progress bars and the printed sizes of files have no part in it.

  A task runs to its end when it is taken from \<open>buffer_unordered\<close>: the tasks write different files of a
  directory that each of them creates if need be, so their effects do not meet.
\<close>

section \<open>The pipeline\<close>

definition div_ceil :: "nat \<Rightarrow> nat \<Rightarrow> nat" where
  "div_ceil a b = (if a mod b = 0 then a div b else a div b + 1)"

definition num_items :: nat where "num_items = 2159"
definition items_per_zstd_file :: nat where "items_per_zstd_file = div_ceil num_items 100"
definition num_zstd_files :: nat where "num_zstd_files = div_ceil num_items items_per_zstd_file"

text \<open>\<open>StreamExt::chunks\<close>: full groups, and what is left at the end.\<close>

fun groups_of :: "nat \<Rightarrow> 'x list \<Rightarrow> 'x list list" where
  "groups_of n [] = []"
| "groups_of n (x # xs) = (x # take (n - 1) xs) # groups_of n (drop (n - 1) xs)"

text \<open>The rows of the texts of a group, each parsed on a blocking thread whose panic its future passes on.\<close>

fun decode_group :: "('t \<Rightarrow> ('a list, 'x) result) \<Rightarrow> 't list \<Rightarrow> ('a list, unit) result" where
  "decode_group parse [] = Ok []"
| "decode_group parse (raw # raws) =
     (case parse raw of
        Ok rows \<Rightarrow> map_ok (\<lambda>rest. rows @ rest) (decode_group parse raws)
      | _ \<Rightarrow> Panic)"

text \<open>One task: a new array in the shared directory, and its only chunk, under the name drawn for it.\<close>

definition reencode_task ::
  "('c, 'a list, 'e) coder_ops \<Rightarrow> ('d, 'wr, fs) disk_ops \<Rightarrow> ('d, 'y) path_disk \<Rightarrow> 'c \<Rightarrow> path \<Rightarrow>
   ('t \<Rightarrow> ('a list, 'x) result) \<Rightarrow> string \<times> 't list \<Rightarrow> fs \<Rightarrow> ((nat list, 'a, 'd, 'c) async_dir, unit) result \<times> fs" where
  "reencode_task C D P c dir parse t s =
     (case decode_group parse (snd t) of
        Ok rows \<Rightarrow>
          (case a_dir_new vec_ops dir s of
             (Ok b, s1) \<Rightarrow>
               (case a_dir_append vec_ops C D P c (fst t) rows b s1 of
                  (Ok _, b1, s2) \<Rightarrow> (Ok b1, s2)
                | (_, b1, s2) \<Rightarrow> (Panic, s2))
           | (_, s1) \<Rightarrow> (Panic, s1))
      | _ \<Rightarrow> (Panic, s))"

text \<open>\<open>while let Some(backing) = ...next().await\<close>: the arrays that are left, as they complete.\<close>

fun unify ::
  "('c, 'a list, 'e) coder_ops \<Rightarrow> ('d, 'wr, fs) disk_ops \<Rightarrow> ('d, 'y) path_disk \<Rightarrow> 'c \<Rightarrow> path \<Rightarrow>
   ('t \<Rightarrow> ('a list, 'x) result) \<Rightarrow> (string \<times> 't list) list \<Rightarrow> (nat list, 'a, 'd, 'c) async_dir \<Rightarrow> fs \<Rightarrow>
   ((nat list, 'a, 'd, 'c) async_dir, unit) result \<times> fs" where
  "unify C D P c dir parse [] a s = (Ok a, s)"
| "unify C D P c dir parse (t # ts) a s =
     (case reencode_task C D P c dir parse t s of
        (Ok b, s1) \<Rightarrow>
          (case a_append_dir vec_ops P b a s1 of
             (Ok _, a1, s2) \<Rightarrow> unify C D P c dir parse ts a1 s2
           | (_, a1, s2) \<Rightarrow> (Panic, s2))
      | (_, s1) \<Rightarrow> (Panic, s1))"

text \<open>\<open>order\<close> lists the tasks as they complete, \<open>uuids\<close> the names drawn.\<close>

definition reencode ::
  "('c, 'a list, 'e) coder_ops \<Rightarrow> ('d, 'wr, fs) disk_ops \<Rightarrow> ('d, 'y) path_disk \<Rightarrow> 'c \<Rightarrow> path \<Rightarrow>
   ('t \<Rightarrow> ('a list, 'x) result) \<Rightarrow> string list \<Rightarrow> nat list \<Rightarrow> 't list \<Rightarrow> fs \<Rightarrow>
   ((nat list, 'a, 'd, 'c) async_dir, unit) result \<times> fs" where
  "reencode C D P c dir parse uuids order raws s =
     (let tasks = zip uuids (groups_of items_per_zstd_file raws) in
      case map (\<lambda>i. tasks ! i) order of
        [] \<Rightarrow> (Panic, s)
      | t # ts \<Rightarrow>
          (case reencode_task C D P c dir parse t s of
             (Ok a, s1) \<Rightarrow> unify C D P c dir parse ts a s1
           | (_, s1) \<Rightarrow> (Panic, s1)))"

text \<open>\<open>mem_size\<close>: the sizes of what is loaded and of the keys; what is not loaded is left alone.\<close>

fun loaded_size ::
  "('a \<Rightarrow> nat) \<Rightarrow> ('c, 'a list, 'e) coder_ops \<Rightarrow> ('d, 'wr, 'w) disk_ops \<Rightarrow> ('a list, 'd, 'c) async_entry list \<Rightarrow> 'w \<Rightarrow>
     (nat, unit) result \<times> ('a list, 'd, 'c) async_entry list \<times> 'w" where
  "loaded_size size_of C D [] w = (Ok 0, [], w)"
| "loaded_size size_of C D (e # es) w =
     (if a_is_loaded e then
        (case a_load C D e w of
           (Ok chunk, e1, w1) \<Rightarrow>
             (case loaded_size size_of C D es w1 of
                (r, es1, w2) \<Rightarrow> (map_ok (\<lambda>n. sum_list (map size_of chunk) + n) r, e1 # es1, w2))
         | (_, e1, w1) \<Rightarrow> (Panic, e1 # es, w1))
      else (case loaded_size size_of C D es w of (r, es1, w1) \<Rightarrow> (r, e # es1, w1)))"

definition mem_size ::
  "('a \<Rightarrow> nat) \<Rightarrow> (nat list \<Rightarrow> nat) \<Rightarrow> ('c, 'a list, 'e) coder_ops \<Rightarrow> ('d, 'wr, 'w) disk_ops \<Rightarrow>
   (nat list, 'a, 'd, 'c) async_array \<Rightarrow> 'w \<Rightarrow> (nat, unit) result \<times> (nat list, 'a, 'd, 'c) async_array \<times> 'w" where
  "mem_size size_of key_size C D a w =
     (case loaded_size size_of C D (aa_entries a) w of
        (r, es, w1) \<Rightarrow>
          (map_ok (\<lambda>n. n + key_size (aa_starts a) + key_size (aa_ends a)) r, a\<lparr>aa_entries := es\<rparr>, w1))"

section \<open>Groups\<close>

lemma div_ceil_100: "items_per_zstd_file = 22" "num_zstd_files = 99"
  by (simp_all add: items_per_zstd_file_def num_zstd_files_def num_items_def div_ceil_def)

lemma concat_groups: "concat (groups_of n xs) = xs"
  by (induction n xs rule: groups_of.induct) simp_all

lemma groups_bounded: "0 < n \<Longrightarrow> g \<in> set (groups_of n xs) \<Longrightarrow> g \<noteq> [] \<and> length g \<le> n"
  by (induction n xs rule: groups_of.induct) auto

lemma length_groups: "0 < n \<Longrightarrow> length (groups_of n xs) = div_ceil (length xs) n"
proof (induction n xs rule: groups_of.induct)
  case (2 n x xs)
  show ?case
  proof (cases "n \<le> Suc (length xs)")
    case True
    with 2 have "length (groups_of n (drop (n - 1) xs)) = div_ceil (Suc (length xs) - n) n" by simp
    moreover have "Suc (length xs) div n = Suc ((Suc (length xs) - n) div n)" "Suc (length xs) mod n = (Suc (length xs) - n) mod n"
      using True 2(2) by (simp_all add: le_div_geq le_mod_geq)
    ultimately show ?thesis by (simp add: div_ceil_def)
  next
    case False
    then show ?thesis by (simp add: div_ceil_def)
  qed
qed (simp add: div_ceil_def)

lemma decode_group_Ok: "\<forall>raw\<in>set raws. parse raw = Ok (rows raw) \<Longrightarrow> decode_group parse raws = Ok (concat (map rows raws))"
  by (induction raws) simp_all

section \<open>One task\<close>

context array_backing
begin

lemma stored_frame:
  assumes "\<And>d. stored d w' = stored d w"
  shows "represents a w' xss \<longleftrightarrow> represents a w xss" and "all_synced a w' \<longleftrightarrow> all_synced a w"
proof -
  have same: "on_disk c d w' = on_disk c d w" for c d unfolding on_disk_def assms ..
  have *: "entry_abs C D e w' = entry_abs C D e w \<and> synced C D e w' = synced C D e w" for e
    unfolding abs_on_disk synced_on_disk same by simp
  then show "represents a w' xss \<longleftrightarrow> represents a w xss" by (simp add: array_represents_def)
  show "all_synced a w' \<longleftrightarrow> all_synced a w" using * by (simp add: array_synced_def)
qed

end

text \<open>
  \<open>part D C site dir a s xss us\<close>: what the program has between two tasks. The array is in the shared
  directory, is idle, has nothing in memory, represents the chunks, and its disks are those of the names.
\<close>

definition part ::
  "('d, 'wr, fs) disk_ops \<Rightarrow> ('c, 'a list, 'e) coder_ops \<Rightarrow> ('d \<Rightarrow> 'k) \<Rightarrow> ('d, 'y) path_disk \<Rightarrow> path \<Rightarrow>
   (nat list, 'a, 'd, 'c) async_dir \<Rightarrow> fs \<Rightarrow> 'a list list \<Rightarrow> string list \<Rightarrow> bool" where
  "part D C site P dir a s xss us \<longleftrightarrow>
     ad_root a = dir \<and> all_idle (ad_array a) \<and> (\<forall>e\<in>set (aa_entries (ad_array a)). \<not> a_is_loaded e) \<and>
     array_represents vec_ops C D (array_view (ad_array a)) s xss \<and> array_synced C D (array_view (ad_array a)) s \<and>
     list_all2 (\<lambda>k u. \<exists>d. pd_from P (join dir u) = Ok d \<and> k = site d) (array_sites site (array_view (ad_array a))) us"

lemma a_append_unloaded:
  assumes "a_append vec_ops C D vals d c a s = (Ok u, a', s')"
  shows "\<exists>e. aa_entries a' = aa_entries a @ [e] \<and> \<not> a_is_loaded e \<and> ae_disk e = d"
  using assms
  by (auto simp: a_append_def a_write_unload_def a_unload_def a_is_loaded_def a_entry_new_def a_push_range_def Let_def expect_def
      split: prod.splits result.splits)

lemma reencode_task_part:
  fixes D :: "('d, 'wr, fs) disk_ops" and C :: "('c, 'a list, 'e) coder_ops"
  assumes "byte_disk D site stored writable" and "coder_roundtrip C"
    and mkdir: "\<forall>d s. stored d (snd (fs_create_dir_all dir s)) = stored d s"
    and parse: "\<forall>raw\<in>set (snd t). parse raw = Ok (rows raw)"
    and "reencode_task C D P c dir parse t s = (r, s')"
  shows "(r = Panic \<or> (\<exists>b. r = Ok b \<and> part D C site P dir b s' [concat (map rows (snd t))] [fst t])) \<and>
    (\<forall>a xss us. part D C site P dir a s xss us \<longrightarrow>
       (\<forall>d. pd_from P (join dir (fst t)) = Ok d \<longrightarrow> site d \<notin> set (array_sites site (array_view (ad_array a)))) \<longrightarrow>
       part D C site P dir a s' xss us)"
proof -
  note G = growing_over_bytes [OF assms(1,2)]
  note A = growing_array.axioms(1) [OF G]
  let ?data = "concat (map rows (snd t))"
  obtain q s1 where M: "fs_create_dir_all dir s = (q, s1)" by fastforce
  have "stored d s1 = stored d s" for d using mkdir M by (metis snd_conv)
  note frame1 = array_backing.stored_frame [OF A this]
  have keep1: "part D C site P dir a s1 xss us" if "part D C site P dir a s xss us" for a xss us
    using that frame1 by (simp add: part_def)
  let ?b = "\<lparr>ad_array = aa_default vec_ops, ad_root = dir\<rparr> :: (nat list, 'a, 'd, 'c) async_dir"
  have N: "a_dir_new vec_ops dir s = (map_ok (\<lambda>_. ?b) q, s1)"
    using M by (simp add: a_dir_new_def aa_default_def)
  show ?thesis
  proof (cases q)
    case (Ok v)
    obtain x b1 s2 where W: "a_dir_append vec_ops C D P c (fst t) ?data ?b s1 = (x, b1, s2)" by (metis prod_cases3)
    have r: "r = (case x of Ok _ \<Rightarrow> Ok b1 | _ \<Rightarrow> Panic)" "s' = s2"
      using assms(5) unfolding reencode_task_def decode_group_Ok [OF parse] N Ok by (simp_all add: W split: result.splits)
    show ?thesis
    proof (cases "pd_from P (join dir (fst t))")
      case d: (Ok d)
      obtain y a1 where Y: "a_append vec_ops C D ?data d c (aa_default vec_ops) s1 = (y, a1, s2)"
        "x = map_err WriteErr y" "b1 = ?b\<lparr>ad_array := a1\<rparr>"
        using W d by (auto simp: a_dir_append_def a_next_target_def split: prod.splits)
      have V: "array_append vec_ops C D ?data d c (array_default vec_ops) s1 = (y, array_view a1, s2)"
        using a_append_sim(1) [OF Y(1)] by (simp add: aa_default_sim)
      have E: "array_represents vec_ops C D (array_default vec_ops) s1 []" "array_synced C D (array_default vec_ops) s1"
        "site d \<notin> set (array_sites site (array_default vec_ops))"
        using growing_array.default_represents [OF G] by (simp_all add: array_sites_def array_default_def)
      have "part D C site P dir b1 s2 [?data] [fst t]" if "y = Ok ()"
      proof -
        from growing_array.append_Ok [OF G E V] that have
          R: "array_represents vec_ops C D (array_view a1) s2 [?data]" "array_synced C D (array_view a1) s2"
          "array_sites site (array_view a1) = [site d]"
          using growing_array.default_represents [OF G] by (auto simp: array_sites_def array_default_def)
        from a_append_unloaded [OF Y(1) [unfolded that]] have "\<forall>e\<in>set (aa_entries a1). \<not> a_is_loaded e"
          by (auto simp: aa_default_def)
        with R d Y(3) a_append_sim(2) [OF Y(1) aa_default_sim(2)] show ?thesis by (simp add: part_def)
      qed
      moreover have "part D C site P dir a s2 xss us"
        if "part D C site P dir a s xss us" and S: "site d \<notin> set (array_sites site (array_view (ad_array a)))" for a xss us
      proof -
        obtain z where Z: "write_value C D c d ?data s1 = (z, s2)"
          using V by (cases "write_value C D c d ?data s1")
            (auto simp: array_append_def entry_write_unload_def Let_def unload_def entry_new_def push_range_def split: result.splits prod.splits)
        from growing_array.represents_frame [OF G Z S] keep1 [OF that(1)] show ?thesis by (simp add: part_def)
      qed
      ultimately show ?thesis using r Y(2) d by (cases y) auto
    qed (use W r keep1 in \<open>auto simp: a_dir_append_def a_next_target_def\<close>)
  qed (use N assms(5) keep1 decode_group_Ok [OF parse] in \<open>auto simp: reencode_task_def\<close>)
qed

section \<open>Putting the parts together\<close>

lemma a_append_dir_shared:
  "ad_root a = ad_root b \<Longrightarrow> a_append_dir K P b a s =
    (case aa_merge K (ad_array a) (ad_array b) of (r, m) \<Rightarrow> (expect r, a\<lparr>ad_array := m\<rparr>, s))"
  by (simp add: a_append_dir_def)

lemma aa_merge_entries: "aa_merge K a b = (Ok u, m) \<Longrightarrow> aa_entries m = aa_entries a @ aa_entries b"
  by (auto simp: aa_merge_def Let_def split: result.splits prod.splits)

lemma parts_merge:
  assumes "byte_disk D site stored writable" and "coder_roundtrip C"
    and a: "part D C site P dir a s xss us" and b: "part D C site P dir b s yss vs"
  shows "\<exists>m. a_append_dir vec_ops P b a s = (Ok (), m, s) \<and> part D C site P dir m s (xss @ yss) (us @ vs)"
proof -
  note G = growing_over_bytes [OF assms(1,2)]
  obtain r m where M: "aa_merge vec_ops (ad_array a) (ad_array b) = (r, m)" by fastforce
  have R: "array_represents vec_ops C D (array_view (ad_array a)) s xss" "array_synced C D (array_view (ad_array a)) s"
    "array_represents vec_ops C D (array_view (ad_array b)) s yss" "array_synced C D (array_view (ad_array b)) s"
    using a b by (simp_all add: part_def)
  from growing_array.merge_represents [OF G R] aa_merge_sim [OF M] have
    X: "r = Ok ()" "array_represents vec_ops C D (array_view m) s (xss @ yss)" "array_synced C D (array_view m) s"
      "array_sites site (array_view m) = array_sites site (array_view (ad_array a)) @ array_sites site (array_view (ad_array b))"
    by auto
  from aa_merge_entries [OF M [unfolded X(1)]] X a b have "part D C site P dir (a\<lparr>ad_array := m\<rparr>) s (xss @ yss) (us @ vs)"
    by (auto simp: part_def all_idle_def intro: list_all2_appendI)
  moreover have "ad_root a = ad_root b" using a b by (simp add: part_def)
  from a_append_dir_shared [OF this, of vec_ops P s] M X(1) have "a_append_dir vec_ops P b a s = (Ok (), a\<lparr>ad_array := m\<rparr>, s)"
    by (simp add: expect_def)
  ultimately show ?thesis by blast
qed

text \<open>Names give different files, so a task writes to no file of the parts there are.\<close>

definition apart_names :: "('d, 'y) path_disk \<Rightarrow> ('d \<Rightarrow> 'k) \<Rightarrow> path \<Rightarrow> bool" where
  "apart_names P site dir \<longleftrightarrow>
     (\<forall>u v d e. pd_from P (join dir u) = Ok d \<longrightarrow> pd_from P (join dir v) = Ok e \<longrightarrow> site d = site e \<longrightarrow> u = v)"

lemma part_site_new:
  assumes "apart_names P site dir" and "part D C site P dir a s xss us" and "u \<notin> set us" and "pd_from P (join dir u) = Ok d"
  shows "site d \<notin> set (array_sites site (array_view (ad_array a)))"
proof
  assume "site d \<in> set (array_sites site (array_view (ad_array a)))"
  with assms(2) obtain v e where "v \<in> set us" "pd_from P (join dir v) = Ok e" "site d = site e"
    by (auto simp: part_def list_all2_conv_all_nth in_set_conv_nth) metis
  with assms(1,3,4) show False unfolding apart_names_def by metis
qed

lemma unify_part:
  fixes D :: "('d, 'wr, fs) disk_ops" and C :: "('c, 'a list, 'e) coder_ops"
  assumes "byte_disk D site stored writable" and "coder_roundtrip C"
    and "\<forall>d s. stored d (snd (fs_create_dir_all dir s)) = stored d s"
    and "apart_names P site dir"
  shows "part D C site P dir a s xss us \<Longrightarrow> distinct (us @ map fst ts) \<Longrightarrow> \<forall>t\<in>set ts. \<forall>raw\<in>set (snd t). parse raw = Ok (rows raw) \<Longrightarrow>
    unify C D P c dir parse ts a s = (r, s') \<Longrightarrow>
    r = Panic \<or> (\<exists>b. r = Ok b \<and> part D C site P dir b s' (xss @ map (\<lambda>t. concat (map rows (snd t))) ts) (us @ map fst ts))"
proof (induction ts arbitrary: a s xss us)
  case (Cons t ts)
  have parse: "\<forall>raw\<in>set (snd t). parse raw = Ok (rows raw)" "\<forall>t\<in>set ts. \<forall>raw\<in>set (snd t). parse raw = Ok (rows raw)"
    using Cons.prems(3) by simp_all
  obtain q s1 where T: "reencode_task C D P c dir parse t s = (q, s1)" by fastforce
  note R = reencode_task_part [OF assms(1-3) parse(1) T]
  have "fst t \<notin> set us" using Cons.prems(2) by simp
  with R Cons.prems(1) part_site_new [OF assms(4) Cons.prems(1)] have keep: "part D C site P dir a s1 xss us" by blast
  show ?case
  proof (cases "q = Panic")
    case False
    with R obtain b where b: "q = Ok b" "part D C site P dir b s1 [concat (map rows (snd t))] [fst t]" by blast
    from parts_merge [OF assms(1,2) keep b(2)] obtain m where
      M: "a_append_dir vec_ops P b a s1 = (Ok (), m, s1)" "part D C site P dir m s1 (xss @ [concat (map rows (snd t))]) (us @ [fst t])"
      by blast
    have "unify C D P c dir parse ts m s1 = (r, s')" using Cons.prems(4) T b(1) M(1) by simp
    from Cons.IH [OF M(2) _ parse(2) this] Cons.prems(2) show ?thesis by simp
  qed (use Cons.prems(4) T in simp)
qed auto

text \<open>
  When nothing fails the pipeline returns: \<open>fine s\<close> is a condition on the store under which the directory
  can be made and any file in it written, and which both keep.
\<close>

definition nothing_fails ::
  "(fs \<Rightarrow> bool) \<Rightarrow> ('c, 'a list, 'e) coder_ops \<Rightarrow> ('d, 'wr, fs) disk_ops \<Rightarrow> ('d, 'y) path_disk \<Rightarrow> 'c \<Rightarrow> path \<Rightarrow> bool" where
  "nothing_fails fine C D P c dir \<longleftrightarrow>
     (\<forall>s. fine s \<longrightarrow> (\<exists>s1. fs_create_dir_all dir s = (Ok (), s1) \<and> fine s1)) \<and>
     (\<forall>s u v. fine s \<longrightarrow> (\<exists>d s1. pd_from P (join dir u) = Ok d \<and> write_value C D c d v s = (Ok (), s1) \<and> fine s1))"

lemma reencode_task_returns:
  fixes D :: "('d, 'wr, fs) disk_ops" and C :: "('c, 'a list, 'e) coder_ops"
  assumes "nothing_fails fine C D P c dir" and "fine s" and "\<forall>raw\<in>set (snd t). parse raw = Ok (rows raw)"
  shows "\<exists>b s'. reencode_task C D P c dir parse t s = (Ok b, s') \<and> fine s'"
proof -
  let ?b = "\<lparr>ad_array = aa_default vec_ops, ad_root = dir\<rparr> :: (nat list, 'a, 'd, 'c) async_dir"
  from assms(1,2) obtain s1 where S: "fs_create_dir_all dir s = (Ok (), s1)" "fine s1" unfolding nothing_fails_def by blast
  then have N: "a_dir_new vec_ops dir s = (Ok ?b, s1)" by (simp add: a_dir_new_def aa_default_def)
  from assms(1) S(2) obtain d s2 where d: "pd_from P (join dir (fst t)) = Ok d" "fine s2"
    "write_value C D c d (concat (map rows (snd t))) s1 = (Ok (), s2)" unfolding nothing_fails_def by blast
  then have "\<exists>b2. a_dir_append vec_ops C D P c (fst t) (concat (map rows (snd t))) ?b s1 = (Ok (), b2, s2)"
    by (simp add: a_dir_append_def a_next_target_def a_append_def a_write_unload_def a_unload_def a_entry_new_def
        a_push_range_def Let_def expect_def vec_c_push_def)
  with N d(2) decode_group_Ok [OF assms(3)] show ?thesis by (auto simp: reencode_task_def)
qed

lemma unify_returns:
  fixes D :: "('d, 'wr, fs) disk_ops" and C :: "('c, 'a list, 'e) coder_ops"
  assumes "byte_disk D site stored writable" and "coder_roundtrip C"
    and "\<forall>d s. stored d (snd (fs_create_dir_all dir s)) = stored d s"
    and "apart_names P site dir" and "nothing_fails fine C D P c dir"
  shows "part D C site P dir a s xss us \<Longrightarrow> fine s \<Longrightarrow> distinct (us @ map fst ts) \<Longrightarrow> \<forall>t\<in>set ts. \<forall>raw\<in>set (snd t). parse raw = Ok (rows raw) \<Longrightarrow>
    \<exists>b s'. unify C D P c dir parse ts a s = (Ok b, s')"
proof (induction ts arbitrary: a s xss us)
  case (Cons t ts)
  have parse: "\<forall>raw\<in>set (snd t). parse raw = Ok (rows raw)" "\<forall>t\<in>set ts. \<forall>raw\<in>set (snd t). parse raw = Ok (rows raw)"
    using Cons.prems(4) by simp_all
  from reencode_task_returns [where C = C and D = D, OF assms(5) Cons.prems(2) parse(1)] obtain b s1 where
    T: "reencode_task C D P c dir parse t s = (Ok b, s1)" "fine s1" by blast
  note R = reencode_task_part [OF assms(1-3) parse(1) T(1)]
  have "fst t \<notin> set us" using Cons.prems(3) by simp
  with R Cons.prems(1) part_site_new [OF assms(4) Cons.prems(1)]
  have keep: "part D C site P dir a s1 xss us" and b: "part D C site P dir b s1 [concat (map rows (snd t))] [fst t]" by auto
  from parts_merge [OF assms(1,2) keep b] obtain m where
    M: "a_append_dir vec_ops P b a s1 = (Ok (), m, s1)" "part D C site P dir m s1 (xss @ [concat (map rows (snd t))]) (us @ [fst t])"
    by blast
  from Cons.IH [OF M(2) T(2) _ parse(2)] Cons.prems(3) obtain b' s' where "unify C D P c dir parse ts m s1 = (Ok b', s')" by auto
  with T M(1) show ?case by simp
qed simp

lemma mset_concat_perm: "mset xs = mset ys \<Longrightarrow> mset (concat (map f xs)) = mset (concat (map f ys))"
proof -
  have "mset (concat (map f zs)) = \<Sum>\<^sub># (image_mset (\<lambda>z. mset (f z)) (mset zs))" for zs by (induction zs) simp_all
  then show "mset xs = mset ys \<Longrightarrow> mset (concat (map f xs)) = mset (concat (map f ys))" by simp
qed

lemma unloaded_len: "\<forall>e\<in>set (aa_entries a). \<not> a_is_loaded e \<Longrightarrow> aa_loaded_len K a = Ok 0"
proof -
  have "\<forall>e\<in>set es. \<not> a_is_loaded e \<Longrightarrow> a_sum_widths (zip es ks) = Ok 0" for es :: "('x list, 'y, 'z) async_entry list" and ks
  proof (induction es arbitrary: ks)
    case (Cons e es)
    then show ?case by (cases ks) auto
  qed simp
  then show "\<forall>e\<in>set (aa_entries a). \<not> a_is_loaded e \<Longrightarrow> aa_loaded_len K a = Ok 0" by (simp add: aa_loaded_len_def)
qed

text \<open>The tasks in their order of completion: their names, their rows, and all rows together.\<close>

lemma tasks_in_order:
  assumes "distinct uuids" and "length uuids = div_ceil (length raws) items_per_zstd_file" and "mset order = mset [0..<length uuids]"
    and "\<forall>raw\<in>set raws. parse raw = Ok (rows raw)"
    and ts: "ts = map (\<lambda>i. zip uuids (groups_of items_per_zstd_file raws) ! i) order"
  shows "distinct (map fst ts)"
    and "map (\<lambda>t. concat (map rows (snd t))) ts = map (\<lambda>i. concat (map rows (groups_of items_per_zstd_file raws ! i))) order"
    and "\<forall>t\<in>set ts. \<forall>raw\<in>set (snd t). parse raw = Ok (rows raw)"
    and "raws \<noteq> [] \<Longrightarrow> ts \<noteq> []"
proof -
  let ?gs = "groups_of items_per_zstd_file raws"
  have len: "length ?gs = length uuids" using assms(2) by (simp add: length_groups div_ceil_100)
  have ord: "set order = {0..<length uuids}" "distinct order"
    using mset_eq_setD [OF assms(3)] mset_eq_imp_distinct_iff [OF assms(3)] by simp_all
  have "map fst ts = map (\<lambda>i. uuids ! i) order" using ord(1) len by (auto simp: ts)
  with ord assms(1) show "distinct (map fst ts)" by (auto simp: distinct_map inj_on_def nth_eq_iff_index_eq)
  show "map (\<lambda>t. concat (map rows (snd t))) ts = map (\<lambda>i. concat (map rows (?gs ! i))) order"
    using ord(1) len by (auto simp: ts)
  show "\<forall>t\<in>set ts. \<forall>raw\<in>set (snd t). parse raw = Ok (rows raw)"
  proof (intro ballI)
    fix t raw assume "t \<in> set ts" "raw \<in> set (snd t)"
    then have "raw \<in> set (concat ?gs)" using ord(1) len by (auto simp: ts intro!: bexI [of _ "snd t"])
    with assms(4) show "parse raw = Ok (rows raw)" by (simp add: concat_groups)
  qed
  show "ts \<noteq> []" if "raws \<noteq> []"
  proof -
    have "0 < length ?gs" using that by (cases raws) simp_all
    then show ?thesis using ord(1) len by (cases order) (auto simp: ts)
  qed
qed

lemma rows_of_groups:
  assumes "length uuids = div_ceil (length raws) items_per_zstd_file" and "mset order = mset [0..<length uuids]"
  shows "mset (concat (map (\<lambda>i. concat (map rows (groups_of items_per_zstd_file raws ! i))) order)) = mset (concat (map rows raws))"
proof -
  let ?gs = "groups_of items_per_zstd_file raws"
  have "length ?gs = length uuids" using assms(1) by (simp add: length_groups div_ceil_100)
  then have "map (\<lambda>i. concat (map rows (?gs ! i))) [0..<length uuids] = map (\<lambda>g. concat (map rows g)) ?gs"
    by (metis map_map map_nth comp_apply map_cong)
  moreover have "concat (map (\<lambda>g. concat (map rows g)) gs) = concat (map rows (concat gs))" for gs by (induction gs) simp_all
  ultimately show ?thesis using mset_concat_perm [OF assms(2), of "\<lambda>i. concat (map rows (?gs ! i))"] by (simp add: concat_groups)
qed

lemma part_reads:
  fixes D :: "('d, 'wr, fs) disk_ops" and C :: "('c, 'a list, 'e) coder_ops"
  assumes "byte_disk D site stored writable" and "coder_roundtrip C"
    and p: "part D C site P dir a s xss us" and bs: "searches bs xss" and k: "k < length (concat xss)"
  shows "fst (a_get bs vec_ops C D k (ad_array a) s) = Ok (concat xss ! k)"
proof -
  have R: "array_represents vec_ops C D (array_view (ad_array a)) s xss" "all_idle (ad_array a)" using p by (simp_all add: part_def)
  obtain q b v where G: "a_get bs vec_ops C D k (ad_array a) s = (q, b, v)" by (metis prod_cases3)
  from a_get_sim [OF R(2) G]
    array_backing.get_by_locate [OF growing_array.axioms(1) [OF growing_over_bytes [OF assms(1,2)]] R(1) searches_locate [OF bs], of k] G k
  show ?thesis by auto
qed

text \<open>
  C34: the re-encoding example is correct, in whatever order its tasks complete: the array it ends with has
  one chunk per group, in the order of completion, and nothing in memory; reading index \<open>k\<close> gives the
  \<open>k\<close>-th row of these chunks, with a binary search that meets the documented contract if every group has
  a row or the search returns the last of equal keys; and the rows are exactly those of all texts, none lost or doubled. It
  panics when a text cannot be parsed, there is none, or a directory, a disk or a write fails, and else
  returns.
\<close>

theorem reencode_correct:
  fixes D :: "('d, 'wr, fs) disk_ops" and C :: "('c, 'a list, 'e) coder_ops"
  assumes "byte_disk D site stored writable" and "coder_roundtrip C"
    and "\<forall>d s. stored d (snd (fs_create_dir_all dir s)) = stored d s" and "apart_names P site dir"
    and "distinct uuids" and "length uuids = div_ceil (length raws) items_per_zstd_file" and "mset order = mset [0..<length uuids]"
    and "\<forall>raw\<in>set raws. parse raw = Ok (rows raw)"
    and "reencode C D P c dir parse uuids order raws s = (r, s')"
  shows "(\<forall>a. r = Ok a \<longrightarrow>
      (\<exists>xss. xss = map (\<lambda>i. concat (map rows (groups_of items_per_zstd_file raws ! i))) order \<and>
        array_represents vec_ops C D (array_view (ad_array a)) s' xss \<and> mset (concat xss) = mset (concat (map rows raws)) \<and>
        ad_root a = dir \<and> aa_loaded_len vec_ops (ad_array a) = Ok 0 \<and>
        (\<forall>bs k. searches bs xss \<and> k < length (concat xss) \<longrightarrow> fst (a_get bs vec_ops C D k (ad_array a) s') = Ok (concat xss ! k)))) \<and>
    (raws \<noteq> [] \<and> fine s \<and> nothing_fails fine C D P c dir \<longrightarrow> (\<exists>a. r = Ok a))"
proof -
  let ?gs = "groups_of items_per_zstd_file raws"
  define ts where "ts = map (\<lambda>i. zip uuids ?gs ! i) order"
  note T = tasks_in_order [OF assms(5-8) ts_def]
  have run: "reencode C D P c dir parse uuids order raws s =
      (case ts of [] \<Rightarrow> (Panic, s)
       | t # ts \<Rightarrow> (case reencode_task C D P c dir parse t s of
             (Ok a, s1) \<Rightarrow> unify C D P c dir parse ts a s1 | (_, s1) \<Rightarrow> (Panic, s1)))"
    by (simp add: reencode_def ts_def Let_def)
  have first: "part D C site P dir b s1 [concat (map rows (snd t))] [fst t]"
    if "ts = t # ts'" "reencode_task C D P c dir parse t s = (Ok b, s1)" for t ts' b s1
    using reencode_task_part [OF assms(1-3) _ that(2), of rows] T(3) that(1) by auto
  have whole: "part D C site P dir a s' (map (\<lambda>i. concat (map rows (?gs ! i))) order) (map fst ts)" if r: "r = Ok a" for a
  proof -
    from r assms(9) obtain t ts' b s1 where U: "ts = t # ts'" "reencode_task C D P c dir parse t s = (Ok b, s1)"
      "unify C D P c dir parse ts' b s1 = (r, s')"
      by (auto simp: run split: list.splits prod.splits result.splits)
    from unify_part [OF assms(1-4) first [OF U(1,2)] _ _ U(3), of rows] T(1-3) U(1) r show ?thesis by auto
  qed
  have "\<exists>a. r = Ok a" if R: "raws \<noteq> []" and F: "fine s" and N: "nothing_fails fine C D P c dir"
  proof -
    from T(4) [OF R] obtain t ts' where U: "ts = t # ts'" by (cases ts) auto
    have "\<forall>raw\<in>set (snd t). parse raw = Ok (rows raw)" using T(3) U by simp
    from reencode_task_returns [where C = C and D = D, OF N F this] obtain b s1 where
      B: "reencode_task C D P c dir parse t s = (Ok b, s1)" "fine s1" by blast
    from unify_returns [where parse = parse and rows = rows, OF assms(1-4) N first [OF U B(1)] B(2), of ts'] T(1,3) U obtain a s2 where
      "unify C D P c dir parse ts' b s1 = (Ok a, s2)" by auto
    with run U B assms(9) show ?thesis by simp
  qed
  moreover have "array_represents vec_ops C D (array_view (ad_array a)) s' (map (\<lambda>i. concat (map rows (?gs ! i))) order) \<and>
      ad_root a = dir \<and> aa_loaded_len vec_ops (ad_array a) = Ok 0" if "r = Ok a" for a
    using whole [OF that] by (simp add: part_def unloaded_len)
  ultimately show ?thesis using rows_of_groups [OF assms(6,7), of rows] part_reads [OF assms(1,2) whole] by blast
qed

text \<open>The size of an array is that of what it has in memory; asking for it loads and changes nothing.\<close>

lemma loaded_size_pure:
  "\<forall>e\<in>set es. idle (ae_value e) \<Longrightarrow>
    loaded_size size_of C D es w =
      (Ok (\<Sum>e\<leftarrow>es. case entry_value (sync_view e) of Some xs \<Rightarrow> sum_list (map size_of xs) | None \<Rightarrow> 0), es, w)"
proof (induction es)
  case (Cons e es)
  then have I: "loaded_size size_of C D es w =
    (Ok (\<Sum>e\<leftarrow>es. case entry_value (sync_view e) of Some xs \<Rightarrow> sum_list (map size_of xs) | None \<Rightarrow> 0), es, w)" by simp
  show ?case
  proof (cases "lock_get (ae_value e)")
    case (Some xs)
    then have "a_load C D e w = (Ok xs, e, w)" by (simp add: a_load_def try_init_with_full)
    with Some I show ?thesis by (simp add: a_is_loaded_def sync_view_def)
  qed (use I in \<open>simp add: a_is_loaded_def sync_view_def\<close>)
qed simp

lemma mem_size_pure:
  "all_idle a \<Longrightarrow> \<exists>n. mem_size size_of key_size C D a w = (Ok n, a, w)"
  by (simp add: mem_size_def all_idle_def loaded_size_pure)

section \<open>An example\<close>

text \<open>Twenty-three texts in plain files: two groups, of which the second completes first.\<close>

definition two_dirs :: "fs \<Rightarrow> bool" where
  "two_dirs s \<longleftrightarrow> (\<forall>p. \<not> faulty s p \<and> \<not> full s p \<and> (dirs s p \<longleftrightarrow> p = [] \<or> p = [''r'']))"

lemma two_dirs_writable: "two_dirs s \<Longrightarrow> file_writable (join [''r''] u) s"
  by (simp add: two_dirs_def file_writable_def join_def parent_def)

lemma two_dirs_mkdir: "two_dirs s \<Longrightarrow> fs_create_dir_all [''r''] s = (Ok (), s)"
  by (simp add: two_dirs_def fs_create_dir_all_def join_def)

definition byte_ops :: "(unit, bytes, unit) coder_ops" where
  "byte_ops = \<lparr>c_pieces = (\<lambda>_ v. ([v], None)), c_write_io = (\<lambda>_. ()), c_from_io = (\<lambda>_. ()), c_parse = (\<lambda>_ b. Ok b)\<rparr>"

lemma byte_ops_facts: "coder_roundtrip byte_ops" "accepts byte_ops c v"
  by (simp_all add: coder_roundtrip_def byte_ops_def accepts_def encoding_def)

lemma mkdir_stored: "file_stored p (snd (fs_create_dir_all dir s)) = file_stored p s"
  using create_dir_all_env [of "[]" dir s] by (cases "fs_create_dir_all_from [] dir s") (simp add: fs_create_dir_all_def file_stored_def)

lemma two_dirs_fine:
  "nothing_fails two_dirs byte_ops plainfile_disk (plain_paths :: (plainfile, 'x) path_disk) () [''r'']"
proof -
  have "\<exists>s1. write_value byte_ops plainfile_disk () (plainfile_new (join [''r''] u)) v s = (Ok (), s1) \<and> two_dirs s1"
    if "two_dirs s" for s u v
  proof -
    let ?d = "plainfile_new (join [''r''] u)"
    have "file_writable (pf_path ?d) s" using two_dirs_writable [OF that] by (simp add: plainfile_new_def)
    from plain.put_writable [OF this, of "[v]"] obtain s1 where
      W: "put plainfile_disk ?d [v] True s = (Ok (), s1)" by blast
    from conjunct1 [OF buffered_file.put_touches [OF W [unfolded file_disk_ops(1)]]] that have "two_dirs s1" by (simp add: two_dirs_def touches_def)
    with W byte_ops_facts(2) show ?thesis by (simp add: write_value_put byte_ops_def)
  qed
  then show ?thesis using two_dirs_mkdir by (auto simp: nothing_fails_def plain_paths_def)
qed

theorem reencode_correct_witness:
  "\<exists>a s'. reencode byte_ops plainfile_disk (plain_paths :: (plainfile, unit) path_disk) () [''r''] (Ok :: bytes \<Rightarrow> (bytes, unit) result) [''u'', ''v''] [1, 0]
      (replicate 22 [7] @ [[8, 9]]) (snd (fs_create_dir_all [''r''] empty_fs)) = (Ok a, s') \<and>
    array_represents vec_ops byte_ops plainfile_disk (array_view (ad_array a)) s' [[8, 9], replicate 22 7] \<and>
    fst (a_get bsearch_early vec_ops byte_ops plainfile_disk 1 (ad_array a) s') = Ok 9"
proof -
  let ?raws = "replicate 22 [7] @ [[8, 9]] :: bytes list" and ?s = "snd (fs_create_dir_all [''r''] empty_fs)"
  let ?P = "plain_paths :: (plainfile, unit) path_disk"
  have G: "groups_of items_per_zstd_file ?raws = [replicate 22 [7], [[8, 9]]]"
    by (simp add: div_ceil_100 numeral_eq_Suc)
  have F: "two_dirs ?s" by (simp add: two_dirs_def fs_create_dir_all_def empty_fs_def join_def)
  have A: "apart_names ?P pf_path [''r'']" by (simp add: apart_names_def plain_paths_def plainfile_new_def join_def)
  obtain r s' where R: "reencode byte_ops plainfile_disk ?P () [''r''] (Ok :: bytes \<Rightarrow> (bytes, unit) result) [''u'', ''v''] [1, 0] ?raws ?s = (r, s')"
    by fastforce
  have L: "length [''u'', ''v''] = div_ceil (length ?raws) items_per_zstd_file" by (simp add: div_ceil_100 div_ceil_def)
  have M: "mset [1, 0] = mset [0..<length [''u'', ''v'']]" by simp
  have "\<forall>raw\<in>set ?raws. (Ok :: bytes \<Rightarrow> (bytes, unit) result) raw = Ok (id raw)" by simp
  note T = reencode_correct [OF plain.byte_disk_axioms byte_ops_facts(1) _ A _ L M this R, where fine = two_dirs]
  then have T: "(\<forall>a. r = Ok a \<longrightarrow> array_represents vec_ops byte_ops plainfile_disk (array_view (ad_array a)) s' [[8, 9], replicate 22 7] \<and>
      (\<forall>bs k. searches bs ([[8, 9], replicate 22 7] :: bytes list) \<and> k < 24 \<longrightarrow>
        fst (a_get bs vec_ops byte_ops plainfile_disk k (ad_array a) s') = Ok (([8, 9] @ replicate 22 7) ! k))) \<and> (\<exists>a. r = Ok a)"
    using F two_dirs_fine by (auto simp: mkdir_stored G concat_replicate_single)
  moreover have "searches bsearch_early ([[8, 9], replicate 22 7] :: bytes list)" by (rule searches_early) simp
  ultimately obtain a where "r = Ok a" "array_represents vec_ops byte_ops plainfile_disk (array_view (ad_array a)) s' [[8, 9], replicate 22 7]"
    "fst (a_get bsearch_early vec_ops byte_ops plainfile_disk 1 (ad_array a) s') = Ok (([8, 9] @ replicate 22 7) ! 1)"
    by (metis one_less_numeral_iff semiring_norm(76) semiring_norm(77) numeral_eq_one_iff)
  then show ?thesis using R by auto
qed

end
