(* ===== verification/Mmap_Example.thy ===== *)
theory Mmap_Example
  imports Mmap_Disk
begin

text \<open>
  The program of \<open>examples/mmap.rs\<close>: a disk is mapped, written without a flush, read back by one reader
  after the other and by several threads at once, mapped a second time and read again. The threads are
  started together by a condition variable; they and the main thread are a system of steps here, in any
  order, with the spurious wake-ups the library allows. Timing and printing are left out.
\<close>

section \<open>The parts of the program that run in sequence\<close>

definition is_err :: "('a, 'e) result \<Rightarrow> bool" where
  "is_err r = (case r of Err _ \<Rightarrow> True | _ \<Rightarrow> False)"

text \<open>Writing; meanwhile no other guard can be had. The guard is dropped without a flush.\<close>

definition write_part :: "mmap_os \<Rightarrow> bytes \<Rightarrow> mmap \<Rightarrow> mmap_world \<Rightarrow> (unit, unit) result \<times> mmap_world" where
  "write_part Os input d w =
     (case write_disk Os d w of
        (Ok _, w1) \<Rightarrow>
          (case write_disk Os d w1 of
             (q, w2) \<Rightarrow>
               if \<not> is_err q then (Panic, w2)
               else (case read_disk Os d w2 of
                   (q, w3) \<Rightarrow>
                     if \<not> is_err q then (Panic, w3)
                     else (case guard_write_all Os input d w3 of
                         (Ok _, w4) \<Rightarrow> (Ok (), release d w4)
                       | (_, w4) \<Rightarrow> (Panic, w4))))
      | (_, w1) \<Rightarrow> (Panic, w1))"

text \<open>A reader keeps writers out, not other readers.\<close>

definition share_part :: "mmap_os \<Rightarrow> mmap \<Rightarrow> mmap_world \<Rightarrow> (unit, unit) result \<times> mmap_world" where
  "share_part Os d w =
     (case read_disk Os d w of
        (Ok _, w1) \<Rightarrow>
          (case write_disk Os d w1 of
             (q, w2) \<Rightarrow>
               if \<not> is_err q then (Panic, w2)
               else (case read_disk Os d w2 of
                   (q, w3) \<Rightarrow> if is_ok q then (Ok (), release d (release d w3)) else (Panic, w3)))
      | (_, w1) \<Rightarrow> (Panic, w1))"

text \<open>\<open>read_disk().unwrap()\<close> and \<open>read_to_end(..).unwrap()\<close> of its guard.\<close>

definition read_all :: "mmap_os \<Rightarrow> mmap \<Rightarrow> mmap_world \<Rightarrow> (bytes, unit) result \<times> mmap_world" where
  "read_all Os d w = (case d_read (mmap_disk Os) d w of (Ok b, w1) \<Rightarrow> (Ok b, w1) | (_, w1) \<Rightarrow> (Panic, w1))"

text \<open>\<open>remove_dir_all\<close> removes a directory with all below it, and fails on a file.\<close>

definition fs_remove_dir_all :: "path \<Rightarrow> fs \<Rightarrow> (unit, io_error) result \<times> fs" where
  "fs_remove_dir_all p s =
     (if faulty s p then (Err PermissionDenied, s)
      else if dirs s p then
        (Ok (), s\<lparr>files := (\<lambda>q. if take (length p) q = p then None else files s q),
                  dirs := (\<lambda>q. dirs s q \<and> take (length p) q \<noteq> p)\<rparr>)
      else (Err (if files s p = None then NotFound else OtherError), s))"

section \<open>Readers in parallel\<close>

text \<open>
  A reader counts itself, locks the mutex and waits, is woken and looks at the flag, opens the disk,
  reads, and is done; it dies of a failed \<open>unwrap\<close>. The main thread spins until all have counted
  themselves, sets the flag, notifies those that wait and joins them.
\<close>

datatype reader = Counting | Locking | Waiting | Woken | Opening | Reading "nat option" | Finished bytes | Died
datatype main_phase = Spinning | Setting | Notifying | Joining
datatype bench_event = Main | Run nat | Spurious nat

record bench =
  bn_left :: nat
  bn_flag :: bool
  bn_main :: main_phase
  bn_readers :: "reader list"
  bn_world :: mmap_world

fun reader_step :: "mmap_os \<Rightarrow> mmap \<Rightarrow> bool \<Rightarrow> reader \<Rightarrow> mmap_world \<Rightarrow> reader \<times> mmap_world" where
  "reader_step Os d flag Counting w = (Locking, w)"
| "reader_step Os d flag Locking w = (Waiting, w)"
| "reader_step Os d flag Woken w = (if flag then Opening else Locking, w)"
| "reader_step Os d flag Opening w = (case read_disk Os d w of (Ok m, w1) \<Rightarrow> (Reading m, w1) | (_, w1) \<Rightarrow> (Died, w1))"
| "reader_step Os d flag (Reading m) w = (case guard_bytes d m w of Ok b \<Rightarrow> Finished b | _ \<Rightarrow> Died, release d w)"
| "reader_step Os d flag r w = (r, w)"

definition notified :: "reader \<Rightarrow> reader" where
  "notified r = (if r = Waiting then Woken else r)"

fun bench_step :: "mmap_os \<Rightarrow> mmap \<Rightarrow> bench_event \<Rightarrow> bench \<Rightarrow> bench" where
  "bench_step Os d Main b =
     (case bn_main b of
        Spinning \<Rightarrow> if bn_left b = 0 then b\<lparr>bn_main := Setting\<rparr> else b
      | Setting \<Rightarrow> b\<lparr>bn_flag := True, bn_main := Notifying\<rparr>
      | Notifying \<Rightarrow> b\<lparr>bn_readers := map notified (bn_readers b), bn_main := Joining\<rparr>
      | Joining \<Rightarrow> b)"
| "bench_step Os d (Run t) b =
     (if t < length (bn_readers b) then
        (case reader_step Os d (bn_flag b) (bn_readers b ! t) (bn_world b) of
           (r, w) \<Rightarrow> b\<lparr>bn_left := (if bn_readers b ! t = Counting then bn_left b - 1 else bn_left b),
               bn_readers := (bn_readers b)[t := r], bn_world := w\<rparr>)
      else b)"
| "bench_step Os d (Spurious t) b =
     (if t < length (bn_readers b) then b\<lparr>bn_readers := (bn_readers b)[t := notified (bn_readers b ! t)]\<rparr> else b)"

definition bench_start :: "nat \<Rightarrow> mmap_world \<Rightarrow> bench" where
  "bench_start k w =
     \<lparr>bn_left = k, bn_flag = False, bn_main = Spinning, bn_readers = replicate k Counting, bn_world = w\<rparr>"

definition bench_run :: "mmap_os \<Rightarrow> mmap \<Rightarrow> bench_event list \<Rightarrow> bench \<Rightarrow> bench" where
  "bench_run Os d evs b = fold (bench_step Os d) evs b"

text \<open>\<open>join().unwrap()\<close> of every thread in order; \<open>None\<close> while one of them has not ended.\<close>

fun join_all :: "reader list \<Rightarrow> (bytes list, unit) result option" where
  "join_all [] = Some (Ok [])"
| "join_all (r # rs) =
     (case r of
        Finished b \<Rightarrow> map_option (map_ok (\<lambda>bs. b # bs)) (join_all rs)
      | Died \<Rightarrow> Some Panic
      | _ \<Rightarrow> None)"

definition parallel_reads ::
  "mmap_os \<Rightarrow> mmap \<Rightarrow> nat \<Rightarrow> bench_event list \<Rightarrow> mmap_world \<Rightarrow> (bytes list, unit) result option \<times> mmap_world" where
  "parallel_reads Os d k evs w =
     (let b = bench_run Os d evs (bench_start k w) in
      (if bn_main b = Joining then join_all (bn_readers b) else None, bn_world b))"

section \<open>The program\<close>

text \<open>\<open>unwrap\<close>, and what comes after it.\<close>

definition unwrap_then ::
  "('a, 'e) result \<times> 'w \<Rightarrow> ('a \<Rightarrow> 'w \<Rightarrow> ('b, unit) result option \<times> 'w) \<Rightarrow> ('b, unit) result option \<times> 'w" where
  "unwrap_then x f = (case x of (Ok v, w) \<Rightarrow> f v w | (_, w) \<Rightarrow> (Some Panic, w))"

text \<open>
  All buffers that are read, in the order they are. \<open>cores\<close> is \<open>available_parallelism\<close>, \<open>evs\<close> the steps of the
  threads, \<open>i\<close> and \<open>j\<close> the cells of the two disks; \<open>None\<close> is a run that is not over.
\<close>

definition mmap_example ::
  "mmap_os \<Rightarrow> path \<Rightarrow> nat \<Rightarrow> nat \<Rightarrow> bytes \<Rightarrow> nat \<Rightarrow> bench_event list \<Rightarrow> mmap_world \<Rightarrow>
     (bytes list, unit) result option \<times> mmap_world" where
  "mmap_example Os p i j input cores evs w =
     unwrap_then (mmap_new Os p i w) (\<lambda>d w.
     unwrap_then (write_part Os input d w) (\<lambda>_ w.
     unwrap_then (share_part Os d w) (\<lambda>_ w.
     unwrap_then (read_all Os d w) (\<lambda>b1 w.
     unwrap_then (read_all Os d w) (\<lambda>b2 w.
       (case (if 1 < cores div 2 then parallel_reads Os d (cores div 2) evs w else (Some (Ok []), w)) of
          (None, w) \<Rightarrow> (None, w)
        | (Some x, w) \<Rightarrow>
            unwrap_then (x, w) (\<lambda>bs w.
            unwrap_then (mmap_new Os p j w) (\<lambda>d w.
            unwrap_then (read_all Os d w) (\<lambda>b3 w.
            unwrap_then (read_all Os d w) (\<lambda>b4 w.
              (Some (Ok (b1 # b2 # bs @ [b3, b4])), w\<lparr>mw_fs := snd (fs_remove_dir_all p (mw_fs w))\<rparr>)))))))))))"

section \<open>A mapping that is read\<close>

text \<open>\<open>reading d c g w\<close>: the disk is mapped for reading, shows \<open>c\<close>, and has \<open>g\<close> guards.\<close>

definition shows_bytes :: "nat option \<Rightarrow> bytes \<Rightarrow> bool" where
  "shows_bytes m c \<longleftrightarrow> (case m of None \<Rightarrow> c = [] | Some n \<Rightarrow> n = length c)"

definition reading :: "mmap \<Rightarrow> bytes \<Rightarrow> nat \<Rightarrow> mmap_world \<Rightarrow> bool" where
  "reading d c g w \<longleftrightarrow> \<not> cell_poisoned (cell_of d w) \<and> files (mw_fs w) (mm_path d) = Some c \<and>
     (\<exists>m. cell_map (cell_of d w) = ReadMap m g \<and> shows_bytes m c)"

lemma reading_read:
  "reading d c g w \<Longrightarrow> \<exists>m w1. read_disk Os d w = (Ok m, w1) \<and> shows_bytes m c \<and> reading d c (Suc g) w1 \<and> mw_fs w1 = mw_fs w"
  by (auto simp: reading_def read_disk_def with_map_def read_handle_def read_ret_def Let_def)

lemma reading_write: "reading d c (Suc g) w \<Longrightarrow> write_disk Os d w = (Err OtherError, w)"
  by (auto simp: reading_def write_disk_def with_map_def write_handle_def Let_def set_cell_def fun_upd_idem_iff)

lemma reading_release: "reading d c (Suc g) w \<Longrightarrow> reading d c g (release d w) \<and> mw_fs (release d w) = mw_fs w"
  by (auto simp: reading_def release_def drop_guard_def Let_def)

lemma reading_bytes: "reading d c g w \<Longrightarrow> shows_bytes m c \<Longrightarrow> guard_bytes d m w = Ok c"
  by (auto simp: reading_def shows_bytes_def guard_bytes_def split: option.splits)

lemma reading_all: "reading d c 0 w \<Longrightarrow> \<exists>w1. read_all Os d w = (Ok c, w1) \<and> reading d c 0 w1 \<and> mw_fs w1 = mw_fs w"
  using reading_read [of d c 0 w Os] reading_bytes reading_release
  by (fastforce simp: read_all_def mmap_disk_def)

lemma share_part_returns:
  assumes "reading d c 0 w"
  shows "\<exists>w1. share_part Os d w = (Ok (), w1) \<and> reading d c 0 w1 \<and> mw_fs w1 = mw_fs w"
proof -
  obtain m w1 where 1: "read_disk Os d w = (Ok m, w1)" "reading d c (Suc 0) w1" "mw_fs w1 = mw_fs w"
    using reading_read [OF assms] by blast
  obtain m2 w2 where 2: "read_disk Os d w1 = (Ok m2, w2)" "reading d c (Suc (Suc 0)) w2" "mw_fs w2 = mw_fs w"
    using reading_read [OF 1(2)] 1(3) by metis
  have "share_part Os d w = (Ok (), release d (release d w2))"
    using 1(1) 2(1) reading_write [OF 1(2)] by (simp add: share_part_def is_err_def is_ok_iff)
  with 2 reading_release show ?thesis by metis
qed

lemma mmap_new_reads:
  assumes "willing Os p" and "file_writable p (mw_fs w)"
  shows "\<exists>w1 c. mmap_new Os p i w = (Ok \<lparr>mm_path = p, mm_cell = i\<rparr>, w1) \<and> reading \<lparr>mm_path = p, mm_cell = i\<rparr> c 0 w1 \<and>
    file_writable p (mw_fs w1) \<and> (\<forall>c'. files (mw_fs w) p = Some c' \<longrightarrow> c = c' \<and> mw_fs w1 = mw_fs w)"
proof -
  obtain s1 where F: "open_mmap_file p (mw_fs w) = (Ok (), s1)" using open_mmap_works [OF assms(2)] by blast
  then obtain c where c: "files s1 p = Some c" using open_mmap_file_there by blast
  have "\<exists>m. new_arc Os p (mw_fs w) = (Ok m, s1) \<and> shows_bytes m c"
    using F c assms(1) by (cases "c = []") (simp_all add: new_arc_def map_file_def willing_def file_len_def shows_bytes_def)
  then obtain m where N: "new_arc Os p (mw_fs w) = (Ok m, s1)" "shows_bytes m c" by blast
  have "file_writable p s1" using touches_writable [OF open_mmap_touches [OF F]] assms(2) by simp
  moreover have "c = c' \<and> s1 = mw_fs w" if "files (mw_fs w) p = Some c'" for c'
    using open_mmap_existing [OF that F] that c by simp
  ultimately show ?thesis using N c by (auto simp: mmap_new_def reading_def)
qed

section \<open>A session that was not flushed\<close>

lemma writing_closed:
  assumes "writing d c w"
  shows "write_disk Os d w = (Err OtherError, w)" and "read_disk Os d w = (Err OtherError, w)"
  using assms
  by (auto simp: writing_def write_disk_def read_disk_def with_map_def write_handle_def read_handle_def Let_def
      set_cell_def fun_upd_idem_iff)

lemma write_part_returns:
  assumes "reading d c 0 w" and "willing Os (mm_path d)" and "file_writable (mm_path d) (mw_fs w)"
  shows "\<exists>w1. write_part Os input d w = (Ok (), w1) \<and> tidy d w1 \<and> pending d w1 = input \<and>
    (\<exists>m. cell_map (cell_of d w1) = WriteMap m 0) \<and> file_writable (mm_path d) (mw_fs w1)"
proof -
  have t: "tidy d w" "pending d w = []"
    using assms(1) by (auto simp: reading_def tidy_def pending_def shows_bytes_def)
  have N: "\<exists>m s1. no_advise Os (mm_path d) (mw_fs w) = (Ok m, s1)"
    using open_mmap_works [OF assms(3)] assms(2) by (auto simp: no_advise_def set_len_def map_file_def willing_def)
  obtain x where x: "cell_map (cell_of d w) = ReadMap x 0" "\<not> cell_poisoned (cell_of d w)" using assms(1) by (auto simp: reading_def)
  have "\<exists>w1. write_disk Os d w = (Ok (), w1)"
    using N x assms(2) by (cases x) (auto simp: write_disk_def with_map_def write_handle_def Let_def willing_def)
  then obtain w1 where W: "write_disk Os d w = (Ok (), w1)" by blast
  from write_disk_Ok [OF t(1) W] t(2) have o: "writing d [] w1" "touches (mm_path d) (mw_fs w) (mw_fs w1)" by simp_all
  then have f: "file_writable (mm_path d) (mw_fs w1)" using assms(3) touches_writable by blast
  from guard_write_all_works [OF o(1) assms(2) f] obtain w2 where G: "guard_write_all Os input d w1 = (Ok (), w2)" by blast
  from guard_write_all_Ok [OF o(1) G] have g: "writing d input w2" "touches (mm_path d) (mw_fs w1) (mw_fs w2)" by simp_all
  have "write_part Os input d w = (Ok (), release d w2)"
    using W G writing_closed [OF o(1)] by (simp add: write_part_def is_err_def)
  moreover have "tidy d (release d w2) \<and> pending d (release d w2) = input \<and> (\<exists>m. cell_map (cell_of d (release d w2)) = WriteMap m 0)"
    using g(1) by (auto simp: writing_def tidy_def pending_def release_def drop_guard_def Let_def)
  moreover have "file_writable (mm_path d) (mw_fs (release d w2))"
    using touches_writable [OF g(2)] f by (simp add: release_def Let_def)
  ultimately show ?thesis by blast
qed

lemma mw_file_there: "mapped m s \<Longrightarrow> file_writable (mw_path m) s \<Longrightarrow> mw_file m s = (Ok (), s)"
  using open_mmap_works [of "mw_path m" s] open_mmap_existing [of s "mw_path m"] by (auto simp: mw_file_def mapped_def)

lemma truncate_works:
  assumes "mapped m s" and "willing Os (mw_path m)" and "file_writable (mw_path m) s"
  shows "\<exists>m1 s1. mw_truncate Os m s = (Ok (), m1, s1) \<and> mapped m1 s1 \<and> reserved_len m1 = written_len m1 \<and> grown m s m1 s1"
proof -
  have "\<exists>m1 s1. mw_truncate Os m s = (Ok (), m1, s1)"
    using mw_file_there [OF assms(1,3)] assms(2) by (auto simp: mw_truncate_def set_len_def remap_def willing_def)
  then obtain m1 s1 where "mw_truncate Os m s = (Ok (), m1, s1)" by blast
  with truncate_mapped [OF assms(1) this] show ?thesis by blast
qed

lemma get_map_works:
  assumes "mapped m s" and "willing Os (mw_path m)" and "file_writable (mw_path m) s"
  shows "\<exists>m1 s1. get_map Os m s = (Ok (written_len m), m1, s1) \<and> files s1 (mw_path m) = Some (mw_bytes m s) \<and> touches (mw_path m) s s1"
proof -
  from truncate_works [OF assms] obtain m1 s1 where
    T: "mw_truncate Os m s = (Ok (), m1, s1)" "mapped m1 s1" "reserved_len m1 = written_len m1" "grown m s m1 s1" by blast
  have p: "mw_path m1 = mw_path m" "written_len m1 = written_len m" "touches (mw_path m) s s1" using T(4) by (simp_all add: grown_def)
  have F: "mw_flush Os m s = (Ok (), m1, s1)" using T(1) p(1) assms(2) by (simp add: mw_flush_def willing_def)
  have "file_writable (mw_path m1) s1" using p(1) touches_writable [OF p(3)] assms(3) by simp
  note there = mw_file_there [OF T(2) this]
  have "get_map Os m s = (Ok (mw_map m1), m1, s1)"
    using F there T(3) assms(2) p(1) by (simp add: get_map_def map_file_def willing_def mw_drop_def mw_truncate_def)
  moreover have "mw_map m1 = written_len m" using T(2,3) p(2) by (simp add: mapped_def)
  ultimately show ?thesis using flush_mapped [OF assms(1) F] p(3) by simp
qed

text \<open>What is written and dropped without a flush is there for the next read, and in the file from then on.\<close>

lemma unflushed_read:
  assumes "tidy d w" and "cell_map (cell_of d w) = WriteMap m 0"
    and "willing Os (mm_path d)" and "file_writable (mm_path d) (mw_fs w)"
  shows "\<exists>x w1. read_disk Os d w = (Ok x, w1) \<and> reading d (pending d w) (Suc 0) w1 \<and> touches (mm_path d) (mw_fs w) (mw_fs w1)"
proof -
  have m: "mapped m (mw_fs w)" "mw_path m = mm_path d" "\<not> cell_poisoned (cell_of d w)" using assms(1,2) by (simp_all add: tidy_def)
  have b: "pending d w = mw_bytes m (mw_fs w)" using assms(2) by (simp add: pending_def)
  have len: "length (mw_bytes m (mw_fs w)) = written_len m" using m(1) by (auto simp: mapped_def mw_bytes_def)
  note ready = m(1) assms(3,4) [folded m(2)]
  show ?thesis
  proof (cases "0 < written_len m")
    case True
    from get_map_works [OF ready] obtain m1 s1 where
      G: "get_map Os m (mw_fs w) = (Ok (written_len m), m1, s1)" "files s1 (mm_path d) = Some (mw_bytes m (mw_fs w))"
        "touches (mm_path d) (mw_fs w) s1" using m(2) by auto
    have "read_handle Os (mm_path d) (cell_map (cell_of d w)) (mw_fs w) = (Ok (Some (written_len m)), ReadMap (Some (written_len m)) 1, s1)"
      using True G(1) assms(2,3) by (simp add: read_handle_def read_ret_def willing_def)
    with G m(3) b len show ?thesis by (simp add: read_disk_def with_map_def Let_def reading_def shows_bytes_def)
  next
    case False
    from truncate_works [OF ready] obtain m1 s1 where
      T: "mw_truncate Os m (mw_fs w) = (Ok (), m1, s1)" "mapped m1 s1" "reserved_len m1 = written_len m1" "grown m (mw_fs w) m1 s1" by blast
    then have e: "files s1 (mm_path d) = Some []" "touches (mm_path d) (mw_fs w) s1"
      using False m(2) by (auto simp: mapped_def grown_def)
    have "read_handle Os (mm_path d) (cell_map (cell_of d w)) (mw_fs w) = (Ok None, ReadMap None 1, s1)"
      using False T(1) assms(2) by (simp add: read_handle_def read_ret_def mw_drop_def)
    with e m(3) b len False show ?thesis by (simp add: read_disk_def with_map_def Let_def reading_def shows_bytes_def)
  qed
qed

section \<open>The readers\<close>

text \<open>How far a reader is, and what it can have seen.\<close>

fun stage :: "reader \<Rightarrow> nat" where
  "stage Counting = 0"
| "stage Locking = 1"
| "stage Waiting = 2"
| "stage Woken = 3"
| "stage Opening = 4"
| "stage (Reading m) = 5"
| "stage (Finished b) = 6"
| "stage Died = 7"

definition reader_ok :: "bytes \<Rightarrow> reader \<Rightarrow> bool" where
  "reader_ok c r \<longleftrightarrow> r \<noteq> Died \<and> (\<forall>m. r = Reading m \<longrightarrow> shows_bytes m c) \<and> (\<forall>b. r = Finished b \<longrightarrow> b = c)"

lemma reader_ok_simps [simp]:
  "reader_ok c Counting" "reader_ok c Locking" "reader_ok c Waiting" "reader_ok c Woken" "reader_ok c Opening"
  "reader_ok c (Reading m) \<longleftrightarrow> shows_bytes m c" "reader_ok c (Finished b) \<longleftrightarrow> b = c" "\<not> reader_ok c Died"
  by (simp_all add: reader_ok_def)

lemma notified_ok [simp]: "reader_ok c (notified r) = reader_ok c r" "stage (notified r) = (if stage r = 2 then 3 else stage r)"
  by (cases r; simp add: notified_def)+

lemma reader_step_ok:
  assumes "reading d c g w" and "reader_ok c r" and "stage r = 5 \<longrightarrow> 0 < g" and "reader_step Os d flag r w = (r', w')"
  shows "reader_ok c r' \<and> mw_fs w' = mw_fs w \<and>
    reading d c (g - (if stage r = 5 then 1 else 0) + (if stage r' = 5 then 1 else 0)) w' \<and>
    (stage r \<notin> {2, 6} \<and> (stage r = 3 \<longrightarrow> flag) \<longrightarrow> stage r' = Suc (stage r))"
proof (cases r)
  case Opening
  with assms reading_read [OF assms(1), of Os] show ?thesis by auto
next
  case (Reading m)
  with assms(1,3) reading_release [of d c "g - 1" w] have "reading d c (g - 1) (release d w)" "mw_fs (release d w) = mw_fs w" by simp_all
  with Reading assms(1,2,4) reading_bytes [OF assms(1)] show ?thesis by auto
qed (use assms in \<open>auto split: if_splits\<close>)

text \<open>\<open>sound d c s b\<close>: the mapping counts the readers that hold a guard, and no reader has failed or seen anything else.\<close>

definition holders :: "reader list \<Rightarrow> nat" where
  "holders rs = length (filter (\<lambda>r. stage r = 5) rs)"

definition sound :: "mmap \<Rightarrow> bytes \<Rightarrow> fs \<Rightarrow> bench \<Rightarrow> bool" where
  "sound d c s b \<longleftrightarrow> reading d c (holders (bn_readers b)) (bn_world b) \<and> mw_fs (bn_world b) = s \<and> (\<forall>r\<in>set (bn_readers b). reader_ok c r)"

lemma holders_pos: "t < length rs \<Longrightarrow> stage (rs ! t) = 5 \<Longrightarrow> 0 < holders rs"
  by (auto simp: holders_def filter_empty_conv dest: nth_mem)

lemma holders_update:
  "t < length rs \<Longrightarrow> holders (rs[t := r]) = holders rs - (if stage (rs ! t) = 5 then 1 else 0) + (if stage r = 5 then 1 else 0)"
proof (induction rs arbitrary: t)
  case (Cons x xs)
  show ?case
  proof (cases t)
    case (Suc n)
    with Cons show ?thesis using holders_pos [of n xs] by (auto simp: holders_def)
  qed (simp add: holders_def)
qed simp

lemma holders_notified: "holders (map notified rs) = holders rs"
  by (induction rs) (auto simp: holders_def)

lemma bench_step_sound:
  assumes "sound d c s b"
  shows "sound d c s (bench_step Os d e b) \<and> length (bn_readers (bench_step Os d e b)) = length (bn_readers b)"
proof (cases e)
  case Main
  with assms holders_notified show ?thesis by (auto simp: sound_def split: main_phase.split)
next
  case (Run t)
  show ?thesis
  proof (cases "t < length (bn_readers b)")
    case True
    obtain r w where S: "reader_step Os d (bn_flag b) (bn_readers b ! t) (bn_world b) = (r, w)" by fastforce
    have "reader_ok c (bn_readers b ! t)" using assms True by (simp add: sound_def)
    from reader_step_ok [OF _ this _ S, of "holders (bn_readers b)"] assms holders_pos [OF True]
    have "reader_ok c r" "mw_fs w = s" "reading d c (holders ((bn_readers b)[t := r])) w"
      by (simp_all add: sound_def holders_update [OF True])
    with Run True S assms show ?thesis by (auto simp: sound_def dest: set_update_subset_insert [THEN subsetD])
  qed (use Run assms in simp)
next
  case (Spurious t)
  have "\<forall>x\<in>set ((bn_readers b)[t := notified (bn_readers b ! t)]). reader_ok c x" if "t < length (bn_readers b)"
    using that assms by (auto simp: sound_def dest!: set_update_subset_insert [THEN subsetD])
  with Spurious assms show ?thesis using holders_pos [of t "bn_readers b"] by (auto simp: sound_def holders_update)
qed

lemma bench_run_simps [simp]: "bench_run Os d [] b = b" "bench_run Os d (e # es) b = bench_run Os d es (bench_step Os d e b)"
  "bench_run Os d (es @ fs) b = bench_run Os d fs (bench_run Os d es b)"
  by (simp_all add: bench_run_def)

lemma bench_run_sound:
  "sound d c s b \<Longrightarrow> sound d c s (bench_run Os d es b) \<and> length (bn_readers (bench_run Os d es b)) = length (bn_readers b)"
proof (induction es arbitrary: b)
  case (Cons e es)
  from bench_step_sound [OF Cons.prems, of Os e] Cons.IH [of "bench_step Os d e b"] show ?case by simp
qed simp

lemma join_all_ok:
  "\<forall>r\<in>set rs. reader_ok c r \<Longrightarrow> join_all rs = (if \<forall>r\<in>set rs. stage r = 6 then Some (Ok (replicate (length rs) c)) else None)"
proof (induction rs)
  case (Cons r rs)
  then show ?case by (cases r) auto
qed simp

lemma bench_start_sound: "reading d c 0 w \<Longrightarrow> sound d c (mw_fs w) (bench_start k w)"
  by (simp add: sound_def bench_start_def holders_def)

text \<open>A step of every reader, when all are equally far and none has to wait.\<close>

lemma pass_prefix:
  fixes Os :: mmap_os
  assumes "sound d c s b" and "\<forall>r\<in>set (bn_readers b). stage r = n" and "n \<notin> {2, 6}" and "n = 3 \<longrightarrow> bn_flag b"
    and "i \<le> length (bn_readers b)"
  defines "b' \<equiv> bench_run Os d (map Run [0..<i]) b"
  shows "(\<forall>t<length (bn_readers b). stage (bn_readers b' ! t) = (if t < i then Suc n else n)) \<and>
    bn_left b' = bn_left b - (if n = 0 then i else 0) \<and> bn_flag b' = bn_flag b \<and> bn_main b' = bn_main b"
  using assms(5) unfolding b'_def
proof (induction i)
  case (Suc i)
  let ?b = "bench_run Os d (map Run [0..<i]) b"
  from bench_run_sound [OF assms(1), of Os "map Run [0..<i]"] Suc.prems
  have S: "sound d c s ?b" "i < length (bn_readers ?b)" "length (bn_readers ?b) = length (bn_readers b)" by auto
  from Suc have I: "\<forall>t<length (bn_readers b). stage (bn_readers ?b ! t) = (if t < i then Suc n else n)"
    "bn_left ?b = bn_left b - (if n = 0 then i else 0)" "bn_flag ?b = bn_flag b" "bn_main ?b = bn_main b" by auto
  obtain r w where R: "reader_step Os d (bn_flag ?b) (bn_readers ?b ! i) (bn_world ?b) = (r, w)" by fastforce
  have "stage (bn_readers ?b ! i) = n" using I(1) Suc.prems by simp
  moreover have "reader_ok c (bn_readers ?b ! i)" using S by (simp add: sound_def)
  ultimately have "stage r = Suc n"
    using reader_step_ok [OF _ _ _ R, of c "holders (bn_readers ?b)"] S holders_pos [OF S(2)] assms(3,4) I(3)
    by (auto simp: sound_def)
  moreover have "(bn_readers ?b ! i = Counting) = (n = 0)"
    using \<open>stage (bn_readers ?b ! i) = n\<close> by (cases "bn_readers ?b ! i") auto
  ultimately show ?case using R S(2,3) I by (auto simp: nth_list_update less_Suc_eq)
qed (use assms(2) in simp)

text \<open>\<open>level d c s k n b\<close>: \<open>k\<close> readers, all at stage \<open>n\<close>.\<close>

definition level :: "mmap \<Rightarrow> bytes \<Rightarrow> fs \<Rightarrow> nat \<Rightarrow> nat \<Rightarrow> bench \<Rightarrow> bool" where
  "level d c s k n b \<longleftrightarrow> sound d c s b \<and> length (bn_readers b) = k \<and> (\<forall>r\<in>set (bn_readers b). stage r = n)"

lemma pass:
  assumes "level d c s k n b" and "n \<notin> {2, 6}" and "n = 3 \<longrightarrow> bn_flag b" and "bench_run Os d (map Run [0..<k]) b = b'"
  shows "level d c s k (Suc n) b' \<and> bn_left b' = bn_left b - (if n = 0 then k else 0) \<and> bn_flag b' = bn_flag b \<and> bn_main b' = bn_main b"
proof -
  have L: "sound d c s b" "length (bn_readers b) = k" "\<forall>r\<in>set (bn_readers b). stage r = n" using assms(1) by (simp_all add: level_def)
  from bench_run_sound [OF L(1), of Os "map Run [0..<k]"] L(2) have S: "sound d c s b'" "length (bn_readers b') = k" by (simp_all add: assms(4))
  from pass_prefix [OF L(1,3) assms(2,3) order_refl, of Os] L(2) S show ?thesis
    by (auto simp: in_set_conv_nth level_def assms(4))
qed

lemma level_start: "reading d c 0 w \<Longrightarrow> level d c (mw_fs w) k 0 (bench_start k w)"
  using bench_start_sound [of d c w k] by (simp add: level_def bench_start_def)

lemma main_notifies:
  assumes "bn_left b = 0" and "bn_main b = Spinning"
  shows "bench_run Os d [Main, Main, Main] b = b\<lparr>bn_flag := True, bn_main := Joining, bn_readers := map notified (bn_readers b)\<rparr>"
  using assms by simp

section \<open>When the readers start\<close>

text \<open>Every reader waits before the main thread notifies: all are woken, read, and are joined.\<close>

definition good_schedule :: "nat \<Rightarrow> bench_event list" where
  "good_schedule k =
     map Run [0..<k] @ map Run [0..<k] @ [Main, Main, Main] @ map Run [0..<k] @ map Run [0..<k] @ map Run [0..<k]"

lemma good_schedule_ends:
  assumes "reading d c 0 w"
  shows "fst (parallel_reads Os d k (good_schedule k) w) = Some (Ok (replicate k c))"
proof -
  let ?all = "map Run [0..<k]" and ?s = "mw_fs w"
  obtain b1 where 1: "bench_run Os d ?all (bench_start k w) = b1" by blast
  from pass [OF level_start [OF assms] _ _ 1] have b1: "level d c ?s k 1 b1" "bn_left b1 = 0" "bn_main b1 = Spinning"
    by (simp_all add: bench_start_def)
  obtain b2 where 2: "bench_run Os d ?all b1 = b2" by blast
  from pass [OF b1(1) _ _ 2] b1 have b2: "level d c ?s k 2 b2" "bn_left b2 = 0" "bn_main b2 = Spinning" by (simp_all add: numeral_2_eq_2)
  obtain b3 where 3: "bench_run Os d [Main, Main, Main] b2 = b3" by blast
  then have b3': "b3 = b2\<lparr>bn_flag := True, bn_main := Joining, bn_readers := map notified (bn_readers b2)\<rparr>"
    unfolding main_notifies [OF b2(2,3)] by simp
  then have b3: "level d c ?s k 3 b3" "bn_flag b3" "bn_main b3 = Joining"
    using b2(1) holders_notified [of "bn_readers b2"] by (auto simp: level_def sound_def)
  obtain b4 where 4: "bench_run Os d ?all b3 = b4" by blast
  from pass [OF b3(1) _ _ 4] b3 have b4: "level d c ?s k 4 b4" "bn_main b4 = Joining" by simp_all
  obtain b5 where 5: "bench_run Os d ?all b4 = b5" by blast
  from pass [OF b4(1) _ _ 5] b4 have b5: "level d c ?s k 5 b5" "bn_main b5 = Joining" by simp_all
  obtain b6 where 6: "bench_run Os d ?all b5 = b6" by blast
  from pass [OF b5(1) _ _ 6] b5 have b6: "level d c ?s k 6 b6" "bn_main b6 = Joining" by simp_all
  have "bench_run Os d (good_schedule k) (bench_start k w) = b6" unfolding good_schedule_def bench_run_simps(3) 1 2 3 4 5 6 ..
  with b6 join_all_ok [of "bn_readers b6" c] show ?thesis
    by (auto simp: parallel_reads_def Let_def sound_def level_def simp del: bench_run_simps)
qed

text \<open>The main thread notifies after a reader has counted itself and before it waits: nobody wakes that reader.\<close>

definition missed_schedule :: "nat \<Rightarrow> bench_event list" where
  "missed_schedule k = map Run [0..<k] @ [Main, Main, Main, Run 0]"

definition spurious :: "bench_event \<Rightarrow> bool" where
  "spurious e = (case e of Spurious _ \<Rightarrow> True | _ \<Rightarrow> False)"

lemma still_waiting:
  assumes "\<forall>e\<in>set es. \<not> spurious e" and "bn_main b = Joining" and "t < length (bn_readers b)" and "bn_readers b ! t = Waiting"
  shows "bn_readers (bench_run Os d es b) ! t = Waiting \<and> t < length (bn_readers (bench_run Os d es b))"
  using assms
proof (induction es arbitrary: b)
  case (Cons e es)
  let ?b = "bench_step Os d e b"
  have "bn_main ?b = Joining" "t < length (bn_readers ?b)" "bn_readers ?b ! t = Waiting"
    using Cons.prems by (cases e; auto simp: spurious_def nth_list_update split: prod.split)+
  with Cons.IH [of ?b] Cons.prems(1) show ?case by simp
qed simp

lemma join_all_waits: "Waiting \<in> set rs \<Longrightarrow> Died \<notin> set rs \<Longrightarrow> join_all rs = None"
  by (induction rs) (auto split: reader.split)

lemma missed_never_ends:
  assumes "reading d c 0 w" and "0 < k" and "\<forall>e\<in>set later. \<not> spurious e"
  shows "fst (parallel_reads Os d k (missed_schedule k @ later) w) = None"
proof -
  obtain b1 where 1: "bench_run Os d (map Run [0..<k]) (bench_start k w) = b1" by blast
  from pass [OF level_start [OF assms(1)] _ _ 1] have b1: "level d c (mw_fs w) k 1 b1" "bn_left b1 = 0" "bn_main b1 = Spinning"
    by (simp_all add: bench_start_def)
  then have "stage (bn_readers b1 ! 0) = 1" "0 < length (bn_readers b1)" using assms(2) by (simp_all add: level_def)
  then have "bn_readers b1 ! 0 = Locking" by (cases "bn_readers b1 ! 0") simp_all
  obtain b2 where 2: "bench_run Os d [Main, Main, Main, Run 0] b1 = b2" by blast
  have b2: "bn_main b2 = Joining" "0 < length (bn_readers b2)" "bn_readers b2 ! 0 = Waiting"
    using 2 b1(2,3) \<open>bn_readers b1 ! 0 = Locking\<close> \<open>0 < length (bn_readers b1)\<close> by (auto simp: notified_def)
  obtain b where 3: "bench_run Os d later b2 = b" by blast
  have R: "bench_run Os d (missed_schedule k @ later) (bench_start k w) = b"
    unfolding missed_schedule_def bench_run_simps(3) 1 2 3 ..
  have "Waiting \<in> set (bn_readers b)" using still_waiting [OF assms(3) b2, of Os d] 3 by (metis nth_mem)
  moreover have "sound d c (mw_fs w) b" using bench_run_sound [OF bench_start_sound [OF assms(1)]] R by metis
  then have "Died \<notin> set (bn_readers b)" by (auto simp: sound_def)
  ultimately show ?thesis using join_all_waits R by (simp add: parallel_reads_def Let_def del: bench_run_simps)
qed

lemma parallel_reads_sound:
  assumes "reading d c 0 w" and "parallel_reads Os d k evs w = (x, w')"
  shows "(x = None \<or> x = Some (Ok (replicate k c))) \<and> mw_fs w' = mw_fs w \<and> (\<exists>g. reading d c g w')"
proof -
  have S: "sound d c (mw_fs w) (bench_run Os d evs (bench_start k w))" "length (bn_readers (bench_run Os d evs (bench_start k w))) = k"
    using bench_run_sound [OF bench_start_sound [OF assms(1)]] by (simp_all add: bench_start_def)
  with join_all_ok assms(2) show ?thesis by (auto simp: parallel_reads_def Let_def sound_def)
qed

section \<open>The program is correct when it ends\<close>

lemma before_the_readers:
  assumes "willing Os p" and "file_writable p (mw_fs w)"
  shows "\<exists>d w5. reading d input 0 w5 \<and> mm_path d = p \<and> file_writable p (mw_fs w5) \<and>
    (\<forall>evs. mmap_example Os p i j input cores evs w =
       (case (if 1 < cores div 2 then parallel_reads Os d (cores div 2) evs w5 else (Some (Ok []), w5)) of
          (None, w) \<Rightarrow> (None, w)
        | (Some x, w) \<Rightarrow>
            unwrap_then (x, w) (\<lambda>bs w.
            unwrap_then (mmap_new Os p j w) (\<lambda>d w.
            unwrap_then (read_all Os d w) (\<lambda>b3 w.
            unwrap_then (read_all Os d w) (\<lambda>b4 w.
              (Some (Ok (input # input # bs @ [b3, b4])), w\<lparr>mw_fs := snd (fs_remove_dir_all p (mw_fs w))\<rparr>)))))))"
proof -
  let ?d = "\<lparr>mm_path = p, mm_cell = i\<rparr>"
  obtain w1 c where 1: "mmap_new Os p i w = (Ok ?d, w1)" "reading ?d c 0 w1" "file_writable p (mw_fs w1)"
    using mmap_new_reads [OF assms] by blast
  obtain w2 m where 2: "write_part Os input ?d w1 = (Ok (), w2)" "tidy ?d w2" "pending ?d w2 = input"
    "cell_map (cell_of ?d w2) = WriteMap m 0" "file_writable p (mw_fs w2)"
    using write_part_returns [OF 1(2), of Os input] assms(1) 1(3) by auto
  obtain x w3 where 3: "read_disk Os ?d w2 = (Ok x, w3)" "reading ?d input (Suc 0) w3" "file_writable p (mw_fs w3)"
    using unflushed_read [OF 2(2,4), of Os] assms(1) 2(3,5) touches_writable by fastforce
  obtain y w4 where 4: "read_disk Os ?d w3 = (Ok y, w4)" "reading ?d input (Suc (Suc 0)) w4" "mw_fs w4 = mw_fs w3"
    using reading_read [OF 3(2)] by blast
  let ?w4 = "release ?d (release ?d w4)"
  have S: "share_part Os ?d w2 = (Ok (), ?w4)"
    using 3(1) 4(1) reading_write [OF 3(2)] by (simp add: share_part_def is_err_def is_ok_iff)
  have R: "reading ?d input 0 ?w4" "mw_fs ?w4 = mw_fs w3" using reading_release 4(2,3) by metis+
  obtain w5 where 5: "read_all Os ?d ?w4 = (Ok input, w5)" "reading ?d input 0 w5" "mw_fs w5 = mw_fs w3"
    using reading_all [OF R(1)] R(2) by metis
  obtain w6 where 6: "read_all Os ?d w5 = (Ok input, w6)" "reading ?d input 0 w6" "mw_fs w6 = mw_fs w3"
    using reading_all [OF 5(2)] 5(3) by metis
  show ?thesis
    by (rule exI [of _ ?d], rule exI [of _ w6]) (use 6 3(3) in \<open>simp add: mmap_example_def unwrap_then_def 1(1) 2(1) S 5(1)\<close>)
qed

lemma after_the_readers:
  assumes "willing Os p" and "file_writable p (mw_fs w)" and "files (mw_fs w) p = Some c"
  shows "\<exists>w1. unwrap_then (mmap_new Os p j w) (\<lambda>d w.
      unwrap_then (read_all Os d w) (\<lambda>b3 w.
      unwrap_then (read_all Os d w) (\<lambda>b4 w.
        (Some (Ok (f b3 b4)), w\<lparr>mw_fs := snd (fs_remove_dir_all p (mw_fs w))\<rparr>)))) = (Some (Ok (f c c)), w1) \<and>
    files (mw_fs w1) p = Some c"
proof -
  let ?d = "\<lparr>mm_path = p, mm_cell = j\<rparr>"
  obtain w1 where 1: "mmap_new Os p j w = (Ok ?d, w1)" "reading ?d c 0 w1" "mw_fs w1 = mw_fs w"
    using mmap_new_reads [OF assms(1,2), of j] assms(3) by auto
  obtain w2 where 2: "read_all Os ?d w1 = (Ok c, w2)" "reading ?d c 0 w2" "mw_fs w2 = mw_fs w"
    using reading_all [OF 1(2)] 1(3) by metis
  obtain w3 where 3: "read_all Os ?d w2 = (Ok c, w3)" "mw_fs w3 = mw_fs w"
    using reading_all [OF 2(2)] 2(3) by metis
  have "snd (fs_remove_dir_all p (mw_fs w)) = mw_fs w"
    using assms(2) by (simp add: fs_remove_dir_all_def file_writable_def)
  with 1 2 3 assms(3) show ?thesis by (simp add: unwrap_then_def)
qed

text \<open>
  C35: the example that measures a mapped disk does what it means to, where it ends: no assertion fails and
  nothing panics, and every reader, those in parallel included, reads exactly what was written, although
  it was never flushed. There is an order of the steps in which it ends. With two or more readers there
  is one in which it never does: a reader that is slower to wait than the main thread is to notify waits
  for ever, unless it is woken for no reason. The file is left behind.
\<close>

theorem mmap_example_correct:
  assumes "willing Os p" and "file_writable p (mw_fs w)"
  shows "(\<forall>evs x w'. mmap_example Os p i j input cores evs w = (x, w') \<longrightarrow>
      x = None \<or> x = Some (Ok (replicate (4 + (if 1 < cores div 2 then cores div 2 else 0)) input)) \<and> files (mw_fs w') p = Some input) \<and>
    (\<exists>evs. fst (mmap_example Os p i j input cores evs w) \<noteq> None) \<and>
    (1 < cores div 2 \<longrightarrow> (\<exists>evs. \<forall>es. (\<forall>e\<in>set es. \<not> spurious e) \<longrightarrow> fst (mmap_example Os p i j input cores (evs @ es) w) = None))"
proof -
  let ?k = "cores div 2"
  from before_the_readers [OF assms] obtain d w5 where B: "reading d input 0 w5" "mm_path d = p" "file_writable p (mw_fs w5)"
    and E: "\<And>evs. mmap_example Os p i j input cores evs w =
       (case (if 1 < ?k then parallel_reads Os d ?k evs w5 else (Some (Ok []), w5)) of
          (None, w) \<Rightarrow> (None, w)
        | (Some x, w) \<Rightarrow>
            unwrap_then (x, w) (\<lambda>bs w.
            unwrap_then (mmap_new Os p j w) (\<lambda>d w.
            unwrap_then (read_all Os d w) (\<lambda>b3 w.
            unwrap_then (read_all Os d w) (\<lambda>b4 w.
              (Some (Ok (input # input # bs @ [b3, b4])), w\<lparr>mw_fs := snd (fs_remove_dir_all p (mw_fs w))\<rparr>))))))"
    by blast
  have kept: "files (mw_fs w5) p = Some input" using B(1,2) by (simp add: reading_def)
  have rest: "\<exists>w1. unwrap_then (Ok bs :: (bytes list, unit) result, v) (\<lambda>bs w.
            unwrap_then (mmap_new Os p j w) (\<lambda>d w.
            unwrap_then (read_all Os d w) (\<lambda>b3 w.
            unwrap_then (read_all Os d w) (\<lambda>b4 w.
              (Some (Ok (input # input # bs @ [b3, b4])), w\<lparr>mw_fs := snd (fs_remove_dir_all p (mw_fs w))\<rparr>))))) =
      (Some (Ok (input # input # bs @ [input, input])), w1) \<and> files (mw_fs w1) p = Some input"
    if "mw_fs v = mw_fs w5" for bs v
    using after_the_readers [OF assms(1), of v input j "\<lambda>b3 b4. input # input # bs @ [b3, b4]"] that B(3) kept
    by (simp add: unwrap_then_def)
  have two: "input # input # replicate n input @ [input, input] = replicate (4 + n) input" for n
    by (simp add: replicate_append_same [symmetric] numeral_eq_Suc)
  show ?thesis
  proof (cases "1 < ?k")
    case True
    have run: "x = None \<or> x = Some (Ok (replicate (4 + ?k) input)) \<and> files (mw_fs w') p = Some input"
      if M: "mmap_example Os p i j input cores evs w = (x, w')" for evs x w'
    proof -
      obtain y v where P: "parallel_reads Os d ?k evs w5 = (y, v)" by fastforce
      from parallel_reads_sound [OF B(1) P] rest [of v "replicate ?k input"] M [unfolded E] P True two [of ?k] show ?thesis by auto
    qed
    have "fst (mmap_example Os p i j input cores (good_schedule ?k) w) \<noteq> None"
    proof -
      obtain y v where P: "parallel_reads Os d ?k (good_schedule ?k) w5 = (y, v)" by fastforce
      with good_schedule_ends [OF B(1), of Os ?k] have "y = Some (Ok (replicate ?k input))" by simp
      with parallel_reads_sound [OF B(1) P] rest [of v "replicate ?k input"] P True E [of "good_schedule ?k"] show ?thesis by auto
    qed
    moreover have "fst (mmap_example Os p i j input cores (missed_schedule ?k @ es) w) = None" if "\<forall>e\<in>set es. \<not> spurious e" for es
    proof -
      obtain y v where P: "parallel_reads Os d ?k (missed_schedule ?k @ es) w5 = (y, v)" by fastforce
      with missed_never_ends [OF B(1) _ that, of ?k Os] True have "y = None" by simp
      with P True E show ?thesis by simp
    qed
    ultimately show ?thesis using run True by auto
  next
    case False
    with rest [of w5 "[]"] E two [of 0] show ?thesis by auto
  qed
qed

theorem mmap_example_correct_witness:
  "\<exists>evs w'. mmap_example demo_os [''f''] 0 1 [7, 8] 4 evs demo_world = (Some (Ok (replicate 6 [7, 8])), w')"
proof -
  have "willing demo_os [''f'']" "file_writable [''f''] (mw_fs demo_world)" using demo_mmap_ready(2,3) by simp_all
  note T = mmap_example_correct [OF this, of 0 1 "[7, 8]" 4]
  from T obtain evs where "fst (mmap_example demo_os [''f''] 0 1 [7, 8] 4 evs demo_world) \<noteq> None" by blast
  moreover obtain x w' where "mmap_example demo_os [''f''] 0 1 [7, 8] 4 evs demo_world = (x, w')" by fastforce
  ultimately show ?thesis using T by fastforce
qed

end
