(* ===== verification/Spec2Isabelle.thy ===== *)
theory Spec2Isabelle
  imports Array_Chunks Custom_Disks Async_Directory Mmap_Disk
    Async_Encrypted Network Adapter_Disk Adapter_Coder Async_History Async_Formats Directory_History
    Borrow_Safety Protected Cursor_Disk Shakespeare Reencode Mmap_Example
begin

text \<open>
  A model of the Rust library \<open>backed_data\<close> (\<open>src/src\<close>): values that live on a disk and are loaded into
  memory when they are used. A disk is something that opens a reader or a writer; a coder turns a value
  into bytes and back; a \<open>BackedEntry\<close> is a disk, a coder and at most one value in memory; a
  \<open>BackedArray\<close> is a list of entries that hold the chunks of one long array, with the ranges of indices
  the chunks cover; a \<open>DirectoryBackedArray\<close> keeps the chunk files and the description of the array in a
  directory. Around these stand other disks (memory mapped, encrypted, compressed, remote), the
  asynchronous twin of nearly every type, and adapters between the two worlds.

  How the code is written down. An operation is a function that takes the value it works on and the
  store, and returns its result, the value and the store afterwards. Results are \<open>('a, 'e) result\<close>
  (theory \<open>Prelude\<close>): \<open>Ok\<close>, \<open>Err\<close> and \<open>Panic\<close>, the last for every index out of bounds, failed
  subtraction, \<open>unwrap\<close> and \<open>panic!\<close> of the source. \<open>usize\<close> is \<open>nat\<close> with checked subtraction; bytes are
  \<open>8 word\<close>; levels of compression and other \<open>i32\<close> are \<open>int\<close> with their bounds. Where a length limit of
  the machine matters (sealed messages, announced sequence lengths) it is \<open>usize_max\<close>. An asynchronous
  operation is its effect once it has been awaited to completion, except where the polling itself is the
  point: the once cell, the polled readers and the encrypting writer are state machines with one step per
  poll or per hold of a lock, and in the write adapter every access of the caller and of the thread to
  what they share is a step. Code that is not in the repository (serde coders, the AES cipher, zstd, csv,
  the HTTP client, kernel memory maps, protected memory, executors) is a parameter; what the crate
  relies on is a locale over it or a named hypothesis, and every locale is interpreted on concrete
  functions.

  Theories, and the source they model.

  \<^item> \<open>Prelude\<close>: results, error kinds, bytes, checked arithmetic, lists. \<open>File_System\<close>: the part of
    \<open>std::fs\<close> and \<open>std::io\<close> the crate uses, as one store of files and directories with faulty and
    full paths, files, buffered writers.
  \<^item> \<open>Disks\<close> (\<open>entry/disks/mod.rs\<close>, \<open>plainfile.rs\<close>, \<open>unbuffered.rs\<close>, \<open>write_unbuffered.rs\<close>),
    \<open>Async_File\<close> (\<open>async_file.rs\<close> and their asynchronous implementations), \<open>Custom_Disks\<close>
    (\<open>custom.rs\<close>): \<open>ReadDisk\<close> and \<open>WriteDisk\<close> as a record of operations; the locale \<open>byte_disk\<close> is the
    contract all other theories rest on: a completed session leaves exactly the bytes written, a read
    returns them, other sites are not disturbed, nothing panics. Every file disk is an interpretation.
  \<^item> \<open>Mmap_Writer\<close>, \<open>Mmap_Disk\<close> (\<open>mmap.rs\<close>): the growing mapping with its reservation, and the state
    machine that hands out read and write guards.
  \<^item> \<open>Encrypted\<close>, \<open>Async_Encrypted\<close> (\<open>encrypted.rs\<close>), \<open>Zstd\<close> (\<open>zstd.rs\<close>), \<open>Network\<close> (\<open>network.rs\<close>).
  \<^item> \<open>Formats\<close> (\<open>entry/formats\<close>: bincode, serde_json, simd_json), \<open>Csv\<close> (\<open>csv.rs\<close>, the options of
    \<open>async_csv.rs\<close>), \<open>Async_Formats\<close> (\<open>async_csv.rs\<close>, \<open>async_bincode.rs\<close>): what a coder does with the
    pieces its library produces. The locale \<open>backing\<close> joins a disk and a coder.
  \<^item> \<open>Once_Cell\<close> (\<open>utils/once.rs\<close>), \<open>Async_Once\<close> (\<open>utils/sync.rs\<close>): the cells a value is cached in.
  \<^item> \<open>Backed_Entry\<close> (\<open>entry/mod.rs\<close>, \<open>sync_impl.rs\<close>), \<open>Async_Entry\<close> (\<open>async_impl.rs\<close>): every operation of
    an entry, its mutable handle, the conversions.
  \<^item> \<open>Container\<close> (\<open>array/container\<close>), \<open>Binary_Search\<close> and \<open>Array_Index\<close> (\<open>array/mod.rs\<close>),
    \<open>Backed_Array\<close>, \<open>Array_Iter\<close>, \<open>Array_Iter_Mut\<close>, \<open>Array_Chunks\<close> (\<open>array/sync_impl\<close>),
    \<open>Array_History\<close> (any sequence of their operations), \<open>Async_Array\<close> (\<open>array/async_impl\<close>),
    \<open>Async_History\<close> (any sequence of operations over asynchronous entries).
  \<^item> \<open>Directory_Array\<close>, \<open>Directory_History\<close> (any sequence of its operations), \<open>Async_Directory\<close>
    (\<open>directory\<close>).
  \<^item> \<open>Async_Read\<close> (polled readers and \<open>utils/async_compat_cursor.rs\<close>), \<open>Adapter_Read\<close>,
    \<open>Adapter_Write\<close>, \<open>Adapter_Disk\<close>, \<open>Adapter_Coder\<close> (\<open>entry/adapters.rs\<close>, \<open>utils/blocking.rs\<close>).
  \<^item> \<open>Extender\<close> (\<open>utils/extender.rs\<close>, \<open>utils/refs.rs\<close>), \<open>Borrow_Safety\<close> (their uses), \<open>Protected\<close>
    (\<open>utils/protected.rs\<close>): the unsafe parts. Everywhere else the model has values where the code has
    borrows; here addresses, moves and drops are explicit.
  \<^item> \<open>Cursor_Disk\<close> (\<open>test_utils.rs\<close>): the disks in memory that the tests of the crate run on.
  \<^item> \<open>Utf8_Text\<close> and \<open>Shakespeare\<close> (\<open>src/examples/shakespeare_secret.rs\<close>), \<open>Reencode\<close>
    (\<open>src/examples/large_reencode.rs\<close>): two example programs, as clients of the directory arrays.
    \<open>Mmap_Example\<close> (\<open>src/examples/mmap.rs\<close>): a client of the mapped disk with several threads.
\<close>

text \<open>
  What the lemmas show.

  \<^item> Entries. \<open>entry_abs\<close> is the logical value of an entry and \<open>synced\<close> says that memory and disk agree;
    each operation is described by what it does to both, on success and on error, and a session on a
    mutable handle refines plain updates of a value.
  \<^item> Arrays. \<open>array_represents\<close> relates an array to the list of its chunks: the keys are the prefix sums
    of the chunk lengths and the i-th entry has the i-th chunk. Lookup is walking the chunks, for every
    binary search that meets the documented contract when no chunk is empty, and with empty chunks for
    one that returns the last of equal keys (\<open>searches\<close>), which the documentation does not promise and the
    oldest supported compiler does not do; every property that reads by index states this condition. Reads, writes, removal, merging, unloading and iteration are operations on the
    list. \<open>Array_History\<close> puts them together: any history answers as the list does and never panics, on
    disks that keep the contract and under this condition. The mutable iterators keep the invariant \<open>mut_ok\<close> of opened chunks
    with reference counts, and after the last drop memory and disk agree.
  \<^item> Disks. File disks, their asynchronous twins and a compressed disk over any disk keep \<open>byte_disk\<close>;
    the mapped disk keeps its writer and mapping in step and its guards exclusive; an encrypted disk
    gives the value back to a coder that ignores trailing bytes.
  \<^item> Directories. The invariant of a directory and its files is kept by every operation, saving and
    loading are inverse, moving the root moves the chunks, and any history with reopenings in it answers
    as the list of chunks does (\<open>Directory_History\<close>).
  \<^item> Asynchrony. Loading, writing and moving entries, reading and appending to arrays, whole histories of
    arrays, and the directory operations but \<open>a_append_dir\<close> do what their synchronous twins do; the mutable
    handle of an asynchronous entry panics, and \<open>a_append_dir\<close> forgets \<open>meta.dat\<close>. The once cell is an
    \<open>inductive\<close> system of tasks, each with an initializer of its own, whose segments run in any order:
    agreement in every run, service of the waiters when nothing fails and nobody is cancelled, and the
    blocked cell after a cancellation, by induction over its runs. The write adapter is a caller and a
    thread over two channels and a waker: order of the bytes in every interleaving, completion of a flush
    whose waker was registered in time, and the ways it can fail; over a plain file a session of it is read
    back by both kinds of readers (\<open>Adapter_Disk\<close>). The stream adapter \<open>buffered\<close> of the constructor
    \<open>a_from_containers\<close> is a parameter that may not end; only the cases are stated where it runs one future
    at a time, and none.
  \<^item> Borrows. A struct that holds a child with the parent it borrows from touches no freed cell, however
    it is moved, used and dropped, if the child refers only to what the parent keeps alive wherever it
    lies (\<open>extender_memory_safe\<close>); the handles of \<open>generic_get\<close> are of this kind. Two types declared
    \<open>StableDeref\<close> are not, and one is used so that a child is left dangling (\<open>stable_deref_claims\<close>).
  \<^item> Programs. What the library promises is enough for its examples: text edited in place through an
    unsafe view stays valid UTF-8 and of its length, and the rows of a stream written by tasks that
    complete in any order are neither lost nor doubled. Threads that read a mapped disk see what was
    written without a flush in every interleaving, but the way they are started can miss a wake-up. A disk that keeps the contract can be replaced by
    a vector in memory, which the tests rely on.
  \<^item> Formats. Encoding and decoding are inverse where the library's own round trip holds, which for CSV is
    stated over configurations of the library (\<open>reads_dialect\<close>); that the two builders of a coder agree is
    proved, with the exact condition on its options. The options of the two CSV coders are converted
    without loss.

  Bounds and fuel. \<open>mut_for\<close> and \<open>generic_mut_for\<close> have one unit more than elements, one call of \<open>next\<close>
  each; \<open>dir_delete\<close> one more than chunks; \<open>read_to_end\<close> and the awaiting functions count polls, and the
  theorems say how many are enough (for the response reader the events and bytes left, for the reading
  adapter two for every byte and two more); \<open>adapter_flush_completes\<close> bounds the steps of the thread by the work queued.
  Every other recursion is structural or has a measure.

  Behaviour of the code that the development shows to be wrong, or other than documented, is stated as
  theorems too (keys lost by \<open>from_backing\<close>, chunks of \<open>from_containers\<close> overwriting each other, a search
  that may return an empty chunk, lost writes after a flush of the iterator, \<open>append_dir\<close> keeping old
  paths, a second write to a mapped disk, the tag left behind by decryption, the double flush of the
  CSV writer on an encrypted disk, errors ignored by the asynchronous CSV coder, flushes of the adapters
  that leave bytes behind or never end, among others).
\<close>

text \<open>
  Not modelled, and why.

  \<^item> The alias traits \<open>BackedEntryContainerNested...\<close>, \<open>BackedEntryRead\<close>, \<open>BackedEntryWrite\<close>, which have no
    operations of their own, and the comparisons and \<open>AsRef\<close> of the reference wrappers, which forward to
    the reference they hold. Lifetimes are not modelled: that borrows obey them outside the unsafe blocks is
    what the compiler checks.
  \<^item> \<open>Display\<close>, \<open>Debug\<close> and the construction of error reports; \<open>Serialize\<close> and \<open>Deserialize\<close> derived by
    macros, apart from the protected vector, whose \<open>visit_seq\<close> is written by hand.
  \<^item> Advice to the kernel about mappings, and the paths of \<open>mmap.rs\<close> for systems other than Linux.
  \<^item> What several threads do with one disk or one entry at the same time: entries and arrays are
    borrowed mutably or read through a cell, and the cell is what is modelled concurrently.
  \<^item> Renaming a directory onto an existing one is refused by the model of the file system, as on the
    supported systems when it is not empty.
  \<^item> Tests and their sample data, benchmarks, the examples that only measure time or download, the
    documentation modules and the rendering of media; in the three examples modelled, the download, the
    archive, progress bars and timings.
\<close>

end
